(* ===== verification/Prelude.thy ===== *)
theory Prelude
  imports Main "HOL-Library.Word" "HOL-Library.Multiset" "HOL-Library.Monad_Syntax"
    "HOL-Library.Char_ord" "HOL-Library.List_Lexorder"
begin

text \<open>
  Shared vocabulary of the development.

  The programs under \<open>src/\<close> are written in Go.  This theory fixes how the pieces of the Go language
  and of its standard library that the programs use are represented:
  \<^item> a slice is a list, a slice of bytes and a Go string are a list of bytes (\<open>char list\<close>);
  \<^item> a Go map is a partial function; where the program ranges over a map, the order is not
    determined by the language, and the definitions take the visiting order as an argument;
  \<^item> an operation that may panic (nil dereference, index out of range) returns an \<open>option\<close>, and
    \<open>None\<close> is the panic;
  \<^item> \<open>log.Fatalf\<close> (the process exits) is an error value of the component that calls it;
  \<^item> \<open>strconv.Itoa\<close> and the \<open>%d\<close> verb are \<open>itoa\<close>, the FNV-1a hash of \<open>hash/fnv\<close> is \<open>fnv32a\<close>.
  It also holds the list, option and arithmetic lemmas that several components use.
\<close>

unbundle bit_operations_syntax

section \<open>Collections of simplification rules\<close>

named_theorems go_simps \<open>unfolding rules for the small Go wrappers\<close>
named_theorems inv_intros \<open>introduction rules for component invariants\<close>

section \<open>Slices\<close>

text \<open>Reading and writing a slice element; out of range is a panic.\<close>

definition slice_get :: "'a list \<Rightarrow> nat \<Rightarrow> 'a option" where
  "slice_get xs i = (if i < length xs then Some (xs ! i) else None)"

definition slice_put :: "'a list \<Rightarrow> nat \<Rightarrow> 'a \<Rightarrow> 'a list option" where
  "slice_put xs i v = (if i < length xs then Some (xs[i := v]) else None)"

lemma slice_get_Some [simp]: "slice_get xs i = Some v \<longleftrightarrow> i < length xs \<and> v = xs ! i"
  by (auto simp: slice_get_def)

lemma slice_get_None [simp]: "slice_get xs i = None \<longleftrightarrow> length xs \<le> i"
  by (auto simp: slice_get_def)

lemma slice_put_Some [simp]: "slice_put xs i v = Some ys \<longleftrightarrow> i < length xs \<and> ys = xs[i := v]"
  by (auto simp: slice_put_def)

lemma slice_put_None [simp]: "slice_put xs i v = None \<longleftrightarrow> length xs \<le> i"
  by (auto simp: slice_put_def)

text \<open>An index of type \<open>int\<close>; a negative one is a panic too.\<close>

definition int_get :: "'a list \<Rightarrow> int \<Rightarrow> 'a option" where
  "int_get xs i = (if i < 0 then None else slice_get xs (nat i))"

definition int_put :: "'a list \<Rightarrow> int \<Rightarrow> 'a \<Rightarrow> 'a list option" where
  "int_put xs i v = (if i < 0 then None else slice_put xs (nat i) v)"

lemma int_get_of_nat [simp]: "int_get xs (int i) = slice_get xs i"
  and int_put_of_nat [simp]: "int_put xs (int i) v = slice_put xs i v"
  by (simp_all add: int_get_def int_put_def)

text \<open>The conversion \<open>uint(i)\<close> of an \<open>int\<close> in the range of 64-bit integers.\<close>

definition uint_of :: "int \<Rightarrow> nat" where
  "uint_of i = (if 0 \<le> i then nat i else nat (i + 2 ^ 64))"

lemma uint_of_nat [simp]: "uint_of (int i) = i"
  by (simp add: uint_of_def)

text \<open>A call that may also not return or panic: \<open>None\<close>, \<open>Some Panics\<close>, \<open>Some (Returns v)\<close>.\<close>

datatype 'a outcome = Returns 'a | Panics

text \<open>The order in which Go visits the keys of a map is any permutation of them.\<close>

definition visits :: "('k list \<Rightarrow> 'k list) \<Rightarrow> bool" where
  "visits visit \<longleftrightarrow> (\<forall>ks. mset (visit ks) = mset ks)"

lemma set_visits [simp]: "visits visit \<Longrightarrow> set (visit ks) = set ks"
  by (metis set_mset_mset visits_def)

lemma sort_visits: "visits visit \<Longrightarrow> sort (visit ks) = sort ks"
  by (metis mset_sort properties_for_sort sorted_sort visits_def)

section \<open>Maps of slices\<close>

text \<open>\<open>m[k] = append(m[k], v)\<close> on a Go map of slices, kept as an association list.\<close>

fun assoc_append :: "'k \<Rightarrow> 'a \<Rightarrow> ('k \<times> 'a list) list \<Rightarrow> ('k \<times> 'a list) list" where
  "assoc_append k v [] = [(k, [v])]"
| "assoc_append k v ((k', vs) # m) = (if k' = k then (k', vs @ [v]) # m else (k', vs) # assoc_append k v m)"

lemma keys_assoc_append: "map fst (assoc_append k v m) = (if k \<in> fst ` set m then map fst m else map fst m @ [k])"
  by (induction k v m rule: assoc_append.induct) auto

lemma map_of_assoc_append:
  "map_of (assoc_append k v m) k' =
     (if k' = k then Some (case map_of m k of None \<Rightarrow> [v] | Some vs \<Rightarrow> vs @ [v]) else map_of m k')"
  by (induction k v m rule: assoc_append.induct) (auto split: option.splits)

section \<open>Positions in lists\<close>

lemma sorted_filter_upt: "sorted (filter P [m..<n])"
  by (simp add: sorted_wrt_filter)

lemma filter_upt_split:
  assumes "k < n" and "P k"
  shows "filter P [0..<n] = filter P [0..<k] @ k # filter P [Suc k..<n]"
proof -
  have "[0..<n] = [0..<k] @ [k..<n]" using assms(1) by (metis le_add_same_cancel1 less_imp_le_nat
        upt_add_eq_append zero_le le_add_diff_inverse)
  also have "[k..<n] = k # [Suc k..<n]" using assms(1) by (simp add: upt_conv_Cons)
  finally show ?thesis using assms(2) by simp
qed

lemma filter_upt_nth_mono:
  assumes "i < j" and "j < length (filter P [0..<n])"
  shows "filter P [0..<n] ! i < filter P [0..<n] ! j"
  using assms by (metis distinct_filter distinct_upt sorted_filter_upt
      strict_sorted_iff sorted_wrt_nth_less)

lemma length_takeWhile_less: "\<exists>x \<in> set xs. \<not> P x \<Longrightarrow> length (takeWhile P xs) < length xs"
  by (induction xs) auto

section \<open>Reordering a list\<close>

lemma mset_map_nth: "distinct is \<Longrightarrow> set is = {..<length xs} \<Longrightarrow> mset (map ((!) xs) is) = mset xs"
proof -
  assume d: "distinct is" "set is = {..<length xs}"
  then have "mset is = mset [0..<length xs]"
    by (metis atLeast_upt distinct_upt set_eq_iff_mset_eq_distinct)
  then have "mset (map ((!) xs) is) = mset (map ((!) xs) [0..<length xs])" by (metis mset_map)
  then show ?thesis by (simp add: map_nth)
qed

lemma mset_eq_map_nth:
  assumes "mset xs = mset ys"
  obtains "is" where "distinct is" "set is = {..<length ys}" "xs = map ((!) ys) is"
proof -
  have "list_all2 (\<lambda>y i. y = ys ! i) ys [0..<length ys]" by (simp add: list_all2_conv_all_nth)
  then obtain "is" where i: "list_all2 (\<lambda>y i. y = ys ! i) xs is" "mset is = mset [0..<length ys]"
    using list_all2_reorder_left_invariance assms by metis
  have "distinct is" "set is = {..<length ys}"
    using i(2) by (metis distinct_upt mset_eq_imp_distinct_iff, metis atLeast_upt set_mset_mset)
  moreover have "xs = map ((!) ys) is" using i(1) by (auto simp: list_all2_conv_all_nth intro: nth_equalityI)
  ultimately show ?thesis using that by blast
qed

section \<open>Decimal printing\<close>

text \<open>\<open>strconv.Itoa\<close> and \<open>fmt.Sprintf("%d", n)\<close> on a non-negative \<open>int\<close>.\<close>

definition digit_char :: "nat \<Rightarrow> char" where
  "digit_char d = char_of (48 + d)"

fun itoa :: "nat \<Rightarrow> string" where
  "itoa n = (if n < 10 then [digit_char n] else itoa (n div 10) @ [digit_char (n mod 10)])"

declare itoa.simps [simp del]

lemma digit_char_inj: "a < 10 \<Longrightarrow> b < 10 \<Longrightarrow> digit_char a = digit_char b \<Longrightarrow> a = b"
  unfolding digit_char_def by (simp add: char_of_eq_iff take_bit_eq_mod)

lemma itoa_nonempty: "itoa n \<noteq> []"
  by (subst itoa.simps) simp

lemma itoa_inj: "itoa m = itoa n \<Longrightarrow> m = n"
proof (induction m arbitrary: n rule: itoa.induct)
  case (1 m)
  show ?case
  proof (cases "m < 10")
    case True
    then have m: "itoa m = [digit_char m]" by (subst itoa.simps) simp
    show ?thesis
    proof (cases "n < 10")
      case True
      with m "1.prems" \<open>m < 10\<close> show ?thesis
        by (auto simp: itoa.simps [of n] dest: digit_char_inj)
    next
      case False
      with m "1.prems" show ?thesis
        by (auto simp: itoa.simps [of n] itoa_nonempty append_eq_Cons_conv)
    qed
  next
    case False
    then have m: "itoa m = itoa (m div 10) @ [digit_char (m mod 10)]" by (subst itoa.simps) simp
    show ?thesis
    proof (cases "n < 10")
      case True
      with m "1.prems" itoa_nonempty [of "m div 10"] show ?thesis
        by (auto simp: itoa.simps [of n])
    next
      case n: False
      then have "itoa n = itoa (n div 10) @ [digit_char (n mod 10)]" by (subst itoa.simps) simp
      with m "1.prems" have "itoa (m div 10) = itoa (n div 10)"
        and "digit_char (m mod 10) = digit_char (n mod 10)" by auto
      with "1.IH" False have "m div 10 = n div 10" and "m mod 10 = n mod 10"
        by (auto intro!: digit_char_inj)
      then show ?thesis by (metis div_mult_mod_eq)
    qed
  qed
qed

lemma itoa_eq_iff [simp]: "itoa m = itoa n \<longleftrightarrow> m = n"
  using itoa_inj by blast

lemma set_itoa: "set (itoa n) \<subseteq> digit_char ` {..<10}"
proof (induction n rule: itoa.induct)
  case (1 n)
  then show ?case by (cases "n < 10") (auto simp: itoa.simps [of n])
qed

lemma itoa_digits: "c \<in> set (itoa n) \<Longrightarrow> c \<noteq> CHR ''-'' \<and> c \<noteq> CHR ''.''"
proof -
  have "digit_char d \<noteq> CHR ''-'' \<and> digit_char d \<noteq> CHR ''.''" if "d < 10" for d
  proof -
    have "d \<in> {0, 1, 2, 3, 4, 5, 6, 7, 8, 9}" using that by auto
    then show ?thesis by (auto simp: digit_char_def char_of_eq_iff)
  qed
  moreover assume "c \<in> set (itoa n)"
  then obtain d where "d < 10" "c = digit_char d" using set_itoa [of n] by auto
  ultimately show ?thesis by simp
qed

section \<open>FNV-1a hashing\<close>

text \<open>\<open>hash/fnv.New32a\<close>: offset basis 2166136261, prime 16777619, 32-bit wrap-around.\<close>

definition fnv32a_step :: "32 word \<Rightarrow> char \<Rightarrow> 32 word" where
  "fnv32a_step h c = (h XOR of_nat (of_char c)) * 16777619"

definition fnv32a :: "string \<Rightarrow> 32 word" where
  "fnv32a s = foldl fnv32a_step 2166136261 s"

end
