(* ===== verification/Bitset.thy ===== *)
theory Bitset
  imports Prelude
begin

text \<open>
  The bit sets of the linearizability checker (\<open>porcupine/bitset.go\<close>): a slice of 64-bit words,
  bit \<open>p\<close> of the set in word \<open>p div 64\<close>.  The operations are translated on \<open>64 word list\<close>;
  \<open>bits_of\<close> is the set a bit set stands for, and the interpretation at the end says that the
  operations implement a set of naturals below a capacity.
\<close>

section \<open>Operations\<close>

type_synonym bitset = "64 word list"

definition newBitset :: "nat \<Rightarrow> bitset" where
  "newBitset bits =
     (let extra = (if bits mod 64 \<noteq> 0 then 1 else 0);
          chunks = bits div 64 + extra
      in replicate chunks 0)"

definition bitset_clone :: "bitset \<Rightarrow> bitset" where
  "bitset_clone b = (let dataCopy = replicate (length b) 0
                     in take (length dataCopy) b @ drop (length b) dataCopy)"

definition bitsetIndex :: "nat \<Rightarrow> nat \<times> nat" where
  "bitsetIndex pos = (pos div 64, pos mod 64)"

definition bitset_set :: "bitset \<Rightarrow> nat \<Rightarrow> bitset option" where
  "bitset_set b pos =
     (let (major, minor) = bitsetIndex pos in
      do { v \<leftarrow> slice_get b major;
           slice_put b major (v OR push_bit minor 1) })"

definition bitset_clear :: "bitset \<Rightarrow> nat \<Rightarrow> bitset option" where
  "bitset_clear b pos =
     (let (major, minor) = bitsetIndex pos in
      do { v \<leftarrow> slice_get b major;
           slice_put b major (v AND NOT (push_bit minor 1)) })"

definition bitset_get :: "bitset \<Rightarrow> nat \<Rightarrow> bool option" where
  "bitset_get b pos =
     (let (major, minor) = bitsetIndex pos in
      do { v \<leftarrow> slice_get b major;
           Some (v AND push_bit minor 1 \<noteq> 0) })"

definition onesCount64 :: "64 word \<Rightarrow> nat" where
  "onesCount64 w = length (filter (bit w) [0..<64])"

fun popcnt_loop :: "nat \<Rightarrow> 64 word list \<Rightarrow> nat" where
  "popcnt_loop acc [] = acc"
| "popcnt_loop acc (v # vs) = popcnt_loop (acc + onesCount64 v) vs"

definition bitset_popcnt :: "bitset \<Rightarrow> nat" where
  "bitset_popcnt b = popcnt_loop 0 b"

fun hash_loop :: "64 word \<Rightarrow> 64 word list \<Rightarrow> 64 word" where
  "hash_loop hash [] = hash"
| "hash_loop hash (v # vs) = hash_loop (hash XOR v) vs"

definition bitset_hash :: "bitset \<Rightarrow> 64 word" where
  "bitset_hash b = hash_loop (of_nat (bitset_popcnt b)) b"

fun equals_loop :: "nat list \<Rightarrow> bitset \<Rightarrow> bitset \<Rightarrow> bool" where
  "equals_loop [] b b2 = True"
| "equals_loop (i # is) b b2 = (if b ! i \<noteq> b2 ! i then False else equals_loop is b b2)"

definition bitset_equals :: "bitset \<Rightarrow> bitset \<Rightarrow> bool" where
  "bitset_equals b b2 =
     (if length b \<noteq> length b2 then False else equals_loop [0..<length b] b b2)"

section \<open>The set a bit set stands for\<close>

definition bits_of :: "bitset \<Rightarrow> nat set" where
  "bits_of b = {p. p < 64 * length b \<and> bit (b ! (p div 64)) (p mod 64)}"

lemma div64_less: "p < 64 * n \<longleftrightarrow> p div 64 < (n::nat)"
  by (auto simp: less_mult_imp_div_less mult.commute div_less_iff_less_mult)

lemma bits_ofI: "p < 64 * length b \<Longrightarrow> bit (b ! (p div 64)) (p mod 64) \<Longrightarrow> p \<in> bits_of b"
  by (simp add: bits_of_def)

lemma finite_bits_of [simp]: "finite (bits_of b)"
  by (rule finite_subset [of _ "{..<64 * length b}"]) (auto simp: bits_of_def)

lemma bits_of_newBitset [simp]: "bits_of (newBitset n) = {}"
  by (auto simp: bits_of_def newBitset_def Let_def div64_less)

lemma length_newBitset_ge: "n \<le> 64 * length (newBitset n)"
  by (simp add: newBitset_def Let_def) arith

lemma clone_id [simp]: "bitset_clone b = b"
  by (simp add: bitset_clone_def Let_def)

lemma bitset_set_eq:
  assumes "p < 64 * length b"
  shows "bitset_set b p = Some (b[p div 64 := b ! (p div 64) OR push_bit (p mod 64) 1])"
  using assms by (simp add: bitset_set_def bitsetIndex_def slice_get_def slice_put_def div64_less)

lemma bitset_clear_eq:
  assumes "p < 64 * length b"
  shows "bitset_clear b p = Some (b[p div 64 := b ! (p div 64) AND NOT (push_bit (p mod 64) 1)])"
  using assms by (simp add: bitset_clear_def bitsetIndex_def slice_get_def slice_put_def div64_less)

lemma bitset_set_None: "bitset_set b p = None \<longleftrightarrow> 64 * length b \<le> p"
  using div64_less [of p "length b"]
  by (auto simp: bitset_set_def bitsetIndex_def slice_get_def slice_put_def not_less)

lemma bit_push1: "bit (2 ^ m :: 64 word) k \<longleftrightarrow> k = m \<and> m < 64"
  by (auto simp: bit_exp_iff)

lemma bits_of_set:
  assumes "bitset_set b p = Some b'"
  shows "bits_of b' = insert p (bits_of b) \<and> length b' = length b"
proof -
  from assms have p: "p < 64 * length b"
    using bitset_set_None [of b p] by (metis not_le option.distinct(1))
  with assms have b': "b' = b[p div 64 := b ! (p div 64) OR push_bit (p mod 64) 1]"
    by (simp add: bitset_set_eq)
  have "q \<in> bits_of b' \<longleftrightarrow> q \<in> insert p (bits_of b)" for q
  proof (cases "q < 64 * length b")
    case True
    then have "q div 64 < length b" by (simp add: div64_less)
    then show ?thesis using p True
      by (auto simp: bits_of_def b' nth_list_update bit_or_iff bit_push1)
         (metis div_mult_mod_eq)+
  next
    case False
    then show ?thesis using p by (auto simp: bits_of_def b')
  qed
  then show ?thesis by (auto simp: b')
qed

lemma bits_of_clear:
  assumes "bitset_clear b p = Some b'"
  shows "bits_of b' = bits_of b - {p} \<and> length b' = length b"
proof -
  have p: "p < 64 * length b"
  proof (rule ccontr)
    assume "\<not> p < 64 * length b"
    with assms show False
      by (auto simp: bitset_clear_def bitsetIndex_def slice_get_def div64_less)
  qed
  with assms have b': "b' = b[p div 64 := b ! (p div 64) AND NOT (push_bit (p mod 64) 1)]"
    by (simp add: bitset_clear_eq)
  have "q \<in> bits_of b' \<longleftrightarrow> q \<in> bits_of b - {p}" for q
  proof (cases "q < 64 * length b")
    case True
    then have "q div 64 < length b" by (simp add: div64_less)
    then show ?thesis using p True
      by (auto simp: bits_of_def b' nth_list_update bit_and_iff bit_not_iff bit_push1)
         (metis div_mult_mod_eq)
  next
    case False
    then show ?thesis by (auto simp: bits_of_def b')
  qed
  then show ?thesis by (auto simp: b')
qed

lemma bits_of_get:
  assumes "p < 64 * length b"
  shows "bitset_get b p = Some (p \<in> bits_of b)"
proof -
  have "b ! (p div 64) AND 2 ^ (p mod 64) \<noteq> 0 \<longleftrightarrow> bit (b ! (p div 64)) (p mod 64)"
    by (simp add: and_exp_eq_0_iff_not_bit)
  with assms show ?thesis
    by (simp add: bitset_get_def bitsetIndex_def slice_get_def div64_less bits_of_def)
qed

section \<open>Equality, cardinality and hash\<close>

lemma equals_loop_iff: "equals_loop is b b2 \<longleftrightarrow> (\<forall>i \<in> set is. b ! i = b2 ! i)"
  by (induction "is") auto

lemma equals_iff [simp]: "bitset_equals b b2 \<longleftrightarrow> b = b2"
proof -
  have "bitset_equals b b2 \<longleftrightarrow> length b = length b2 \<and> (\<forall>i<length b. b ! i = b2 ! i)"
    by (simp add: bitset_equals_def equals_loop_iff atLeast0LessThan lessThan_def)
  then show ?thesis by (simp only: list_eq_iff_nth_eq [of b b2])
qed

lemma bits_of_inject:
  assumes "length b = length b2"
  shows "bits_of b = bits_of b2 \<longleftrightarrow> b = b2"
proof
  assume eq: "bits_of b = bits_of b2"
  have bit_iff: "64 * i + n \<in> bits_of c \<longleftrightarrow> bit (c ! i) n" if "i < length c" "n < 64" for i n c
  proof -
    have "64 * i + n < 64 * length c" using that by simp
    then show ?thesis using that by (simp add: bits_of_def)
  qed
  have "b ! i = b2 ! i" if i: "i < length b" for i
  proof (rule bit_word_eqI)
    fix n assume "n < LENGTH(64)"
    then have n: "n < 64" by simp
    show "bit (b ! i) n = bit (b2 ! i) n"
      using bit_iff [OF i n] bit_iff [of i b2 n] i n eq assms by simp
  qed
  with assms show "b = b2" by (simp add: list_eq_iff_nth_eq)
qed simp

lemma popcnt_loop_eq: "popcnt_loop acc b = acc + sum_list (map onesCount64 b)"
  by (induction acc b rule: popcnt_loop.induct) auto

lemma onesCount64_card: "onesCount64 w = card {n. n < 64 \<and> bit w n}"
proof -
  have "onesCount64 w = card (set (filter (bit w) [0..<64]))"
    unfolding onesCount64_def by (rule distinct_card [symmetric]) simp
  also have "set (filter (bit w) [0..<64]) = {n. n < 64 \<and> bit w n}" by auto
  finally show ?thesis .
qed

lemma bits_of_snoc:
  "bits_of (b @ [w]) = bits_of b \<union> (\<lambda>n. 64 * length b + n) ` {n. n < 64 \<and> bit w n}"
proof -
  have "p \<in> bits_of (b @ [w]) \<longleftrightarrow>
        p \<in> bits_of b \<or> p \<in> (\<lambda>n. 64 * length b + n) ` {n. n < 64 \<and> bit w n}" for p
  proof (cases "p < 64 * length b")
    case True
    then show ?thesis by (auto simp: bits_of_def nth_append div64_less)
  next
    case False
    then obtain n where p: "p = 64 * length b + n" by (metis le_Suc_ex not_less)
    then show ?thesis by (auto simp: bits_of_def nth_append image_iff)
  qed
  then show ?thesis by blast
qed

lemma popcnt_card: "bitset_popcnt b = card (bits_of b)"
proof (induction b rule: rev_induct)
  case Nil
  then show ?case by (simp add: bitset_popcnt_def bits_of_def)
next
  case (snoc w b)
  have "bits_of b \<inter> (\<lambda>n. 64 * length b + n) ` {n. n < 64 \<and> bit w n} = {}"
    by (auto simp: bits_of_def)
  then have "card (bits_of (b @ [w])) = card (bits_of b) + onesCount64 w"
    by (simp add: bits_of_snoc card_Un_disjoint card_image onesCount64_card)
  with snoc show ?case by (simp add: bitset_popcnt_def popcnt_loop_eq)
qed

lemma bitset_panics:
  assumes "64 * length b \<le> p"
  shows "bitset_set b p = None" "bitset_clear b p = None" "bitset_get b p = None"
  using assms div64_less [of p "length b"]
  by (simp_all add: bitset_set_def bitset_clear_def bitset_get_def bitsetIndex_def slice_get_def)

lemma equals_bits_of: "bitset_equals b c \<longleftrightarrow> length c = length b \<and> bits_of c = bits_of b"
  using bits_of_inject [of c b] by auto

text \<open>Bit \<open>n\<close> of the hash is bit \<open>n\<close> of the cardinality, flipped once for every element that sits at
  place \<open>n\<close> of its word.\<close>

lemma hash_loop_snoc: "hash_loop h (b @ [w]) = hash_loop h b XOR w"
  by (induction h b rule: hash_loop.induct) simp_all

lemma hash_loop_bit:
  assumes "n < 64"
  shows "bit (hash_loop h b) n \<longleftrightarrow> bit h n \<noteq> odd (card {q \<in> bits_of b. q mod 64 = n})"
proof (induction b rule: rev_induct)
  case Nil
  then show ?case by (simp add: bits_of_def)
next
  case (snoc w b)
  let ?S = "\<lambda>c. {q \<in> bits_of c. q mod 64 = n}" and ?q = "64 * length b + n"
  have "?S (b @ [w]) = (if bit w n then insert ?q (?S b) else ?S b)"
    using assms by (auto simp: bits_of_snoc)
  moreover have "?q \<notin> ?S b" and "finite (?S b)"
    by (simp add: bits_of_def) (rule finite_subset [OF _ finite_bits_of [of b]], blast)
  ultimately have "odd (card (?S (b @ [w]))) \<longleftrightarrow> odd (card (?S b)) \<noteq> bit w n"
    by simp
  with snoc show ?case
    by (auto simp: hash_loop_snoc bit_xor_iff)
qed

lemma bitset_hash_bit:
  assumes "n < 64"
  shows "bit (bitset_hash b) n \<longleftrightarrow> bit (card (bits_of b)) n \<noteq> odd (card {q \<in> bits_of b. q mod 64 = n})"
  using assms by (simp add: bitset_hash_def hash_loop_bit popcnt_card bit_of_nat_iff)

section \<open>The interface the checker relies on\<close>

locale bounded_set =
  fixes mk :: "nat \<Rightarrow> 'b"
    and ins :: "'b \<Rightarrow> nat \<Rightarrow> 'b option"
    and del :: "'b \<Rightarrow> nat \<Rightarrow> 'b option"
    and mem :: "'b \<Rightarrow> nat \<Rightarrow> bool option"
    and eq :: "'b \<Rightarrow> 'b \<Rightarrow> bool"
    and hsh :: "'b \<Rightarrow> 64 word"
    and elems :: "'b \<Rightarrow> nat set"
    and cap :: "'b \<Rightarrow> nat"
  assumes mk_elems: "elems (mk n) = {}"
    and mk_cap: "n \<le> cap (mk n)"
    and ins_defined: "p < cap b \<Longrightarrow> ins b p \<noteq> None"
    and ins_elems: "ins b p = Some b' \<Longrightarrow> elems b' = insert p (elems b) \<and> cap b' = cap b"
    and del_defined: "p < cap b \<Longrightarrow> del b p \<noteq> None"
    and del_elems: "del b p = Some b' \<Longrightarrow> elems b' = elems b - {p} \<and> cap b' = cap b"
    and mem_elems: "p < cap b \<Longrightarrow> mem b p = Some (p \<in> elems b)"
    and eq_elems: "cap b = cap b' \<Longrightarrow> eq b b' \<longleftrightarrow> elems b = elems b'"
    and eq_cap: "eq b b' \<Longrightarrow> cap b = cap b'"
    and hsh_eq: "eq b b' \<Longrightarrow> hsh b = hsh b'"
begin

lemma ins_del:
  assumes "p < cap b" and "p \<notin> elems b"
  shows "\<exists>b1 b2. ins b p = Some b1 \<and> del b1 p = Some b2 \<and> eq b2 b"
proof -
  obtain b1 where b1: "ins b p = Some b1" using ins_defined [OF assms(1)] by auto
  then have e1: "elems b1 = insert p (elems b)" "cap b1 = cap b" by (simp_all add: ins_elems)
  with assms(1) obtain b2 where b2: "del b1 p = Some b2" using del_defined [of p b1] by auto
  then have "elems b2 = elems b" "cap b2 = cap b" using e1 assms(2) del_elems by auto
  then have "eq b2 b" by (simp add: eq_elems)
  with b1 b2 show ?thesis by blast
qed

lemma ins_mem:
  assumes "ins b p = Some b'" and "q < cap b"
  shows "mem b' q = Some (q = p \<or> q \<in> elems b)"
  using assms ins_elems [OF assms(1)] by (simp add: mem_elems)

end

interpretation bs: bounded_set newBitset bitset_set bitset_clear bitset_get bitset_equals bitset_hash
  bits_of "\<lambda>b. 64 * length b"
proof unfold_locales
  fix p and b :: bitset assume "p < 64 * length b"
  then show "bitset_set b p \<noteq> None" and "bitset_clear b p \<noteq> None"
    by (simp_all add: bitset_set_eq bitset_clear_eq)
qed (auto simp: length_newBitset_ge bits_of_get bits_of_inject dest: bits_of_set bits_of_clear)

end
