(* ===== verification/Histories.thy ===== *)
theory Histories
  imports Prelude
begin

text \<open>
  Histories and models of the linearizability checker (\<open>porcupine/model.go\<close> and the conversion
  functions of \<open>porcupine/checker.go\<close>), and the specification the checker is measured against.

  A value of Go type \<open>interface{}\<close> is an element of the type variable \<open>'v\<close>, a state of the
  sequential model an element of \<open>'s\<close>.  A function field of \<open>Model\<close> that may be \<open>nil\<close> is an
  option.  A history is \<^emph>\<open>linearizable\<close> when its operations can be put in an order that keeps the
  real-time order and that the sequential model accepts.
\<close>

section \<open>Data\<close>

record 'v Operation =
  ClientId :: int
  Input :: 'v
  Call :: int
  Output :: 'v
  Return :: int

datatype EventKind = CallEvent | ReturnEvent

record 'v Event =
  ev_ClientId :: int
  ev_Kind :: EventKind
  ev_Value :: 'v
  ev_Id :: int

record ('v, 's) Model =
  Partition :: "('v Operation list \<Rightarrow> 'v Operation list list) option"
  PartitionEvent :: "('v Event list \<Rightarrow> 'v Event list list) option"
  Init :: "unit \<Rightarrow> 's"
  Step :: "'s \<Rightarrow> 'v \<Rightarrow> 'v \<Rightarrow> bool \<times> 's"
  Equal :: "('s \<Rightarrow> 's \<Rightarrow> bool) option"
  DescribeOperation :: "('v \<Rightarrow> 'v \<Rightarrow> string) option"
  DescribeState :: "('s \<Rightarrow> string) option"

datatype CheckResult = Unknown | Ok | Illegal

datatype entryKind = callEntry | returnEntry

record 'v entry =
  e_kind :: entryKind
  e_value :: 'v
  e_id :: int
  e_time :: int
  e_clientId :: int

definition NoPartition :: "'v Operation list \<Rightarrow> 'v Operation list list" where
  "NoPartition history = [history]"

definition NoPartitionEvent :: "'v Event list \<Rightarrow> 'v Event list list" where
  "NoPartitionEvent history = [history]"

definition ShallowEqual :: "'s \<Rightarrow> 's \<Rightarrow> bool" where
  "ShallowEqual state1 state2 \<longleftrightarrow> state1 = state2"

text \<open>The \<open>%v\<close> verb on an arbitrary value is an argument of the two default printers.\<close>

definition DefaultDescribeOperation :: "('v \<Rightarrow> string) \<Rightarrow> 'v \<Rightarrow> 'v \<Rightarrow> string" where
  "DefaultDescribeOperation fmt_v inp out = fmt_v inp @ '' -> '' @ fmt_v out"

definition DefaultDescribeState :: "('s \<Rightarrow> string) \<Rightarrow> 's \<Rightarrow> string" where
  "DefaultDescribeState fmt_v state = fmt_v state"

definition fillDefault ::
  "('v \<Rightarrow> string) \<Rightarrow> ('s \<Rightarrow> string) \<Rightarrow> ('v, 's) Model \<Rightarrow> ('v, 's) Model" where
  "fillDefault fmt_v fmt_s model =
     (let model = (if Partition model = None then model\<lparr>Partition := Some NoPartition\<rparr> else model);
          model = (if PartitionEvent model = None
                   then model\<lparr>PartitionEvent := Some NoPartitionEvent\<rparr> else model);
          model = (if Equal model = None then model\<lparr>Equal := Some ShallowEqual\<rparr> else model);
          model = (if DescribeOperation model = None
                   then model\<lparr>DescribeOperation := Some (DefaultDescribeOperation fmt_v)\<rparr> else model);
          model = (if DescribeState model = None
                   then model\<lparr>DescribeState := Some (DefaultDescribeState fmt_s)\<rparr> else model)
      in model)"

section \<open>From operations and events to entries\<close>

text \<open>The comparison that \<open>sort.Sort(byTime(entries))\<close> uses: earlier first, calls before returns.\<close>

definition byTime_Less :: "'v entry \<Rightarrow> 'v entry \<Rightarrow> bool" where
  "byTime_Less a b =
     (if e_time a \<noteq> e_time b then e_time a < e_time b
      else e_kind a = callEntry \<and> e_kind b = returnEntry)"

fun makeEntries_loop :: "int \<Rightarrow> 'v Operation list \<Rightarrow> 'v entry list \<Rightarrow> 'v entry list" where
  "makeEntries_loop i [] entries = entries"
| "makeEntries_loop i (elem # elems) entries =
     (let entries = entries @ [\<lparr>e_kind = callEntry, e_value = Input elem, e_id = i,
                                e_time = Call elem, e_clientId = ClientId elem\<rparr>];
          entries = entries @ [\<lparr>e_kind = returnEntry, e_value = Output elem, e_id = i,
                                e_time = Return elem, e_clientId = ClientId elem\<rparr>]
      in makeEntries_loop (i + 1) elems entries)"

text \<open>
  The order \<open>sort.Sort\<close> gives to entries that neither precede the other is not specified; the
  sorting routine is an argument, and \<open>sorts_by_time\<close> states what the \<open>sort\<close> package promises.
\<close>

definition makeEntries :: "('v entry list \<Rightarrow> 'v entry list) \<Rightarrow> 'v Operation list \<Rightarrow> 'v entry list" where
  "makeEntries srt history = srt (makeEntries_loop 0 history [])"

definition sorts_by_time :: "('v entry list \<Rightarrow> 'v entry list) \<Rightarrow> bool" where
  "sorts_by_time srt \<longleftrightarrow>
     (\<forall>xs. mset (srt xs) = mset xs \<and> sorted_wrt (\<lambda>a b. \<not> byTime_Less b a) (srt xs))"

fun renumber_loop :: "(int \<rightharpoonup> int) \<Rightarrow> int \<Rightarrow> 'v Event list \<Rightarrow> 'v Event list \<Rightarrow> 'v Event list" where
  "renumber_loop m i e [] = e"
| "renumber_loop m i e (v # vs) =
     (case m (ev_Id v) of
        Some r \<Rightarrow> renumber_loop m i
                    (e @ [\<lparr>ev_ClientId = ev_ClientId v, ev_Kind = ev_Kind v, ev_Value = ev_Value v,
                           ev_Id = r\<rparr>]) vs
      | None \<Rightarrow> renumber_loop (m(ev_Id v \<mapsto> i)) (i + 1)
                    (e @ [\<lparr>ev_ClientId = ev_ClientId v, ev_Kind = ev_Kind v, ev_Value = ev_Value v,
                           ev_Id = i\<rparr>]) vs)"

definition renumber :: "'v Event list \<Rightarrow> 'v Event list" where
  "renumber events = renumber_loop Map.empty 0 [] events"

fun convertEntries_loop :: "int \<Rightarrow> 'v Event list \<Rightarrow> 'v entry list \<Rightarrow> 'v entry list" where
  "convertEntries_loop i [] entries = entries"
| "convertEntries_loop i (elem # elems) entries =
     (let kind = (if ev_Kind elem = ReturnEvent then returnEntry else callEntry)
      in convertEntries_loop (i + 1) elems
           (entries @ [\<lparr>e_kind = kind, e_value = ev_Value elem, e_id = ev_Id elem, e_time = i,
                        e_clientId = ev_ClientId elem\<rparr>]))"

definition convertEntries :: "'v Event list \<Rightarrow> 'v entry list" where
  "convertEntries events = convertEntries_loop 0 events []"

section \<open>Well-formed entry lists\<close>

text \<open>Position of the call and of the return of operation \<open>i\<close>, and the number of operations.\<close>

definition n_ops :: "'v entry list \<Rightarrow> nat" where
  "n_ops es = length es div 2"

definition entry_pos :: "entryKind \<Rightarrow> 'v entry list \<Rightarrow> nat \<Rightarrow> nat" where
  "entry_pos k es i = length (takeWhile (\<lambda>e. \<not> (e_kind e = k \<and> e_id e = int i)) es)"

abbreviation callPos :: "'v entry list \<Rightarrow> nat \<Rightarrow> nat" where
  "callPos \<equiv> entry_pos callEntry"

abbreviation retPos :: "'v entry list \<Rightarrow> nat \<Rightarrow> nat" where
  "retPos \<equiv> entry_pos returnEntry"

definition wf_history :: "'v entry list \<Rightarrow> bool" where
  "wf_history es \<longleftrightarrow>
     length es = 2 * n_ops es \<and>
     distinct (map (\<lambda>e. (e_kind e, e_id e)) es) \<and>
     (\<forall>e \<in> set es. 0 \<le> e_id e \<and> e_id e < int (n_ops es)) \<and>
     (\<forall>i < n_ops es. callPos es i < retPos es i)"

definition op_at :: "'v entry list \<Rightarrow> nat \<Rightarrow> nat" where
  "op_at es p = nat (e_id (es ! p))"

definition is_call :: "'v entry list \<Rightarrow> nat \<Rightarrow> bool" where
  "is_call es p \<longleftrightarrow> e_kind (es ! p) = callEntry"

lemma entryKind_UNIV: "UNIV = {callEntry, returnEntry}"
  using entryKind.exhaust by auto

lemma wf_keys:
  assumes "wf_history es"
  shows "(\<lambda>e. (e_kind e, e_id e)) ` set es = UNIV \<times> {0..<int (n_ops es)}"
proof (rule card_subset_eq)
  let ?f = "\<lambda>e. (e_kind e, e_id e)"
  show "finite (UNIV \<times> {0..<int (n_ops es)} :: (entryKind \<times> int) set)"
    by (simp add: entryKind_UNIV)
  show "?f ` set es \<subseteq> UNIV \<times> {0..<int (n_ops es)}"
    using assms by (auto simp: wf_history_def)
  have "card (?f ` set es) = length es"
    using assms distinct_card [of "map ?f es"] by (simp add: wf_history_def)
  also have "\<dots> = card (UNIV \<times> {0..<int (n_ops es)} :: (entryKind \<times> int) set)"
    using assms by (simp add: wf_history_def card_cartesian_product entryKind_UNIV)
  finally show "card (?f ` set es) = card (UNIV \<times> {0..<int (n_ops es)} :: (entryKind \<times> int) set)" .
qed

lemma entry_pos_props:
  assumes wf: "wf_history es" and i: "i < n_ops es"
  shows "entry_pos k es i < length es" "e_kind (es ! entry_pos k es i) = k"
    "e_id (es ! entry_pos k es i) = int i"
proof -
  let ?P = "\<lambda>e. \<not> (e_kind e = k \<and> e_id e = int i)"
  have "(k, int i) \<in> (\<lambda>e. (e_kind e, e_id e)) ` set es"
    unfolding wf_keys [OF wf] using i by simp
  then have "\<exists>e \<in> set es. \<not> ?P e" by auto
  then have l: "length (takeWhile ?P es) < length es" by (rule length_takeWhile_less)
  then show "entry_pos k es i < length es" by (simp add: entry_pos_def)
  from l have "\<not> ?P (es ! length (takeWhile ?P es))" by (rule nth_length_takeWhile)
  then show "e_kind (es ! entry_pos k es i) = k" "e_id (es ! entry_pos k es i) = int i"
    by (simp_all add: entry_pos_def)
qed

lemma entry_pos_unique:
  assumes wf: "wf_history es" and p: "p < length es"
  shows "op_at es p < n_ops es" and "p = entry_pos (e_kind (es ! p)) es (op_at es p)"
    and "e_id (es ! p) = int (op_at es p)"
proof -
  from wf p have b: "0 \<le> e_id (es ! p)" "e_id (es ! p) < int (n_ops es)"
    by (auto simp: wf_history_def)
  then show o: "op_at es p < n_ops es" and e: "e_id (es ! p) = int (op_at es p)"
    by (simp_all add: op_at_def)
  let ?q = "entry_pos (e_kind (es ! p)) es (op_at es p)"
  from entry_pos_props [OF wf o, of "e_kind (es ! p)"] have q: "?q < length es"
    "e_kind (es ! ?q) = e_kind (es ! p)" "e_id (es ! ?q) = e_id (es ! p)" by (auto simp: e)
  from wf have "distinct (map (\<lambda>e. (e_kind e, e_id e)) es)" by (simp add: wf_history_def)
  then have "map (\<lambda>e. (e_kind e, e_id e)) es ! p = map (\<lambda>e. (e_kind e, e_id e)) es ! ?q \<longleftrightarrow> p = ?q"
    using p q(1) by (intro nth_eq_iff_index_eq) auto
  then show "p = ?q" using p q by simp
qed

lemma callPos_unique: "wf_history es \<Longrightarrow> p < length es \<Longrightarrow> is_call es p \<Longrightarrow> p = callPos es (op_at es p)"
  using entry_pos_unique(2) by (fastforce simp: is_call_def)

lemma retPos_unique:
  "wf_history es \<Longrightarrow> p < length es \<Longrightarrow> \<not> is_call es p \<Longrightarrow> p = retPos es (op_at es p)"
  using entry_pos_unique(2) [of es p] by (cases "e_kind (es ! p)") (auto simp: is_call_def)

lemma op_at_pos [simp]: "wf_history es \<Longrightarrow> i < n_ops es \<Longrightarrow> op_at es (entry_pos k es i) = i"
  by (simp add: op_at_def entry_pos_props)

lemma is_call_pos [simp]: "wf_history es \<Longrightarrow> i < n_ops es \<Longrightarrow> is_call es (callPos es i)"
  and not_call_pos [simp]: "wf_history es \<Longrightarrow> i < n_ops es \<Longrightarrow> \<not> is_call es (retPos es i)"
  by (simp_all add: is_call_def entry_pos_props)

lemma callPos_less_retPos: "wf_history es \<Longrightarrow> i < n_ops es \<Longrightarrow> callPos es i < retPos es i"
  by (simp add: wf_history_def)

end
