(* ===== verification/Linked_Entries.thy ===== *)
theory Linked_Entries
  imports Histories
begin

text \<open>
  The doubly linked list of the checker (\<open>porcupine/checker.go\<close>: \<open>node\<close>, \<open>insertBefore\<close>,
  \<open>length\<close>, \<open>makeLinkedEntries\<close>, \<open>lift\<close>, \<open>unlift\<close>) on an explicit store: a node is a cell
  of a list, a pointer is its index, \<open>nil\<close> is \<open>None\<close>.  Pointer updates are kept as the program
  makes them; a nil dereference is the value \<open>None\<close>.  \<open>dll h xs\<close> says that the cells \<open>xs\<close> form a
  linked list in the store \<open>h\<close>.
\<close>

section \<open>Store and operations\<close>

record 'v node =
  n_value :: "'v option"
  n_match :: "nat option"
  n_id :: int
  n_next :: "nat option"
  n_prev :: "nat option"

type_synonym 'v heap = "'v node list"

definition set_next :: "'v heap \<Rightarrow> nat \<Rightarrow> nat option \<Rightarrow> 'v heap" where
  "set_next h a x = h[a := (h ! a)\<lparr>n_next := x\<rparr>]"

definition set_prev :: "'v heap \<Rightarrow> nat \<Rightarrow> nat option \<Rightarrow> 'v heap" where
  "set_prev h a x = h[a := (h ! a)\<lparr>n_prev := x\<rparr>]"

definition insertBefore :: "'v heap \<Rightarrow> nat \<Rightarrow> nat option \<Rightarrow> 'v heap" where
  "insertBefore h n mark =
     (case mark of
        None \<Rightarrow> h
      | Some mk \<Rightarrow>
          let beforeMark = n_prev (h ! mk);
              h = set_prev h mk (Some n);
              h = set_next h n (Some mk)
          in (case beforeMark of
                None \<Rightarrow> h
              | Some bm \<Rightarrow> set_next (set_prev h n (Some bm)) bm (Some n)))"

partial_function (option) list_length :: "'v heap \<Rightarrow> nat option \<Rightarrow> nat \<Rightarrow> nat option" where
  "list_length h n l =
     (case n of None \<Rightarrow> Some l | Some a \<Rightarrow> list_length h (n_next (h ! a)) (l + 1))"

declare list_length.simps [code]

fun makeLinkedEntries_loop ::
  "'v heap \<Rightarrow> nat option \<Rightarrow> (int \<rightharpoonup> nat) \<Rightarrow> 'v entry list \<Rightarrow> 'v heap \<times> nat option" where
  "makeLinkedEntries_loop h root match [] = (h, root)"
| "makeLinkedEntries_loop h root match (elem # elems) =
     (if e_kind elem = returnEntry then
        let entry = length h;
            h = h @ [\<lparr>n_value = Some (e_value elem), n_match = None, n_id = e_id elem,
                      n_next = None, n_prev = None\<rparr>];
            match = match(e_id elem \<mapsto> entry);
            h = insertBefore h entry root
        in makeLinkedEntries_loop h (Some entry) match elems
      else
        let entry = length h;
            h = h @ [\<lparr>n_value = Some (e_value elem), n_match = match (e_id elem), n_id = e_id elem,
                      n_next = None, n_prev = None\<rparr>];
            h = insertBefore h entry root
        in makeLinkedEntries_loop h (Some entry) match elems)"

text \<open>The loop of the source runs over the entries from the last to the first.\<close>

definition makeLinkedEntries :: "'v entry list \<Rightarrow> 'v heap \<times> nat option" where
  "makeLinkedEntries entries = makeLinkedEntries_loop [] None Map.empty (rev entries)"

definition lift :: "'v heap \<Rightarrow> nat \<Rightarrow> 'v heap option" where
  "lift h entry = do {
     p \<leftarrow> n_prev (h ! entry);
     let h = set_next h p (n_next (h ! entry));
     nx \<leftarrow> n_next (h ! entry);
     let h = set_prev h nx (n_prev (h ! entry));
     match \<leftarrow> n_match (h ! entry);
     mp \<leftarrow> n_prev (h ! match);
     let h = set_next h mp (n_next (h ! match));
     (case n_next (h ! match) of
        None \<Rightarrow> Some h
      | Some mn \<Rightarrow> Some (set_prev h mn (n_prev (h ! match)))) }"

definition unlift :: "'v heap \<Rightarrow> nat \<Rightarrow> 'v heap option" where
  "unlift h entry = do {
     match \<leftarrow> n_match (h ! entry);
     mp \<leftarrow> n_prev (h ! match);
     let h = set_next h mp (Some match);
     let h = (case n_next (h ! match) of None \<Rightarrow> h | Some mn \<Rightarrow> set_prev h mn (Some match));
     p \<leftarrow> n_prev (h ! entry);
     let h = set_next h p (Some entry);
     nx \<leftarrow> n_next (h ! entry);
     Some (set_prev h nx (Some entry)) }"

section \<open>Linked lists in the store\<close>

fun seg :: "'v heap \<Rightarrow> nat list \<Rightarrow> bool" where
  "seg h (a # b # xs) \<longleftrightarrow> n_next (h ! a) = Some b \<and> n_prev (h ! b) = Some a \<and> seg h (b # xs)"
| "seg h xs \<longleftrightarrow> True"

definition dll :: "'v heap \<Rightarrow> nat list \<Rightarrow> bool" where
  "dll h xs \<longleftrightarrow> distinct xs \<and> (\<forall>a \<in> set xs. a < length h) \<and> seg h xs \<and>
     (xs \<noteq> [] \<longrightarrow> n_next (h ! last xs) = None)"

lemma length_set_next [simp]: "length (set_next h a x) = length h"
  and length_set_prev [simp]: "length (set_prev h a x) = length h"
  by (simp_all add: set_next_def set_prev_def)

lemma nth_set_next: "a < length h \<Longrightarrow>
    set_next h a x ! b = (if a = b then (h ! b)\<lparr>n_next := x\<rparr> else h ! b)"
  and nth_set_prev: "a < length h \<Longrightarrow>
    set_prev h a x ! b = (if a = b then (h ! b)\<lparr>n_prev := x\<rparr> else h ! b)"
  by (simp_all add: set_next_def set_prev_def nth_list_update)

lemmas nth_set = nth_set_next nth_set_prev

lemma seg_append: "seg h (xs @ a # ys) \<longleftrightarrow> seg h (xs @ [a]) \<and> seg h (a # ys)"
  by (induction h xs rule: seg.induct) (auto simp: neq_Nil_conv)

text \<open>A segment depends only on the forward pointers of all but its last cell and the backward
  pointers of all but its first.\<close>

lemma seg_cong:
  "\<lbrakk>\<And>a. a \<in> set (butlast xs) \<Longrightarrow> n_next (h' ! a) = n_next (h ! a);
    \<And>a. a \<in> set (tl xs) \<Longrightarrow> n_prev (h' ! a) = n_prev (h ! a)\<rbrakk> \<Longrightarrow> seg h' xs \<longleftrightarrow> seg h xs"
proof (induction h xs rule: seg.induct)
  case (1 h a b xs)
  have "seg h' (b # xs) \<longleftrightarrow> seg h (b # xs)"
    by (rule "1.IH") (use "1.prems" in \<open>auto split: if_splits\<close>)
  then show ?case using "1.prems" by auto
qed auto

lemma seg_set_next_last:
  assumes "distinct (xs @ [a])" "a < length h"
  shows "seg (set_next h a x) (xs @ [a]) \<longleftrightarrow> seg h (xs @ [a])"
  by (rule seg_cong) (use assms in \<open>auto simp: nth_set\<close>)

lemma seg_set_prev_hd:
  assumes "distinct (a # xs)" "a < length h"
  shows "seg (set_prev h a x) (a # xs) \<longleftrightarrow> seg h (a # xs)"
  by (rule seg_cong) (use assms in \<open>auto simp: nth_set split: if_splits dest: in_set_butlastD\<close>)

lemma seg_set_next_other:
  assumes "a \<notin> set xs" "a < length h"
  shows "seg (set_next h a x) xs \<longleftrightarrow> seg h xs"
  by (rule seg_cong) (use assms in \<open>auto simp: nth_set dest: in_set_butlastD\<close>)

lemma seg_set_prev_other:
  assumes "a \<notin> set xs" "a < length h"
  shows "seg (set_prev h a x) xs \<longleftrightarrow> seg h xs"
  by (rule seg_cong) (use assms in \<open>auto simp: nth_set dest: list.set_sel(2) intro: list.set_sel(2)\<close>)

section \<open>Taking one cell out and putting it back\<close>

definition unlink :: "'v heap \<Rightarrow> nat \<Rightarrow> 'v heap" where
  "unlink h a =
     (let h1 = set_next h (the (n_prev (h ! a))) (n_next (h ! a))
      in case n_next (h ! a) of None \<Rightarrow> h1 | Some x \<Rightarrow> set_prev h1 x (n_prev (h ! a)))"

definition relink :: "'v heap \<Rightarrow> nat \<Rightarrow> 'v heap" where
  "relink h a =
     (let h1 = set_next h (the (n_prev (h ! a))) (Some a)
      in case n_next (h ! a) of None \<Rightarrow> h1 | Some x \<Rightarrow> set_prev h1 x (Some a))"

lemma dll_cell:
  assumes "dll h (ps @ p # a # cs)"
  shows "n_prev (h ! a) = Some p" "n_next (h ! p) = Some a"
    "n_next (h ! a) = (case cs of [] \<Rightarrow> None | c # _ \<Rightarrow> Some c)"
    "cs = c # cs' \<Longrightarrow> n_prev (h ! c) = Some a"
    "p < length h" "a < length h" "p \<noteq> a" "cs = c # cs' \<Longrightarrow> c < length h \<and> c \<noteq> p \<and> c \<noteq> a"
proof -
  have "seg h (ps @ p # a # cs)" using assms by (simp add: dll_def)
  then have s: "seg h (p # a # cs)" using seg_append by blast
  then show "n_prev (h ! a) = Some p" "n_next (h ! p) = Some a"
    "cs = c # cs' \<Longrightarrow> n_prev (h ! c) = Some a" by auto
  show "n_next (h ! a) = (case cs of [] \<Rightarrow> None | c # _ \<Rightarrow> Some c)"
    using s assms by (cases cs) (auto simp: dll_def)
  show "p < length h" "a < length h" "p \<noteq> a" "cs = c # cs' \<Longrightarrow> c < length h \<and> c \<noteq> p \<and> c \<noteq> a"
    using assms by (auto simp: dll_def)
qed

lemma unlink_eq:
  assumes "dll h (ps @ p # a # cs)"
  shows "unlink h a =
    (case cs of [] \<Rightarrow> set_next h p None
     | c # _ \<Rightarrow> set_prev (set_next h p (Some c)) c (Some p))"
  using dll_cell [OF assms] by (auto simp: unlink_def split: list.splits)

lemma length_unlink [simp]: "length (unlink h a) = length h"
  by (auto simp: unlink_def Let_def split: option.splits)

lemma dll_unlink:
  assumes d: "dll h (ps @ p # a # cs)"
  shows "dll (unlink h a) (ps @ p # cs)"
proof -
  note c = dll_cell [OF d] and u = unlink_eq [OF d]
  from d have dist: "distinct (ps @ p # a # cs)" and sg: "seg h (ps @ p # a # cs)"
    and b: "\<forall>a \<in> set (ps @ p # a # cs). a < length h" by (simp_all add: dll_def)
  from sg have s1: "seg h (ps @ [p])" and s2: "seg h (p # a # cs)" using seg_append by blast+
  show ?thesis
  proof (cases cs)
    case Nil
    have "seg (set_next h p None) (ps @ [p])"
      using seg_set_next_last [of ps p h None] dist s1 c(5) by simp
    then show ?thesis using Nil dist b c(5) by (simp add: u dll_def nth_set)
  next
    case (Cons x xs)
    let ?h = "set_prev (set_next h p (Some x)) x (Some p)"
    have xl: "x < length h" using b Cons by simp
    have "seg ?h (ps @ [p])"
      using seg_set_prev_other [of x "ps @ [p]" "set_next h p (Some x)"]
        seg_set_next_last [of ps p h "Some x"] dist s1 c(5) xl Cons by simp
    moreover have "seg ?h (x # xs)"
      using seg_set_prev_hd [of x xs "set_next h p (Some x)"]
        seg_set_next_other [of p "x # xs" h] dist s2 c(5) xl Cons by simp
    moreover have "n_next (?h ! p) = Some x" "n_prev (?h ! x) = Some p"
      using c(5) xl dist Cons by (auto simp: nth_set)
    ultimately have "seg ?h (ps @ p # x # xs)" by (subst seg_append) simp
    moreover have "n_next (?h ! last (x # xs)) = n_next (h ! last (x # xs))"
    proof -
      have "last (x # xs) \<in> set (x # xs)" by (rule last_in_set) simp
      then have "last (x # xs) \<noteq> p" using dist Cons by auto
      then show ?thesis using c(5) xl by (simp add: nth_set)
    qed
    ultimately show ?thesis using Cons dist b d by (simp add: u dll_def)
  qed
qed

lemma unlink_cell:
  assumes "dll h (ps @ p # a # cs)"
  shows "unlink h a ! a = h ! a"
  using dll_cell [OF assms] by (auto simp: unlink_eq [OF assms] nth_set split: list.splits)

lemma unlink_frame:
  assumes "dll h (ps @ p # a # cs)"
  shows "n_match (unlink h a ! b) = n_match (h ! b)" "n_value (unlink h a ! b) = n_value (h ! b)"
    "n_id (unlink h a ! b) = n_id (h ! b)"
  using dll_cell [OF assms] by (auto simp: unlink_eq [OF assms] nth_set split: list.splits)

text \<open>The cell taken out keeps its own pointers, so putting it back restores the store exactly.\<close>

lemma relink_unlink:
  assumes "dll h (ps @ p # a # cs)"
  shows "relink (unlink h a) a = h"
proof -
  note c = dll_cell [OF assms]
  have r: "relink (unlink h a) a =
      (case cs of [] \<Rightarrow> set_next (unlink h a) p (Some a)
       | x # _ \<Rightarrow> set_prev (set_next (unlink h a) p (Some a)) x (Some a))"
    using c by (auto simp: relink_def unlink_cell [OF assms] split: list.splits)
  show ?thesis
  proof (rule nth_equalityI)
    show "length (relink (unlink h a) a) = length h" by (simp add: r split: list.splits)
    fix i
    show "relink (unlink h a) a ! i = h ! i"
      unfolding r unfolding unlink_eq [OF assms] using c by (auto simp: nth_set split: list.splits)
  qed
qed

section \<open>Lifting an operation and putting it back\<close>

lemma lift_unlink:
  assumes d: "dll h (ps @ p # e # bs @ m # cs)" and mt: "n_match (h ! e) = Some m"
  shows "lift h e = Some (unlink (unlink h e) m)"
proof -
  note c = dll_cell [OF d]
  obtain x xs where x: "bs @ m # cs = x # xs" by (cases bs) auto
  have u: "unlink h e = set_prev (set_next h p (Some x)) x (Some p)"
    using unlink_eq [OF d] x by simp
  obtain qs q where q: "ps @ p # bs = qs @ [q]" by (metis append_is_Nil_conv list.distinct(1) rev_exhaust)
  have d2: "dll (unlink h e) (qs @ q # m # cs)"
    using dll_unlink [OF d] q by (metis append.assoc append_Cons append_Nil)
  note c2 = dll_cell [OF d2]
  have e: "unlink h e ! e = h ! e" by (rule unlink_cell [OF d])
  have nx: "n_next (h ! e) = Some x" using c(3) x by simp
  have x1: "set_next h p (Some x) ! e = h ! e" using c by (simp add: nth_set)
  have "lift h e = do {
      mp \<leftarrow> n_prev (unlink h e ! m);
      let h' = set_next (unlink h e) mp (n_next (unlink h e ! m));
      (case n_next (h' ! m) of None \<Rightarrow> Some h' | Some mn \<Rightarrow> Some (set_prev h' mn (n_prev (h' ! m)))) }"
    by (simp add: lift_def Let_def c(1) nx x1 u [symmetric] e mt cong: option.case_cong)
  also have "\<dots> = Some (unlink (unlink h e) m)"
    using c2 by (auto simp: unlink_def Let_def nth_set split: list.splits)
  finally show ?thesis .
qed

lemma dll_lift:
  assumes d: "dll h (ps @ p # e # bs @ m # cs)"
  shows "dll (unlink (unlink h e) m) (ps @ p # bs @ cs)"
proof -
  obtain qs q where q: "ps @ p # bs = qs @ [q]" by (metis append_is_Nil_conv list.distinct(1) rev_exhaust)
  have "dll (unlink h e) (qs @ q # m # cs)"
    using dll_unlink [OF d] q by (metis append.assoc append_Cons append_Nil)
  from dll_unlink [OF this] show ?thesis using q by (metis append.assoc append_Cons append_Nil)
qed

lemma unlift_relink:
  assumes d: "dll h (ps @ p # e # bs @ m # cs)" and mt: "n_match (h ! e) = Some m"
  shows "unlift (unlink (unlink h e) m) e = Some h"
proof -
  note c = dll_cell [OF d]
  let ?h1 = "unlink h e" and ?h2 = "unlink (unlink h e) m"
  obtain qs q where q: "ps @ p # bs = qs @ [q]" by (metis append_is_Nil_conv list.distinct(1) rev_exhaust)
  have d2: "dll ?h1 (qs @ q # m # cs)"
    using dll_unlink [OF d] q by (metis append.assoc append_Cons append_Nil)
  note c2 = dll_cell [OF d2]
  have r1: "relink ?h2 m = ?h1" by (rule relink_unlink [OF d2])
  have r2: "relink ?h1 e = h" by (rule relink_unlink [OF d])
  have e1: "?h1 ! e = h ! e" by (rule unlink_cell [OF d])
  have m2: "?h2 ! m = ?h1 ! m" by (rule unlink_cell [OF d2])
  have mt2: "n_match (?h2 ! e) = Some m" using mt unlink_frame [OF d2] unlink_frame [OF d] by simp
  obtain x where nx: "n_next (h ! e) = Some x" using c(3) by (cases bs) auto
  let ?h3 = "set_next ?h2 q (Some m)"
  let ?h4 = "case n_next (?h3 ! m) of None \<Rightarrow> ?h3 | Some mn \<Rightarrow> set_prev ?h3 mn (Some m)"
  have h3m: "n_next (?h3 ! m) = n_next (?h1 ! m)" using c2 m2 by (simp add: nth_set)
  have h4: "?h4 = ?h1" using r1 c2(1) m2 h3m by (simp add: relink_def Let_def)
  have "unlift ?h2 e = do {
      p \<leftarrow> n_prev (?h4 ! e);
      let h = set_next ?h4 p (Some e);
      nx \<leftarrow> n_next (h ! e);
      Some (set_prev h nx (Some e)) }"
    using mt2 m2 c2(1) by (simp add: unlift_def Let_def)
  also have "\<dots> = Some (relink ?h1 e)"
    unfolding h4 using e1 c(1,5,6,7) nx by (simp add: relink_def nth_set Let_def)
  finally show ?thesis by (simp add: r2)
qed

section \<open>Building the list\<close>

lemma seg_heap_append: "\<forall>a \<in> set xs. a < length h \<Longrightarrow> seg (h @ ys) xs \<longleftrightarrow> seg h xs"
  by (rule seg_cong) (cases xs; auto simp: nth_append split: if_splits dest: in_set_butlastD)+

text \<open>\<open>stack_list h\<close>: all cells of the store form one list, the newest first.\<close>

definition stack_list :: "'v heap \<Rightarrow> bool" where
  "stack_list h \<longleftrightarrow> dll h (rev [0..<length h]) \<and> (h \<noteq> [] \<longrightarrow> n_prev (last h) = None)"

definition stack_root :: "'v heap \<Rightarrow> nat option" where
  "stack_root h = (if h = [] then None else Some (length h - 1))"

definition same_data :: "'v node \<Rightarrow> 'v node \<Rightarrow> bool" where
  "same_data a b \<longleftrightarrow> n_value a = n_value b \<and> n_match a = n_match b \<and> n_id a = n_id b"

lemma insertBefore_push:
  assumes s: "stack_list h" and nd: "n_next nd = None" "n_prev nd = None"
    and h': "h' = insertBefore (h @ [nd]) (length h) (stack_root h)"
  shows "stack_list h' \<and> length h' = Suc (length h) \<and>
    (\<forall>k < length h. same_data (h' ! k) (h ! k)) \<and> same_data (h' ! length h) nd"
proof (cases "h = []")
  case True
  then show ?thesis
    using nd h' by (simp add: insertBefore_def stack_root_def stack_list_def dll_def same_data_def)
next
  case False
  let ?n = "length h"
  from False obtain k where k: "?n = Suc k" by (cases ?n) auto
  have last: "n_prev (h ! k) = None" using s False k by (simp add: stack_list_def last_conv_nth)
  have eq: "h' = set_next (set_prev (h @ [nd]) k (Some ?n)) ?n (Some k)"
    using k False last by (simp add: h' insertBefore_def stack_root_def nth_append Let_def)
  have d: "dll h (rev [0..<?n])" using s by (simp add: stack_list_def)
  have r: "rev [0..<?n] = k # rev [0..<k]" using k by simp
  have "seg h' (k # rev [0..<k]) \<longleftrightarrow> seg (h @ [nd]) (k # rev [0..<k])"
    unfolding eq using k
    by (subst seg_set_next_other) (auto simp: seg_set_prev_hd)
  also have "\<dots> \<longleftrightarrow> seg h (k # rev [0..<k])" by (rule seg_heap_append) (auto simp: k)
  finally have sg: "seg h' (k # rev [0..<k])" using d r by (simp add: dll_def)
  have "n_next (h' ! ?n) = Some k" "n_prev (h' ! k) = Some ?n" "n_prev (h' ! ?n) = None"
    using k nd by (auto simp: eq nth_set nth_append)
  moreover have "n_next (h' ! last (k # rev [0..<k])) = None"
  proof -
    have "last (k # rev [0..<k]) \<in> set (k # rev [0..<k])" by (rule last_in_set) simp
    moreover have "set (k # rev [0..<k]) \<subseteq> {..<?n}" by (auto simp: k)
    ultimately have "last (k # rev [0..<k]) < ?n" by blast
    then have "n_next (h' ! last (k # rev [0..<k])) = n_next (h ! last (k # rev [0..<k]))"
      by (simp add: eq nth_set k nth_append del: last.simps)
    then show ?thesis using d r by (simp add: dll_def)
  qed
  ultimately have "dll h' (?n # k # rev [0..<k])" using sg k
    by (auto simp: dll_def eq)
  moreover have "length h' = Suc ?n" by (simp add: eq)
  moreover have "rev [0..<Suc ?n] = ?n # k # rev [0..<k]" using k by simp
  moreover have "n_prev (last h') = None"
    using \<open>n_prev (h' ! ?n) = None\<close> \<open>length h' = Suc ?n\<close>
    by (cases h' rule: rev_cases) (auto simp: nth_append)
  ultimately have "stack_list h'" unfolding stack_list_def by metis
  then show ?thesis
    using k by (auto simp: eq same_data_def nth_set nth_append)
qed

text \<open>\<open>ret_index ds i x\<close>: what the map \<open>match\<close> of the loop holds for id \<open>i\<close> after the entries \<open>ds\<close>.\<close>

definition ret_index :: "'v entry list \<Rightarrow> int \<Rightarrow> nat option \<Rightarrow> bool" where
  "ret_index ds i x \<longleftrightarrow>
     (case x of
        None \<Rightarrow> \<forall>d \<in> set ds. \<not> (e_kind d = returnEntry \<and> e_id d = i)
      | Some k \<Rightarrow> k < length ds \<and> e_kind (ds ! k) = returnEntry \<and> e_id (ds ! k) = i)"

definition cell_ok :: "'v entry list \<Rightarrow> nat \<Rightarrow> 'v node \<Rightarrow> bool" where
  "cell_ok ds k c \<longleftrightarrow> n_value c = Some (e_value (ds ! k)) \<and> n_id c = e_id (ds ! k) \<and>
     (if e_kind (ds ! k) = returnEntry then n_match c = None
      else ret_index (take k ds) (e_id (ds ! k)) (n_match c))"

lemma cell_ok_data: "same_data c c' \<Longrightarrow> cell_ok ds k c \<longleftrightarrow> cell_ok ds k c'"
  by (simp add: cell_ok_def same_data_def)

lemma cell_ok_append: "k < length ds \<Longrightarrow> cell_ok (ds @ xs) k c \<longleftrightarrow> cell_ok ds k c"
  by (simp add: cell_ok_def nth_append)

lemma ret_index_snoc:
  "ret_index ds i x \<Longrightarrow> \<not> (e_kind d = returnEntry \<and> e_id d = i) \<Longrightarrow> ret_index (ds @ [d]) i x"
  "e_kind d = returnEntry \<Longrightarrow> ret_index (ds @ [d]) (e_id d) (Some (length ds))"
  by (auto simp: ret_index_def nth_append split: option.splits)

lemma makeLinkedEntries_loop_inv:
  assumes "makeLinkedEntries_loop h root match xs = (h', root')"
    and "stack_list h" "root = stack_root h" "length h = length ds"
    and "\<And>i. ret_index ds i (match i)" "\<And>k. k < length ds \<Longrightarrow> cell_ok ds k (h ! k)"
  shows "stack_list h' \<and> root' = stack_root h' \<and> length h' = length (ds @ xs) \<and>
    (\<forall>k < length (ds @ xs). cell_ok (ds @ xs) k (h' ! k))"
  using assms
proof (induction xs arbitrary: h root match ds)
  case Nil
  then show ?case by auto
next
  case (Cons x xs)
  define mt where "mt = (if e_kind x = returnEntry then None else match (e_id x))"
  define match' where
    "match' = (if e_kind x = returnEntry then match(e_id x \<mapsto> length h) else match)"
  define nd where "nd = \<lparr>n_value = Some (e_value x), n_match = mt, n_id = e_id x,
                      n_next = None, n_prev = None\<rparr>"
  define h1 where "h1 = insertBefore (h @ [nd]) (length h) (stack_root h)"
  have run: "makeLinkedEntries_loop h1 (Some (length h)) match' xs = (h', root')"
    using Cons.prems(1,3) by (simp add: nd_def mt_def match'_def h1_def Let_def split: if_splits)
  have nd0: "n_next nd = None" "n_prev nd = None" by (simp_all add: nd_def)
  have p: "stack_list h1" "length h1 = Suc (length h)"
    "\<And>k. k < length h \<Longrightarrow> same_data (h1 ! k) (h ! k)" "same_data (h1 ! length h) nd"
    using insertBefore_push [OF Cons.prems(2) nd0 h1_def] by blast+
  have "stack_list h' \<and> root' = stack_root h' \<and> length h' = length ((ds @ [x]) @ xs) \<and>
    (\<forall>k < length ((ds @ [x]) @ xs). cell_ok ((ds @ [x]) @ xs) k (h' ! k))"
  proof (rule Cons.IH [OF run])
    show "stack_list h1" by (rule p(1))
    show "length h1 = length (ds @ [x])" using p(2) Cons.prems(4) by simp
    then show "Some (length h) = stack_root h1" using p(2) by (auto simp: stack_root_def)
    show "ret_index (ds @ [x]) i (match' i)" for i
    proof (cases "e_kind x = returnEntry \<and> e_id x = i")
      case True
      then show ?thesis using Cons.prems(4) ret_index_snoc(2) [of x ds] by (auto simp: match'_def)
    next
      case False
      then have "match' i = match i" by (auto simp: match'_def)
      then show ?thesis using False Cons.prems(5) ret_index_snoc(1) [of ds i "match i" x] by simp
    qed
    show "cell_ok (ds @ [x]) k (h1 ! k)" if "k < length (ds @ [x])" for k
    proof (cases "k < length ds")
      case True
      then have "same_data (h1 ! k) (h ! k)" using p(3) Cons.prems(4) by simp
      then show ?thesis using True Cons.prems(6) cell_ok_data cell_ok_append by blast
    next
      case False
      with that have k: "k = length ds" by simp
      then have "same_data (h1 ! k) nd" using p(4) Cons.prems(4) by simp
      moreover have "cell_ok (ds @ [x]) k nd"
        using Cons.prems(5) k by (simp add: cell_ok_def nd_def mt_def)
      ultimately show ?thesis using cell_ok_data by blast
    qed
  qed
  then show ?case by simp
qed

text \<open>The cell of the entry at position \<open>p\<close>.\<close>

definition addr :: "'v entry list \<Rightarrow> nat \<Rightarrow> nat" where
  "addr es p = length es - 1 - p"

lemma rev_upt_addr: "rev [0..<length es] = map (addr es) [0..<length es]"
  by (rule nth_equalityI) (auto simp: addr_def rev_nth)

lemma addr_inj: "p < length es \<Longrightarrow> q < length es \<Longrightarrow> addr es p = addr es q \<longleftrightarrow> p = q"
  by (auto simp: addr_def)

lemma inj_on_addr: "inj_on (addr es) {..<length es}"
  by (auto simp: inj_on_def addr_inj)

text \<open>What a store must say about each cell: the data of its entry, and for a call the cell of the
  matching return.\<close>

definition cells_ok :: "'v entry list \<Rightarrow> 'v heap \<Rightarrow> bool" where
  "cells_ok es h \<longleftrightarrow> (\<forall>p < length es.
     n_value (h ! addr es p) = Some (e_value (es ! p)) \<and> n_id (h ! addr es p) = e_id (es ! p) \<and>
     n_match (h ! addr es p) =
       (if is_call es p then Some (addr es (retPos es (op_at es p))) else None))"

lemma makeLinkedEntries_ok:
  assumes wf: "wf_history es" and run: "makeLinkedEntries es = (h, root)"
  shows "stack_list h" "root = stack_root h" "length h = length es" "cells_ok es h"
proof -
  have inv: "stack_list h \<and> root = stack_root h \<and> length h = length ([] @ rev es) \<and>
    (\<forall>k < length ([] @ rev es). cell_ok ([] @ rev es) k (h ! k))"
  proof (rule makeLinkedEntries_loop_inv)
    show "makeLinkedEntries_loop [] None Map.empty (rev es) = (h, root)"
      using run by (simp add: makeLinkedEntries_def)
    show "ret_index [] i (Map.empty i)" for i by (simp add: ret_index_def)
  qed (simp_all add: stack_list_def dll_def stack_root_def)
  then show "stack_list h" "root = stack_root h" "length h = length es" by simp_all
  show "cells_ok es h"
    unfolding cells_ok_def
  proof (intro allI impI)
    fix p assume p: "p < length es"
    let ?k = "addr es p" and ?i = "op_at es p"
    have k: "?k < length (rev es)" "rev es ! ?k = es ! p"
      using p by (auto simp: addr_def rev_nth)
    with inv have c: "cell_ok (rev es) ?k (h ! ?k)" by simp
    have "n_match (h ! ?k) = (if is_call es p then Some (addr es (retPos es ?i)) else None)"
    proof (cases "is_call es p")
      case False
      then have "e_kind (es ! p) = returnEntry" by (cases "e_kind (es ! p)") (auto simp: is_call_def)
      with c k False show ?thesis by (simp add: cell_ok_def)
    next
      case True
      note u = entry_pos_unique [OF wf p]
      let ?r = "retPos es ?i"
      have r: "?r < length es" "e_kind (es ! ?r) = returnEntry" "e_id (es ! ?r) = int ?i"
        using entry_pos_props [OF wf u(1), of returnEntry] by auto
      have "p < ?r" using callPos_unique [OF wf p True] callPos_less_retPos [OF wf u(1)] by simp
      then have lt: "addr es ?r < ?k" "rev es ! addr es ?r = es ! ?r"
        using p r(1) by (auto simp: addr_def rev_nth)
      from c k True u(3) have ri: "ret_index (take ?k (rev es)) (int ?i) (n_match (h ! ?k))"
        by (simp add: cell_ok_def is_call_def)
      have "es ! ?r \<in> set (take ?k (rev es))"
        using lt k by (auto simp: in_set_conv_nth intro!: exI [of _ "addr es ?r"])
      with ri r obtain j where j: "n_match (h ! ?k) = Some j" "j < ?k"
        "e_kind (rev es ! j) = returnEntry" "e_id (rev es ! j) = int ?i"
        using k by (cases "n_match (h ! ?k)") (auto simp: ret_index_def)
      define q where "q = length es - 1 - j"
      have q: "q < length es" "rev es ! j = es ! q" "j = addr es q"
        using j(2) k p by (auto simp: q_def rev_nth addr_def)
      have "q = retPos es (op_at es q)"
        by (rule retPos_unique [OF wf q(1)]) (use j q in \<open>simp add: is_call_def\<close>)
      moreover have "op_at es q = ?i" using j q by (simp add: op_at_def)
      ultimately show ?thesis using True j q by simp
    qed
    then show "n_value (h ! ?k) = Some (e_value (es ! p)) \<and> n_id (h ! ?k) = e_id (es ! p) \<and>
      n_match (h ! ?k) = (if is_call es p then Some (addr es (retPos es ?i)) else None)"
      using c k by (simp add: cell_ok_def)
  qed
qed

lemma cells_ok_same_data:
  assumes "cells_ok es h" "\<And>k. k < length es \<Longrightarrow> same_data (h' ! k) (h ! k)"
  shows "cells_ok es h'"
proof -
  have "same_data (h' ! addr es p) (h ! addr es p)" if "p < length es" for p
    using assms(2) that by (auto simp: addr_def)
  with assms(1) show ?thesis by (auto simp: cells_ok_def same_data_def)
qed

lemma list_length_dll:
  "dll h xs \<Longrightarrow> list_length h (case xs of [] \<Rightarrow> None | x # _ \<Rightarrow> Some x) l = Some (l + length xs)"
proof (induction xs arbitrary: l)
  case Nil
  show ?case by (simp add: list_length.simps)
next
  case (Cons x xs)
  have "dll h xs" using Cons.prems by (cases xs) (auto simp: dll_def)
  moreover have "n_next (h ! x) = (case xs of [] \<Rightarrow> None | y # _ \<Rightarrow> Some y)"
    using Cons.prems by (cases xs) (auto simp: dll_def)
  ultimately show ?case using Cons.IH [of "l + 1"] by (simp add: list_length.simps [of _ "Some x"])
qed

end
