(* ===== verification/Linearizability.thy ===== *)
theory Linearizability
  imports Histories
begin

text \<open>
  The specification of the checker: linearizability of a list of entries with respect to the
  sequential behaviour \<open>Init\<close>/\<open>Step\<close> of a model (\<open>porcupine/model.go\<close>), and its step-by-step
  form, in which one operation after the other is taken from those whose predecessors have all
  been taken.  The contract that the checker needs from the \<open>Equal\<close> function of a model is the
  locale \<open>state_equality\<close>.
\<close>

section \<open>Linearizations\<close>

definition input_of :: "'v entry list \<Rightarrow> nat \<Rightarrow> 'v" where
  "input_of es i = e_value (es ! callPos es i)"

definition output_of :: "'v entry list \<Rightarrow> nat \<Rightarrow> 'v" where
  "output_of es i = e_value (es ! retPos es i)"

text \<open>Operation \<open>i\<close> returned before operation \<open>j\<close> was called.\<close>

definition precedes :: "'v entry list \<Rightarrow> nat \<Rightarrow> nat \<Rightarrow> bool" where
  "precedes es i j \<longleftrightarrow> retPos es i < callPos es j"

text \<open>The sequential model run over operations in a given order; \<open>None\<close> when a step is refused.\<close>

fun run_ops :: "('v, 's) Model \<Rightarrow> 'v entry list \<Rightarrow> 's \<Rightarrow> nat list \<Rightarrow> 's option" where
  "run_ops m es s [] = Some s"
| "run_ops m es s (i # is) =
     (case Step m s (input_of es i) (output_of es i) of
        (ok, s') \<Rightarrow> if ok then run_ops m es s' is else None)"

definition respects_order :: "'v entry list \<Rightarrow> nat list \<Rightarrow> bool" where
  "respects_order es is \<longleftrightarrow> sorted_wrt (\<lambda>a b. \<not> precedes es b a) is"

definition linearization :: "('v, 's) Model \<Rightarrow> 'v entry list \<Rightarrow> nat list \<Rightarrow> bool" where
  "linearization m es is \<longleftrightarrow>
     distinct is \<and> set is = {..<n_ops es} \<and> respects_order es is \<and>
     run_ops m es (Init m ()) is \<noteq> None"

definition linearizable :: "('v, 's) Model \<Rightarrow> 'v entry list \<Rightarrow> bool" where
  "linearizable m es \<longleftrightarrow> (\<exists>is. linearization m es is)"

section \<open>Taking one operation at a time\<close>

text \<open>
  \<open>minimal es X i\<close>: every operation that returned before \<open>i\<close> was called is in \<open>X\<close>.
  \<open>completes m es s X is\<close>: from state \<open>s\<close>, with the operations \<open>X\<close> already taken, the order \<open>is\<close>
  takes all the others.
\<close>

definition minimal :: "'v entry list \<Rightarrow> nat set \<Rightarrow> nat \<Rightarrow> bool" where
  "minimal es X i \<longleftrightarrow> (\<forall>j < n_ops es. precedes es j i \<longrightarrow> j \<in> X)"

fun takes :: "('v, 's) Model \<Rightarrow> 'v entry list \<Rightarrow> 's \<Rightarrow> nat set \<Rightarrow> nat list \<Rightarrow> bool" where
  "takes m es s X [] = True"
| "takes m es s X (i # is) =
     (i < n_ops es \<and> i \<notin> X \<and> minimal es X i \<and>
      (case Step m s (input_of es i) (output_of es i) of
         (ok, s') \<Rightarrow> ok \<and> takes m es s' (insert i X) is))"

definition completes :: "('v, 's) Model \<Rightarrow> 'v entry list \<Rightarrow> 's \<Rightarrow> nat set \<Rightarrow> nat list \<Rightarrow> bool" where
  "completes m es s X is \<longleftrightarrow> takes m es s X is \<and> X \<union> set is = {..<n_ops es}"

definition dead :: "('v, 's) Model \<Rightarrow> 'v entry list \<Rightarrow> 's \<Rightarrow> nat set \<Rightarrow> bool" where
  "dead m es s X \<longleftrightarrow> (\<forall>is. \<not> completes m es s X is)"

lemma completes_Nil [simp]: "completes m es s X [] \<longleftrightarrow> X = {..<n_ops es}"
  by (simp add: completes_def)

lemma completes_Cons:
  "completes m es s X (i # is) \<longleftrightarrow>
     i < n_ops es \<and> i \<notin> X \<and> minimal es X i \<and>
     (case Step m s (input_of es i) (output_of es i) of
        (ok, s') \<Rightarrow> ok \<and> completes m es s' (insert i X) is)"
  by (auto simp: completes_def split: prod.splits)

lemma takes_iff:
  "takes m es s X is \<longleftrightarrow>
     distinct is \<and> set is \<subseteq> {..<n_ops es} \<and> set is \<inter> X = {} \<and>
     (\<forall>k < length is. minimal es (X \<union> set (take k is)) (is ! k)) \<and>
     run_ops m es s is \<noteq> None"
proof (induction "is" arbitrary: s X)
  case (Cons i js)
  have all: "(\<forall>k < length (i # js). Q k) \<longleftrightarrow> Q 0 \<and> (\<forall>k < length js. Q (Suc k))" for Q
    using less_Suc_eq_0_disj by auto
  obtain ok s' where st: "Step m s (input_of es i) (output_of es i) = (ok, s')" by fastforce
  show ?case unfolding takes.simps st prod.case Cons.IH all by (auto simp: st)
qed simp

lemma precedes_irrefl: "wf_history es \<Longrightarrow> i < n_ops es \<Longrightarrow> \<not> precedes es i i"
  using callPos_less_retPos [of es i] by (simp add: precedes_def)

lemma respects_order_minimal:
  assumes wf: "wf_history es" and d: "distinct is" and s: "set is = {..<n_ops es}"
  shows "respects_order es is \<longleftrightarrow> (\<forall>k < length is. minimal es (set (take k is)) (is ! k))"
proof
  assume r: "respects_order es is"
  show "\<forall>k < length is. minimal es (set (take k is)) (is ! k)"
  proof (intro allI impI, unfold minimal_def, intro allI impI)
    fix k j assume k: "k < length is" and j: "j < n_ops es" and p: "precedes es j (is ! k)"
    from j s have "j \<in> set is" by simp
    then obtain c where c: "c < length is" "j = is ! c" by (auto simp: in_set_conv_nth)
    have "is ! k < n_ops es" using k s nth_mem by blast
    then have "c \<noteq> k" using p c precedes_irrefl [OF wf] by auto
    moreover have "\<not> k < c"
      using r p c k by (auto simp: respects_order_def sorted_wrt_iff_nth_less)
    ultimately have "c < k" by simp
    then show "j \<in> set (take k is)" using c k by (auto simp: in_set_conv_nth intro!: exI [of _ c])
  qed
next
  assume m: "\<forall>k < length is. minimal es (set (take k is)) (is ! k)"
  show "respects_order es is"
    unfolding respects_order_def sorted_wrt_iff_nth_less
  proof (intro allI impI notI)
    fix a b assume ab: "a < b" "b < length is" and p: "precedes es (is ! b) (is ! a)"
    have "is ! b < n_ops es" using ab s nth_mem by blast
    with m ab p have "is ! b \<in> set (take a is)" by (auto simp: minimal_def)
    then obtain c where "c < a" "is ! b = is ! c" using ab by (auto simp: in_set_conv_nth)
    with d ab show False by (auto simp: distinct_conv_nth)
  qed
qed

lemma linearization_completes:
  assumes "wf_history es"
  shows "linearization m es is \<longleftrightarrow> completes m es (Init m ()) {} is"
  using respects_order_minimal [OF assms, of "is"]
  by (auto simp: linearization_def completes_def takes_iff)

lemma linearizable_not_dead:
  assumes "wf_history es"
  shows "linearizable m es \<longleftrightarrow> \<not> dead m es (Init m ()) {}"
  by (simp add: linearizable_def dead_def linearization_completes [OF assms])

lemma takes_append:
  "takes m es s X (is @ js) \<longleftrightarrow>
     takes m es s X is \<and> takes m es (the (run_ops m es s is)) (X \<union> set is) js"
proof (induction "is" arbitrary: s X)
  case (Cons i "is")
  then show ?case by (auto split: prod.splits)
qed simp

lemma takes_run: "takes m es s X is \<Longrightarrow> run_ops m es s is = Some (the (run_ops m es s is))"
  by (simp add: takes_iff)

lemma completes_bound: "completes m es s X is \<Longrightarrow> length is \<le> n_ops es"
proof -
  assume c: "completes m es s X is"
  then have "distinct is" "set is \<subseteq> {..<n_ops es}" by (simp_all add: completes_def takes_iff)
  then show "length is \<le> n_ops es"
    by (metis card_lessThan card_mono distinct_card finite_lessThan)
qed

section \<open>What the checker needs from the equality of a model\<close>

text \<open>
  Two states the model calls equal accept the same operations and lead to equal states.  The
  default \<open>ShallowEqual\<close> has this property.
\<close>

definition equal_fun :: "('v, 's) Model \<Rightarrow> 's \<Rightarrow> 's \<Rightarrow> bool" where
  "equal_fun m = (case Equal m of Some f \<Rightarrow> f | None \<Rightarrow> ShallowEqual)"

locale state_equality =
  fixes m :: "('v, 's) Model"
  assumes equal_step:
    "equal_fun m s t \<Longrightarrow> Step m s i out = (ok, s') \<Longrightarrow> Step m t i out = (ok', t') \<Longrightarrow>
       ok = ok' \<and> (ok \<longrightarrow> equal_fun m s' t')"
begin

lemma equal_takes: "equal_fun m s t \<Longrightarrow> takes m es s X is \<longleftrightarrow> takes m es t X is"
proof (induction "is" arbitrary: s t X)
  case (Cons i "is")
  obtain ok s' ok' t' where st: "Step m s (input_of es i) (output_of es i) = (ok, s')"
    "Step m t (input_of es i) (output_of es i) = (ok', t')" by fastforce
  from equal_step [OF Cons.prems st] have "ok = ok'" "ok \<longrightarrow> equal_fun m s' t'" by auto
  then show ?case using Cons.IH [of s' t'] by (auto simp: st)
qed simp

lemma equal_dead: "equal_fun m s t \<Longrightarrow> dead m es s X \<longleftrightarrow> dead m es t X"
  by (simp add: dead_def completes_def equal_takes)

end

lemma state_equality_shallow:
  assumes "Equal m = None \<or> Equal m = Some ShallowEqual"
  shows "state_equality m"
  using assms by unfold_locales (auto simp: equal_fun_def ShallowEqual_def)

end
