(* ===== verification/Checker.thy ===== *)
theory Checker
  imports Bitset Linked_Entries Linearizability
begin

text \<open>
  The linearizability checker (\<open>porcupine/checker.go\<close> and \<open>porcupine/porcupine.go\<close>).
  \<open>checkSingle\<close> is the search over one partition: the variables of the Go function are the fields
  of the record \<open>search\<close>, one iteration of its loop is \<open>check_body\<close>, the loop is \<open>check_loop\<close>.
  The flag \<open>kill\<close>, which another goroutine may set at any moment, is an argument: \<open>kill k\<close> is what
  iteration \<open>k\<close> reads.  \<open>checkParallel\<close> runs one search per partition; the order in which the
  goroutines deliver and the moment of the timeout are an explicit list of events.
\<close>

section \<open>The cache\<close>

record 's cacheEntry =
  ce_linearized :: bitset
  ce_state :: 's

fun cacheContains_loop ::
  "('v, 's) Model \<Rightarrow> 's cacheEntry \<Rightarrow> 's cacheEntry list \<Rightarrow> bool option" where
  "cacheContains_loop m entry [] = Some False"
| "cacheContains_loop m entry (elem # elems) =
     (if bitset_equals (ce_linearized entry) (ce_linearized elem) then
        (case Equal m of
           None \<Rightarrow> None
         | Some eq \<Rightarrow> if eq (ce_state entry) (ce_state elem) then Some True
                      else cacheContains_loop m entry elems)
      else cacheContains_loop m entry elems)"

definition cacheContains ::
  "('v, 's) Model \<Rightarrow> (64 word \<Rightarrow> 's cacheEntry list) \<Rightarrow> 's cacheEntry \<Rightarrow> bool option" where
  "cacheContains m cache entry = cacheContains_loop m entry (cache (bitset_hash (ce_linearized entry)))"

section \<open>The search over one partition\<close>

record 's callsEntry =
  c_entry :: nat
  c_state :: 's

text \<open>\<open>longest\<close> holds pointers to slices; the slices are in \<open>seqs\<close>.\<close>

record ('v, 's) search =
  s_heap :: "'v heap"
  s_entry :: "nat option"
  s_linearized :: bitset
  s_cache :: "64 word \<Rightarrow> 's cacheEntry list"
  s_calls :: "'s callsEntry list"
  s_longest :: "nat option list"
  s_seqs :: "int list list"
  s_state :: 's

text \<open>The loop that records the current calls as the longest prefix for each of them; the slice is
  allocated at its first use (\<open>made\<close>).\<close>

fun longest_loop ::
  "'v heap \<Rightarrow> int list \<Rightarrow> bool \<Rightarrow> int list list \<Rightarrow> nat option list \<Rightarrow> 's callsEntry list \<Rightarrow>
   (int list list \<times> nat option list) option" where
  "longest_loop h ids made seqs longest [] = Some (seqs, longest)"
| "longest_loop h ids made seqs longest (v # vs) = do {
     cur \<leftarrow> int_get longest (n_id (h ! c_entry v));
     (if (case cur of None \<Rightarrow> True | Some q \<Rightarrow> length ids > length (seqs ! q)) then
        let seqs' = (if made then seqs else seqs @ [ids]) in do {
          longest' \<leftarrow> int_put longest (n_id (h ! c_entry v)) (Some (length seqs' - 1));
          longest_loop h ids True seqs' longest' vs }
      else longest_loop h ids made seqs longest vs) }"

datatype ('v, 's) step_result =
  Continue "('v, 's) search" | ReturnFalse "('v, 's) search" | Finish "('v, 's) search" | StepPanic

definition call_ids :: "('v, 's) search \<Rightarrow> int list" where
  "call_ids st = map (\<lambda>v. n_id (s_heap st ! c_entry v)) (s_calls st)"

definition try_call ::
  "('v, 's) Model \<Rightarrow> nat \<Rightarrow> nat \<Rightarrow> nat \<Rightarrow> ('v, 's) search \<Rightarrow> ('v, 's) search option" where
  "try_call m headEntry e matching st = do {
     inp \<leftarrow> n_value (s_heap st ! e);
     out \<leftarrow> n_value (s_heap st ! matching);
     let (ok, newState) = Step m (s_state st) inp out;
     (if ok then do {
        newLinearized \<leftarrow> bitset_set (bitset_clone (s_linearized st)) (uint_of (n_id (s_heap st ! e)));
        let newCacheEntry = \<lparr>ce_linearized = newLinearized, ce_state = newState\<rparr>;
        seen \<leftarrow> cacheContains m (s_cache st) newCacheEntry;
        (if \<not> seen then do {
           let hash = bitset_hash newLinearized;
           let st = st\<lparr>s_cache := (s_cache st)(hash := s_cache st hash @ [newCacheEntry])\<rparr>;
           let st = st\<lparr>s_calls := s_calls st @ [\<lparr>c_entry = e, c_state = s_state st\<rparr>]\<rparr>;
           let st = st\<lparr>s_state := newState\<rparr>;
           lin \<leftarrow> bitset_set (s_linearized st) (uint_of (n_id (s_heap st ! e)));
           h \<leftarrow> lift (s_heap st) e;
           Some (st\<lparr>s_linearized := lin, s_heap := h, s_entry := n_next (h ! headEntry)\<rparr>)
         } else Some (st\<lparr>s_entry := n_next (s_heap st ! e)\<rparr>))
      } else Some (st\<lparr>s_entry := n_next (s_heap st ! e)\<rparr>)) }"

definition backtrack :: "bool \<Rightarrow> ('v, 's) search \<Rightarrow> ('v, 's) search option" where
  "backtrack computePartial st = do {
     (seqs, longest) \<leftarrow>
       (if computePartial
        then longest_loop (s_heap st) (call_ids st) False (s_seqs st) (s_longest st) (s_calls st)
        else Some (s_seqs st, s_longest st));
     let callsTop = last (s_calls st);
     let e = c_entry callsTop;
     lin \<leftarrow> bitset_clear (s_linearized st) (uint_of (n_id (s_heap st ! e)));
     h \<leftarrow> unlift (s_heap st) e;
     Some (st\<lparr>s_seqs := seqs, s_longest := longest, s_state := c_state callsTop, s_linearized := lin,
              s_calls := butlast (s_calls st), s_heap := h, s_entry := n_next (h ! e)\<rparr>) }"

definition continue_or_panic :: "('v, 's) search option \<Rightarrow> ('v, 's) step_result" where
  "continue_or_panic r = (case r of None \<Rightarrow> StepPanic | Some st \<Rightarrow> Continue st)"

definition check_body ::
  "('v, 's) Model \<Rightarrow> bool \<Rightarrow> nat \<Rightarrow> bool \<Rightarrow> ('v, 's) search \<Rightarrow> ('v, 's) step_result" where
  "check_body m computePartial headEntry killed st =
     (case n_next (s_heap st ! headEntry) of
        None \<Rightarrow> Finish st
      | Some _ \<Rightarrow>
          if killed then ReturnFalse st
          else (case s_entry st of
             None \<Rightarrow> StepPanic
           | Some e \<Rightarrow>
               (case n_match (s_heap st ! e) of
                  Some matching \<Rightarrow> continue_or_panic (try_call m headEntry e matching st)
                | None \<Rightarrow>
                    if s_calls st = [] then ReturnFalse st
                    else continue_or_panic (backtrack computePartial st))))"

partial_function (option) check_loop ::
  "('v, 's) Model \<Rightarrow> bool \<Rightarrow> nat \<Rightarrow> (nat \<Rightarrow> bool) \<Rightarrow> nat \<Rightarrow> ('v, 's) search \<Rightarrow>
   (bool \<times> ('v, 's) search) outcome option" where
  "check_loop m computePartial headEntry kill k st =
     (case check_body m computePartial headEntry (kill k) st of
        Continue st' \<Rightarrow> check_loop m computePartial headEntry kill (Suc k) st'
      | ReturnFalse st' \<Rightarrow> Some (Returns (False, st'))
      | Finish st' \<Rightarrow> Some (Returns (True, st'))
      | StepPanic \<Rightarrow> Some Panics)"

declare check_loop.simps [code]

definition check_start :: "('v, 's) Model \<Rightarrow> 'v entry list \<Rightarrow> nat \<Rightarrow> ('v, 's) search" where
  "check_start m history n =
     (let (h, root) = makeLinkedEntries history
      in \<lparr>s_heap = insertBefore (h @ [\<lparr>n_value = None, n_match = None, n_id = -1,
                                        n_next = None, n_prev = None\<rparr>]) (length h) root,
          s_entry = root, s_linearized = newBitset n, s_cache = (\<lambda>_. []), s_calls = [],
          s_longest = replicate n None, s_seqs = [], s_state = Init m ()\<rparr>)"

text \<open>The result of \<open>checkSingle\<close>: the verdict, the pointers \<open>longest\<close> and the slices they point to.\<close>

definition checkSingle ::
  "('v, 's) Model \<Rightarrow> 'v entry list \<Rightarrow> bool \<Rightarrow> (nat \<Rightarrow> bool) \<Rightarrow>
   (bool \<times> nat option list \<times> int list list) outcome option" where
  "checkSingle m history computePartial kill = do {
     let (h, root) = makeLinkedEntries history;
     len \<leftarrow> list_length h root 0;
     let n = len div 2;
     r \<leftarrow> check_loop m computePartial (length h) kill 0 (check_start m history n);
     (case r of
        Panics \<Rightarrow> Some Panics
      | Returns (ok, st) \<Rightarrow>
          if ok then
            let seq = call_ids st
            in Some (Returns (True, replicate n (Some (length (s_seqs st))), s_seqs st @ [seq]))
          else Some (Returns (False, s_longest st, s_seqs st))) }"

section \<open>One search per partition\<close>

datatype par_event = Result nat | Timeout

record 'v linearizationInfo =
  li_history :: "'v entry list list"
  li_partialLinearizations :: "int list list list"

fun parallel_loop ::
  "bool \<Rightarrow> nat \<Rightarrow> (nat \<Rightarrow> bool option) \<Rightarrow> par_event list \<Rightarrow> bool \<Rightarrow> nat \<Rightarrow> nat list \<Rightarrow>
   (bool \<times> bool \<times> nat list) option" where
  "parallel_loop computeInfo n results [] ok cnt got = None"
| "parallel_loop computeInfo n results (Timeout # evs) ok cnt got = Some (ok, True, got)"
| "parallel_loop computeInfo n results (Result i # evs) ok cnt got = do {
     result \<leftarrow> results i;
     let cnt = cnt + 1;
     let ok = (ok \<and> result);
     (if \<not> ok \<and> \<not> computeInfo then Some (ok, False, got @ [i])
      else if cnt \<ge> n then Some (ok, False, got @ [i])
      else parallel_loop computeInfo n results evs ok cnt (got @ [i])) }"

definition verdict :: "(bool \<times> nat option list \<times> int list list) outcome option \<Rightarrow> bool option" where
  "verdict r = (case r of Some (Returns (ok, _)) \<Rightarrow> Some ok | _ \<Rightarrow> None)"

text \<open>The distinct pointers of \<open>longest\<close>, visited in the order \<open>visit\<close> of the Go map.\<close>

definition partials ::
  "(nat list \<Rightarrow> nat list) \<Rightarrow> (bool \<times> nat option list \<times> int list list) outcome option \<Rightarrow> int list list" where
  "partials visit r =
     (case r of
        Some (Returns (_, longest, seqs)) \<Rightarrow>
          map (\<lambda>q. seqs ! q) (visit (remdups (map the (filter (\<lambda>v. v \<noteq> None) longest))))
      | _ \<Rightarrow> [])"

text \<open>
  The results that the main loop receives were computed before it set \<open>kill\<close>; the searches that it
  only waits for afterwards (\<open>computeInfo\<close>) read \<open>kills i\<close>.
\<close>

definition checkParallel ::
  "('v, 's) Model \<Rightarrow> 'v entry list list \<Rightarrow> bool \<Rightarrow> (nat \<Rightarrow> nat \<Rightarrow> bool) \<Rightarrow> (nat list \<Rightarrow> nat list) \<Rightarrow>
   par_event list \<Rightarrow> (CheckResult \<times> 'v linearizationInfo) option" where
  "checkParallel m history computeInfo kills visit evs = do {
     let run = (\<lambda>kill i. checkSingle m (history ! i) computeInfo kill);
     (ok, timedOut, got) \<leftarrow>
       parallel_loop computeInfo (length history) (\<lambda>i. verdict (run (\<lambda>_. False) i)) evs True 0 [];
     let info = (if computeInfo
        then \<lparr>li_history = history,
              li_partialLinearizations =
                map (\<lambda>i. partials visit (if i \<in> set got then run (\<lambda>_. False) i else run (kills i) i))
                  [0..<length history]\<rparr>
        else \<lparr>li_history = [], li_partialLinearizations = []\<rparr>);
     let result = (if \<not> ok then Illegal else if timedOut then Unknown else Ok);
     Some (result, info) }"

definition checkEvents ::
  "('v \<Rightarrow> string) \<Rightarrow> ('s \<Rightarrow> string) \<Rightarrow> ('v, 's) Model \<Rightarrow> 'v Event list \<Rightarrow> bool \<Rightarrow>
   (nat \<Rightarrow> nat \<Rightarrow> bool) \<Rightarrow> (nat list \<Rightarrow> nat list) \<Rightarrow> par_event list \<Rightarrow>
   (CheckResult \<times> 'v linearizationInfo) option" where
  "checkEvents fmt_v fmt_s m history verbose kills visit evs =
     (let m = fillDefault fmt_v fmt_s m;
          partitions = the (PartitionEvent m) history;
          l = map (\<lambda>subhistory. convertEntries (renumber subhistory)) partitions
      in checkParallel m l verbose kills visit evs)"

definition checkOperations ::
  "('v entry list \<Rightarrow> 'v entry list) \<Rightarrow> ('v \<Rightarrow> string) \<Rightarrow> ('s \<Rightarrow> string) \<Rightarrow> ('v, 's) Model \<Rightarrow>
   'v Operation list \<Rightarrow> bool \<Rightarrow> (nat \<Rightarrow> nat \<Rightarrow> bool) \<Rightarrow> (nat list \<Rightarrow> nat list) \<Rightarrow> par_event list \<Rightarrow>
   (CheckResult \<times> 'v linearizationInfo) option" where
  "checkOperations srt fmt_v fmt_s m history verbose kills visit evs =
     (let m = fillDefault fmt_v fmt_s m;
          partitions = the (Partition m) history;
          l = map (makeEntries srt) partitions
      in checkParallel m l verbose kills visit evs)"

end
