(* ===== verification/Checker_Correct.thy ===== *)
theory Checker_Correct
  imports Checker
begin

text \<open>
  Correctness of the search \<open>checkSingle\<close> (\<open>porcupine/checker.go\<close>): on a well-formed history it
  never panics, always returns, and, when it is not killed, returns true exactly when the history
  is linearizable.  The proof relates the store to the positions of the operations not yet taken
  (\<open>rem\<close>), keeps the invariant \<open>search_inv\<close> through every iteration and bounds the number of
  iterations by a weight on the stack of calls.
\<close>

section \<open>The entries that are left\<close>

definition rem :: "'v entry list \<Rightarrow> nat set \<Rightarrow> nat list" where
  "rem es X = filter (\<lambda>p. op_at es p \<notin> X) [0..<length es]"

lemma in_rem [simp]: "p \<in> set (rem es X) \<longleftrightarrow> p < length es \<and> op_at es p \<notin> X"
  by (auto simp: rem_def)

lemma rem_empty [simp]: "rem es {} = [0..<length es]"
  by (simp add: rem_def)

lemma distinct_rem [simp]: "distinct (rem es X)"
  by (simp add: rem_def)

lemma sorted_rem: "sorted_wrt (<) (rem es X)"
  by (simp add: rem_def sorted_wrt_filter)

lemma rem_Nil:
  assumes wf: "wf_history es"
  shows "rem es X = [] \<longleftrightarrow> {..<n_ops es} \<subseteq> X"
proof
  assume r: "rem es X = []"
  show "{..<n_ops es} \<subseteq> X"
  proof
    fix i assume "i \<in> {..<n_ops es}"
    then have i: "i < n_ops es" by simp
    have "callPos es i \<notin> set (rem es X)" by (simp add: r)
    then show "i \<in> X" using entry_pos_props(1) [OF wf i, of callEntry] i wf by simp
  qed
next
  assume s: "{..<n_ops es} \<subseteq> X"
  have "p \<notin> set (rem es X)" for p
    using s entry_pos_unique(1) [OF wf, of p] by auto
  then show "rem es X = []" by (metis list.set_intros(1) neq_Nil_conv)
qed

text \<open>Taking operation \<open>i\<close> removes exactly its call and its return.\<close>

lemma rem_split:
  assumes wf: "wf_history es" and i: "i < n_ops es" "i \<notin> X"
  obtains as bs cs where
    "rem es X = as @ callPos es i # bs @ retPos es i # cs"
    "rem es (insert i X) = as @ bs @ cs"
    "\<forall>p \<in> set as. p < callPos es i" "\<forall>p \<in> set (bs @ cs). callPos es i < p"
proof -
  let ?c = "callPos es i" and ?r = "retPos es i" and ?N = "length es"
  let ?P = "\<lambda>X p. op_at es p \<notin> X"
  have cr: "?c < ?r" by (rule callPos_less_retPos [OF wf i(1)])
  have r: "?r < ?N" by (rule entry_pos_props(1) [OF wf i(1)])
  have up: "[0..<?N] = [0..<?c] @ ?c # [Suc ?c..<?r] @ ?r # [Suc ?r..<?N]"
  proof -
    have "[0..<?N] = [0..<?c] @ [?c..<?N]"
      using upt_add_eq_append [of 0 ?c "?N - ?c"] cr r by simp
    also have "[?c..<?N] = ?c # [Suc ?c..<?N]" using cr r by (simp add: upt_conv_Cons)
    also have "[Suc ?c..<?N] = [Suc ?c..<?r] @ [?r..<?N]"
      using upt_add_eq_append [of "Suc ?c" ?r "?N - ?r"] cr r by simp
    also have "[?r..<?N] = ?r # [Suc ?r..<?N]" using r by (simp add: upt_conv_Cons)
    finally show ?thesis by simp
  qed
  have oi: "op_at es p = i \<longleftrightarrow> p = ?c \<or> p = ?r" if "p < ?N" for p
  proof
    assume "op_at es p = i"
    then show "p = ?c \<or> p = ?r"
      using callPos_unique [OF wf that] retPos_unique [OF wf that] by auto
  qed (use wf i(1) in auto)
  have f: "filter (?P (insert i X)) xs = filter (?P X) xs"
    if "\<forall>p \<in> set xs. p < ?N \<and> p \<noteq> ?c \<and> p \<noteq> ?r" for xs
    by (rule filter_cong) (use that oi in auto)
  show ?thesis
  proof (rule that)
    show "rem es X = filter (?P X) [0..<?c] @ ?c # filter (?P X) [Suc ?c..<?r] @ ?r #
        filter (?P X) [Suc ?r..<?N]"
      unfolding rem_def up using i wf by simp
    have "rem es (insert i X) = filter (?P (insert i X)) [0..<?c] @
        filter (?P (insert i X)) [Suc ?c..<?r] @ filter (?P (insert i X)) [Suc ?r..<?N]"
      unfolding rem_def up using i wf by simp
    also have "\<dots> = filter (?P X) [0..<?c] @ filter (?P X) [Suc ?c..<?r] @
        filter (?P X) [Suc ?r..<?N]"
      using cr r by (subst (1 2 3) f) auto
    finally show "rem es (insert i X) = filter (?P X) [0..<?c] @ filter (?P X) [Suc ?c..<?r] @
        filter (?P X) [Suc ?r..<?N]" .
  qed (use cr in auto)
qed

lemma minimal_iff:
  assumes wf: "wf_history es" and i: "i < n_ops es"
  shows "minimal es X i \<longleftrightarrow> (\<forall>q \<in> set (rem es X). q < callPos es i \<longrightarrow> is_call es q)"
proof (intro iffI ballI impI)
  fix q assume m: "minimal es X i" and q: "q \<in> set (rem es X)" "q < callPos es i"
  show "is_call es q"
  proof (rule ccontr)
    assume "\<not> is_call es q"
    then have "q = retPos es (op_at es q)" using retPos_unique [OF wf] q by simp
    then have "precedes es (op_at es q) i" using q by (simp add: precedes_def)
    then have "op_at es q \<in> X" using m entry_pos_unique(1) [OF wf, of q] q
      by (auto simp: minimal_def)
    then show False using q by simp
  qed
next
  assume c: "\<forall>q \<in> set (rem es X). q < callPos es i \<longrightarrow> is_call es q"
  show "minimal es X i"
    unfolding minimal_def
  proof (intro allI impI, rule ccontr)
    fix j assume j: "j < n_ops es" "precedes es j i" "j \<notin> X"
    then have "retPos es j \<in> set (rem es X)" "retPos es j < callPos es i"
      using entry_pos_props(1) [OF wf j(1), of returnEntry] wf by (auto simp: precedes_def)
    then have "is_call es (retPos es j)" using c by blast
    then show False using wf j by simp
  qed
qed

text \<open>Every candidate called before position \<open>p\<close> has failed.\<close>

definition tried :: "('v, 's) Model \<Rightarrow> 'v entry list \<Rightarrow> 's \<Rightarrow> nat set \<Rightarrow> nat \<Rightarrow> bool" where
  "tried m es s X p \<longleftrightarrow>
     (\<forall>j js. j < n_ops es \<longrightarrow> callPos es j < p \<longrightarrow> \<not> completes m es s X (j # js))"

lemma tried_all_dead:
  assumes wf: "wf_history es" and p: "p \<in> set (rem es X)" "\<not> is_call es p"
    and t: "tried m es s X p"
  shows "dead m es s X"
  unfolding dead_def
proof (intro allI notI)
  fix "is" assume c: "completes m es s X is"
  show False
  proof (cases "is")
    case Nil
    then have "rem es X = []" using c rem_Nil [OF wf] by simp
    with p show False by simp
  next
    case (Cons j js)
    with c have j: "j < n_ops es" "minimal es X j" by (auto simp: completes_Cons)
    then have "\<not> p < callPos es j" using minimal_iff [OF wf j(1)] p by blast
    moreover have "callPos es j \<noteq> p" using p(2) wf j by auto
    ultimately have "callPos es j < p" by simp
    with t j(1) c Cons show False by (auto simp: tried_def)
  qed
qed

lemma tried_first:
  assumes wf: "wf_history es" and "\<forall>q \<in> set (rem es X). p \<le> q"
  shows "tried m es s X p"
  unfolding tried_def
proof (intro allI impI notI)
  fix j js assume j: "j < n_ops es" "callPos es j < p" and c: "completes m es s X (j # js)"
  then have "callPos es j \<in> set (rem es X)"
    using entry_pos_props(1) [OF wf j(1), of callEntry] wf by (auto simp: completes_Cons)
  with assms(2) j(2) show False by fastforce
qed

lemma tried_next:
  assumes wf: "wf_history es" and t: "tried m es s X p"
    and f: "is_call es p \<Longrightarrow> \<forall>js. \<not> completes m es s X (op_at es p # js)"
    and n: "\<forall>q \<in> set (rem es X). q < p' \<longrightarrow> q \<le> p" and p: "p < length es"
  shows "tried m es s X p'"
  unfolding tried_def
proof (intro allI impI notI)
  fix j js assume j: "j < n_ops es" "callPos es j < p'" and c: "completes m es s X (j # js)"
  then have "callPos es j \<in> set (rem es X)"
    using entry_pos_props(1) [OF wf j(1), of callEntry] wf by (auto simp: completes_Cons)
  with n j(2) have "callPos es j \<le> p" by blast
  moreover have "callPos es j \<noteq> p"
  proof
    assume e: "callPos es j = p"
    then have "is_call es p" "op_at es p = j" using wf j(1) by (metis is_call_pos, metis op_at_pos)
    with f c show False by blast
  qed
  ultimately show False using t j(1) c by (auto simp: tried_def)
qed

section \<open>The store along a path\<close>

text \<open>The store after the operations \<open>is\<close> have been lifted, one after the other.\<close>

definition take_out :: "'v entry list \<Rightarrow> 'v heap \<Rightarrow> nat \<Rightarrow> 'v heap" where
  "take_out es h i = unlink (unlink h (addr es (callPos es i))) (addr es (retPos es i))"

definition store_ok :: "'v entry list \<Rightarrow> 'v heap \<Rightarrow> nat set \<Rightarrow> bool" where
  "store_ok es h X \<longleftrightarrow> cells_ok es h \<and> dll h (length es # map (addr es) (rem es X))"

lemma store_lift:
  assumes wf: "wf_history es" and ok: "store_ok es h X" and i: "i < n_ops es" "i \<notin> X"
  shows "lift h (addr es (callPos es i)) = Some (take_out es h i)"
    "unlift (take_out es h i) (addr es (callPos es i)) = Some h"
    "store_ok es (take_out es h i) (insert i X)"
proof -
  let ?c = "addr es (callPos es i)" and ?r = "addr es (retPos es i)"
  obtain as bs cs where sp: "rem es X = as @ callPos es i # bs @ retPos es i # cs"
    "rem es (insert i X) = as @ bs @ cs" using rem_split [OF wf i] by metis
  obtain ps p where ps: "length es # map (addr es) as = ps @ [p]"
    by (metis list.distinct(1) rev_exhaust)
  have l: "length es # map (addr es) (rem es X) =
      ps @ p # ?c # map (addr es) bs @ ?r # map (addr es) cs"
    using ps sp(1) by (metis (no_types, lifting) append.assoc append_Cons append_Nil list.simps(9)
        map_append)
  have d: "dll h (ps @ p # ?c # map (addr es) bs @ ?r # map (addr es) cs)"
    using ok l by (simp add: store_ok_def)
  have "callPos es i < length es" using entry_pos_props(1) [OF wf i(1)] .
  then have mt: "n_match (h ! ?c) = Some ?r"
    using ok wf i(1) by (simp add: store_ok_def cells_ok_def)
  show "lift h ?c = Some (take_out es h i)"
    unfolding take_out_def by (rule lift_unlink [OF d mt])
  show "unlift (take_out es h i) ?c = Some h"
    unfolding take_out_def by (rule unlift_relink [OF d mt])
  have "dll (take_out es h i) (ps @ p # map (addr es) bs @ map (addr es) cs)"
    unfolding take_out_def by (rule dll_lift [OF d])
  moreover have "ps @ p # map (addr es) bs @ map (addr es) cs =
      length es # map (addr es) (rem es (insert i X))"
    using ps sp(2) by (metis (no_types, lifting) append.assoc append_Cons append_Nil map_append)
  moreover have "cells_ok es (take_out es h i)"
  proof (rule cells_ok_same_data)
    show "cells_ok es h" using ok by (simp add: store_ok_def)
    obtain qs q where q: "ps @ p # map (addr es) bs = qs @ [q]"
      by (metis append_is_Nil_conv list.distinct(1) rev_exhaust)
    have d2: "dll (unlink h ?c) (qs @ q # ?r # map (addr es) cs)"
      using dll_unlink [OF d] q by (metis append.assoc append_Cons append_Nil)
    show "same_data (take_out es h i ! k) (h ! k)" for k
      unfolding take_out_def same_data_def using unlink_frame [OF d] unlink_frame [OF d2] by simp
  qed
  ultimately show "store_ok es (take_out es h i) (insert i X)" by (simp add: store_ok_def)
qed

lemma store_path:
  assumes wf: "wf_history es" and ok: "store_ok es h {}"
    and d: "distinct is" "set is \<subseteq> {..<n_ops es}"
  shows "store_ok es (foldl (take_out es) h is) (set is)"
  using d
proof (induction "is" rule: rev_induct)
  case (snoc i "is")
  then have "store_ok es (foldl (take_out es) h is) (set is)" by simp
  then have "store_ok es (take_out es (foldl (take_out es) h is) i) (insert i (set is))"
    by (rule store_lift(3) [OF wf]) (use snoc.prems in auto)
  then show ?case by simp
qed (use ok in simp)

lemma store_next:
  assumes ok: "store_ok es h X" and r: "rem es X = ps @ p # qs"
  shows "n_next (h ! addr es p) = (case qs of [] \<Rightarrow> None | q # _ \<Rightarrow> Some (addr es q))"
proof -
  obtain xs x where xs: "length es # map (addr es) ps = xs @ [x]"
    by (metis list.distinct(1) rev_exhaust)
  have "dll h (xs @ x # addr es p # map (addr es) qs)"
    using ok r xs by (metis (no_types, lifting) append.assoc append_Cons append_Nil list.simps(9)
        map_append store_ok_def)
  from dll_cell(3) [OF this] show ?thesis by (cases qs) auto
qed

lemma store_head:
  assumes "store_ok es h X"
  shows "n_next (h ! length es) = (case rem es X of [] \<Rightarrow> None | q # _ \<Rightarrow> Some (addr es q))"
  using assms by (cases "rem es X") (auto simp: store_ok_def dll_def)

section \<open>A weight on the stack of calls\<close>

fun weight :: "nat \<Rightarrow> nat \<Rightarrow> nat list \<Rightarrow> nat" where
  "weight B (Suc e) (x # xs) = (x + 1) * B ^ e + weight B e xs"
| "weight B (Suc e) [] = 0"
| "weight B 0 xs = 0"

lemma weight_Nil [simp]: "weight B e [] = 0"
  by (cases e) auto

lemma weight_bound: "0 < B \<Longrightarrow> \<forall>x \<in> set xs. x + 1 < B \<Longrightarrow> weight B e xs < B ^ e"
proof (induction B e xs rule: weight.induct)
  case (1 B e x xs)
  then have "weight B e xs < B ^ e" "Suc x < B" by auto
  then have "(x + 1) * B ^ e + weight B e xs < (x + 2) * B ^ e" by simp
  also have "\<dots> \<le> B * B ^ e" using \<open>Suc x < B\<close> by (intro mult_right_mono) auto
  finally show ?case by simp
qed auto

lemma weight_last: "0 < B \<Longrightarrow> length xs < e \<Longrightarrow> p < p' \<Longrightarrow> weight B e (xs @ [p]) < weight B e (xs @ [p'])"
  by (induction B e xs rule: weight.induct) auto

lemma weight_push: "0 < B \<Longrightarrow> length xs < e \<Longrightarrow> weight B e xs < weight B e (xs @ [q])"
  by (induction B e xs rule: weight.induct) auto

lemma weight_pop:
  "length xs + 1 < e \<Longrightarrow> a < a' \<Longrightarrow> p + 1 < B \<Longrightarrow> weight B e (xs @ [a, p]) < weight B e (xs @ [a'])"
proof (induction B e xs rule: weight.induct)
  case (2 B e)
  then obtain e' where e: "e = Suc e'" by (cases e) auto
  have "weight B (Suc e) [a, p] = (a + 1) * B ^ Suc e' + (p + 1) * B ^ e'" by (simp add: e)
  also have "\<dots> < (a + 1) * B ^ Suc e' + B * B ^ e'"
    using "2.prems" by (intro add_strict_left_mono mult_strict_right_mono) auto
  also have "\<dots> = (a + 2) * B ^ Suc e'" by simp
  also have "\<dots> \<le> (a' + 1) * B ^ Suc e'" using "2.prems" by (intro mult_right_mono) auto
  finally show ?case by (simp add: e)
qed auto

section \<open>The invariant\<close>

text \<open>
  \<open>cs\<close> lists the operations on the stack with the state before each.  \<open>path\<close>: each was a legal
  candidate, its step was accepted, and all candidates before it had failed.
\<close>

fun path :: "('v, 's) Model \<Rightarrow> 'v entry list \<Rightarrow> 's \<Rightarrow> nat set \<Rightarrow> (nat \<times> 's) list \<Rightarrow> 's \<Rightarrow> bool" where
  "path m es s0 X [] s \<longleftrightarrow> s = s0"
| "path m es s0 X ((i, t) # cs) s \<longleftrightarrow>
     t = s0 \<and> i < n_ops es \<and> i \<notin> X \<and> minimal es X i \<and> tried m es s0 X (callPos es i) \<and>
     (case Step m s0 (input_of es i) (output_of es i) of
        (ok, s1) \<Rightarrow> ok \<and> path m es s1 (insert i X) cs s)"

lemma path_snoc:
  "path m es s0 X (cs @ [(i, t)]) s \<longleftrightarrow>
     path m es s0 X cs t \<and> i < n_ops es \<and> i \<notin> X \<union> fst ` set cs \<and>
     minimal es (X \<union> fst ` set cs) i \<and> tried m es t (X \<union> fst ` set cs) (callPos es i) \<and>
     Step m t (input_of es i) (output_of es i) = (True, s)"
proof (induction cs arbitrary: s0 X)
  case Nil
  then show ?case by (auto split: prod.splits)
next
  case (Cons c cs)
  obtain j u where c: "c = (j, u)" by fastforce
  show ?case using Cons.IH unfolding c by (auto split: prod.splits)
qed

lemma path_takes: "path m es s0 X cs s \<Longrightarrow> takes m es s0 X (map fst cs)"
proof (induction cs arbitrary: s0 X)
  case (Cons c cs)
  then show ?case by (cases c) (auto split: prod.splits)
qed simp

lemma path_distinct:
  assumes "path m es s0 X cs s"
  shows "distinct (map fst cs)" "fst ` set cs \<subseteq> {..<n_ops es}" "fst ` set cs \<inter> X = {}"
  using path_takes [OF assms] by (auto simp: takes_iff)

lemma path_length: "path m es s0 {} cs s \<Longrightarrow> length cs \<le> n_ops es"
  using path_distinct [of m es s0 "{}" cs s]
  by (metis card_lessThan card_mono distinct_card finite_lessThan length_map set_map)

definition state_at :: "(nat \<times> 's) list \<Rightarrow> 's \<Rightarrow> nat \<Rightarrow> 's" where
  "state_at cs s k = (if k < length cs then snd (cs ! k) else s)"

definition taken :: "(nat \<times> 's) list \<Rightarrow> nat set" where
  "taken cs = fst ` set cs"

text \<open>A cached pair is on the stack or leads nowhere.\<close>

definition cache_entry_ok ::
  "('v, 's) Model \<Rightarrow> 'v entry list \<Rightarrow> nat \<Rightarrow> (nat \<times> 's) list \<Rightarrow> 's \<Rightarrow> 's cacheEntry \<Rightarrow> bool" where
  "cache_entry_ok m es l cs s ce \<longleftrightarrow>
     length (ce_linearized ce) = l \<and>
     (dead m es (ce_state ce) (bits_of (ce_linearized ce)) \<or>
      (\<exists>k \<le> length cs. bits_of (ce_linearized ce) = taken (take k cs) \<and> ce_state ce = state_at cs s k))"

text \<open>A recorded prefix is a legal beginning of a linearization and contains the operation.\<close>

definition longest_ok ::
  "('v, 's) Model \<Rightarrow> 'v entry list \<Rightarrow> nat option list \<Rightarrow> int list list \<Rightarrow> bool" where
  "longest_ok m es longest seqs \<longleftrightarrow>
     length longest = n_ops es \<and>
     (\<forall>i < n_ops es. \<forall>q. longest ! i = Some q \<longrightarrow> q < length seqs \<and>
        (\<exists>is. seqs ! q = map int is \<and> takes m es (Init m ()) {} is \<and> i \<in> set is))"

definition cursor_ok ::
  "('v, 's) Model \<Rightarrow> 'v entry list \<Rightarrow> nat set \<Rightarrow> 's \<Rightarrow> nat \<Rightarrow> nat option \<Rightarrow> bool" where
  "cursor_ok m es X s p e \<longleftrightarrow>
     (if rem es X = [] then p = length es \<and> e = None
      else p \<in> set (rem es X) \<and> e = Some (addr es p) \<and>
           (\<forall>q \<in> set (rem es X). q < p \<longrightarrow> is_call es q) \<and> tried m es s X p)"

definition search_inv ::
  "('v, 's) Model \<Rightarrow> 'v entry list \<Rightarrow> 'v heap \<Rightarrow> (nat \<times> 's) list \<Rightarrow> nat \<Rightarrow> ('v, 's) search \<Rightarrow> bool" where
  "search_inv m es h0 cs p st \<longleftrightarrow>
     s_heap st = foldl (take_out es) h0 (map fst cs) \<and>
     s_calls st = map (\<lambda>(i, t). \<lparr>c_entry = addr es (callPos es i), c_state = t\<rparr>) cs \<and>
     path m es (Init m ()) {} cs (s_state st) \<and>
     bits_of (s_linearized st) = taken cs \<and> n_ops es \<le> 64 * length (s_linearized st) \<and>
     (\<forall>hash. \<forall>ce \<in> set (s_cache st hash).
        cache_entry_ok m es (length (s_linearized st)) cs (s_state st) ce) \<and>
     cursor_ok m es (taken cs) (s_state st) p (s_entry st) \<and>
     longest_ok m es (s_longest st) (s_seqs st)"

definition progress :: "'v entry list \<Rightarrow> (nat \<times> 's) list \<Rightarrow> nat \<Rightarrow> nat" where
  "progress es cs p =
     weight (length es + 2) (n_ops es + 1) (map (\<lambda>c. callPos es (fst c)) cs @ [p])"

lemma cacheContains_loop_eq:
  "Equal m = Some eq \<Longrightarrow>
   cacheContains_loop m ce xs =
     Some (\<exists>x \<in> set xs. ce_linearized ce = ce_linearized x \<and> eq (ce_state ce) (ce_state x))"
  by (induction xs) auto

lemma search_inv_store:
  assumes wf: "wf_history es" and h0: "store_ok es h0 {}" and inv: "search_inv m es h0 cs p st"
  shows "store_ok es (s_heap st) (taken cs)"
proof -
  have "path m es (Init m ()) {} cs (s_state st)" using inv by (simp add: search_inv_def)
  from path_distinct [OF this] have "store_ok es (foldl (take_out es) h0 (map fst cs)) (set (map fst cs))"
    by (intro store_path [OF wf h0]) auto
  then show ?thesis using inv by (simp add: search_inv_def taken_def)
qed

text \<open>The entry after a call exists: the return of the call is still in the list.\<close>

lemma next_entry:
  assumes wf: "wf_history es" and st: "store_ok es h X"
    and p: "p \<in> set (rem es X)" "is_call es p"
  obtains q where "q \<in> set (rem es X)" "p < q" "n_next (h ! addr es p) = Some (addr es q)"
    "\<forall>x \<in> set (rem es X). x < q \<longrightarrow> x \<le> p"
proof -
  let ?i = "op_at es p"
  have i: "?i < n_ops es" "?i \<notin> X" "p = callPos es ?i"
    using p entry_pos_unique(1) [OF wf] callPos_unique [OF wf _ p(2)] by auto
  obtain ps qs where r: "rem es X = ps @ p # qs" using p(1) by (metis split_list)
  have s: "sorted_wrt (<) (ps @ p # qs)" using sorted_rem [of es X] r by simp
  have "retPos es ?i \<in> set (rem es X)" "p < retPos es ?i"
    using i entry_pos_props(1) [OF wf i(1), of returnEntry] callPos_less_retPos [OF wf i(1)] wf by auto
  then have "retPos es ?i \<in> set qs" using s r by (auto simp: sorted_wrt_append)
  then obtain q qs' where q: "qs = q # qs'" by (cases qs) auto
  show ?thesis
  proof (rule that)
    show "q \<in> set (rem es X)" using r q by simp
    show "p < q" using s q by (simp add: sorted_wrt_append)
    show "n_next (h ! addr es p) = Some (addr es q)" using store_next [OF st r] q by simp
    show "\<forall>x \<in> set (rem es X). x < q \<longrightarrow> x \<le> p"
      using s unfolding r q by (auto simp: sorted_wrt_append)
  qed
qed

text \<open>Moving the cursor past a call that failed.\<close>

lemma advance_cursor:
  assumes wf: "wf_history es" and st: "store_ok es h X"
    and c: "cursor_ok m es X s p (Some (addr es p))" and p: "p \<in> set (rem es X)" "is_call es p"
    and f: "\<forall>js. \<not> completes m es s X (op_at es p # js)"
  shows "\<exists>q. p < q \<and> q < length es \<and> cursor_ok m es X s q (n_next (h ! addr es p))"
proof -
  obtain q where q: "q \<in> set (rem es X)" "p < q" "n_next (h ! addr es p) = Some (addr es q)"
    "\<forall>x \<in> set (rem es X). x < q \<longrightarrow> x \<le> p" using next_entry [OF wf st p] by metis
  have c': "\<forall>x \<in> set (rem es X). x < p \<longrightarrow> is_call es x" "tried m es s X p"
    using c p by (auto simp: cursor_ok_def split: if_splits)
  have "tried m es s X q"
    by (rule tried_next [OF wf c'(2) _ q(4)]) (use f p in auto)
  moreover have "\<forall>x \<in> set (rem es X). x < q \<longrightarrow> is_call es x"
    using c'(1) q(4) p(2) by (metis le_neq_implies_less)
  ultimately have "cursor_ok m es X s q (n_next (h ! addr es p))"
    using q(1,3) by (cases "rem es X = []") (simp_all add: cursor_ok_def del: in_rem)
  with q(1,2) show ?thesis by auto
qed

section \<open>Every iteration keeps the invariant\<close>

lemma cache_entry_push:
  "cache_entry_ok m es l cs s ce \<Longrightarrow> cache_entry_ok m es l (cs @ [(i, s)]) s' ce"
proof -
  assume ok: "cache_entry_ok m es l cs s ce"
  have "state_at (cs @ [(i, s)]) s' k = state_at cs s k" "take k (cs @ [(i, s)]) = take k cs"
    if "k \<le> length cs" for k using that by (auto simp: state_at_def nth_append)
  with ok show ?thesis unfolding cache_entry_ok_def by (metis le_SucI length_append_singleton)
qed

lemma cache_entry_new:
  assumes "length b = l" "bits_of b = insert i (taken cs)"
  shows "cache_entry_ok m es l (cs @ [(i, s)]) s' \<lparr>ce_linearized = b, ce_state = s'\<rparr>"
  using assms by (auto simp: cache_entry_ok_def state_at_def taken_def intro!: exI [of _ "Suc (length cs)"])

lemma cache_entry_pop:
  assumes ok: "cache_entry_ok m es l (cs @ [(i, t)]) s ce"
    and d: "dead m es s (taken (cs @ [(i, t)]))"
  shows "cache_entry_ok m es l cs t ce"
proof -
  have "dead m es (ce_state ce) (bits_of (ce_linearized ce)) \<or>
      (\<exists>k \<le> length cs. bits_of (ce_linearized ce) = taken (take k cs) \<and> ce_state ce = state_at cs t k)"
    if k: "k \<le> length (cs @ [(i, t)])" "bits_of (ce_linearized ce) = taken (take k (cs @ [(i, t)]))"
      "ce_state ce = state_at (cs @ [(i, t)]) s k" for k
  proof (cases "k \<le> length cs")
    case True
    then have "state_at (cs @ [(i, t)]) s k = state_at cs t k" "take k (cs @ [(i, t)]) = take k cs"
      by (auto simp: state_at_def nth_append)
    with k True show ?thesis by metis
  next
    case False
    with k(1) have "k = length (cs @ [(i, t)])" by simp
    with k d show ?thesis by (simp add: state_at_def)
  qed
  with ok show ?thesis unfolding cache_entry_ok_def by metis
qed

lemma progress_advance: "length cs \<le> n_ops es \<Longrightarrow> p < q \<Longrightarrow> progress es cs p < progress es cs q"
  unfolding progress_def by (rule weight_last) auto

lemma progress_push:
  "length cs < n_ops es \<Longrightarrow> progress es cs (callPos es i) < progress es (cs @ [(i, s)]) q"
  unfolding progress_def using weight_push [of "length es + 2" "map (\<lambda>c. callPos es (fst c)) cs @ [callPos es i]"]
  by simp

lemma progress_pop:
  "length cs < n_ops es \<Longrightarrow> callPos es i < q \<Longrightarrow> p \<le> length es \<Longrightarrow>
   progress es (cs @ [(i, s)]) p < progress es cs q"
  unfolding progress_def using weight_pop [of "map (\<lambda>c. callPos es (fst c)) cs"] by simp

lemma taken_snoc [simp]: "taken (cs @ [(i, s)]) = insert i (taken cs)"
  by (auto simp: taken_def)

lemma first_cursor:
  assumes wf: "wf_history es" and st: "store_ok es h X"
  shows "\<exists>q \<le> length es. cursor_ok m es X s q (n_next (h ! length es))"
proof (cases "rem es X")
  case Nil
  then show ?thesis using store_head [OF st] by (auto simp: cursor_ok_def)
next
  case (Cons q qs)
  have s: "\<forall>x \<in> set (rem es X). q \<le> x" using sorted_rem [of es X] Cons by auto
  moreover have "q \<in> set (rem es X)" using Cons by simp
  moreover have "tried m es s X q" by (rule tried_first [OF wf s])
  ultimately have "cursor_ok m es X s q (n_next (h ! length es))"
    using store_head [OF st] Cons by (auto simp: cursor_ok_def simp del: in_rem)
  with \<open>q \<in> set (rem es X)\<close> show ?thesis by (intro exI [of _ q]) simp
qed

lemma cached_dead:
  assumes se: "state_equality m" and eq: "Equal m = Some eq"
    and p: "path m es (Init m ()) {} (cs @ [(i, s)]) s'"
    and ce: "cache_entry_ok m es l cs s ce" "bits_of (ce_linearized ce) = insert i (taken cs)"
      "eq s' (ce_state ce)"
  shows "dead m es s' (insert i (taken cs))"
proof -
  have "card (insert i (taken cs)) = Suc (length cs)"
    using path_distinct(1) [OF p] by (simp add: taken_def distinct_card flip: set_map)
  moreover have "card (taken (take k cs)) \<le> k" for k
  proof -
    have "card (taken (take k cs)) \<le> length (take k cs)"
      unfolding taken_def by (metis card_length length_map set_map)
    then show ?thesis by simp
  qed
  ultimately have "\<not> (\<exists>k \<le> length cs. bits_of (ce_linearized ce) = taken (take k cs))"
    using ce(2) by (metis Suc_n_not_le_n order_trans)
  with ce have "dead m es (ce_state ce) (insert i (taken cs))" by (auto simp: cache_entry_ok_def)
  then show ?thesis using state_equality.equal_dead [OF se, of s' "ce_state ce"] ce(3) eq
    by (simp add: equal_fun_def)
qed

lemma try_call_inv:
  assumes wf: "wf_history es" and h0: "store_ok es h0 {}"
    and se: "state_equality m" and eq: "Equal m = Some eq"
    and inv: "search_inv m es h0 cs p st" and p: "p \<in> set (rem es (taken cs))" "is_call es p"
  shows "\<exists>st' cs' p'.
    try_call m (length es) (addr es p) (addr es (retPos es (op_at es p))) st = Some st' \<and>
    search_inv m es h0 cs' p' st' \<and> p' \<le> length es \<and> progress es cs p < progress es cs' p'"
proof -
  define i where "i = op_at es p"
  let ?X = "taken cs" and ?s = "s_state st" and ?h = "s_heap st"
  note I = inv [unfolded search_inv_def]
  have st: "store_ok es ?h ?X" by (rule search_inv_store [OF wf h0 inv])
  have pl: "p < length es" using p by simp
  have i: "i < n_ops es" "i \<notin> ?X" "p = callPos es i"
    using p entry_pos_unique(1) [OF wf pl] callPos_unique [OF wf pl p(2)] by (auto simp: i_def)
  have rl: "retPos es i < length es" by (rule entry_pos_props(1) [OF wf i(1)])
  have cells: "n_value (?h ! addr es p) = Some (input_of es i)" "n_id (?h ! addr es p) = int i"
    "n_value (?h ! addr es (retPos es i)) = Some (output_of es i)"
    using st pl rl entry_pos_unique(3) [OF wf pl] unfolding i_def [symmetric]
    by (auto simp: store_ok_def cells_ok_def input_of_def output_of_def i(3) [symmetric])
  have cur: "cursor_ok m es ?X ?s p (s_entry st)" using I by simp
  have ne: "rem es ?X \<noteq> []" using p by (auto simp del: in_rem)
  have e: "s_entry st = Some (addr es p)" "tried m es ?s ?X p"
    "\<forall>q \<in> set (rem es ?X). q < p \<longrightarrow> is_call es q"
    using cur ne by (auto simp: cursor_ok_def)
  have mn: "minimal es ?X i" using e(3) i(3) minimal_iff [OF wf i(1)] by simp
  have len: "length cs \<le> n_ops es" by (rule path_length) (use I in auto)
  have skip: "\<exists>st' cs' p'. Some (st\<lparr>s_entry := n_next (?h ! addr es p)\<rparr>) = Some st' \<and>
      search_inv m es h0 cs' p' st' \<and> p' \<le> length es \<and> progress es cs p < progress es cs' p'"
    if f: "\<forall>js. \<not> completes m es ?s ?X (i # js)"
  proof -
    obtain q where q: "p < q" "q < length es" "cursor_ok m es ?X ?s q (n_next (?h ! addr es p))"
      using advance_cursor [OF wf st _ p] cur e(1) f unfolding i_def by metis
    then have "search_inv m es h0 cs q (st\<lparr>s_entry := n_next (?h ! addr es p)\<rparr>)"
      using I by (simp add: search_inv_def)
    with less_imp_le [OF q(2)] progress_advance [OF len q(1)] show ?thesis by blast
  qed
  obtain ok s' where stp: "Step m ?s (input_of es i) (output_of es i) = (ok, s')" by fastforce
  show ?thesis
  proof (cases ok)
    case False
    then have "\<forall>js. \<not> completes m es ?s ?X (i # js)" by (simp add: completes_Cons stp)
    from skip [OF this] show ?thesis using False cells by (simp add: try_call_def stp i_def [symmetric])
  next
    case True
    have il: "i < 64 * length (s_linearized st)" using i(1) I by linarith
    then obtain lin where lin: "bitset_set (s_linearized st) i = Some lin"
      using bs.ins_defined by blast
    have lb: "bits_of lin = insert i ?X" "length lin = length (s_linearized st)"
      using bits_of_set [OF lin] I by auto
    let ?ce = "\<lparr>ce_linearized = lin, ce_state = s'\<rparr>"
    define seen where "seen = (\<exists>x \<in> set (s_cache st (bitset_hash lin)).
        lin = ce_linearized x \<and> eq s' (ce_state x))"
    have cc: "cacheContains m (s_cache st) ?ce = Some seen"
      by (simp add: cacheContains_def cacheContains_loop_eq [OF eq] seen_def)
    have pth: "path m es (Init m ()) {} (cs @ [(i, ?s)]) s'"
      using I i mn e(2) stp True by (simp add: path_snoc taken_def)
    show ?thesis
    proof (cases seen)
      case seen: True
      then obtain x where x: "x \<in> set (s_cache st (bitset_hash lin))" "lin = ce_linearized x"
        "eq s' (ce_state x)" by (auto simp: seen_def)
      then have "dead m es s' (insert i ?X)"
        using cached_dead [OF se eq pth, of "length (s_linearized st)" x] I lb by auto
      then have "\<forall>js. \<not> completes m es ?s ?X (i # js)" by (simp add: completes_Cons stp dead_def)
      from skip [OF this] show ?thesis using True seen cells lin cc
        by (simp add: try_call_def stp i_def [symmetric])
    next
      case unseen: False
      let ?h' = "take_out es ?h i"
      have lift: "lift ?h (addr es p) = Some ?h'" and st': "store_ok es ?h' (insert i ?X)"
        using store_lift [OF wf st i(1,2)] i(3) by simp_all
      obtain q where q: "q \<le> length es" "cursor_ok m es (insert i ?X) s' q (n_next (?h' ! length es))"
        using first_cursor [OF wf st', of m s'] by blast
      let ?st = "st\<lparr>s_cache := (s_cache st)(bitset_hash lin := s_cache st (bitset_hash lin) @ [?ce]),
        s_calls := s_calls st @ [\<lparr>c_entry = addr es p, c_state = ?s\<rparr>], s_state := s',
        s_linearized := lin, s_heap := ?h', s_entry := n_next (?h' ! length es)\<rparr>"
      have run: "try_call m (length es) (addr es p) (addr es (retPos es i)) st = Some ?st"
        using True unseen cells lin cc lift by (simp add: try_call_def stp Let_def)
      moreover have "\<forall>hash. \<forall>ce \<in> set (s_cache st hash).
          cache_entry_ok m es (length lin) (cs @ [(i, ?s)]) s' ce"
        using I lb(2) by (auto intro: cache_entry_push)
      moreover have "cache_entry_ok m es (length lin) (cs @ [(i, ?s)]) s' ?ce"
        using lb by (intro cache_entry_new) auto
      ultimately have "search_inv m es h0 (cs @ [(i, ?s)]) q ?st"
        unfolding search_inv_def using I pth q lb i(3) by simp
      moreover have "progress es cs p < progress es (cs @ [(i, ?s)]) q"
        unfolding i(3) by (rule progress_push) (use path_length [OF pth] in simp)
      ultimately show ?thesis using q(1) run unfolding i_def by blast
    qed
  qed
qed

lemma longest_loop_ok:
  assumes "longest_ok m es longest seqs" and ids: "ids = map int is" "takes m es (Init m ()) {} is"
    and vs: "\<forall>v \<in> set vs. \<exists>j \<in> set is. n_id (h ! c_entry v) = int j"
    and "made \<longrightarrow> seqs \<noteq> [] \<and> last seqs = ids"
  shows "\<exists>seqs' longest'. longest_loop h ids made seqs longest vs = Some (seqs', longest') \<and>
    longest_ok m es longest' seqs'"
  using assms(1,4,5)
proof (induction vs arbitrary: made seqs longest)
  case (Cons v vs)
  then obtain j where j: "j \<in> set is" "n_id (h ! c_entry v) = int j" by auto
  have jn: "j < n_ops es" using j(1) ids(2) by (auto simp: takes_iff)
  have ll: "length longest = n_ops es" using Cons.prems(1) by (simp add: longest_ok_def)
  have jg: "int_get longest (n_id (h ! c_entry v)) = Some (longest ! j)"
    using jn ll j(2) by (simp add: slice_get_def)
  have jp: "int_put longest (n_id (h ! c_entry v)) x = Some (longest[j := x])" for x
    using jn ll j(2) by (simp add: slice_put_def)
  show ?case
  proof (cases "case longest ! j of None \<Rightarrow> True | Some q \<Rightarrow> length ids > length (seqs ! q)")
    case False
    have "longest_loop h ids made seqs longest (v # vs) = longest_loop h ids made seqs longest vs"
      using False by (simp add: jg)
    then show ?thesis using Cons.IH [OF Cons.prems(1) _ Cons.prems(3)] Cons.prems(2) by simp
  next
    case True
    let ?seqs = "if made then seqs else seqs @ [ids]"
    let ?longest = "longest[j := Some (length ?seqs - 1)]"
    have run: "longest_loop h ids made seqs longest (v # vs) = longest_loop h ids True ?seqs ?longest vs"
      using True by (simp add: jg jp Let_def)
    have ls: "?seqs \<noteq> []" "last ?seqs = ids" using Cons.prems(3) by auto
    have "longest_ok m es ?longest ?seqs"
      unfolding longest_ok_def
    proof (intro conjI allI impI)
      show "length ?longest = n_ops es" using ll by simp
      fix k q assume k: "k < n_ops es" "?longest ! k = Some q"
      have new: "?seqs ! (length ?seqs - 1) = ids" "length ?seqs - 1 < length ?seqs"
        using ls by (auto simp: last_conv_nth)
      have old: "q < length seqs \<Longrightarrow> q < length ?seqs \<and> ?seqs ! q = seqs ! q"
        by (auto simp: nth_append)
      show "q < length ?seqs" using k Cons.prems(1) new(2) old ll
        by (cases "k = j") (auto simp: longest_ok_def)
      show "\<exists>is. ?seqs ! q = map int is \<and> takes m es (Init m ()) {} is \<and> k \<in> set is"
      proof (cases "k = j")
        case True
        then show ?thesis using k new(1) ids j(1) jn ll by auto
      next
        case False
        then have "longest ! k = Some q" using k(2) by simp
        with Cons.prems(1) k(1) old show ?thesis by (metis longest_ok_def)
      qed
    qed
    then show ?thesis unfolding run by (rule Cons.IH) (use Cons.prems(2) ls in auto)
  qed
qed simp

lemma backtrack_inv:
  assumes wf: "wf_history es" and h0: "store_ok es h0 {}"
    and inv: "search_inv m es h0 cs p st"
    and p: "p \<in> set (rem es (taken cs))" "\<not> is_call es p" and ne: "cs \<noteq> []"
  shows "\<exists>st' cs' p'. backtrack cp st = Some st' \<and>
    search_inv m es h0 cs' p' st' \<and> p' \<le> length es \<and> progress es cs p < progress es cs' p'"
proof -
  obtain cs0 i t where cs: "cs = cs0 @ [(i, t)]" using ne by (metis rev_exhaust surj_pair)
  let ?X = "taken cs0" and ?s = "s_state st" and ?h = "s_heap st"
  note I = inv [unfolded search_inv_def]
  have st: "store_ok es ?h (taken cs)" by (rule search_inv_store [OF wf h0 inv])
  have pth: "path m es (Init m ()) {} (cs0 @ [(i, t)]) ?s" using I cs by simp
  then have i: "i < n_ops es" "i \<notin> ?X" "minimal es ?X i" "tried m es t ?X (callPos es i)"
    "path m es (Init m ()) {} cs0 t" "Step m t (input_of es i) (output_of es i) = (True, ?s)"
    by (simp_all add: path_snoc taken_def)
  have ne: "rem es (taken cs) \<noteq> []" using p by (auto simp del: in_rem)
  then have tr: "tried m es ?s (taken cs) p" using I by (auto simp: cursor_ok_def)
  have dd: "dead m es ?s (taken cs)" by (rule tried_all_dead [OF wf p tr])
  let ?g = "foldl (take_out es) h0 (map fst cs0)"
  have st0: "store_ok es ?g ?X"
    using store_path [OF wf h0, of "map fst cs0"] path_distinct [OF i(5)] by (simp add: taken_def)
  have unl: "unlift ?h (addr es (callPos es i)) = Some ?g"
    using store_lift(2) [OF wf st0 i(1,2)] I cs by simp
  have cl: "callPos es i < length es" by (rule entry_pos_props(1) [OF wf i(1)])
  have nid: "n_id (?h ! addr es (callPos es j)) = int j" if "j < n_ops es" for j
    using st entry_pos_props [OF wf that, of callEntry] by (simp add: store_ok_def cells_ok_def)
  have cin: "callPos es i \<in> set (rem es ?X)" using cl i wf by simp
  have cur0: "cursor_ok m es ?X t (callPos es i) (Some (addr es (callPos es i)))"
    using cin i(3,4) minimal_iff [OF wf i(1)]
    by (cases "rem es ?X = []") (auto simp: cursor_ok_def simp del: in_rem)
  have "\<forall>js. \<not> completes m es t ?X (i # js)"
    using dd i(6) cs by (simp add: completes_Cons dead_def)
  then obtain q where q: "callPos es i < q" "q < length es"
    "cursor_ok m es ?X t q (n_next (?g ! addr es (callPos es i)))"
    using advance_cursor [OF wf st0 cur0 cin] wf i(1) by auto
  have "i < 64 * length (s_linearized st)" using i(1) I by linarith
  then obtain lin where lin: "bitset_clear (s_linearized st) i = Some lin"
    using bs.del_defined by blast
  have lb: "bits_of lin = ?X" "length lin = length (s_linearized st)"
    using bits_of_clear [OF lin] I cs i(2) by auto
  have ids: "call_ids st = map int (map fst cs)"
    unfolding call_ids_def using I path_distinct(2) [of m es "Init m ()" "{}" cs ?s] nid
    by (auto simp: image_subset_iff)
  obtain seqs longest where ll:
    "(if cp then longest_loop ?h (call_ids st) False (s_seqs st) (s_longest st) (s_calls st)
      else Some (s_seqs st, s_longest st)) = Some (seqs, longest)" "longest_ok m es longest seqs"
  proof -
    have "\<forall>v \<in> set (s_calls st). \<exists>j \<in> set (map fst cs). n_id (?h ! c_entry v) = int j"
    proof
      fix v assume "v \<in> set (s_calls st)"
      then obtain j u where v: "(j, u) \<in> set cs" "c_entry v = addr es (callPos es j)" using I by auto
      have j: "j \<in> set (map fst cs)" using v(1) by force
      then have "j < n_ops es" using path_distinct(2) [OF pth] cs by auto
      then have "n_id (?h ! c_entry v) = int j" using nid v(2) by simp
      with j show "\<exists>j \<in> set (map fst cs). n_id (?h ! c_entry v) = int j" by blast
    qed
    then have "\<exists>seqs longest. longest_loop ?h (call_ids st) False (s_seqs st) (s_longest st)
        (s_calls st) = Some (seqs, longest) \<and> longest_ok m es longest seqs"
      by (intro longest_loop_ok [OF _ ids]) (use I path_takes in auto)
    with that I show ?thesis by (cases cp) auto
  qed
  let ?st = "st\<lparr>s_seqs := seqs, s_longest := longest, s_state := t, s_linearized := lin,
    s_calls := butlast (s_calls st), s_heap := ?g,
    s_entry := n_next (?g ! addr es (callPos es i))\<rparr>"
  have last: "last (s_calls st) = \<lparr>c_entry = addr es (callPos es i), c_state = t\<rparr>" using I cs by simp
  have "backtrack cp st = Some ?st"
    using ll(1) last lin unl nid [OF i(1)] by (simp add: backtrack_def)
  moreover have "\<forall>hash. \<forall>ce \<in> set (s_cache st hash). cache_entry_ok m es (length lin) cs0 t ce"
  proof (intro allI ballI)
    fix hash ce assume "ce \<in> set (s_cache st hash)"
    then show "cache_entry_ok m es (length lin) cs0 t ce"
      by (intro cache_entry_pop [of m es _ cs0 i t ?s]) (use I dd cs lb in auto)
  qed
  then have "search_inv m es h0 cs0 q ?st"
    unfolding search_inv_def
    using I i(5) q(3) lb ll(2) cs by (simp add: butlast_append)
  moreover have "progress es cs p < progress es cs0 q"
    unfolding cs using path_length [OF pth] q(1) p(1) by (intro progress_pop) auto
  ultimately show ?thesis using q(2) by (metis less_imp_le)
qed

lemma check_body_inv:
  assumes wf: "wf_history es" and h0: "store_ok es h0 {}"
    and se: "state_equality m" and eq: "Equal m = Some eq"
    and inv: "search_inv m es h0 cs p st"
  shows "case check_body m cp (length es) killed st of
      Continue st' \<Rightarrow> \<exists>cs' p'. search_inv m es h0 cs' p' st' \<and> p' \<le> length es \<and>
                          progress es cs p < progress es cs' p'
    | ReturnFalse st' \<Rightarrow> st' = st \<and> (killed \<or> dead m es (Init m ()) {})
    | Finish st' \<Rightarrow> st' = st \<and> rem es (taken cs) = []
    | StepPanic \<Rightarrow> False"
proof -
  have st: "store_ok es (s_heap st) (taken cs)" by (rule search_inv_store [OF wf h0 inv])
  note hd = store_head [OF st]
  show ?thesis
  proof (cases "rem es (taken cs) = []")
    case True
    then show ?thesis using hd by (simp add: check_body_def)
  next
    case ne: False
    then obtain x where x: "n_next (s_heap st ! length es) = Some x" using hd by (auto simp: neq_Nil_conv)
    have cur: "cursor_ok m es (taken cs) (s_state st) p (s_entry st)"
      using inv by (simp add: search_inv_def)
    with ne have p: "p \<in> set (rem es (taken cs))" "s_entry st = Some (addr es p)"
      "tried m es (s_state st) (taken cs) p" by (simp_all add: cursor_ok_def)
    have mt: "n_match (s_heap st ! addr es p) =
        (if is_call es p then Some (addr es (retPos es (op_at es p))) else None)"
      using st p(1) by (simp add: store_ok_def cells_ok_def)
    show ?thesis
    proof (cases killed)
      case True
      then show ?thesis using x by (simp add: check_body_def)
    next
      case alive: False
      show ?thesis
      proof (cases "is_call es p")
        case True
        obtain st' cs' p' where n: "try_call m (length es) (addr es p)
            (addr es (retPos es (op_at es p))) st = Some st'" "search_inv m es h0 cs' p' st'"
          "p' \<le> length es" "progress es cs p < progress es cs' p'"
          using try_call_inv [OF wf h0 se eq inv p(1) True] by metis
        have "check_body m cp (length es) killed st = Continue st'"
          using alive x p(2) mt True n(1) by (simp add: check_body_def continue_or_panic_def)
        with n(2-4) show ?thesis by (simp only: step_result.case) blast
      next
        case ret: False
        show ?thesis
        proof (cases "cs = []")
          case True
          then have "dead m es (Init m ()) {}"
            using tried_all_dead [OF wf p(1) ret p(3)] inv by (simp add: search_inv_def taken_def)
          moreover have "s_calls st = []" using inv True by (simp add: search_inv_def)
          ultimately show ?thesis using alive x p(2) mt ret by (simp add: check_body_def)
        next
          case False
          have "s_calls st \<noteq> []" using inv False by (simp add: search_inv_def)
          moreover obtain st' cs' p' where n: "backtrack cp st = Some st'"
            "search_inv m es h0 cs' p' st'" "p' \<le> length es" "progress es cs p < progress es cs' p'"
            using backtrack_inv [OF wf h0 inv p(1) ret False, of cp] by metis
          ultimately have "check_body m cp (length es) killed st = Continue st'"
            using alive x p(2) mt ret by (simp add: check_body_def continue_or_panic_def)
          with n(2-4) show ?thesis by (simp only: step_result.case) blast
        qed
      qed
    qed
  qed
qed

section \<open>The loop returns\<close>

lemma progress_bound:
  assumes "p \<le> length es" "path m es s0 {} cs s" "wf_history es"
  shows "progress es cs p < (length es + 2) ^ (n_ops es + 1)"
  unfolding progress_def
proof (rule weight_bound)
  have "callPos es i < length es" if "i \<in> fst ` set cs" for i
    using that path_distinct(2) [OF assms(2)] entry_pos_props(1) [OF assms(3)] by blast
  then show "\<forall>x \<in> set (map (\<lambda>c. callPos es (fst c)) cs @ [p]). x + 1 < length es + 2"
    using assms(1) by (fastforce intro: less_SucI)
qed simp

lemma check_loop_returns:
  assumes wf: "wf_history es" and h0: "store_ok es h0 {}"
    and se: "state_equality m" and eq: "Equal m = Some eq"
    and inv: "search_inv m es h0 cs p st" and p: "p \<le> length es"
  shows "\<exists>ok st' cs' p'. check_loop m cp (length es) kill k st = Some (Returns (ok, st')) \<and>
    search_inv m es h0 cs' p' st' \<and>
    (if ok then rem es (taken cs') = [] else (\<exists>j. kill j) \<or> dead m es (Init m ()) {})"
  using inv p
proof (induction "(length es + 2) ^ (n_ops es + 1) - progress es cs p" arbitrary: cs p st k
    rule: less_induct)
  case less
  note b = check_body_inv [OF wf h0 se eq less.prems(1), where cp = cp and killed = "kill k"]
  show ?case
  proof (cases "check_body m cp (length es) (kill k) st")
    case (Continue st')
    with b obtain cs' p' where n: "search_inv m es h0 cs' p' st'" "p' \<le> length es"
      "progress es cs p < progress es cs' p'" by auto
    have "path m es (Init m ()) {} cs' (s_state st')" using n(1) by (simp add: search_inv_def)
    from progress_bound [OF n(2) this wf] n(3)
    have "(length es + 2) ^ (n_ops es + 1) - progress es cs' p' <
      (length es + 2) ^ (n_ops es + 1) - progress es cs p" by linarith
    moreover have "check_loop m cp (length es) kill k st = check_loop m cp (length es) kill (Suc k) st'"
      by (simp add: check_loop.simps [of m cp "length es" kill k st] Continue)
    ultimately show ?thesis using less.hyps n(1,2) by presburger
  next
    case (ReturnFalse st')
    with b have "st' = st" "kill k \<or> dead m es (Init m ()) {}" by auto
    moreover from this(1) have "check_loop m cp (length es) kill k st = Some (Returns (False, st))"
      by (simp add: check_loop.simps [of m cp "length es" kill k st] ReturnFalse)
    ultimately show ?thesis using less.prems(1) by (metis (full_types))
  next
    case (Finish st')
    with b have "st' = st" "rem es (taken cs) = []" by auto
    moreover from this(1) have "check_loop m cp (length es) kill k st = Some (Returns (True, st))"
      by (simp add: check_loop.simps [of m cp "length es" kill k st] Finish)
    ultimately show ?thesis using less.prems(1) by (metis (full_types))
  next
    case StepPanic
    with b show ?thesis by simp
  qed
qed

section \<open>The verdict of checkSingle\<close>

lemma check_start_inv:
  assumes wf: "wf_history es" and run: "makeLinkedEntries es = (h, root)"
  shows "length h = length es" "list_length h root 0 = Some (length es)"
    "store_ok es (s_heap (check_start m es (n_ops es))) {}"
    "\<exists>p \<le> length es. search_inv m es (s_heap (check_start m es (n_ops es))) [] p
       (check_start m es (n_ops es))"
proof -
  note L = makeLinkedEntries_ok [OF wf run]
  show len: "length h = length es" by (rule L(3))
  let ?hd = "\<lparr>n_value = None, n_match = None, n_id = -1, n_next = None, n_prev = None\<rparr>"
  let ?st = "check_start m es (n_ops es)" and ?h = "insertBefore (h @ [?hd]) (length h) (stack_root h)"
  have hp: "s_heap ?st = ?h" "s_entry ?st = root" using L(2) by (simp_all add: check_start_def run)
  have push: "stack_list ?h \<and> length ?h = Suc (length h) \<and>
      (\<forall>k < length h. same_data (?h ! k) (h ! k)) \<and> same_data (?h ! length h) ?hd"
    by (rule insertBefore_push [OF L(1)]) simp_all
  have r: "rev [0..<length h] = map (addr es) [0..<length es]" using len rev_upt_addr [of es] by simp
  have "rev [0..<length ?h] = length es # map (addr es) [0..<length es]" using push r len by simp
  then have d: "dll ?h (length es # map (addr es) [0..<length es])"
    using push unfolding stack_list_def by metis
  moreover have "cells_ok es ?h" by (rule cells_ok_same_data [OF L(4)]) (use push len in auto)
  ultimately show st: "store_ok es (s_heap ?st) {}" by (simp add: store_ok_def hp)
  have root: "root = (case rev [0..<length h] of [] \<Rightarrow> None | x # _ \<Rightarrow> Some x)"
    using L(2) by (cases "length h") (auto simp: stack_root_def)
  show "list_length h root 0 = Some (length es)"
    unfolding root using list_length_dll [of h "rev [0..<length h]" 0] L(1) len
    by (simp add: stack_list_def)
  have nx: "root = n_next (s_heap ?st ! length es)"
    unfolding root r store_head [OF st] by (cases "[0..<length es]") auto
  obtain q where q: "q \<le> length es" "cursor_ok m es {} (Init m ()) q (s_entry ?st)"
    using first_cursor [OF wf st, of m "Init m ()"] nx hp(2) by auto
  have "search_inv m es (s_heap ?st) [] q ?st"
    using q by (simp add: search_inv_def taken_def longest_ok_def check_start_def run
        length_newBitset_ge)
  with q show "\<exists>p \<le> length es. search_inv m es (s_heap ?st) [] p ?st" by blast
qed

theorem checkSingle_total:
  assumes wf: "wf_history es" and se: "state_equality m" and eq: "Equal m = Some eq"
  shows "\<exists>ok longest seqs. checkSingle m es cp kill = Some (Returns (ok, longest, seqs)) \<and>
    (ok \<longrightarrow> linearizable m es) \<and> (\<not> ok \<longrightarrow> (\<exists>j. kill j) \<or> \<not> linearizable m es) \<and>
    longest_ok m es longest seqs"
proof -
  obtain h root where run: "makeLinkedEntries es = (h, root)" by fastforce
  note S = check_start_inv(1,2) [OF wf run] check_start_inv(3,4) [OF wf run, of m]
  let ?st = "check_start m es (n_ops es)"
  have n: "length es div 2 = n_ops es" by (simp add: n_ops_def)
  obtain p where p: "p \<le> length es" "search_inv m es (s_heap ?st) [] p ?st" using S(4) by blast
  obtain ok st' cs p' where l: "check_loop m cp (length es) kill 0 ?st = Some (Returns (ok, st'))"
    "search_inv m es (s_heap ?st) cs p' st'"
    "if ok then rem es (taken cs) = [] else (\<exists>j. kill j) \<or> dead m es (Init m ()) {}"
    using check_loop_returns [OF wf S(3) se eq p(2,1), of cp kill 0] by blast
  have I: "path m es (Init m ()) {} cs (s_state st')" "longest_ok m es (s_longest st') (s_seqs st')"
    using l(2) by (simp_all add: search_inv_def)
  have lin: "linearizable m es \<longleftrightarrow> \<not> dead m es (Init m ()) {}" by (rule linearizable_not_dead [OF wf])
  show ?thesis
  proof (cases ok)
    case False
    then have "checkSingle m es cp kill = Some (Returns (False, s_longest st', s_seqs st'))"
      using l(1) S(1,2) by (simp add: checkSingle_def run n Let_def)
    with False l(3) I(2) lin show ?thesis by auto
  next
    case True
    let ?is = "map fst cs"
    have t: "takes m es (Init m ()) {} ?is" by (rule path_takes [OF I(1)])
    have "{..<n_ops es} \<subseteq> set ?is" using True l(3) rem_Nil [OF wf] by (simp add: taken_def)
    then have c: "completes m es (Init m ()) {} ?is" using t by (auto simp: completes_def takes_iff)
    have ids: "call_ids st' = map int ?is"
    proof -
      have st: "store_ok es (s_heap st') (taken cs)" by (rule search_inv_store [OF wf S(3) l(2)])
      have "n_id (s_heap st' ! addr es (callPos es j)) = int j" if "j < n_ops es" for j
        using st entry_pos_props [OF wf that, of callEntry] by (simp add: store_ok_def cells_ok_def)
      then show ?thesis using l(2) path_distinct(2) [OF I(1)]
        by (auto simp: call_ids_def search_inv_def image_subset_iff)
    qed
    let ?seqs = "s_seqs st' @ [call_ids st']"
    have "checkSingle m es cp kill =
        Some (Returns (True, replicate (n_ops es) (Some (length (s_seqs st'))), ?seqs))"
      using l(1) S(1,2) True by (simp add: checkSingle_def run n Let_def)
    moreover have "longest_ok m es (replicate (n_ops es) (Some (length (s_seqs st')))) ?seqs"
      using t c ids by (auto simp: longest_ok_def completes_def intro!: exI [of _ ?is])
    moreover have "linearizable m es" using c lin by (auto simp: dead_def)
    ultimately show ?thesis by blast
  qed
qed

end
