(* ===== verification/Porcupine.thy ===== *)
theory Porcupine
  imports Checker_Correct
begin

text \<open>
  The entry points of the checker (\<open>porcupine/porcupine.go\<close>, and \<open>makeEntries\<close>, \<open>checkParallel\<close>,
  \<open>checkOperations\<close>, \<open>checkEvents\<close> of \<open>porcupine/checker.go\<close>): histories of timed operations
  become well-formed entry lists with the right real-time order, and the verdict over all
  partitions is the conjunction of the verdicts of the searches, whatever order the goroutines
  deliver in.
\<close>

section \<open>Entry points\<close>

text \<open>Without a timeout the only events are the deliveries.\<close>

definition CheckOperations ::
  "('v entry list \<Rightarrow> 'v entry list) \<Rightarrow> ('v \<Rightarrow> string) \<Rightarrow> ('s \<Rightarrow> string) \<Rightarrow> ('v, 's) Model \<Rightarrow>
   'v Operation list \<Rightarrow> (nat \<Rightarrow> nat \<Rightarrow> bool) \<Rightarrow> (nat list \<Rightarrow> nat list) \<Rightarrow> par_event list \<Rightarrow> bool option" where
  "CheckOperations srt fmt_v fmt_s m history kills visit evs = do {
     (res, _) \<leftarrow> checkOperations srt fmt_v fmt_s m history False kills visit evs;
     Some (res = Ok) }"

definition CheckOperationsTimeout ::
  "('v entry list \<Rightarrow> 'v entry list) \<Rightarrow> ('v \<Rightarrow> string) \<Rightarrow> ('s \<Rightarrow> string) \<Rightarrow> ('v, 's) Model \<Rightarrow>
   'v Operation list \<Rightarrow> (nat \<Rightarrow> nat \<Rightarrow> bool) \<Rightarrow> (nat list \<Rightarrow> nat list) \<Rightarrow> par_event list \<Rightarrow>
   CheckResult option" where
  "CheckOperationsTimeout srt fmt_v fmt_s m history kills visit evs = do {
     (res, _) \<leftarrow> checkOperations srt fmt_v fmt_s m history False kills visit evs;
     Some res }"

definition CheckOperationsVerbose ::
  "('v entry list \<Rightarrow> 'v entry list) \<Rightarrow> ('v \<Rightarrow> string) \<Rightarrow> ('s \<Rightarrow> string) \<Rightarrow> ('v, 's) Model \<Rightarrow>
   'v Operation list \<Rightarrow> (nat \<Rightarrow> nat \<Rightarrow> bool) \<Rightarrow> (nat list \<Rightarrow> nat list) \<Rightarrow> par_event list \<Rightarrow>
   (CheckResult \<times> 'v linearizationInfo) option" where
  "CheckOperationsVerbose srt fmt_v fmt_s m history kills visit evs =
     checkOperations srt fmt_v fmt_s m history True kills visit evs"

definition CheckEvents ::
  "('v \<Rightarrow> string) \<Rightarrow> ('s \<Rightarrow> string) \<Rightarrow> ('v, 's) Model \<Rightarrow> 'v Event list \<Rightarrow> (nat \<Rightarrow> nat \<Rightarrow> bool) \<Rightarrow>
   (nat list \<Rightarrow> nat list) \<Rightarrow> par_event list \<Rightarrow> bool option" where
  "CheckEvents fmt_v fmt_s m history kills visit evs = do {
     (res, _) \<leftarrow> checkEvents fmt_v fmt_s m history False kills visit evs;
     Some (res = Ok) }"

definition CheckEventsTimeout ::
  "('v \<Rightarrow> string) \<Rightarrow> ('s \<Rightarrow> string) \<Rightarrow> ('v, 's) Model \<Rightarrow> 'v Event list \<Rightarrow> (nat \<Rightarrow> nat \<Rightarrow> bool) \<Rightarrow>
   (nat list \<Rightarrow> nat list) \<Rightarrow> par_event list \<Rightarrow> CheckResult option" where
  "CheckEventsTimeout fmt_v fmt_s m history kills visit evs = do {
     (res, _) \<leftarrow> checkEvents fmt_v fmt_s m history False kills visit evs;
     Some res }"

definition CheckEventsVerbose ::
  "('v \<Rightarrow> string) \<Rightarrow> ('s \<Rightarrow> string) \<Rightarrow> ('v, 's) Model \<Rightarrow> 'v Event list \<Rightarrow> (nat \<Rightarrow> nat \<Rightarrow> bool) \<Rightarrow>
   (nat list \<Rightarrow> nat list) \<Rightarrow> par_event list \<Rightarrow> (CheckResult \<times> 'v linearizationInfo) option" where
  "CheckEventsVerbose fmt_v fmt_s m history kills visit evs =
     checkEvents fmt_v fmt_s m history True kills visit evs"

section \<open>Linearizability of timed operations\<close>

fun run_operations :: "('v, 's) Model \<Rightarrow> 's \<Rightarrow> 'v Operation list \<Rightarrow> bool" where
  "run_operations m s [] = True"
| "run_operations m s (x # xs) =
     (case Step m s (Input x) (Output x) of (ok, s') \<Rightarrow> ok \<and> run_operations m s' xs)"

text \<open>An order of the operations that the model accepts and in which no operation comes before one
  that had returned before it was called.\<close>

definition linearizable_ops :: "('v, 's) Model \<Rightarrow> 'v Operation list \<Rightarrow> bool" where
  "linearizable_ops m ops \<longleftrightarrow>
     (\<exists>xs. mset xs = mset ops \<and> sorted_wrt (\<lambda>a b. \<not> Return b < Call a) xs \<and>
           run_operations m (Init m ()) xs)"

section \<open>Entries of timed operations\<close>

definition call_entry :: "int \<Rightarrow> 'v Operation \<Rightarrow> 'v entry" where
  "call_entry i x = \<lparr>e_kind = callEntry, e_value = Input x, e_id = i, e_time = Call x,
     e_clientId = ClientId x\<rparr>"

definition return_entry :: "int \<Rightarrow> 'v Operation \<Rightarrow> 'v entry" where
  "return_entry i x = \<lparr>e_kind = returnEntry, e_value = Output x, e_id = i, e_time = Return x,
     e_clientId = ClientId x\<rparr>"

lemma makeEntries_loop_mset:
  "mset (makeEntries_loop k ops acc) =
     mset acc + mset (map (\<lambda>i. call_entry (k + int i) (ops ! i)) [0..<length ops]) +
     mset (map (\<lambda>i. return_entry (k + int i) (ops ! i)) [0..<length ops])"
proof (induction k ops acc rule: makeEntries_loop.induct)
  case (2 k x xs acc)
  have up: "[0..<length (x # xs)] = 0 # map Suc [0..<length xs]"
    by (simp add: upt_conv_Cons map_Suc_upt del: upt_Suc)
  show ?case unfolding up using "2.IH"
    by (simp add: call_entry_def return_entry_def comp_def algebra_simps Let_def)
qed simp

lemma makeEntries_mset:
  assumes "sorts_by_time srt"
  shows "mset (makeEntries srt ops) =
     mset (map (\<lambda>i. call_entry (int i) (ops ! i)) [0..<length ops] @
           map (\<lambda>i. return_entry (int i) (ops ! i)) [0..<length ops])"
  using assms makeEntries_loop_mset [of 0 ops "[]"] by (simp add: makeEntries_def sorts_by_time_def)

lemma makeEntries_wf:
  assumes s: "sorts_by_time srt" and t: "\<forall>x \<in> set ops. Call x \<le> Return x"
  shows "wf_history (makeEntries srt ops)" "n_ops (makeEntries srt ops) = length ops"
    "\<And>i. i < length ops \<Longrightarrow> makeEntries srt ops ! callPos (makeEntries srt ops) i = call_entry (int i) (ops ! i)"
    "\<And>i. i < length ops \<Longrightarrow> makeEntries srt ops ! retPos (makeEntries srt ops) i = return_entry (int i) (ops ! i)"
proof -
  let ?es = "makeEntries srt ops" and ?k = "\<lambda>e. (e_kind e, e_id e)"
  let ?raw = "map (\<lambda>i. call_entry (int i) (ops ! i)) [0..<length ops] @
           map (\<lambda>i. return_entry (int i) (ops ! i)) [0..<length ops]"
  have ms: "mset ?es = mset ?raw" by (rule makeEntries_mset [OF s])
  have st: "set ?es = set ?raw" using ms by (metis set_mset_mset)
  have len: "length ?es = 2 * length ops" using mset_eq_length [OF ms] by simp
  then show n: "n_ops ?es = length ops" by (simp add: n_ops_def)
  have "map ?k ?raw = map (\<lambda>i. (callEntry, int i)) [0..<length ops] @
      map (\<lambda>i. (returnEntry, int i)) [0..<length ops]"
    by (simp add: call_entry_def return_entry_def comp_def)
  moreover have "distinct (map (\<lambda>i. (k, int i)) [0..<length ops])" for k :: entryKind
    by (simp add: distinct_map inj_on_def)
  ultimately have dr: "distinct (map ?k ?raw)" by (simp only: distinct_append) auto
  have "mset (map ?k ?es) = mset (map ?k ?raw)" by (simp only: mset_map ms)
  from mset_eq_imp_distinct_iff [OF this] dr have dist: "distinct (map ?k ?es)" by (simp only:)
  have bnd: "\<forall>e \<in> set ?es. 0 \<le> e_id e \<and> e_id e < int (length ops)"
    unfolding st by (auto simp: call_entry_def return_entry_def)
  have srt: "sorted_wrt (\<lambda>a b. \<not> byTime_Less b a) ?es"
    using s by (simp add: makeEntries_def sorts_by_time_def)
  have pos: "entry_pos k ?es i < length ?es \<and> e_kind (?es ! entry_pos k ?es i) = k \<and>
      e_id (?es ! entry_pos k ?es i) = int i" if i: "i < length ops" for k i
  proof -
    let ?P = "\<lambda>e. \<not> (e_kind e = k \<and> e_id e = int i)"
    have "call_entry (int i) (ops ! i) \<in> set ?es" "return_entry (int i) (ops ! i) \<in> set ?es"
      unfolding st using i by auto
    moreover have "\<not> ?P (if k = callEntry then call_entry (int i) (ops ! i)
        else return_entry (int i) (ops ! i))"
      by (cases k) (simp_all add: call_entry_def return_entry_def)
    ultimately have "\<exists>e \<in> set ?es. \<not> ?P e" by (metis (full_types))
    then have "length (takeWhile ?P ?es) < length ?es" by (rule length_takeWhile_less)
    moreover from this have "\<not> ?P (?es ! length (takeWhile ?P ?es))" by (rule nth_length_takeWhile)
    ultimately show ?thesis by (simp add: entry_pos_def)
  qed
  have ent: "?es ! callPos ?es i = call_entry (int i) (ops ! i)"
    "?es ! retPos ?es i = return_entry (int i) (ops ! i)" if i: "i < length ops" for i
  proof -
    have "?es ! callPos ?es i \<in> set ?raw" using pos [OF i, of callEntry] st nth_mem by blast
    then show "?es ! callPos ?es i = call_entry (int i) (ops ! i)"
      using pos [OF i, of callEntry] by (auto simp: call_entry_def return_entry_def)
    have "?es ! retPos ?es i \<in> set ?raw" using pos [OF i, of returnEntry] st nth_mem by blast
    then show "?es ! retPos ?es i = return_entry (int i) (ops ! i)"
      using pos [OF i, of returnEntry] by (auto simp: call_entry_def return_entry_def)
  qed
  then show "\<And>i. i < length ops \<Longrightarrow> ?es ! callPos ?es i = call_entry (int i) (ops ! i)"
    "\<And>i. i < length ops \<Longrightarrow> ?es ! retPos ?es i = return_entry (int i) (ops ! i)" by auto
  have "callPos ?es i < retPos ?es i" if i: "i < length ops" for i
  proof (rule ccontr)
    assume "\<not> callPos ?es i < retPos ?es i"
    moreover have "callPos ?es i \<noteq> retPos ?es i"
      using pos [OF i, of callEntry] pos [OF i, of returnEntry] by (metis entryKind.distinct(1))
    ultimately have "retPos ?es i < callPos ?es i" by simp
    then have "\<not> byTime_Less (?es ! callPos ?es i) (?es ! retPos ?es i)"
      using srt pos [OF i, of callEntry] by (auto simp: sorted_wrt_iff_nth_less)
    moreover have "Call (ops ! i) \<le> Return (ops ! i)" using t i by simp
    ultimately show False
      using ent [OF i] by (auto simp: byTime_Less_def call_entry_def return_entry_def split: if_splits)
  qed
  then show "wf_history ?es" using len n dist bnd by (simp add: wf_history_def)
qed

lemma makeEntries_precedes:
  assumes s: "sorts_by_time srt" and t: "\<forall>x \<in> set ops. Call x \<le> Return x"
    and i: "i < length ops" and j: "j < length ops"
  shows "precedes (makeEntries srt ops) i j \<longleftrightarrow> Return (ops ! i) < Call (ops ! j)"
proof -
  let ?es = "makeEntries srt ops"
  let ?r = "retPos ?es i" and ?c = "callPos ?es j"
  note w = makeEntries_wf [OF s t]
  have b: "?r < length ?es" "?c < length ?es" and k: "e_kind (?es ! ?r) = returnEntry"
    "e_kind (?es ! ?c) = callEntry"
    using entry_pos_props [OF w(1)] i j w(2) by auto
  have ne: "?r \<noteq> ?c" using k by (metis entryKind.distinct(1))
  have srt: "sorted_wrt (\<lambda>a b. \<not> byTime_Less b a) ?es"
    using s by (simp add: makeEntries_def sorts_by_time_def)
  have lt: "?r < ?c \<Longrightarrow> \<not> byTime_Less (?es ! ?c) (?es ! ?r)"
    "?c < ?r \<Longrightarrow> \<not> byTime_Less (?es ! ?r) (?es ! ?c)"
    using srt b by (auto simp: sorted_wrt_iff_nth_less)
  show ?thesis
  proof
    assume "precedes ?es i j"
    then have "\<not> byTime_Less (?es ! ?c) (?es ! ?r)" using lt by (simp add: precedes_def)
    then show "Return (ops ! i) < Call (ops ! j)"
      using w(3) [OF j] w(4) [OF i]
      by (auto simp: byTime_Less_def call_entry_def return_entry_def split: if_splits)
  next
    assume l: "Return (ops ! i) < Call (ops ! j)"
    then have "byTime_Less (?es ! ?r) (?es ! ?c)"
      using w(3) [OF j] w(4) [OF i] by (auto simp: byTime_Less_def call_entry_def return_entry_def)
    with lt(2) ne show "precedes ?es i j" by (metis linorder_neqE_nat precedes_def)
  qed
qed

section \<open>Entries that stand for operations\<close>

text \<open>An entry list stands for a list of operations when its operation \<open>i\<close> has the input and the
  output of the \<open>i\<close>-th of them and the real-time order is theirs; then the two specifications agree.\<close>

definition stands_for :: "'v entry list \<Rightarrow> 'v Operation list \<Rightarrow> bool" where
  "stands_for es ops \<longleftrightarrow> n_ops es = length ops \<and>
     (\<forall>i < length ops. input_of es i = Input (ops ! i) \<and> output_of es i = Output (ops ! i)) \<and>
     (\<forall>i < length ops. \<forall>j < length ops. precedes es i j \<longleftrightarrow> Return (ops ! i) < Call (ops ! j))"

lemma stands_for_run:
  assumes "stands_for es ops"
  shows "set is \<subseteq> {..<length ops} \<Longrightarrow>
    run_ops m es st is \<noteq> None \<longleftrightarrow> run_operations m st (map ((!) ops) is)"
  using assms by (induction "is" arbitrary: st) (auto simp: stands_for_def split: prod.splits)

lemma stands_for_order:
  assumes "stands_for es ops" and "set is = {..<length ops}"
  shows "respects_order es is \<longleftrightarrow> sorted_wrt (\<lambda>a b. \<not> Return b < Call a) (map ((!) ops) is)"
proof -
  have "is ! k < length ops" if "k < length is" for k
    using that assms(2) nth_mem by blast
  then show ?thesis
    using assms(1) by (auto simp: respects_order_def sorted_wrt_iff_nth_less stands_for_def)
qed

lemma stands_for_linearizable:
  assumes s: "stands_for es ops"
  shows "linearizable m es \<longleftrightarrow> linearizable_ops m ops"
proof -
  have n: "n_ops es = length ops" using s by (simp add: stands_for_def)
  show ?thesis
  proof
    assume "linearizable m es"
    then obtain "is" where l: "linearization m es is" by (auto simp: linearizable_def)
    then have d: "distinct is" "set is = {..<length ops}" by (simp_all add: linearization_def n)
    have "mset (map ((!) ops) is) = mset ops" by (rule mset_map_nth [OF d])
    moreover have "run_operations m (Init m ()) (map ((!) ops) is)"
      using stands_for_run [OF s, of "is" m "Init m ()"] l d by (simp add: linearization_def)
    moreover have "sorted_wrt (\<lambda>a b. \<not> Return b < Call a) (map ((!) ops) is)"
      using stands_for_order [OF s d(2)] l by (simp add: linearization_def)
    ultimately show "linearizable_ops m ops" unfolding linearizable_ops_def by blast
  next
    assume "linearizable_ops m ops"
    then obtain xs where x: "mset xs = mset ops" "sorted_wrt (\<lambda>a b. \<not> Return b < Call a) xs"
      "run_operations m (Init m ()) xs" by (auto simp: linearizable_ops_def)
    obtain "is" where d: "distinct is" "set is = {..<length ops}" and xs: "xs = map ((!) ops) is"
      using mset_eq_map_nth [OF x(1)] by blast
    have "linearization m es is"
      unfolding linearization_def n
      using d stands_for_order [OF s d(2)] x(2,3) stands_for_run [OF s, of "is" m "Init m ()"]
      by (simp only: xs)
    then show "linearizable m es" by (auto simp: linearizable_def)
  qed
qed

lemma linearizable_makeEntries:
  assumes s: "sorts_by_time srt" and t: "\<forall>x \<in> set ops. Call x \<le> Return x"
  shows "linearizable m (makeEntries srt ops) \<longleftrightarrow> linearizable_ops m ops"
proof (rule stands_for_linearizable)
  show "stands_for (makeEntries srt ops) ops"
    using makeEntries_wf [OF s t] makeEntries_precedes [OF s t]
    by (simp add: stands_for_def input_of_def output_of_def call_entry_def return_entry_def)
qed

section \<open>The verdict over all partitions\<close>

text \<open>What the schedule of deliveries can be: every goroutine delivers once, in some order.\<close>

definition full_schedule :: "nat \<Rightarrow> par_event list \<Rightarrow> bool" where
  "full_schedule n evs \<longleftrightarrow> mset evs = mset (map Result [0..<n])"

text \<open>A schedule that the timeout may cut at any point.\<close>

definition some_schedule :: "nat \<Rightarrow> par_event list \<Rightarrow> bool" where
  "some_schedule n evs \<longleftrightarrow> distinct evs \<and> (\<forall>i. Result i \<in> set evs \<longrightarrow> i < n)"

lemma full_schedule_some: "full_schedule n evs \<Longrightarrow> some_schedule n evs \<and> Timeout \<notin> set evs \<and> length evs = n"
proof -
  assume f: "full_schedule n evs"
  have "distinct (map Result [0..<n])" by (simp add: distinct_map inj_on_def)
  then have "distinct evs" using f unfolding full_schedule_def by (metis mset_eq_imp_distinct_iff)
  moreover have "set evs = Result ` {0..<n}"
    using f unfolding full_schedule_def by (metis set_mset_mset list.set_map set_upt)
  moreover have "length evs = n" using f mset_eq_length unfolding full_schedule_def by fastforce
  ultimately show ?thesis by (auto simp: some_schedule_def)
qed

lemma parallel_loop_sound:
  assumes "parallel_loop ci n results evs ok cnt got = Some (ok', timedOut, got')"
    and "\<forall>i. Result i \<in> set evs \<longrightarrow> i < n" "distinct evs" "distinct got" "cnt = length got"
    and "ok \<longleftrightarrow> (\<forall>i \<in> set got. results i = Some True)" "set got \<subseteq> {..<n}"
    and "\<forall>i \<in> set got. Result i \<notin> set evs"
  shows "(ok' \<longleftrightarrow> (\<forall>i \<in> set got'. results i = Some True)) \<and> set got' \<subseteq> {..<n} \<and>
    (ok' \<longrightarrow> \<not> timedOut \<longrightarrow> set got' = {..<n}) \<and> (timedOut \<longrightarrow> Timeout \<in> set evs)"
  using assms
proof (induction ci n results evs ok cnt got rule: parallel_loop.induct)
  case (3 ci n results i evs ok cnt got)
  from "3.prems"(1) obtain r where r: "results i = Some r" by (auto split: bind_splits)
  have i: "i < n" "i \<notin> set got" using "3.prems"(2,8) by auto
  have full: "set (got @ [i]) = {..<n}" if "n \<le> Suc cnt"
  proof (rule card_subset_eq)
    show "card (set (got @ [i])) = card {..<n}"
    proof (rule antisym)
      show "card (set (got @ [i])) \<le> card {..<n}" using i "3.prems"(7) by (intro card_mono) auto
      show "card {..<n} \<le> card (set (got @ [i]))"
        using that i "3.prems"(4,5) distinct_card [of "got @ [i]"] by simp
    qed
  qed (use i "3.prems"(7) in auto)
  have ok: "ok \<and> r \<longleftrightarrow> (\<forall>j \<in> set (got @ [i]). results j = Some True)" using "3.prems"(6) r by auto
  show ?case
  proof (cases "\<not> (ok \<and> r) \<and> \<not> ci \<or> n \<le> Suc cnt")
    case True
    then show ?thesis using "3.prems"(1,7) r ok full i by (auto simp: Let_def split: if_splits)
  next
    case False
    then have run: "parallel_loop ci n results evs (ok \<and> r) (cnt + 1) (got @ [i]) =
        Some (ok', timedOut, got')" using "3.prems"(1) r by (auto simp: Let_def split: if_splits)
    have "(ok' \<longleftrightarrow> (\<forall>i \<in> set got'. results i = Some True)) \<and> set got' \<subseteq> {..<n} \<and>
        (ok' \<longrightarrow> \<not> timedOut \<longrightarrow> set got' = {..<n}) \<and> (timedOut \<longrightarrow> Timeout \<in> set evs)"
    proof (rule "3.IH" [OF r refl refl])
      show "\<not> (\<not> (ok \<and> r) \<and> \<not> ci)" using False by blast
      show "\<not> n \<le> cnt + 1" using False by simp
      show "parallel_loop ci n results evs (ok \<and> r) (cnt + 1) (got @ [i]) = Some (ok', timedOut, got')"
        by (rule run)
      show "\<forall>i. Result i \<in> set evs \<longrightarrow> i < n" using "3.prems"(2) by simp
      show "distinct evs" using "3.prems"(3) by simp
      show "distinct (got @ [i])" using "3.prems"(4) i(2) by simp
      show "cnt + 1 = length (got @ [i])" using "3.prems"(5) by simp
      show "ok \<and> r \<longleftrightarrow> (\<forall>i \<in> set (got @ [i]). results i = Some True)" by (rule ok)
      show "set (got @ [i]) \<subseteq> {..<n}" using "3.prems"(7) i(1) by simp
      show "\<forall>i \<in> set (got @ [i]). Result i \<notin> set evs" using "3.prems"(3,8) by simp
    qed
    then show ?thesis unfolding list.set by blast
  qed
qed auto

lemma parallel_loop_returns:
  assumes "\<forall>i < n. results i \<noteq> None" "Timeout \<notin> set evs" "\<forall>i. Result i \<in> set evs \<longrightarrow> i < n"
    and "n \<le> cnt + length evs" "evs \<noteq> []"
  shows "\<exists>ok' got'. parallel_loop ci n results evs ok cnt got = Some (ok', False, got')"
  using assms
proof (induction ci n results evs ok cnt got rule: parallel_loop.induct)
  case (3 ci n results i evs ok cnt got)
  then obtain r where r: "results i = Some r" by auto
  show ?case
  proof (cases "\<not> (ok \<and> r) \<and> \<not> ci \<or> n \<le> Suc cnt")
    case True
    then show ?thesis using r by (auto simp: Let_def)
  next
    case False
    have "\<exists>ok' got'. parallel_loop ci n results evs (ok \<and> r) (cnt + 1) (got @ [i]) = Some (ok', False, got')"
      by (rule "3.IH" [OF r refl refl]) (use False "3.prems" in auto)
    then show ?thesis using False r by (auto simp: Let_def)
  qed
qed auto

section \<open>Models after fillDefault\<close>

definition partitions_of :: "('v, 's) Model \<Rightarrow> 'v Operation list \<Rightarrow> 'v Operation list list" where
  "partitions_of m history = (case Partition m of None \<Rightarrow> [history] | Some f \<Rightarrow> f history)"

definition event_partitions_of :: "('v, 's) Model \<Rightarrow> 'v Event list \<Rightarrow> 'v Event list list" where
  "event_partitions_of m history = (case PartitionEvent m of None \<Rightarrow> [history] | Some f \<Rightarrow> f history)"

lemma fillDefault_simps [simp]:
  "Init (fillDefault fv fs m) = Init m" "Step (fillDefault fv fs m) = Step m"
  "Equal (fillDefault fv fs m) = Some (equal_fun m)"
  "the (Partition (fillDefault fv fs m)) history = partitions_of m history"
  "the (PartitionEvent (fillDefault fv fs m)) events = event_partitions_of m events"
  by (auto simp: fillDefault_def Let_def equal_fun_def partitions_of_def NoPartition_def
      event_partitions_of_def NoPartitionEvent_def split: option.splits)

lemma equal_fun_fillDefault [simp]: "equal_fun (fillDefault fv fs m) = equal_fun m"
proof -
  have "equal_fun (fillDefault fv fs m) = (case Equal (fillDefault fv fs m) of Some f \<Rightarrow> f | None \<Rightarrow> ShallowEqual)"
    by (rule equal_fun_def)
  also have "\<dots> = equal_fun m" by simp
  finally show ?thesis .
qed

lemma state_equality_fillDefault:
  assumes "state_equality m"
  shows "state_equality (fillDefault fv fs m)"
proof
  fix s t i out ok s' ok' t'
  assume "equal_fun (fillDefault fv fs m) s t" "Step (fillDefault fv fs m) s i out = (ok, s')"
    "Step (fillDefault fv fs m) t i out = (ok', t')"
  then have "equal_fun m s t" "Step m s i out = (ok, s')" "Step m t i out = (ok', t')" by simp_all
  from state_equality.equal_step [OF assms this]
  show "ok = ok' \<and> (ok \<longrightarrow> equal_fun (fillDefault fv fs m) s' t')" by simp
qed

lemma run_operations_fillDefault:
  "run_operations (fillDefault fv fs m) s xs = run_operations m s xs"
  by (induction xs arbitrary: s) auto

lemma linearizable_ops_fillDefault: "linearizable_ops (fillDefault fv fs m) ops = linearizable_ops m ops"
  by (simp add: linearizable_ops_def run_operations_fillDefault)

lemma verdict_checkSingle:
  assumes "wf_history es" "state_equality m" "Equal m = Some eq"
  shows "verdict (checkSingle m es cp (\<lambda>_. False)) = Some (linearizable m es)"
proof -
  obtain ok longest seqs where
    c: "checkSingle m es cp (\<lambda>_. False) = Some (Returns (ok, longest, seqs))"
    and "ok \<longrightarrow> linearizable m es" "\<not> ok \<longrightarrow> \<not> linearizable m es"
    using checkSingle_total [OF assms, of cp "\<lambda>_. False"] by auto
  then have "ok \<longleftrightarrow> linearizable m es" by blast
  with c show ?thesis by (simp add: verdict_def)
qed

lemma checkParallel_verdict:
  assumes wf: "\<forall>es \<in> set history. wf_history es" and se: "state_equality m" "Equal m = Some eq"
    and sch: "some_schedule (length history) evs"
    and run: "checkParallel m history ci kills visit evs = Some (res, info)"
  shows "(res = Ok \<longrightarrow> (\<forall>es \<in> set history. linearizable m es)) \<and>
    (res = Illegal \<longrightarrow> (\<exists>es \<in> set history. \<not> linearizable m es)) \<and>
    (res = Unknown \<longrightarrow> Timeout \<in> set evs)"
proof -
  let ?res = "\<lambda>i. verdict (checkSingle m (history ! i) ci (\<lambda>_. False))"
  have v: "?res i = Some (linearizable m (history ! i))" if "i < length history" for i
    using that wf se by (intro verdict_checkSingle) auto
  obtain ok timedOut got where
    p: "parallel_loop ci (length history) ?res evs True 0 [] = Some (ok, timedOut, got)"
    and r: "res = (if \<not> ok then Illegal else if timedOut then Unknown else Ok)"
    using run by (auto simp: checkParallel_def Let_def split: bind_splits)
  have P: "(ok \<longleftrightarrow> (\<forall>i \<in> set got. ?res i = Some True)) \<and> set got \<subseteq> {..<length history} \<and>
      (ok \<longrightarrow> \<not> timedOut \<longrightarrow> set got = {..<length history}) \<and> (timedOut \<longrightarrow> Timeout \<in> set evs)"
    by (rule parallel_loop_sound [OF p]) (use sch in \<open>auto simp: some_schedule_def\<close>)
  then have g: "set got \<subseteq> {..<length history}" "ok \<Longrightarrow> \<not> timedOut \<Longrightarrow> set got = {..<length history}"
    "timedOut \<Longrightarrow> Timeout \<in> set evs" by blast+
  have "(\<forall>i \<in> set got. ?res i = Some True) \<longleftrightarrow> (\<forall>i \<in> set got. linearizable m (history ! i))"
    by (rule ball_cong) (use g(1) v in auto)
  then have ok: "ok \<longleftrightarrow> (\<forall>i \<in> set got. linearizable m (history ! i))" using P by blast
  have "linearizable m es" if "res = Ok" "es \<in> set history" for es
  proof -
    have "ok" "set got = {..<length history}" using r g(2) that(1) by (auto split: if_splits)
    then show ?thesis using ok that(2) by (auto simp: in_set_conv_nth)
  qed
  moreover have "\<exists>es \<in> set history. \<not> linearizable m es" if "res = Illegal"
  proof -
    have "\<not> ok" using r that by (auto split: if_splits)
    then obtain i where "i \<in> set got" "\<not> linearizable m (history ! i)" using ok by blast
    then show ?thesis using g(1) nth_mem by blast
  qed
  moreover have "Timeout \<in> set evs" if "res = Unknown" using r that g(3) by (auto split: if_splits)
  ultimately show ?thesis by blast
qed

lemma checkParallel_returns:
  assumes wf: "\<forall>es \<in> set history. wf_history es" and se: "state_equality m" "Equal m = Some eq"
    and ne: "history \<noteq> []" and sch: "full_schedule (length history) evs"
  shows "\<exists>info. checkParallel m history ci kills visit evs =
    Some (if \<forall>es \<in> set history. linearizable m es then Ok else Illegal, info)"
proof -
  let ?res = "\<lambda>i. verdict (checkSingle m (history ! i) ci (\<lambda>_. False))"
  have sc: "some_schedule (length history) evs" "Timeout \<notin> set evs" "length evs = length history"
    using full_schedule_some [OF sch] by auto
  have "evs \<noteq> []" using sc(3) ne by auto
  moreover have "\<forall>i < length history. ?res i \<noteq> None"
    using wf se by (auto simp: verdict_checkSingle [OF _ se])
  ultimately obtain ok got where
    "parallel_loop ci (length history) ?res evs True 0 [] = Some (ok, False, got)"
    using parallel_loop_returns [of "length history" ?res evs 0 ci True "[]"] sc ne
    by (auto simp: some_schedule_def)
  then obtain res info where run: "checkParallel m history ci kills visit evs = Some (res, info)"
    by (auto simp: checkParallel_def Let_def)
  from checkParallel_verdict [OF wf se sc(1) run] sc(2)
  have "res = (if \<forall>es \<in> set history. linearizable m es then Ok else Illegal)"
    by (cases res) auto
  with run show ?thesis by blast
qed

end
