(* ===== verification/Kv_Models.thy ===== *)
theory Kv_Models
  imports Linearizability
begin

text \<open>
  The key/value models given to the checker: \<open>models/kv.go\<close> (get, put, append on strings) and
  \<open>models1/kv.go\<close> (versioned get and put).  Both model the value of a single key and partition a
  history by key.  A Go value of type \<open>interface{}\<close> that holds a \<open>KvInput\<close> or a \<open>KvOutput\<close> is an
  element of \<open>kv_value\<close>; a failing type assertion is not modelled.  The order in which Go ranges
  over the map of partitions is the argument \<open>visit\<close>.
\<close>

section \<open>Partitioning by key\<close>

fun partition_loop :: "('a \<Rightarrow> 'k) \<Rightarrow> ('k \<times> 'a list) list \<Rightarrow> 'a list \<Rightarrow> ('k \<times> 'a list) list" where
  "partition_loop key m [] = m"
| "partition_loop key m (v # vs) = partition_loop key (assoc_append (key v) v m) vs"

definition partition_by :: "('a \<Rightarrow> string) \<Rightarrow> (string list \<Rightarrow> string list) \<Rightarrow> 'a list \<Rightarrow> 'a list list" where
  "partition_by key visit history =
     (let m = partition_loop key [] history;
          keys = sort (visit (map fst m))
      in map (\<lambda>k. the (map_of m k)) keys)"

section \<open>The model of models/kv.go\<close>

record KvInput =
  Op :: "8 word"
  Key :: string
  Value :: string

record KvOutput =
  out_Value :: string

datatype kv_value = InV (in_of: KvInput) | OutV (out_of: KvOutput)

definition KvModel_Partition ::
  "(string list \<Rightarrow> string list) \<Rightarrow> kv_value Operation list \<Rightarrow> kv_value Operation list list" where
  "KvModel_Partition visit history = partition_by (\<lambda>v. Key (in_of (Input v))) visit history"

definition KvModel_Step :: "string \<Rightarrow> kv_value \<Rightarrow> kv_value \<Rightarrow> bool \<times> string" where
  "KvModel_Step st input output =
     (let inp = in_of input; out = out_of output in
      if Op inp = 0 then (out_Value out = st, st)
      else if Op inp = 1 then (True, Value inp)
      else if Op inp = 2 then (True, st @ Value inp)
      else (out_Value out = st, st @ Value inp))"

definition KvModel_DescribeOperation :: "kv_value \<Rightarrow> kv_value \<Rightarrow> string" where
  "KvModel_DescribeOperation input output =
     (let inp = in_of input; out = out_of output; q = [CHR 0x27] in
      if Op inp = 0 then ''get('' @ q @ Key inp @ q @ '') -> '' @ q @ out_Value out @ q
      else if Op inp = 1 then ''put('' @ q @ Key inp @ q @ '', '' @ q @ Value inp @ q @ '')''
      else if Op inp = 2 then ''append('' @ q @ Key inp @ q @ '', '' @ q @ Value inp @ q @ '')''
      else ''<invalid>'')"

definition KvModel :: "(string list \<Rightarrow> string list) \<Rightarrow> (kv_value, string) Model" where
  "KvModel visit =
     \<lparr>Partition = Some (KvModel_Partition visit), PartitionEvent = None, Init = (\<lambda>_. ''''),
      Step = KvModel_Step, Equal = None,
      DescribeOperation = Some KvModel_DescribeOperation, DescribeState = None\<rparr>"

section \<open>The versioned model of models1/kv.go\<close>

record KvInput1 =
  Op1 :: "8 word"
  Key1 :: string
  Value1 :: string
  Version1 :: "64 word"

record KvOutput1 =
  out_Value1 :: string
  out_Version1 :: "64 word"
  out_Err1 :: string

record KvState1 =
  st_Value :: string
  st_Version :: "64 word"

datatype kv_value1 = InV1 (in_of1: KvInput1) | OutV1 (out_of1: KvOutput1)

text \<open>A state is an \<open>interface{}\<close>: a \<open>KvState\<close>, or the string the default branch returns.\<close>

datatype kv_state1 = StV1 (st_of1: KvState1) | InvalidV1 string

definition KvModel1_Partition ::
  "(string list \<Rightarrow> string list) \<Rightarrow> kv_value1 Operation list \<Rightarrow> kv_value1 Operation list list" where
  "KvModel1_Partition visit history = partition_by (\<lambda>v. Key1 (in_of1 (Input v))) visit history"

definition KvModel1_Step :: "kv_state1 \<Rightarrow> kv_value1 \<Rightarrow> kv_value1 \<Rightarrow> bool \<times> kv_state1" where
  "KvModel1_Step state input output =
     (let inp = in_of1 input; out = out_of1 output; st = st_of1 state in
      if Op1 inp = 0 then (out_Value1 out = st_Value st, state)
      else if Op1 inp = 1 then
        (if st_Version st = Version1 inp
         then (out_Err1 out = ''OK'' \<or> out_Err1 out = ''ErrMaybe'',
               StV1 \<lparr>st_Value = Value1 inp, st_Version = st_Version st + 1\<rparr>)
         else (out_Err1 out = ''ErrVersion'' \<or> out_Err1 out = ''ErrMaybe'', StV1 st))
      else (False, InvalidV1 ''<invalid>''))"

definition KvModel1_DescribeOperation :: "kv_value1 \<Rightarrow> kv_value1 \<Rightarrow> string" where
  "KvModel1_DescribeOperation input output =
     (let inp = in_of1 input; out = out_of1 output; q = [CHR 0x27] in
      if Op1 inp = 0 then
        ''get('' @ q @ Key1 inp @ q @ '') -> ('' @ q @ out_Value1 out @ q @ '', '' @
        q @ itoa (unat (out_Version1 out)) @ q @ '', '' @ q @ out_Err1 out @ q @ '')''
      else if Op1 inp = 1 then
        ''put('' @ q @ Key1 inp @ q @ '', '' @ q @ Value1 inp @ q @ '', '' @
        q @ itoa (unat (Version1 inp)) @ q @ '') -> ('' @ q @ out_Err1 out @ q @ '')''
      else ''<invalid>'')"

definition KvModel1 :: "(string list \<Rightarrow> string list) \<Rightarrow> (kv_value1, kv_state1) Model" where
  "KvModel1 visit =
     \<lparr>Partition = Some (KvModel1_Partition visit), PartitionEvent = None,
      Init = (\<lambda>_. StV1 \<lparr>st_Value = '''', st_Version = 0\<rparr>),
      Step = KvModel1_Step, Equal = None,
      DescribeOperation = Some KvModel1_DescribeOperation, DescribeState = None\<rparr>"

section \<open>What partitioning computes\<close>

lemma partition_loop_keys:
  "distinct (map fst m) \<Longrightarrow> distinct (map fst (partition_loop key m vs)) \<and>
     fst ` set (partition_loop key m vs) = fst ` set m \<union> key ` set vs"
proof (induction vs arbitrary: m)
  case (Cons v vs)
  have k: "distinct (map fst (assoc_append (key v) v m))"
    "fst ` set (assoc_append (key v) v m) = insert (key v) (fst ` set m)"
    using Cons.prems keys_assoc_append [of "key v" v m]
    by (auto simp flip: set_map)
  show ?case using Cons.IH [OF k(1)] k(2) by auto
qed simp

lemma partition_loop_lookup:
  "map_of (partition_loop key m vs) k =
     (if k \<in> key ` set vs
      then Some ((case map_of m k of None \<Rightarrow> [] | Some xs \<Rightarrow> xs) @ filter (\<lambda>v. key v = k) vs)
      else map_of m k)"
proof (induction vs arbitrary: m)
  case (Cons v vs)
  have "k \<notin> key ` set vs \<Longrightarrow> filter (\<lambda>v. key v = k) vs = []" by (auto simp: filter_empty_conv)
  then show ?case
    by (auto simp: Cons.IH map_of_assoc_append split: option.splits)
qed simp

lemma partition_by_eq:
  assumes "visits visit"
  shows "partition_by key visit history =
    map (\<lambda>k. filter (\<lambda>v. key v = k) history) (sorted_list_of_set (key ` set history))"
proof -
  let ?m = "partition_loop key [] history"
  have k: "distinct (map fst ?m)" "fst ` set ?m = key ` set history"
    using partition_loop_keys [of "[]" key history] by auto
  have "mset (visit (map fst ?m)) = mset (map fst ?m)" using assms by (simp add: visits_def)
  then have "sort (visit (map fst ?m)) = sort (map fst ?m)"
    by (metis mset_sort properties_for_sort sorted_sort)
  also have "\<dots> = sorted_list_of_set (key ` set history)"
    using k by (metis distinct_remdups_id list.set_map sorted_list_of_set_sort_remdups)
  finally have "sort (visit (map fst ?m)) = sorted_list_of_set (key ` set history)" .
  then show ?thesis
    by (auto simp: partition_by_def partition_loop_lookup intro!: map_cong)
qed

section \<open>Both models meet the contract of the checker\<close>

lemma KvModel_sel [simp]:
  "Equal (KvModel visit) = None" "Init (KvModel visit) u = ''''" "Step (KvModel visit) = KvModel_Step"
  "Partition (KvModel visit) = Some (KvModel_Partition visit)" "PartitionEvent (KvModel visit) = None"
  by (simp_all add: KvModel_def)

lemma KvModel1_sel [simp]:
  "Equal (KvModel1 visit) = None" "Init (KvModel1 visit) u = StV1 \<lparr>st_Value = '''', st_Version = 0\<rparr>"
  "Step (KvModel1 visit) = KvModel1_Step"
  "Partition (KvModel1 visit) = Some (KvModel1_Partition visit)" "PartitionEvent (KvModel1 visit) = None"
  by (simp_all add: KvModel1_def)

interpretation kv: state_equality "KvModel visit" for visit
  by (rule state_equality_shallow) simp

interpretation kv1: state_equality "KvModel1 visit" for visit
  by (rule state_equality_shallow) simp

end
