(* ===== verification/Locality.thy ===== *)
theory Locality
  imports Porcupine Kv_Models
begin

text \<open>
  Why the models may partition a history by key (\<open>Partition\<close> in \<open>models/kv.go\<close> and
  \<open>models1/kv.go\<close>): a history over many keys is linearizable with respect to the whole store
  exactly when the history of each key is linearizable with respect to that key's value, which is
  what the comment on \<open>Model.Partition\<close> in \<open>porcupine/model.go\<close> asks of a partition function.
\<close>

section \<open>A store of many keys\<close>

text \<open>The model of the whole store: each operation steps the state of its own key.\<close>

definition store_model :: "('v \<Rightarrow> 'k) \<Rightarrow> ('v, 's) Model \<Rightarrow> ('v, 'k \<Rightarrow> 's) Model" where
  "store_model key m =
     \<lparr>Partition = None, PartitionEvent = None, Init = (\<lambda>_ _. Init m ()),
      Step = (\<lambda>S inp out. case Step m (S (key inp)) inp out of (ok, s') \<Rightarrow> (ok, S(key inp := s'))),
      Equal = None, DescribeOperation = None, DescribeState = None\<rparr>"

abbreviation of_key :: "('v \<Rightarrow> 'k) \<Rightarrow> 'k \<Rightarrow> 'v Operation \<Rightarrow> bool" where
  "of_key key k x \<equiv> key (Input x) = k"

lemma store_Step [simp]:
  "Step (store_model key m) S inp out =
     (case Step m (S (key inp)) inp out of (ok, s') \<Rightarrow> (ok, S(key inp := s')))"
  by (simp add: store_model_def)

lemma run_store:
  "run_operations (store_model key m) S xs \<longleftrightarrow>
     (\<forall>k. run_operations m (S k) (filter (of_key key k) xs))"
proof (induction xs arbitrary: S)
  case (Cons x xs)
  let ?k = "key (Input x)"
  obtain ok s' where st: "Step m (S ?k) (Input x) (Output x) = (ok, s')" by fastforce
  have "run_operations (store_model key m) S (x # xs) \<longleftrightarrow>
      ok \<and> (\<forall>k. run_operations m ((S(?k := s')) k) (filter (of_key key k) xs))"
    by (simp only: run_operations.simps store_Step st prod.case Cons.IH [of "S(?k := s')"])
  also have "\<dots> \<longleftrightarrow> (\<forall>k. run_operations m (S k) (filter (of_key key k) (x # xs)))"
    by (auto simp: st split: if_splits)
  finally show ?case .
qed simp

section \<open>Linearization points\<close>

text \<open>Each operation of a linearized list takes effect at the largest call time so far; that is a
  moment between its own call and its own return.\<close>

fun points :: "int \<Rightarrow> 'v Operation list \<Rightarrow> int list" where
  "points t [] = []"
| "points t (x # xs) = max t (Call x) # points (max t (Call x)) xs"

lemma length_points [simp]: "length (points t xs) = length xs"
  by (induction xs arbitrary: t) auto

lemma points_ge: "p \<in> set (points t xs) \<Longrightarrow> t \<le> p"
  by (induction xs arbitrary: t) fastforce+

lemma sorted_points: "sorted (points t xs)"
  by (induction xs arbitrary: t) (auto dest: points_ge)

lemma points_between:
  assumes "sorted_wrt (\<lambda>a b. \<not> Return b < Call a) xs" "\<forall>x \<in> set xs. Call x \<le> Return x \<and> t \<le> Return x"
  shows "(x, p) \<in> set (zip xs (points t xs)) \<Longrightarrow> Call x \<le> p \<and> p \<le> Return x"
  using assms
proof (induction xs arbitrary: t)
  case (Cons y ys)
  show ?case
  proof (cases "x = y \<and> p = max t (Call y)")
    case True
    then show ?thesis using Cons.prems(3) by auto
  next
    case False
    then have "(x, p) \<in> set (zip ys (points (max t (Call y)) ys))" using Cons.prems(1) by auto
    then show ?thesis by (rule Cons.IH) (use Cons.prems(2,3) in \<open>auto simp: not_less\<close>)
  qed
qed simp

section \<open>Merging the linearizations of the keys\<close>

lemma merge_keys:
  fixes key :: "'v \<Rightarrow> 'k" and history :: "'v Operation list"
  assumes t: "\<forall>x \<in> set history. Call x \<le> Return x" and fin: "distinct keys"
    "set keys = (\<lambda>x. key (Input x)) ` set history"
    and L: "\<And>k. k \<in> set keys \<Longrightarrow> mset (L k) = mset (filter (of_key key k) history)"
    and srt: "\<And>k. k \<in> set keys \<Longrightarrow> sorted_wrt (\<lambda>a b. \<not> Return b < Call a) (L k)"
  obtains xs where "mset xs = mset history" "sorted_wrt (\<lambda>a b. \<not> Return b < Call a) xs"
    "\<And>k. k \<in> set keys \<Longrightarrow> filter (of_key key k) xs = L k"
proof -
  define t0 where "t0 = (if history = [] then 0 else Min (Return ` set history))"
  have t0: "t0 \<le> Return x" if "x \<in> set history" for x using that by (auto simp: t0_def)
  define Z where "Z = (\<lambda>k. zip (L k) (points t0 (L k)))"
  define A where "A = concat (map Z keys)"
  define S where "S = sort_key snd A"
  have inL: "x \<in> set history \<and> key (Input x) = k" if "k \<in> set keys" "x \<in> set (L k)" for k x
  proof -
    have "x \<in> set (filter (of_key key k) history)" using that L by (metis set_mset_mset)
    then show ?thesis by simp
  qed
  have fstZ: "map fst (Z k) = L k" for k by (simp add: Z_def)
  have inZ: "fst y \<in> set history \<and> key (Input (fst y)) = k \<and> Call (fst y) \<le> snd y \<and> snd y \<le> Return (fst y)"
    if k: "k \<in> set keys" "y \<in> set (Z k)" for k y
  proof -
    have "fst y \<in> set (L k)" using k(2) fstZ by (metis image_eqI list.set_map)
    moreover have "Call (fst y) \<le> snd y \<and> snd y \<le> Return (fst y)"
      by (rule points_between [OF srt [OF k(1)]])
         (use k inL t t0 in \<open>auto simp: Z_def\<close>)
    ultimately show ?thesis using inL k(1) by blast
  qed
  have fZ: "filter (\<lambda>y. of_key key k (fst y)) (Z k') = (if k = k' then Z k' else [])"
    if "k' \<in> set keys" for k k' using inZ [OF that] by (auto simp: filter_id_conv filter_empty_conv)
  have fA: "filter (\<lambda>y. of_key key k (fst y)) A = Z k" if k: "k \<in> set keys" for k
  proof -
    have "filter (\<lambda>y. of_key key k (fst y)) A = concat (map (\<lambda>k'. if k = k' then Z k' else []) keys)"
      unfolding A_def filter_concat map_map by (rule arg_cong [of _ _ concat]) (use fZ in auto)
    also have "\<dots> = Z k" using k fin(1)
      by (induction keys) (auto simp: concat_eq_Nil_conv)
    finally show ?thesis .
  qed
  have fS: "filter (of_key key k) (map fst S) = L k" if k: "k \<in> set keys" for k
  proof -
    have "filter (of_key key k) (map fst S) = map fst (sort_key snd (filter (\<lambda>y. of_key key k (fst y)) A))"
      by (simp add: filter_map S_def filter_sort comp_def)
    also have "sort_key snd (filter (\<lambda>y. of_key key k (fst y)) A) = Z k"
      unfolding fA [OF k] by (rule sort_key_id_if_sorted) (simp add: Z_def sorted_points)
    finally show ?thesis by (simp add: fstZ)
  qed
  have "mset (map fst S) = mset history"
  proof (rule multiset_eqI)
    fix x :: "'v Operation"
    let ?k = "key (Input x)"
    have cf: "count (mset (filter (of_key key ?k) ys)) x = count (mset ys) x" for ys
      by (simp add: mset_filter)
    show "count (mset (map fst S)) x = count (mset history) x"
    proof (cases "?k \<in> set keys")
      case True
      then show ?thesis using cf [of "map fst S"] cf [of history] fS [OF True] L [OF True] by simp
    next
      case False
      then have "x \<notin> set history" using fin(2) by auto
      moreover have "x \<notin> set (map fst S)" using inZ False by (force simp: S_def A_def)
      ultimately show ?thesis by (metis count_mset_0_iff)
    qed
  qed
  moreover have "sorted_wrt (\<lambda>a b. \<not> Return b < Call a) (map fst S)"
  proof -
    have "sorted_wrt (\<lambda>a b. snd a \<le> snd b) S" unfolding S_def using sorted_sort_key [of snd A]
      by (simp add: sorted_map)
    moreover have "Call (fst y) \<le> snd y \<and> snd y \<le> Return (fst y)" if "y \<in> set S" for y
      using inZ that by (auto simp: S_def A_def)
    ultimately show ?thesis
      unfolding sorted_wrt_map by (elim sorted_wrt_mono_rel [rotated]) (meson leD order_trans)
  qed
  ultimately show ?thesis using that fS by blast
qed

theorem locality:
  fixes key :: "'v \<Rightarrow> 'k"
  assumes t: "\<forall>x \<in> set history. Call x \<le> Return x"
  shows "linearizable_ops (store_model key m) history \<longleftrightarrow>
    (\<forall>k \<in> (\<lambda>x. key (Input x)) ` set history. linearizable_ops m (filter (of_key key k) history))"
proof
  assume "linearizable_ops (store_model key m) history"
  then obtain xs where x: "mset xs = mset history" "sorted_wrt (\<lambda>a b. \<not> Return b < Call a) xs"
    "run_operations (store_model key m) (\<lambda>_. Init m ()) xs"
    by (auto simp: linearizable_ops_def store_model_def)
  show "\<forall>k \<in> (\<lambda>x. key (Input x)) ` set history. linearizable_ops m (filter (of_key key k) history)"
    unfolding linearizable_ops_def
  proof (intro ballI exI conjI)
    fix k
    show "mset (filter (of_key key k) xs) = mset (filter (of_key key k) history)"
      using x(1) by (metis mset_filter)
    show "sorted_wrt (\<lambda>a b. \<not> Return b < Call a) (filter (of_key key k) xs)"
      by (rule sorted_wrt_filter [OF x(2)])
    show "run_operations m (Init m ()) (filter (of_key key k) xs)"
      using x(3) by (simp add: run_store)
  qed
next
  let ?K = "(\<lambda>x. key (Input x)) ` set history"
  assume "\<forall>k \<in> ?K. linearizable_ops m (filter (of_key key k) history)"
  then obtain L where L: "\<And>k. k \<in> ?K \<Longrightarrow> mset (L k) = mset (filter (of_key key k) history)"
    "\<And>k. k \<in> ?K \<Longrightarrow> sorted_wrt (\<lambda>a b. \<not> Return b < Call a) (L k)"
    "\<And>k. k \<in> ?K \<Longrightarrow> run_operations m (Init m ()) (L k)"
    unfolding linearizable_ops_def by metis
  obtain keys where keys: "distinct keys" "set keys = ?K"
    using finite_distinct_list [of ?K] by auto
  obtain xs where x: "mset xs = mset history" "sorted_wrt (\<lambda>a b. \<not> Return b < Call a) xs"
    "\<And>k. k \<in> set keys \<Longrightarrow> filter (of_key key k) xs = L k"
    using merge_keys [OF t keys, of L] L keys(2) by metis
  have "run_operations m (Init m ()) (filter (of_key key k) xs)" for k
  proof (cases "k \<in> ?K")
    case True
    then show ?thesis using x(3) L(3) keys(2) by simp
  next
    case False
    have "set xs = set history" using x(1) by (metis set_mset_mset)
    with False have "filter (of_key key k) xs = []" by (auto simp: filter_empty_conv)
    then show ?thesis by simp
  qed
  then have "run_operations (store_model key m) (\<lambda>_. Init m ()) xs" by (simp add: run_store)
  with x(1,2) show "linearizable_ops (store_model key m) history"
    unfolding linearizable_ops_def by (auto simp: store_model_def)
qed

end
