(* ===== verification/Event_Histories.thy ===== *)
theory Event_Histories
  imports Porcupine
begin

text \<open>
  Histories given as a sequence of events (\<open>renumber\<close>, \<open>convertEntries\<close> and \<open>checkEvents\<close> of
  \<open>porcupine/checker.go\<close>): an event history in which every operation is called once and returns
  once, later, becomes a well-formed entry list over the identifiers \<open>0, 1, ...\<close> with the same
  values in the same order.
\<close>

section \<open>Well-formed event histories\<close>

definition wf_events :: "'v Event list \<Rightarrow> bool" where
  "wf_events evs \<longleftrightarrow>
     distinct (map (\<lambda>e. (ev_Kind e, ev_Id e)) evs) \<and>
     (\<forall>p < length evs. ev_Kind (evs ! p) = CallEvent \<longrightarrow>
        (\<exists>q < length evs. p < q \<and> ev_Kind (evs ! q) = ReturnEvent \<and> ev_Id (evs ! q) = ev_Id (evs ! p))) \<and>
     (\<forall>q < length evs. ev_Kind (evs ! q) = ReturnEvent \<longrightarrow>
        (\<exists>p < q. ev_Kind (evs ! p) = CallEvent \<and> ev_Id (evs ! p) = ev_Id (evs ! q)))"

definition rename_event :: "(int \<Rightarrow> int) \<Rightarrow> 'v Event \<Rightarrow> 'v Event" where
  "rename_event r v =
     \<lparr>ev_ClientId = ev_ClientId v, ev_Kind = ev_Kind v, ev_Value = ev_Value v, ev_Id = r (ev_Id v)\<rparr>"

lemma rename_event_sel [simp]:
  "ev_Kind (rename_event r v) = ev_Kind v" "ev_Id (rename_event r v) = r (ev_Id v)"
  "ev_Value (rename_event r v) = ev_Value v" "ev_ClientId (rename_event r v) = ev_ClientId v"
  by (simp_all add: rename_event_def)

section \<open>The operations of an event history\<close>

text \<open>What an event history stands for, read off the events themselves: for every call the operation
  whose input is the value of the call and whose output is the value of the return with the same
  identifier; its times are the positions of the two events.\<close>

definition return_of :: "'v Event list \<Rightarrow> nat \<Rightarrow> nat" where
  "return_of evs p = length (takeWhile (\<lambda>e. \<not> (ev_Kind e = ReturnEvent \<and> ev_Id e = ev_Id (evs ! p))) evs)"

definition event_op :: "'v Event list \<Rightarrow> nat \<Rightarrow> nat \<Rightarrow> 'v Operation" where
  "event_op evs p q =
     \<lparr>ClientId = ev_ClientId (evs ! p), Input = ev_Value (evs ! p), Call = int p,
      Output = ev_Value (evs ! q), Return = int q\<rparr>"

definition events_ops :: "'v Event list \<Rightarrow> 'v Operation list" where
  "events_ops evs =
     map (\<lambda>p. event_op evs p (return_of evs p)) (filter (\<lambda>p. ev_Kind (evs ! p) = CallEvent) [0..<length evs])"

lemma event_op_sel [simp]:
  "Input (event_op evs p q) = ev_Value (evs ! p)" "Output (event_op evs p q) = ev_Value (evs ! q)"
  "Call (event_op evs p q) = int p" "Return (event_op evs p q) = int q"
  by (simp_all add: event_op_def)

lemma return_of_eq:
  assumes "wf_events evs" "q < length evs" "ev_Kind (evs ! q) = ReturnEvent" "ev_Id (evs ! q) = ev_Id (evs ! p)"
  shows "return_of evs p = q"
proof -
  let ?P = "\<lambda>e. \<not> (ev_Kind e = ReturnEvent \<and> ev_Id e = ev_Id (evs ! p))" and ?k = "\<lambda>e. (ev_Kind e, ev_Id e)"
  let ?q = "length (takeWhile ?P evs)"
  have l: "?q < length evs" by (rule length_takeWhile_less) (use assms nth_mem in blast)
  then have "\<not> ?P (evs ! ?q)" by (rule nth_length_takeWhile)
  then have "map ?k evs ! ?q = map ?k evs ! q" using l assms by simp
  moreover have "distinct (map ?k evs)" using assms(1) by (simp add: wf_events_def)
  ultimately have "?q = q" using l assms(2) by (subst (asm) nth_eq_iff_index_eq) auto
  then show ?thesis by (simp add: return_of_def)
qed

section \<open>Renumbering\<close>

text \<open>The identifiers seen so far are numbered from 0 without gaps.\<close>

definition numbering :: "(int \<rightharpoonup> int) \<Rightarrow> nat \<Rightarrow> bool" where
  "numbering m k \<longleftrightarrow> finite (dom m) \<and> inj_on m (dom m) \<and> ran m = {0..<int k} \<and> card (dom m) = k"

lemma numbering_extend:
  assumes "numbering m k" "m x = None"
  shows "numbering (m(x \<mapsto> int k)) (Suc k)"
proof -
  have r: "ran m = {0..<int k}" and d: "finite (dom m)" "card (dom m) = k" and i: "inj_on m (dom m)"
    using assms(1) by (auto simp: numbering_def)
  have "x \<notin> dom m" using assms(2) by auto
  then have "card (dom (m(x \<mapsto> int k))) = Suc k" using d by simp
  moreover have "m y \<noteq> Some (int k)" for y using r by (force dest: ranI)
  then have "inj_on (m(x \<mapsto> int k)) (dom (m(x \<mapsto> int k)))"
    using i by (auto simp: inj_on_def dom_def split: if_splits)
  moreover have "ran (m(x \<mapsto> int k)) = {0..<int (Suc k)}"
    using r ran_map_upd [of m x "int k"] assms(2) by auto
  ultimately show ?thesis using d by (simp add: numbering_def)
qed

lemma renumber_loop_ok:
  assumes "numbering m k"
  shows "\<exists>m' k'. m \<subseteq>\<^sub>m m' \<and> numbering m' k' \<and> dom m' = dom m \<union> ev_Id ` set evs \<and>
    renumber_loop m (int k) acc evs = acc @ map (rename_event (the \<circ> m')) evs"
  using assms
proof (induction evs arbitrary: m k acc)
  case Nil
  then show ?case by (intro exI [of _ m] exI [of _ k]) auto
next
  case (Cons v evs)
  let ?m = "case m (ev_Id v) of None \<Rightarrow> m(ev_Id v \<mapsto> int k) | Some _ \<Rightarrow> m"
  let ?k = "case m (ev_Id v) of None \<Rightarrow> Suc k | Some _ \<Rightarrow> k"
  have n: "numbering ?m ?k"
    using Cons.prems numbering_extend by (auto split: option.splits)
  obtain m' k' where IH: "?m \<subseteq>\<^sub>m m'" "numbering m' k'" "dom m' = dom ?m \<union> ev_Id ` set evs"
    "renumber_loop ?m (int ?k) (acc @ [rename_event (the \<circ> ?m) v]) evs =
       (acc @ [rename_event (the \<circ> ?m) v]) @ map (rename_event (the \<circ> m')) evs"
    using Cons.IH [OF n] by blast
  have le: "m \<subseteq>\<^sub>m ?m" by (auto simp: map_le_def split: option.splits)
  have "ev_Id v \<in> dom ?m" by (auto split: option.splits)
  then have same: "rename_event (the \<circ> ?m) v = rename_event (the \<circ> m') v"
    using IH(1) by (simp add: rename_event_def map_le_def)
  have run: "renumber_loop m (int k) acc (v # evs) =
      renumber_loop ?m (int ?k) (acc @ [rename_event (the \<circ> ?m) v]) evs"
    by (auto simp: rename_event_def algebra_simps split: option.splits)
  have dm: "dom ?m = insert (ev_Id v) (dom m)" by (auto split: option.splits)
  have "m \<subseteq>\<^sub>m m'" by (rule map_le_trans [OF le IH(1)])
  moreover have "dom m' = dom m \<union> ev_Id ` set (v # evs)" using IH(3) unfolding dm by auto
  moreover have "renumber_loop m (int k) acc (v # evs) = acc @ map (rename_event (the \<circ> m')) (v # evs)"
    unfolding run IH(4) by (simp add: same)
  ultimately show ?case using IH(2) by blast
qed

lemma renumber_ok:
  obtains r where "renumber evs = map (rename_event r) evs" "inj_on r (ev_Id ` set evs)"
    "r ` ev_Id ` set evs = {0..<int (card (ev_Id ` set evs))}"
proof -
  have "numbering Map.empty 0" by (simp add: numbering_def)
  from renumber_loop_ok [OF this, of evs "[]"] obtain m k where
    m: "numbering m k" "dom m = ev_Id ` set evs" and run: "renumber evs = map (rename_event (the \<circ> m)) evs"
    by (auto simp: renumber_def)
  have i: "inj_on m (dom m)" and r: "ran m = {0..<int k}" and k: "card (dom m) = k"
    using m(1) by (auto simp: numbering_def)
  have "inj_on (the \<circ> m) (ev_Id ` set evs)"
    unfolding m(2) [symmetric] using i by (auto simp: inj_on_def dom_def)
  moreover have "(the \<circ> m) ` ev_Id ` set evs = {0..<int (card (ev_Id ` set evs))}"
    unfolding m(2) [symmetric] k r [symmetric] by (force simp: ran_def dom_def)
  ultimately show ?thesis using that run by blast
qed

section \<open>From events to entries\<close>

definition event_entry :: "int \<Rightarrow> 'v Event \<Rightarrow> 'v entry" where
  "event_entry t v =
     \<lparr>e_kind = (if ev_Kind v = ReturnEvent then returnEntry else callEntry), e_value = ev_Value v,
      e_id = ev_Id v, e_time = t, e_clientId = ev_ClientId v\<rparr>"

lemma convertEntries_loop_eq:
  "convertEntries_loop (int k) evs acc =
     acc @ map (\<lambda>p. event_entry (int (k + p)) (evs ! p)) [0..<length evs]"
proof (induction evs arbitrary: k acc)
  case (Cons v evs)
  have up: "[0..<length (v # evs)] = 0 # map Suc [0..<length evs]"
    by (simp add: upt_conv_Cons map_Suc_upt del: upt_Suc)
  have "convertEntries_loop (int k) (v # evs) acc =
      convertEntries_loop (int (Suc k)) evs (acc @ [event_entry (int k) v])"
    by (simp add: event_entry_def add.commute)
  then show ?case unfolding up by (simp only: Cons.IH) (simp add: comp_def add.left_commute)
qed simp

lemma convertEntries_eq:
  "convertEntries evs = map (\<lambda>p. event_entry (int p) (evs ! p)) [0..<length evs]"
  using convertEntries_loop_eq [of 0 evs "[]"] by (simp add: convertEntries_def)

lemma entry_pos_nth:
  assumes "distinct (map (\<lambda>e. (e_kind e, e_id e)) es)" "p < length es"
    and "e_kind (es ! p) = k" "e_id (es ! p) = int i"
  shows "entry_pos k es i = p"
proof -
  let ?P = "\<lambda>e. \<not> (e_kind e = k \<and> e_id e = int i)"
  have l: "length (takeWhile ?P es) < length es"
    by (rule length_takeWhile_less) (use assms nth_mem in blast)
  then have q: "\<not> ?P (es ! length (takeWhile ?P es))" by (rule nth_length_takeWhile)
  let ?q = "length (takeWhile ?P es)"
  have "map (\<lambda>e. (e_kind e, e_id e)) es ! ?q = map (\<lambda>e. (e_kind e, e_id e)) es ! p"
    using q l assms by simp
  then have "?q = p" using l assms(1,2) by (subst (asm) nth_eq_iff_index_eq) auto
  then show ?thesis by (simp add: entry_pos_def)
qed

lemma wf_events_pairs:
  fixes evs :: "'v Event list"
  assumes "wf_events evs"
  shows "(\<lambda>e. (ev_Kind e, ev_Id e)) ` set evs = UNIV \<times> ev_Id ` set evs" (is "?f ` _ = _")
proof -
  have "(k, ev_Id e) \<in> ?f ` set evs" if e: "e \<in> set evs" for k and e :: "'v Event"
  proof -
    obtain p where p: "p < length evs" "e = evs ! p" using e by (auto simp: in_set_conv_nth)
    obtain q where "q < length evs" "ev_Kind (evs ! q) = k" "ev_Id (evs ! q) = ev_Id e"
    proof (cases "ev_Kind e = k")
      case False
      show ?thesis
      proof (cases k)
        case CallEvent
        with False have "ev_Kind (evs ! p) = ReturnEvent" using p(2) by (cases "ev_Kind e") auto
        then obtain q where "q < p" "ev_Kind (evs ! q) = CallEvent" "ev_Id (evs ! q) = ev_Id (evs ! p)"
          using assms p(1) unfolding wf_events_def by blast
        then show ?thesis using that [of q] CallEvent p by simp
      next
        case ReturnEvent
        with False have "ev_Kind (evs ! p) = CallEvent" using p(2) by (cases "ev_Kind e") auto
        then obtain q where "q < length evs" "ev_Kind (evs ! q) = ReturnEvent" "ev_Id (evs ! q) = ev_Id (evs ! p)"
          using assms p(1) unfolding wf_events_def by blast
        then show ?thesis using that [of q] ReturnEvent p by simp
      qed
    qed (use that p in blast)
    then show ?thesis by (intro image_eqI [of _ _ "evs ! q"]) auto
  qed
  then show ?thesis by auto
qed

lemma wf_events_length:
  assumes "wf_events evs"
  shows "length evs = 2 * card (ev_Id ` set evs)"
proof -
  have "length evs = card (set (map (\<lambda>e. (ev_Kind e, ev_Id e)) evs))"
    using assms distinct_card [of "map (\<lambda>e. (ev_Kind e, ev_Id e)) evs"] by (simp add: wf_events_def)
  also have "\<dots> = card (UNIV \<times> ev_Id ` set evs :: (EventKind \<times> int) set)"
    using wf_events_pairs [OF assms] by simp
  also have "(UNIV :: EventKind set) = {CallEvent, ReturnEvent}" using EventKind.exhaust by auto
  finally show ?thesis by (simp add: card_cartesian_product)
qed

lemma wf_event_entries:
  assumes wf: "wf_events evs"
  shows "wf_history (convertEntries (renumber evs))"
proof -
  obtain r where r: "renumber evs = map (rename_event r) evs" "inj_on r (ev_Id ` set evs)"
    "r ` ev_Id ` set evs = {0..<int (card (ev_Id ` set evs))}" by (rule renumber_ok)
  let ?es = "convertEntries (renumber evs)"
  have es: "?es = map (\<lambda>p. event_entry (int p) (rename_event r (evs ! p))) [0..<length evs]"
    unfolding convertEntries_eq r(1) by auto
  have len: "length ?es = length evs" by (simp add: es)
  have n: "n_ops ?es = card (ev_Id ` set evs)" by (simp add: n_ops_def len wf_events_length [OF wf])
  have nth: "e_id (?es ! p) = r (ev_Id (evs ! p))"
    "e_kind (?es ! p) = (if ev_Kind (evs ! p) = ReturnEvent then returnEntry else callEntry)"
    if "p < length evs" for p using that by (simp_all add: es event_entry_def)
  have dist: "distinct (map (\<lambda>e. (e_kind e, e_id e)) ?es)"
    unfolding distinct_conv_nth
  proof (intro allI impI notI)
    fix p q assume a: "p < length (map (\<lambda>e. (e_kind e, e_id e)) ?es)"
      "q < length (map (\<lambda>e. (e_kind e, e_id e)) ?es)" "p \<noteq> q"
      "map (\<lambda>e. (e_kind e, e_id e)) ?es ! p = map (\<lambda>e. (e_kind e, e_id e)) ?es ! q"
    then have b: "p < length evs" "q < length evs" by (simp_all add: len)
    from a(4) have "r (ev_Id (evs ! p)) = r (ev_Id (evs ! q))"
      and k: "(ev_Kind (evs ! p) = ReturnEvent) = (ev_Kind (evs ! q) = ReturnEvent)"
      using b by (auto simp: len nth split: if_splits)
    then have "ev_Id (evs ! p) = ev_Id (evs ! q)" using r(2) b by (auto dest: inj_onD)
    moreover have "ev_Kind (evs ! p) = ev_Kind (evs ! q)" using k by (metis EventKind.exhaust)
    moreover have "distinct (map (\<lambda>e. (ev_Kind e, ev_Id e)) evs)" using wf by (simp add: wf_events_def)
    ultimately show False using a(3) b by (auto simp: distinct_conv_nth)
  qed
  have "callPos ?es i < retPos ?es i" if i: "i < n_ops ?es" for i
  proof -
    have "int i \<in> r ` ev_Id ` set evs" using i r(3) by (simp add: n)
    then obtain p where p: "p < length evs" "r (ev_Id (evs ! p)) = int i" by (auto simp: in_set_conv_nth)
    obtain c q where c: "c < q" "q < length evs" "ev_Kind (evs ! c) = CallEvent"
      "ev_Kind (evs ! q) = ReturnEvent" "ev_Id (evs ! c) = ev_Id (evs ! p)" "ev_Id (evs ! q) = ev_Id (evs ! p)"
    proof (cases "ev_Kind (evs ! p)")
      case CallEvent
      then show ?thesis using wf p(1) that [of p] unfolding wf_events_def by blast
    next
      case ReturnEvent
      then show ?thesis using wf p(1) that [of _ p] unfolding wf_events_def by blast
    qed
    then have "callPos ?es i = c" "retPos ?es i = q"
      using p(2) by (auto intro!: entry_pos_nth dist simp: nth len)
    with c(1) show ?thesis by simp
  qed
  moreover have "0 \<le> e_id e \<and> e_id e < int (n_ops ?es)" if e: "e \<in> set ?es" for e
  proof -
    obtain p where p: "p < length evs" "e = ?es ! p" using e by (auto simp: in_set_conv_nth len)
    then have "e_id e \<in> r ` ev_Id ` set evs" using nth(1) by auto
    then show ?thesis unfolding r(3) n by auto
  qed
  ultimately show ?thesis using dist by (simp add: wf_history_def n len wf_events_length [OF wf])
qed

section \<open>What the entries say about the operations\<close>

lemma event_entries_nth:
  fixes evs :: "'v Event list"
  defines "es \<equiv> convertEntries (renumber evs)"
  shows "length es = length evs"
    and "p < length evs \<Longrightarrow> e_kind (es ! p) = callEntry \<longleftrightarrow> ev_Kind (evs ! p) = CallEvent"
    and "p < length evs \<Longrightarrow> e_value (es ! p) = ev_Value (evs ! p)"
    and "p < length evs \<Longrightarrow> q < length evs \<Longrightarrow> e_id (es ! p) = e_id (es ! q) \<longleftrightarrow> ev_Id (evs ! p) = ev_Id (evs ! q)"
proof -
  obtain r where r: "renumber evs = map (rename_event r) evs" "inj_on r (ev_Id ` set evs)"
    by (rule renumber_ok)
  have es: "es = map (\<lambda>p. event_entry (int p) (rename_event r (evs ! p))) [0..<length evs]"
    unfolding es_def convertEntries_eq r(1) by auto
  show "length es = length evs" by (simp add: es)
  show "p < length evs \<Longrightarrow> e_kind (es ! p) = callEntry \<longleftrightarrow> ev_Kind (evs ! p) = CallEvent"
    by (cases "ev_Kind (evs ! p)") (simp_all add: es event_entry_def)
  show "p < length evs \<Longrightarrow> e_value (es ! p) = ev_Value (evs ! p)"
    by (simp add: es event_entry_def)
  show "p < length evs \<Longrightarrow> q < length evs \<Longrightarrow> e_id (es ! p) = e_id (es ! q) \<longleftrightarrow> ev_Id (evs ! p) = ev_Id (evs ! q)"
    using r(2) by (auto simp: es event_entry_def dest: inj_onD)
qed

text \<open>The operations in the order of the numbers that \<open>renumber\<close> gives them.\<close>

definition numbered_ops :: "'v Event list \<Rightarrow> 'v Operation list" where
  "numbered_ops evs = (let es = convertEntries (renumber evs)
     in map (\<lambda>i. event_op evs (callPos es i) (retPos es i)) [0..<n_ops es])"

lemma entries_stand_for: "stands_for (convertEntries (renumber evs)) (numbered_ops evs)" if "wf_events evs"
proof -
  let ?es = "convertEntries (renumber evs)"
  have "entry_pos k ?es i < length evs" if "i < n_ops ?es" for k i
    using entry_pos_props(1) [OF wf_event_entries [OF \<open>wf_events evs\<close>] that] event_entries_nth(1) [where evs = evs] by simp
  then show ?thesis
    by (simp add: stands_for_def numbered_ops_def Let_def input_of_def output_of_def precedes_def
        event_entries_nth(3))
qed

lemma return_of_callPos:
  assumes wf: "wf_events evs" and i: "i < n_ops (convertEntries (renumber evs))"
  shows "return_of evs (callPos (convertEntries (renumber evs)) i) = retPos (convertEntries (renumber evs)) i"
proof -
  let ?es = "convertEntries (renumber evs)"
  note pos = entry_pos_props [OF wf_event_entries [OF wf] i]
  have len: "entry_pos k ?es i < length evs" for k
    using pos(1) [of k] event_entries_nth(1) [where evs = evs] by simp
  have "ev_Kind (evs ! retPos ?es i) \<noteq> CallEvent"
    using event_entries_nth(2) [OF len [of returnEntry]] pos(2) [of returnEntry] by simp
  then have "ev_Kind (evs ! retPos ?es i) = ReturnEvent"
    by (cases "ev_Kind (evs ! retPos ?es i)") simp_all
  moreover have "ev_Id (evs ! retPos ?es i) = ev_Id (evs ! callPos ?es i)"
    using event_entries_nth(4) [OF len [of returnEntry] len [of callEntry]] pos(3) by simp
  ultimately show ?thesis
    using return_of_eq [OF wf len] by blast
qed

lemma calls_numbered:
  assumes wf: "wf_events evs"
  shows "mset (map (callPos (convertEntries (renumber evs))) [0..<n_ops (convertEntries (renumber evs))]) =
    mset (filter (\<lambda>p. ev_Kind (evs ! p) = CallEvent) [0..<length evs])"
proof -
  let ?es = "convertEntries (renumber evs)"
  let ?A = "map (callPos ?es) [0..<n_ops ?es]" and ?B = "filter (\<lambda>p. ev_Kind (evs ! p) = CallEvent) [0..<length evs]"
  note w = wf_event_entries [OF wf]
  have "inj_on (callPos ?es) {0..<n_ops ?es}"
    by (rule inj_on_inverseI [of _ "op_at ?es"]) (simp add: op_at_pos [OF w])
  then have d: "distinct ?A" by (simp add: distinct_map)
  have "p \<in> set ?B" if "p \<in> set ?A" for p
    using that entry_pos_props [OF w, where k = callEntry] event_entries_nth(1,2) [where evs = evs] by auto
  moreover have "p \<in> set ?A" if "p \<in> set ?B" for p
  proof -
    have "p < length ?es" "is_call ?es p"
      using that event_entries_nth(1,2) [where evs = evs] by (auto simp: is_call_def)
    then have "p = callPos ?es (op_at ?es p)" "op_at ?es p < n_ops ?es"
      using callPos_unique [OF w] entry_pos_unique(1) [OF w] by blast+
    then show ?thesis unfolding set_map set_upt by (metis atLeastLessThan_iff image_eqI zero_le)
  qed
  ultimately have "set ?A = set ?B" by blast
  moreover have "distinct ?B" by simp
  ultimately show ?thesis
    using d set_eq_iff_mset_eq_distinct [of ?A ?B] by blast
qed

lemma numbered_ops_mset:
  assumes "wf_events evs"
  shows "mset (numbered_ops evs) = mset (events_ops evs)"
proof -
  let ?es = "convertEntries (renumber evs)" and ?f = "\<lambda>p. event_op evs p (return_of evs p)"
  have "numbered_ops evs = map ?f (map (callPos ?es) [0..<n_ops ?es])"
    using return_of_callPos [OF assms] by (simp add: numbered_ops_def Let_def)
  then have "mset (numbered_ops evs) = image_mset ?f (mset (map (callPos ?es) [0..<n_ops ?es]))"
    by (simp only: mset_map)
  also have "\<dots> = mset (events_ops evs)"
    unfolding calls_numbered [OF assms] by (simp add: events_ops_def)
  finally show ?thesis .
qed

lemma linearizable_event_entries:
  assumes "wf_events evs"
  shows "linearizable m (convertEntries (renumber evs)) \<longleftrightarrow> linearizable_ops m (events_ops evs)"
  using stands_for_linearizable [OF entries_stand_for [OF assms]] numbered_ops_mset [OF assms]
  by (simp add: linearizable_ops_def)

end
