(* ===== verification/Visualization.thy ===== *)
theory Visualization
  imports Porcupine
begin

text \<open>
  The data shown for a checked history (\<open>computeVisualizationData\<close> in
  \<open>porcupine/visualization.go\<close>; the page template and the JSON output around it are not modelled).
  \<open>None\<close> is a panic: an index out of range, the explicit one on a step that the model refuses, or
  the type assertion of a model on a value that was never recorded.  The routine behind
  \<open>sort.Slice\<close> is an argument.
\<close>

section \<open>The computation\<close>

record historyElement =
  he_ClientId :: int
  he_Start :: int
  he_End :: int
  he_Description :: string

record linearizationStep =
  ls_Index :: int
  ls_StateDescription :: string

record partitionVisualizationData =
  vd_History :: "historyElement list"
  vd_PartialLinearizations :: "linearizationStep list list"
  vd_Largest :: "int \<rightharpoonup> int"

fun history_loop ::
  "('v, 's) Model \<Rightarrow> 'v entry list \<Rightarrow> historyElement list \<Rightarrow> (int \<rightharpoonup> 'v) \<Rightarrow> (int \<rightharpoonup> 'v) \<Rightarrow>
   (historyElement list \<times> (int \<rightharpoonup> 'v) \<times> (int \<rightharpoonup> 'v)) option" where
  "history_loop m [] history callValue returnValue = Some (history, callValue, returnValue)"
| "history_loop m (elem # elems) history callValue returnValue =
     (case e_kind elem of
        callEntry \<Rightarrow> do {
          h \<leftarrow> int_get history (e_id elem);
          history \<leftarrow> int_put history (e_id elem) (h\<lparr>he_ClientId := e_clientId elem, he_Start := e_time elem\<rparr>);
          history_loop m elems history (callValue(e_id elem \<mapsto> e_value elem)) returnValue }
      | returnEntry \<Rightarrow> do {
          h \<leftarrow> int_get history (e_id elem);
          describe \<leftarrow> DescribeOperation m;
          cv \<leftarrow> callValue (e_id elem);
          history \<leftarrow> int_put history (e_id elem)
            (h\<lparr>he_End := e_time elem, he_Description := describe cv (e_value elem)\<rparr>);
          history_loop m elems history callValue (returnValue(e_id elem \<mapsto> e_value elem)) })"

fun partial_steps ::
  "('v, 's) Model \<Rightarrow> (int \<rightharpoonup> 'v) \<Rightarrow> (int \<rightharpoonup> 'v) \<Rightarrow> int \<Rightarrow> nat \<Rightarrow> int list \<Rightarrow> 's \<Rightarrow>
   linearizationStep list \<Rightarrow> (int \<Rightarrow> nat) \<Rightarrow> (int \<rightharpoonup> int) \<Rightarrow>
   (linearizationStep list \<times> (int \<Rightarrow> nat) \<times> (int \<rightharpoonup> int)) option" where
  "partial_steps m callValue returnValue i len [] state steps largestSize largestIndex =
     Some (steps, largestSize, largestIndex)"
| "partial_steps m callValue returnValue i len (histId # ids) state steps largestSize largestIndex = do {
     cv \<leftarrow> callValue histId;
     rv \<leftarrow> returnValue histId;
     let (ok, state) = Step m state cv rv;
     (if \<not> ok then None
      else do {
        describe \<leftarrow> DescribeState m;
        let steps = steps @ [\<lparr>ls_Index = histId, ls_StateDescription = describe state\<rparr>];
        (if largestSize histId < len
         then partial_steps m callValue returnValue i len ids state steps
                (largestSize(histId := len)) (largestIndex(histId \<mapsto> i))
         else partial_steps m callValue returnValue i len ids state steps largestSize largestIndex) }) }"

fun partials_loop ::
  "('v, 's) Model \<Rightarrow> (int \<rightharpoonup> 'v) \<Rightarrow> (int \<rightharpoonup> 'v) \<Rightarrow> int \<Rightarrow> int list list \<Rightarrow> linearizationStep list list \<Rightarrow>
   (int \<Rightarrow> nat) \<Rightarrow> (int \<rightharpoonup> int) \<Rightarrow> (linearizationStep list list \<times> (int \<rightharpoonup> int)) option" where
  "partials_loop m callValue returnValue i [] linearizations largestSize largestIndex =
     Some (linearizations, largestIndex)"
| "partials_loop m callValue returnValue i (partial # ps) linearizations largestSize largestIndex = do {
     (steps, largestSize, largestIndex) \<leftarrow>
       partial_steps m callValue returnValue i (length partial) partial (Init m ()) [] largestSize largestIndex;
     partials_loop m callValue returnValue (i + 1) ps (linearizations @ [steps]) largestSize largestIndex }"

definition partition_data ::
  "(int list list \<Rightarrow> int list list) \<Rightarrow> ('v, 's) Model \<Rightarrow> 'v entry list \<Rightarrow> int list list \<Rightarrow>
   partitionVisualizationData option" where
  "partition_data srt m entries ps = do {
     let n = length entries div 2;
     (history, callValue, returnValue) \<leftarrow>
       history_loop m entries
         (replicate n \<lparr>he_ClientId = 0, he_Start = 0, he_End = 0, he_Description = ''''\<rparr>) Map.empty Map.empty;
     (linearizations, largestIndex) \<leftarrow>
       partials_loop m callValue returnValue 0 (srt ps) [] (\<lambda>_. 0) Map.empty;
     Some \<lparr>vd_History = history, vd_PartialLinearizations = linearizations, vd_Largest = largestIndex\<rparr> }"

definition computeVisualizationData ::
  "(int list list \<Rightarrow> int list list) \<Rightarrow> ('v \<Rightarrow> string) \<Rightarrow> ('s \<Rightarrow> string) \<Rightarrow> ('v, 's) Model \<Rightarrow>
   'v linearizationInfo \<Rightarrow> partitionVisualizationData list option" where
  "computeVisualizationData srt fmt_v fmt_s m info =
     (let m = fillDefault fmt_v fmt_s m
      in those (map (\<lambda>partition. partition_data srt m (li_history info ! partition)
                        (li_partialLinearizations info ! partition)) [0..<length (li_history info)]))"

text \<open>What \<open>sort.Slice\<close> promises here: the same slices, longest first.\<close>

definition sorts_by_length :: "('a list list \<Rightarrow> 'a list list) \<Rightarrow> bool" where
  "sorts_by_length srt \<longleftrightarrow> (\<forall>xs. mset (srt xs) = mset xs \<and> sorted_wrt (\<lambda>a b. length b \<le> length a) (srt xs))"

section \<open>No panic on a checked history\<close>

lemma those_None_iff: "those xs = None \<longleftrightarrow> None \<in> set xs"
  by (induction xs) (auto split: option.splits)

lemma length_those: "those xs = Some ys \<Longrightarrow> length ys = length xs"
  by (induction xs arbitrary: ys) (auto split: option.splits)

definition recorded :: "'v entry list \<Rightarrow> (int \<rightharpoonup> 'v) \<Rightarrow> (int \<rightharpoonup> 'v) \<Rightarrow> bool" where
  "recorded es cv rv \<longleftrightarrow>
     (\<forall>e \<in> set es. (if e_kind e = callEntry then cv else rv) (e_id e) = Some (e_value e))"

lemma history_loop_ok:
  assumes wf: "wf_history es" and d: "DescribeOperation m = Some describe"
  shows "es = pre @ xs \<Longrightarrow> length H = n_ops es \<Longrightarrow> recorded pre cv rv \<Longrightarrow>
    \<exists>H' cv' rv'. history_loop m xs H cv rv = Some (H', cv', rv') \<and> length H' = n_ops es \<and> recorded es cv' rv'"
proof (induction xs arbitrary: pre H cv rv)
  case (Cons x xs)
  let ?p = "length pre"
  have p: "?p < length es" "es ! ?p = x" using Cons.prems(1) by auto
  note u = entry_pos_unique [OF wf p(1)]
  have b: "e_id x = int (op_at es ?p)" "op_at es ?p < length H"
    using u(1,3) p(2) Cons.prems(2) by auto
  have other: "e_id e \<noteq> e_id x" if "e \<in> set pre" "e_kind e = e_kind x" for e
    using wf that Cons.prems(1) by (auto simp: wf_history_def image_iff)
  have es: "es = (pre @ [x]) @ xs" using Cons.prems(1) by simp
  show ?case
  proof (cases "e_kind x")
    case callEntry
    have pre: "recorded (pre @ [x]) (cv(e_id x \<mapsto> e_value x)) rv"
      using Cons.prems(3) callEntry other by (auto simp: recorded_def)
    show ?thesis
      using Cons.IH [OF es _ pre, of "H[op_at es ?p := (H ! op_at es ?p)
          \<lparr>he_ClientId := e_clientId x, he_Start := e_time x\<rparr>]"] Cons.prems(2) b callEntry
      by (simp add: slice_get_def slice_put_def del: fun_upd_apply)
  next
    case returnEntry
    let ?c = "callPos es (op_at es ?p)"
    have r: "?p = retPos es (op_at es ?p)" using u(2) p(2) returnEntry by simp
    have "?c < ?p" using callPos_less_retPos [OF wf u(1)] r by simp
    moreover have c: "?c < length es" "e_kind (es ! ?c) = callEntry" "e_id (es ! ?c) = e_id x"
      using entry_pos_props [OF wf u(1), of callEntry] b(1) by auto
    ultimately have "es ! ?c \<in> set pre" using Cons.prems(1) by (auto simp: nth_append)
    then have cv: "cv (e_id x) = Some (e_value (es ! ?c))" using Cons.prems(3) c by (auto simp: recorded_def)
    have pre: "recorded (pre @ [x]) cv (rv(e_id x \<mapsto> e_value x))"
      using Cons.prems(3) returnEntry other by (auto simp: recorded_def) (metis entryKind.exhaust)
    show ?thesis
      using Cons.IH [OF es _ pre, of "H[op_at es ?p := (H ! op_at es ?p)
          \<lparr>he_End := e_time x, he_Description := describe (e_value (es ! ?c)) (e_value x)\<rparr>]"]
        Cons.prems(2) b returnEntry cv d
      by (simp add: slice_get_def slice_put_def del: fun_upd_apply)
  qed
qed simp

lemma partial_steps_ok:
  assumes "\<forall>i < n_ops es. cv (int i) = Some (input_of es i) \<and> rv (int i) = Some (output_of es i)"
    and "DescribeState m = Some describe"
  shows "set is \<subseteq> {..<n_ops es} \<Longrightarrow> run_ops m es s is \<noteq> None \<Longrightarrow>
    partial_steps m cv rv k len (map int is) s steps sz ix \<noteq> None"
proof (induction "is" arbitrary: s steps sz ix)
  case (Cons i "is")
  obtain s' where s': "Step m s (input_of es i) (output_of es i) = (True, s')" "run_ops m es s' is \<noteq> None"
    using Cons.prems(2) by (auto split: prod.splits if_splits)
  have "partial_steps m cv rv k len (map int is) s' st z x \<noteq> None" for st z x
    by (rule Cons.IH) (use Cons.prems(1) s'(2) in auto)
  then show ?case using assms Cons.prems(1) s'(1) by (simp add: Let_def)
qed simp

definition legal_partial :: "('v, 's) Model \<Rightarrow> 'v entry list \<Rightarrow> int list \<Rightarrow> bool" where
  "legal_partial m es p \<longleftrightarrow>
     (\<exists>is. p = map int is \<and> set is \<subseteq> {..<n_ops es} \<and> run_ops m es (Init m ()) is \<noteq> None)"

lemma partials_loop_ok:
  assumes "\<forall>i < n_ops es. cv (int i) = Some (input_of es i) \<and> rv (int i) = Some (output_of es i)"
    and "DescribeState m = Some describe"
  shows "\<forall>p \<in> set ps. legal_partial m es p \<Longrightarrow> partials_loop m cv rv k ps acc sz ix \<noteq> None"
proof (induction ps arbitrary: k acc sz ix)
  case (Cons p ps)
  then obtain "is" where i: "p = map int is" "set is \<subseteq> {..<n_ops es}" "run_ops m es (Init m ()) is \<noteq> None"
    by (auto simp: legal_partial_def)
  then have "partial_steps m cv rv k (length p) p (Init m ()) [] sz ix \<noteq> None"
    using partial_steps_ok [OF assms i(2,3)] by simp
  then show ?case using Cons by (auto simp: bind_eq_None_conv)
qed simp

lemma partition_data_ok:
  assumes wf: "wf_history es" and "DescribeOperation m = Some do'" "DescribeState m = Some ds"
    and "sorts_by_length srt" "\<forall>p \<in> set ps. legal_partial m es p"
  shows "partition_data srt m es ps \<noteq> None"
proof -
  obtain H cv rv where h: "history_loop m es
      (replicate (n_ops es) \<lparr>he_ClientId = 0, he_Start = 0, he_End = 0, he_Description = ''''\<rparr>)
      Map.empty Map.empty = Some (H, cv, rv)"
    and v: "recorded es cv rv"
    using history_loop_ok [OF wf assms(2), of "[]" es
        "replicate (n_ops es) \<lparr>he_ClientId = 0, he_Start = 0, he_End = 0, he_Description = []\<rparr>"
        Map.empty Map.empty] by (auto simp: recorded_def)
  have "cv (int i) = Some (input_of es i) \<and> rv (int i) = Some (output_of es i)" if i: "i < n_ops es" for i
  proof -
    note c = entry_pos_props [OF wf i, of callEntry] and r = entry_pos_props [OF wf i, of returnEntry]
    have "cv (int i) = Some (e_value (es ! callPos es i))"
      using v nth_mem [OF c(1)] c(2,3) by (force simp: recorded_def)
    moreover have "rv (int i) = Some (e_value (es ! retPos es i))"
      using v nth_mem [OF r(1)] r(2,3) by (force simp: recorded_def)
    ultimately show ?thesis by (simp add: input_of_def output_of_def)
  qed
  moreover have "set (srt ps) = set ps" using assms(4) by (metis set_mset_mset sorts_by_length_def)
  ultimately have "partials_loop m cv rv 0 (srt ps) [] (\<lambda>_. 0) Map.empty \<noteq> None"
    using partials_loop_ok [OF _ assms(3), of es cv rv "srt ps"] assms(5) by simp
  then show ?thesis using h by (auto simp: partition_data_def n_ops_def bind_eq_None_conv)
qed

lemma partials_legal:
  assumes "wf_history es" "state_equality m" "Equal m = Some eq" and v: "\<And>qs. set (visit qs) \<subseteq> set qs"
    and p: "p \<in> set (partials visit (checkSingle m es cp kill))"
  shows "legal_partial m es p"
proof -
  obtain ok longest seqs where c: "checkSingle m es cp kill = Some (Returns (ok, longest, seqs))"
    and l: "longest_ok m es longest seqs" using checkSingle_total [OF assms(1-3)] by blast
  obtain q where q: "q \<in> set (visit (remdups (map the (filter (\<lambda>v. v \<noteq> None) longest))))" "p = seqs ! q"
    using p by (auto simp: partials_def c)
  then have "Some q \<in> set longest" using v by fastforce
  then obtain i where "i < length longest" "longest ! i = Some q" by (auto simp: in_set_conv_nth)
  then obtain "is" where "seqs ! q = map int is" "takes m es (Init m ()) {} is"
    using l by (auto simp: longest_ok_def)
  then show ?thesis using q(2) unfolding legal_partial_def takes_iff by blast
qed

lemma checkParallel_info:
  assumes "checkParallel m l True kills visit evs = Some (res, info)"
  shows "li_history info = l \<and> (\<forall>i < length l. \<exists>kill.
    li_partialLinearizations info ! i = partials visit (checkSingle m (l ! i) True kill))"
proof -
  obtain ok timedOut got where p: "parallel_loop True (length l)
      (\<lambda>i. verdict (checkSingle m (l ! i) True (\<lambda>_. False))) evs True 0 [] = Some (ok, timedOut, got)"
    using assms by (auto simp: checkParallel_def Let_def split: bind_splits)
  have "info = \<lparr>li_history = l, li_partialLinearizations =
      map (\<lambda>i. partials visit (if i \<in> set got then checkSingle m (l ! i) True (\<lambda>_. False)
                      else checkSingle m (l ! i) True (kills i))) [0..<length l]\<rparr>"
    using assms p by (simp add: checkParallel_def Let_def)
  then show ?thesis by auto
qed

lemma fillDefault_describe:
  "\<exists>f. DescribeOperation (fillDefault fmt_v fmt_s m) = Some f"
  "\<exists>g. DescribeState (fillDefault fmt_v fmt_s m) = Some g"
  by (auto simp: fillDefault_def Let_def)

end
