(* ===== verification/Checker_Properties.thy ===== *)
theory Checker_Properties
  imports Locality Event_Histories Visualization
begin

text \<open>
  What the linearizability checker guarantees, over the definitions of \<open>Bitset\<close>,
  \<open>Linked_Entries\<close>, \<open>Checker\<close>, \<open>Porcupine\<close> and \<open>Kv_Models\<close>: its verdicts are those of the
  specification, its search always returns, and the partition by key is harmless.
\<close>

section \<open>Concrete histories and a concrete sort\<close>

definition time_key :: "'v entry \<Rightarrow> int" where
  "time_key e = 2 * e_time e + (if e_kind e = callEntry then 0 else 1)"

definition time_sort :: "'v entry list \<Rightarrow> 'v entry list" where
  "time_sort = sort_key time_key"

lemma time_key_less: "byTime_Less a b \<longleftrightarrow> time_key a < time_key b"
  by (cases "e_kind a"; cases "e_kind b") (auto simp: byTime_Less_def time_key_def)

lemma time_sort_sorts: "sorts_by_time (time_sort :: 'v entry list \<Rightarrow> 'v entry list)"
proof -
  have "sorted_wrt (\<lambda>a b. \<not> byTime_Less b a) (time_sort xs)" for xs :: "'v entry list"
    using sorted_sort_key [of time_key xs]
    by (simp add: time_sort_def time_key_less not_less sorted_map)
  then show ?thesis by (simp add: sorts_by_time_def time_sort_def)
qed

definition kv_op :: "int \<Rightarrow> 8 word \<Rightarrow> string \<Rightarrow> string \<Rightarrow> string \<Rightarrow> int \<Rightarrow> int \<Rightarrow> kv_value Operation" where
  "kv_op c op k v out call ret =
     \<lparr>ClientId = c, Input = InV \<lparr>Op = op, Key = k, Value = v\<rparr>, Call = call,
      Output = OutV \<lparr>out_Value = out\<rparr>, Return = ret\<rparr>"

text \<open>A put that overlaps two gets, the first of which sees the new value and the second the old
  one, next to an append on another key.\<close>

definition stale_read :: "kv_value Operation list" where
  "stale_read = [kv_op 0 1 ''x'' ''1'' '''' 0 9, kv_op 1 0 ''x'' '''' ''1'' 1 2,
                 kv_op 1 0 ''x'' '''' '''' 3 4, kv_op 2 2 ''y'' ''a'' '''' 0 5]"

definition fresh_read :: "kv_value Operation list" where
  "fresh_read = [kv_op 0 1 ''x'' ''1'' '''' 0 9, kv_op 1 0 ''x'' '''' '''' 1 2,
                 kv_op 1 0 ''x'' '''' ''1'' 3 4, kv_op 2 2 ''y'' ''a'' '''' 0 5]"

definition kv_filled :: "(kv_value, string) Model" where
  "kv_filled = fillDefault (\<lambda>_. ''v'') (\<lambda>s. s) (KvModel (\<lambda>ks. ks))"

definition fresh_x :: "kv_value entry list" where
  "fresh_x = makeEntries time_sort (take 3 fresh_read)"

lemma fresh_x_wf: "wf_history fresh_x"
  unfolding fresh_x_def
  by (rule makeEntries_wf(1) [OF time_sort_sorts]) (simp add: fresh_read_def kv_op_def)

lemma kv_filled_ok: "state_equality kv_filled" "Equal kv_filled = Some ShallowEqual"
proof -
  show "state_equality kv_filled"
    unfolding kv_filled_def by (rule state_equality_fillDefault [OF kv.state_equality_axioms])
  show "Equal kv_filled = Some ShallowEqual" by (simp add: kv_filled_def equal_fun_def)
qed

section \<open>The search over one partition\<close>

text \<open>C1. The search of \<open>checkSingle\<close>, with its cache and its in-place list surgery, always
  terminates without a panic and decides linearizability: on a well-formed history, when nobody
  sets the kill flag, it returns true exactly when the history is linearizable.\<close>

theorem checkSingle_decides:
  assumes "wf_history es" "state_equality m" "Equal m = Some eq"
  shows "\<exists>longest seqs. checkSingle m es computePartial (\<lambda>_. False) =
    Some (Returns (linearizable m es, longest, seqs))"
proof -
  obtain ok longest seqs where
    "checkSingle m es computePartial (\<lambda>_. False) = Some (Returns (ok, longest, seqs))"
    "ok \<longrightarrow> linearizable m es" "\<not> ok \<longrightarrow> \<not> linearizable m es"
    using checkSingle_total [OF assms, of computePartial "\<lambda>_. False"] by auto
  then show ?thesis by (cases ok) auto
qed

theorem checkSingle_decides_witness:
  "linearizable kv_filled fresh_x \<and>
   (\<exists>longest seqs. checkSingle kv_filled fresh_x True (\<lambda>_. False) = Some (Returns (True, longest, seqs)))"
proof -
  have "verdict (checkSingle kv_filled fresh_x True (\<lambda>_. False)) = Some True" by code_simp
  moreover obtain longest seqs where
    "checkSingle kv_filled fresh_x True (\<lambda>_. False) = Some (Returns (linearizable kv_filled fresh_x, longest, seqs))"
    using checkSingle_decides [OF fresh_x_wf kv_filled_ok, of True] by blast
  ultimately show ?thesis by (auto simp: verdict_def)
qed

text \<open>Whatever moment another goroutine sets the kill flag, the search returns, a positive
  answer is right, and a negative answer is right unless the flag was set.\<close>

theorem checkSingle_killed:
  assumes "wf_history es" "state_equality m" "Equal m = Some eq"
  shows "\<exists>ok longest seqs. checkSingle m es computePartial kill = Some (Returns (ok, longest, seqs)) \<and>
    (ok \<longrightarrow> linearizable m es) \<and> (\<not> ok \<longrightarrow> (\<exists>j. kill j) \<or> \<not> linearizable m es)"
  using checkSingle_total [OF assms, of computePartial kill] by blast

theorem checkSingle_killed_witness:
  "\<exists>ok longest seqs. checkSingle kv_filled fresh_x False (\<lambda>k. k \<ge> 2) = Some (Returns (ok, longest, seqs)) \<and>
    \<not> ok"
proof -
  have "verdict (checkSingle kv_filled fresh_x False (\<lambda>k. k \<ge> 2)) = Some False" by code_simp
  moreover obtain ok longest seqs where
    "checkSingle kv_filled fresh_x False (\<lambda>k. k \<ge> 2) = Some (Returns (ok, longest, seqs))"
    using checkSingle_killed [OF fresh_x_wf kv_filled_ok, of False "\<lambda>k. k \<ge> 2"] by blast
  ultimately show ?thesis by (auto simp: verdict_def)
qed

text \<open>The partial linearizations that the checker reports for its visualisation are legal: the
  slice recorded for operation \<open>i\<close> contains \<open>i\<close> and is an order in which the model accepts
  distinct operations, each after every operation that had returned before it was called.\<close>

theorem checkSingle_partials:
  assumes "wf_history es" "state_equality m" "Equal m = Some eq"
    and "checkSingle m es computePartial kill = Some (Returns (ok, longest, seqs))"
    and "i < n_ops es" "longest ! i = Some q"
  shows "q < length seqs \<and> (\<exists>is. seqs ! q = map int is \<and> i \<in> set is \<and> distinct is \<and>
    set is \<subseteq> {..<n_ops es} \<and> run_ops m es (Init m ()) is \<noteq> None \<and>
    (\<forall>k < length is. minimal es (set (take k is)) (is ! k)))"
proof -
  have "longest_ok m es longest seqs"
    using checkSingle_total [OF assms(1,2,3), of computePartial kill] assms(4) by auto
  with assms(5,6) have "q < length seqs"
    "\<exists>is. seqs ! q = map int is \<and> takes m es (Init m ()) {} is \<and> i \<in> set is"
    by (auto simp: longest_ok_def)
  then show ?thesis by (auto simp: takes_iff)
qed

definition stale_x :: "kv_value entry list" where
  "stale_x = makeEntries time_sort (take 3 stale_read)"

lemma stale_x_wf: "wf_history stale_x"
  unfolding stale_x_def
  by (rule makeEntries_wf(1) [OF time_sort_sorts]) (simp add: stale_read_def kv_op_def)

theorem checkSingle_partials_witness:
  "\<exists>is. [0, 1] = map int is \<and> 1 \<in> set is \<and> distinct is \<and> set is \<subseteq> {..<n_ops stale_x} \<and>
    run_ops kv_filled stale_x (Init kv_filled ()) is \<noteq> None \<and>
    (\<forall>k < length is. minimal stale_x (set (take k is)) (is ! k))"
proof -
  have run: "checkSingle kv_filled stale_x True (\<lambda>_. False) =
    Some (Returns (False, [Some 0, Some 0, None], [[0, 1]]))" by code_simp
  have n: "1 < n_ops stale_x" by code_simp
  show ?thesis
    using checkSingle_partials [OF stale_x_wf kv_filled_ok run n, of 0] by simp
qed

section \<open>The entry points\<close>

lemma wf_partitions:
  assumes "sorts_by_time srt" "\<forall>p \<in> set ps. \<forall>x \<in> set p. Call x \<le> Return x"
  shows "\<forall>es \<in> set (map (makeEntries srt) ps). wf_history es"
  using makeEntries_wf(1) [OF assms(1)] assms(2) by auto

lemma checkOperations_verdict:
  assumes "sorts_by_time srt" "state_equality m"
    and "\<forall>p \<in> set (partitions_of m history). \<forall>x \<in> set p. Call x \<le> Return x"
    and "some_schedule (length (partitions_of m history)) evs"
    and "checkOperations srt fmt_v fmt_s m history verbose kills visit evs = Some (res, info)"
  shows "(res = Ok \<longrightarrow> (\<forall>p \<in> set (partitions_of m history). linearizable_ops m p)) \<and>
    (res = Illegal \<longrightarrow> (\<exists>p \<in> set (partitions_of m history). \<not> linearizable_ops m p)) \<and>
    (res = Unknown \<longrightarrow> Timeout \<in> set evs)"
proof -
  let ?m = "fillDefault fmt_v fmt_s m" and ?ps = "partitions_of m history"
  let ?l = "map (makeEntries srt) ?ps"
  have run: "checkParallel ?m ?l verbose kills visit evs = Some (res, info)"
    using assms(5) by (simp add: checkOperations_def Let_def)
  have v: "(res = Ok \<longrightarrow> (\<forall>es \<in> set ?l. linearizable ?m es)) \<and>
    (res = Illegal \<longrightarrow> (\<exists>es \<in> set ?l. \<not> linearizable ?m es)) \<and> (res = Unknown \<longrightarrow> Timeout \<in> set evs)"
    by (rule checkParallel_verdict [OF wf_partitions [OF assms(1,3)] state_equality_fillDefault [OF assms(2)]
          fillDefault_simps(3) _ run]) (simp add: assms(4))
  have l: "linearizable ?m (makeEntries srt p) \<longleftrightarrow> linearizable_ops m p" if "p \<in> set ?ps" for p
    using linearizable_makeEntries [OF assms(1), of p ?m] assms(3) that
    by (simp add: linearizable_ops_fillDefault)
  show ?thesis using v l by auto
qed

text \<open>C23. The verdict of the operation-based entry points under any timeout and any order of
  delivery: \<open>Ok\<close> means every partition is linearizable, \<open>Illegal\<close> that some partition is not, and
  \<open>Unknown\<close> is returned only when the timeout fired.  The comments of \<open>porcupine.go\<close> and of
  \<open>checkParallel\<close> say that a timeout may give a false positive; the code is better than they say,
  because it turns an \<open>Ok\<close> into \<open>Unknown\<close> when it timed out.\<close>

theorem CheckOperationsTimeout_sound:
  assumes "sorts_by_time srt" "state_equality m"
    and "\<forall>p \<in> set (partitions_of m history). \<forall>x \<in> set p. Call x \<le> Return x"
    and "some_schedule (length (partitions_of m history)) evs"
    and "CheckOperationsTimeout srt fmt_v fmt_s m history kills visit evs = Some res"
  shows "(res = Ok \<longrightarrow> (\<forall>p \<in> set (partitions_of m history). linearizable_ops m p)) \<and>
    (res = Illegal \<longrightarrow> (\<exists>p \<in> set (partitions_of m history). \<not> linearizable_ops m p)) \<and>
    (res = Unknown \<longrightarrow> Timeout \<in> set evs)"
proof -
  obtain info where "checkOperations srt fmt_v fmt_s m history False kills visit evs = Some (res, info)"
    using assms(5) by (auto simp: CheckOperationsTimeout_def split: bind_splits)
  from checkOperations_verdict [OF assms(1-4) this] show ?thesis .
qed

theorem CheckOperationsTimeout_sound_witness:
  "CheckOperationsTimeout time_sort (\<lambda>_. ''v'') (\<lambda>s. s) (KvModel (\<lambda>ks. ks)) stale_read (\<lambda>_ _. False)
     (\<lambda>qs. qs) [Result 1, Result 0] = Some Illegal \<and>
   (\<exists>p \<in> set (partitions_of (KvModel (\<lambda>ks. ks)) stale_read). \<not> linearizable_ops (KvModel (\<lambda>ks. ks)) p)"
proof -
  have p: "partitions_of (KvModel (\<lambda>ks. ks)) stale_read = [take 3 stale_read, drop 3 stale_read]" by code_simp
  have run: "CheckOperationsTimeout time_sort (\<lambda>_. ''v'') (\<lambda>s. s) (KvModel (\<lambda>ks. ks)) stale_read (\<lambda>_ _. False)
     (\<lambda>qs. qs) [Result 1, Result 0] = Some Illegal" by code_simp
  have t: "\<forall>p \<in> set (partitions_of (KvModel (\<lambda>ks. ks)) stale_read). \<forall>x \<in> set p. Call x \<le> Return x"
    unfolding p by (simp add: stale_read_def kv_op_def)
  have s: "some_schedule (length (partitions_of (KvModel (\<lambda>ks. ks)) stale_read)) [Result 1, Result 0]"
    unfolding p by (simp add: some_schedule_def)
  show ?thesis
    using CheckOperationsTimeout_sound [OF time_sort_sorts kv.state_equality_axioms t s run] run by simp
qed

text \<open>The partitions of a model that partitions a history by a key of the operation's input: all are
  linearizable exactly when the history is, over the store of all keys.\<close>

lemma partitions_by_key:
  assumes p: "Partition m = Some (partition_by (\<lambda>v. key (Input v)) visit)" and v: "visits visit"
    and t: "\<forall>x \<in> set history. Call x \<le> Return x"
  shows "\<forall>p \<in> set (partitions_of m history). \<forall>x \<in> set p. Call x \<le> Return x"
    and "length (partitions_of m history) = card ((\<lambda>x. key (Input x)) ` set history)"
    and "(\<forall>p \<in> set (partitions_of m history). linearizable_ops m p) \<longleftrightarrow>
      linearizable_ops (store_model key m) history"
proof -
  let ?K = "(\<lambda>x. key (Input x)) ` set history"
  have ps: "partitions_of m history = map (\<lambda>k. filter (of_key key k) history) (sorted_list_of_set ?K)"
    by (simp add: partitions_of_def p partition_by_eq [OF v])
  show "\<forall>p \<in> set (partitions_of m history). \<forall>x \<in> set p. Call x \<le> Return x" using t unfolding ps by auto
  show "length (partitions_of m history) = card ?K" unfolding ps by simp
  have "(\<forall>p \<in> set (partitions_of m history). linearizable_ops m p) \<longleftrightarrow>
      (\<forall>k \<in> ?K. linearizable_ops m (filter (of_key key k) history))" unfolding ps by simp
  also have "\<dots> \<longleftrightarrow> linearizable_ops (store_model key m) history" using locality [OF t] by blast
  finally show "(\<forall>p \<in> set (partitions_of m history). linearizable_ops m p) \<longleftrightarrow>
      linearizable_ops (store_model key m) history" .
qed

text \<open>The verdict of \<open>CheckOperations\<close> when every search delivers.\<close>

lemma CheckOperations_by_key:
  assumes srt: "sorts_by_time srt" and se: "state_equality m"
    and p: "Partition m = Some (partition_by (\<lambda>v. key (Input v)) visit)" and v: "visits visit"
    and t: "\<forall>x \<in> set history. Call x \<le> Return x" and ne: "history \<noteq> []"
    and sch: "full_schedule (card ((\<lambda>x. key (Input x)) ` set history)) evs"
  shows "CheckOperations srt fmt_v fmt_s m history kills order evs =
    Some (linearizable_ops (store_model key m) history)"
proof -
  let ?m = "fillDefault fmt_v fmt_s m" and ?l = "map (makeEntries srt) (partitions_of m history)"
  note k = partitions_by_key [OF p v t]
  have nl: "?l \<noteq> []" using ne k(2) by (auto simp flip: length_greater_0_conv simp: card_gt_0_iff)
  have fs: "full_schedule (length ?l) evs" using sch k(2) by simp
  have "checkParallel ?m ?l False kills order evs \<noteq> None"
    using checkParallel_returns [OF wf_partitions [OF srt k(1)] state_equality_fillDefault [OF se]
        fillDefault_simps(3) nl fs] by force
  then obtain res info where
    run: "checkOperations srt fmt_v fmt_s m history False kills order evs = Some (res, info)"
    by (auto simp: checkOperations_def Let_def)
  have "some_schedule (length (partitions_of m history)) evs" "Timeout \<notin> set evs"
    using full_schedule_some [OF fs] by simp_all
  with checkOperations_verdict [OF srt se k(1) _ run] have "res = Ok \<longleftrightarrow> linearizable_ops (store_model key m) history"
    unfolding k(3) [symmetric] by (cases res) auto
  then show ?thesis using run by (simp add: CheckOperations_def)
qed

text \<open>C5. With the key/value model of \<open>models/kv.go\<close>, which checks each key on its own,
  \<open>CheckOperations\<close> returns and answers whether the whole history, over all its keys, is
  linearizable with respect to the whole store, in whatever order Go visits the keys, the sort
  breaks ties and the searches finish.\<close>

theorem CheckOperations_KvModel:
  assumes "sorts_by_time srt" "visits visit" "\<forall>x \<in> set history. Call x \<le> Return x" "history \<noteq> []"
    and "full_schedule (card ((\<lambda>x. Key (in_of (Input x))) ` set history)) evs"
  shows "CheckOperations srt fmt_v fmt_s (KvModel visit) history kills order evs =
    Some (linearizable_ops (store_model (\<lambda>v. Key (in_of v)) (KvModel visit)) history)"
  by (rule CheckOperations_by_key [OF assms(1) kv.state_equality_axioms _ assms(2-5)])
     (simp add: KvModel_Partition_def fun_eq_iff)

lemma keys_fresh: "card ((\<lambda>x. Key (in_of (Input x))) ` set fresh_read) = 2"
  by (simp add: fresh_read_def kv_op_def)

theorem CheckOperations_KvModel_witness:
  "linearizable_ops (store_model (\<lambda>v. Key (in_of v)) (KvModel rev)) fresh_read"
proof -
  have s: "full_schedule (card ((\<lambda>x. Key (in_of (Input x))) ` set fresh_read)) [Result 1, Result 0]"
    unfolding keys_fresh by (simp add: full_schedule_def upt_conv_Cons)
  have t: "\<forall>x \<in> set fresh_read. Call x \<le> Return x" "fresh_read \<noteq> []" "visits rev"
    by (simp_all add: fresh_read_def kv_op_def visits_def)
  have "CheckOperations time_sort (\<lambda>_. ''v'') (\<lambda>s. s) (KvModel rev) fresh_read (\<lambda>_ _. False)
     (\<lambda>qs. qs) [Result 1, Result 0] = Some True" by code_simp
  then show ?thesis
    using CheckOperations_KvModel [OF time_sort_sorts t(3,1,2) s, of "\<lambda>_. ''v''" "\<lambda>s. s"] by simp
qed

text \<open>The same for the versioned model of \<open>models1/kv.go\<close>, where a put succeeds only at the
  version it names and may report \<open>ErrMaybe\<close>.\<close>

theorem CheckOperations_KvModel1:
  assumes "sorts_by_time srt" "visits visit" "\<forall>x \<in> set history. Call x \<le> Return x" "history \<noteq> []"
    and "full_schedule (card ((\<lambda>x. Key1 (in_of1 (Input x))) ` set history)) evs"
  shows "CheckOperations srt fmt_v fmt_s (KvModel1 visit) history kills order evs =
    Some (linearizable_ops (store_model (\<lambda>v. Key1 (in_of1 v)) (KvModel1 visit)) history)"
  by (rule CheckOperations_by_key [OF assms(1) kv1.state_equality_axioms _ assms(2-5)])
     (simp add: KvModel1_Partition_def fun_eq_iff)

definition put1 :: "int \<Rightarrow> string \<Rightarrow> string \<Rightarrow> 64 word \<Rightarrow> string \<Rightarrow> int \<Rightarrow> int \<Rightarrow> kv_value1 Operation" where
  "put1 c k v ver err call ret =
     \<lparr>ClientId = c, Input = InV1 \<lparr>Op1 = 1, Key1 = k, Value1 = v, Version1 = ver\<rparr>, Call = call,
      Output = OutV1 \<lparr>out_Value1 = '''', out_Version1 = 0, out_Err1 = err\<rparr>, Return = ret\<rparr>"

text \<open>Two clients both report success for a put at version 0: impossible in any order.\<close>

definition double_put :: "kv_value1 Operation list" where
  "double_put = [put1 0 ''x'' ''a'' 0 ''OK'' 0 5, put1 1 ''x'' ''b'' 0 ''OK'' 1 6]"

theorem CheckOperations_KvModel1_witness:
  "\<not> linearizable_ops (store_model (\<lambda>v. Key1 (in_of1 v)) (KvModel1 rev)) double_put"
proof -
  have "card ((\<lambda>x. Key1 (in_of1 (Input x))) ` set double_put) = 1"
    by (simp add: double_put_def put1_def)
  then have s: "full_schedule (card ((\<lambda>x. Key1 (in_of1 (Input x))) ` set double_put)) [Result 0]"
    by (simp add: full_schedule_def)
  have t: "\<forall>x \<in> set double_put. Call x \<le> Return x" "double_put \<noteq> []" "visits rev"
    by (simp_all add: double_put_def put1_def visits_def)
  have "CheckOperations time_sort (\<lambda>_. ''v'') (\<lambda>s. ''s'') (KvModel1 rev) double_put (\<lambda>_ _. False)
     (\<lambda>qs. qs) [Result 0] = Some False" by code_simp
  then show ?thesis
    using CheckOperations_KvModel1 [OF time_sort_sorts t(3,1,2) s, of "\<lambda>_. ''v''" "\<lambda>s. ''s''"] by simp
qed

text \<open>C22. The event-based entry point, for any event partitioning of the model: when in every
  partition every operation is called once and later returns once, and every search delivers,
  \<open>CheckEvents\<close> returns, and returns true exactly when every partition is linearizable as a history of
  timed operations.  The operations are read off the events themselves: a call is paired with the
  return that carries its identifier, and the time of an event is its position.\<close>

theorem CheckEvents_decides:
  assumes "\<forall>h \<in> set (event_partitions_of m history). wf_events h" "state_equality m"
    and "event_partitions_of m history \<noteq> []"
    and "full_schedule (length (event_partitions_of m history)) evs"
  shows "CheckEvents fmt_v fmt_s m history kills visit evs =
    Some (\<forall>h \<in> set (event_partitions_of m history). linearizable_ops m (events_ops h))"
proof -
  let ?m = "fillDefault fmt_v fmt_s m"
  let ?l = "map (\<lambda>h. convertEntries (renumber h)) (event_partitions_of m history)"
  have "\<exists>info. checkParallel ?m ?l False kills visit evs =
      Some (if \<forall>es \<in> set ?l. linearizable ?m es then Ok else Illegal, info)"
    by (rule checkParallel_returns [OF _ state_equality_fillDefault [OF assms(2)] fillDefault_simps(3)])
       (use assms wf_event_entries in auto)
  moreover have "(\<forall>es \<in> set ?l. linearizable ?m es) \<longleftrightarrow>
      (\<forall>h \<in> set (event_partitions_of m history). linearizable_ops m (events_ops h))" (is "_ \<longleftrightarrow> ?spec")
    using assms(1) by (simp add: linearizable_event_entries linearizable_ops_fillDefault)
  ultimately obtain info where "checkParallel ?m ?l False kills visit evs = Some (if ?spec then Ok else Illegal, info)"
    by (simp only:) blast
  then show ?thesis by (simp add: CheckEvents_def checkEvents_def)
qed

definition kv_event :: "int \<Rightarrow> EventKind \<Rightarrow> kv_value \<Rightarrow> int \<Rightarrow> kv_value Event" where
  "kv_event c k v i = \<lparr>ev_ClientId = c, ev_Kind = k, ev_Value = v, ev_Id = i\<rparr>"

definition put_get_events :: "kv_value Event list" where
  "put_get_events =
     [kv_event 0 CallEvent (InV \<lparr>Op = 1, Key = ''x'', Value = ''1''\<rparr>) 17,
      kv_event 1 CallEvent (InV \<lparr>Op = 0, Key = ''x'', Value = ''''\<rparr>) 4,
      kv_event 1 ReturnEvent (OutV \<lparr>out_Value = ''1''\<rparr>) 4,
      kv_event 0 ReturnEvent (OutV \<lparr>out_Value = ''''\<rparr>) 17]"

text \<open>A model that checks the events of two groups of clients apart, and a history in which the second
  group reads a value that was never put.\<close>

definition by_client :: "(kv_value, string) Model" where
  "by_client = (KvModel (\<lambda>ks. ks))\<lparr>PartitionEvent := Some (\<lambda>h. [filter (\<lambda>e. ev_ClientId e < 2) h, filter (\<lambda>e. 2 \<le> ev_ClientId e) h])\<rparr>"

definition client_groups :: "kv_value Event list" where
  "client_groups = put_get_events @
     [kv_event 2 CallEvent (InV \<lparr>Op = 0, Key = ''y'', Value = ''''\<rparr>) 9,
      kv_event 2 ReturnEvent (OutV \<lparr>out_Value = ''7''\<rparr>) 9]"

lemma by_client_ok: "state_equality by_client"
proof -
  have "Step by_client = Step (KvModel (\<lambda>ks. ks))" "equal_fun by_client = equal_fun (KvModel (\<lambda>ks. ks))"
    unfolding equal_fun_def by_client_def by simp_all
  then show ?thesis
    using kv.state_equality_axioms [of "\<lambda>ks. ks"] by (simp only: state_equality_def)
qed

theorem CheckEvents_decides_witness:
  "linearizable_ops (KvModel (\<lambda>ks. ks)) (events_ops put_get_events) \<and>
   \<not> (\<forall>h \<in> set (event_partitions_of by_client client_groups). linearizable_ops by_client (events_ops h))"
proof -
  have "CheckEvents (\<lambda>_. ''v'') (\<lambda>s. s) (KvModel (\<lambda>ks. ks)) put_get_events (\<lambda>_ _. False) (\<lambda>qs. qs)
     [Result 0] = Some True"
    and p: "event_partitions_of (KvModel (\<lambda>ks. ks)) put_get_events = [put_get_events]"
    and w: "wf_events put_get_events" by code_simp+
  moreover have "full_schedule 1 [Result 0]" by (simp add: full_schedule_def)
  ultimately have 1: "linearizable_ops (KvModel (\<lambda>ks. ks)) (events_ops put_get_events)"
    using CheckEvents_decides [of "KvModel (\<lambda>ks. ks)" put_get_events "[Result 0]" "\<lambda>_. ''v''" "\<lambda>s. s"]
      kv.state_equality_axioms by simp
  have "CheckEvents (\<lambda>_. ''v'') (\<lambda>s. s) by_client client_groups (\<lambda>_ _. False) (\<lambda>qs. qs)
     [Result 1, Result 0] = Some False" by code_simp
  moreover have "event_partitions_of by_client client_groups = [put_get_events, drop 4 client_groups]" by code_simp
  moreover have "wf_events (drop 4 client_groups)" by code_simp
  moreover have "state_equality by_client"
    by (rule by_client_ok)
  moreover have "full_schedule 2 [Result 1, Result 0]" by (simp add: full_schedule_def upt_conv_Cons)
  ultimately have "\<not> (\<forall>h \<in> set (event_partitions_of by_client client_groups). linearizable_ops by_client (events_ops h))"
    using CheckEvents_decides [of by_client client_groups "[Result 1, Result 0]" "\<lambda>_. ''v''" "\<lambda>s. s"] w
    by (simp add: numeral_2_eq_2)
  with 1 show ?thesis by blast
qed

text \<open>C24. The main loop of \<open>checkParallel\<close> looks at its counter only after a delivery: when the
  partition function returns no partition, as the key/value model does on an empty history, nothing
  is ever delivered, so without a timeout the call does not return and with one it answers
  \<open>Unknown\<close> instead of \<open>Ok\<close>.\<close>

theorem CheckOperations_empty_blocks:
  assumes "visits visit" "some_schedule 0 evs"
  shows "CheckOperationsTimeout srt fmt_v fmt_s (KvModel visit) [] kills order evs =
    (if Timeout \<in> set evs then Some Unknown else None)"
proof -
  have p: "partitions_of (KvModel visit) [] = []"
    by (simp add: partitions_of_def KvModel_Partition_def partition_by_eq [OF assms(1)])
  have "e = Timeout" if "e \<in> set evs" for e
    by (rule par_event.exhaust [of e]) (use that assms(2) in \<open>auto simp: some_schedule_def\<close>)
  then have "evs = [] \<or> (\<exists>evs'. evs = Timeout # evs')" by (cases evs) auto
  then show ?thesis
    by (auto simp: CheckOperationsTimeout_def checkOperations_def checkParallel_def Let_def p)
qed

theorem CheckOperations_empty_blocks_witness:
  "CheckOperationsTimeout time_sort (\<lambda>_. ''v'') (\<lambda>s. s) (KvModel rev) [] (\<lambda>_ _. False) (\<lambda>qs. qs) [] = None \<and>
   CheckOperationsTimeout time_sort (\<lambda>_. ''v'') (\<lambda>s. s) (KvModel rev) [] (\<lambda>_ _. False) (\<lambda>qs. qs) [Timeout] = Some Unknown"
proof -
  have v: "visits rev" by (simp add: visits_def)
  have s: "some_schedule 0 []" "some_schedule 0 [Timeout]" by (simp_all add: some_schedule_def)
  show ?thesis
    using CheckOperations_empty_blocks [OF v s(1)] CheckOperations_empty_blocks [OF v s(2)] by simp
qed

section \<open>The data structures of the search\<close>

text \<open>Lifting a call and its return out of the doubly linked list keeps the list well formed,
  and unlifting the call restores the store exactly, cell by cell.\<close>

theorem lift_unlift:
  assumes "dll h (ps @ p # e # bs @ r # cs)" "n_match (h ! e) = Some r"
  shows "\<exists>h'. lift h e = Some h' \<and> dll h' (ps @ p # bs @ cs) \<and> unlift h' e = Some h"
  using lift_unlink [OF assms] dll_lift [OF assms(1)] unlift_relink [OF assms] by blast

definition stale_heap :: "kv_value heap" where
  "stale_heap = s_heap (check_start kv_filled stale_x 3)"

theorem lift_unlift_witness:
  "\<exists>h'. lift stale_heap 5 = Some h' \<and> dll h' [6, 4, 3, 2, 1] \<and> unlift h' 5 = Some stale_heap"
proof -
  have d: "dll stale_heap ([] @ 6 # 5 # [4, 3, 2, 1] @ 0 # [])" by code_simp
  have m: "n_match (stale_heap ! 5) = Some 0" by code_simp
  show ?thesis using lift_unlift [OF d m] by simp
qed

text \<open>C21. The bit set implements a set of naturals below its capacity.  A new one is empty and large
  enough; inserting and clearing succeed exactly within the capacity, keep it and change exactly one
  element; membership and cardinality are those of the set; two bit sets are equal exactly when they
  have one size and stand for the same set; and bit \<open>n\<close> of the hash is bit \<open>n\<close> of the cardinality,
  flipped once for every element that is \<open>n\<close> modulo 64.\<close>

theorem bitset_implements_set:
  "bits_of (newBitset k) = {} \<and> k \<le> 64 * length (newBitset k) \<and> bitset_clone b = b \<and>
   (if p < 64 * length b
    then \<exists>b1 b2. bitset_set b p = Some b1 \<and> bits_of b1 = insert p (bits_of b) \<and> length b1 = length b \<and>
      bitset_clear b p = Some b2 \<and> bits_of b2 = bits_of b - {p} \<and> length b2 = length b \<and>
      bitset_get b p = Some (p \<in> bits_of b)
    else bitset_set b p = None \<and> bitset_clear b p = None \<and> bitset_get b p = None) \<and>
   bitset_popcnt b = card (bits_of b) \<and>
   (bitset_equals b c \<longleftrightarrow> length c = length b \<and> bits_of c = bits_of b) \<and>
   (n < 64 \<longrightarrow> bit (bitset_hash b) n = (bit (card (bits_of b)) n \<noteq> odd (card {q \<in> bits_of b. q mod 64 = n})))"
proof (cases "p < 64 * length b")
  case True
  obtain b1 b2 where s: "bitset_set b p = Some b1" "bitset_clear b p = Some b2"
    using bitset_set_eq [OF True] bitset_clear_eq [OF True] by blast
  show ?thesis
    using True s bits_of_set [OF s(1)] bits_of_clear [OF s(2)] bits_of_get [OF True] popcnt_card [of b]
      equals_bits_of [of b c] bitset_hash_bit [of n b] length_newBitset_ge [of k] by simp
next
  case False
  then show ?thesis
    using popcnt_card [of b] equals_bits_of [of b c] bitset_hash_bit [of n b] length_newBitset_ge [of k]
    by (simp add: bitset_panics)
qed

theorem bitset_implements_set_witness:
  "(\<exists>b1. bitset_set (newBitset 100) 70 = Some b1 \<and> bits_of b1 = {70}) \<and>
   bitset_set (newBitset 100) 128 = None \<and>
   \<not> bitset_equals [1] [2] \<and> (3::nat) < 64 \<and>
   bit (bitset_hash [9]) 3 = (bit (card (bits_of [9])) 3 \<noteq> odd (card {q \<in> bits_of [9]. q mod 64 = 3}))"
proof -
  have l: "length (newBitset 100) = 2" by code_simp
  have "\<not> bitset_equals [1] [2]" by code_simp
  then show ?thesis
    using bitset_implements_set [of 100 "newBitset 100" 70 "newBitset 100" 0]
      bitset_implements_set [of 100 "newBitset 100" 128 "newBitset 100" 0]
      bitset_implements_set [of 0 "[9]" 0 "[9]" 3] by (auto simp: l)
qed

section \<open>The visualisation\<close>

text \<open>C25. The visualisation never panics on what the checker reports: after
  \<open>CheckOperationsVerbose\<close>, even one cut short by the timeout, \<open>computeVisualizationData\<close> finds every
  recorded value, the model accepts every step of every partial linearization, and there is one
  item per partition.\<close>

theorem visualization_no_panic:
  assumes "sorts_by_time srt" "state_equality m"
    and "\<forall>p \<in> set (partitions_of m history). \<forall>x \<in> set p. Call x \<le> Return x"
    and "\<And>qs. set (visit qs) \<subseteq> set qs" "sorts_by_length srtl"
    and "CheckOperationsVerbose srt fmt_v fmt_s m history kills visit evs = Some (res, info)"
  shows "\<exists>data. computeVisualizationData srtl fmt_v fmt_s m info = Some data \<and>
    length data = length (partitions_of m history)"
proof -
  let ?m = "fillDefault fmt_v fmt_s m" and ?l = "map (makeEntries srt) (partitions_of m history)"
  have i: "li_history info = ?l \<and> (\<forall>i < length ?l. \<exists>kill.
      li_partialLinearizations info ! i = partials visit (checkSingle ?m (?l ! i) True kill))"
    using assms(6) by (intro checkParallel_info) (simp add: CheckOperationsVerbose_def checkOperations_def Let_def)
  obtain f g where d: "DescribeOperation ?m = Some f" "DescribeState ?m = Some g"
    using fillDefault_describe by blast
  have nn: "partition_data srtl ?m (?l ! i) (li_partialLinearizations info ! i) \<noteq> None" if "i < length ?l" for i
  proof (rule partition_data_ok [OF _ d assms(5)])
    have "partitions_of m history ! i \<in> set (partitions_of m history)" using that by simp
    then have "\<forall>x \<in> set (partitions_of m history ! i). Call x \<le> Return x" using assms(3) by blast
    then show wf: "wf_history (?l ! i)" using makeEntries_wf(1) [OF assms(1)] that by simp
    show "\<forall>p \<in> set (li_partialLinearizations info ! i). legal_partial ?m (?l ! i) p"
      using partials_legal [OF wf state_equality_fillDefault [OF assms(2)] fillDefault_simps(3) assms(4)]
        i that by auto
  qed
  have "computeVisualizationData srtl fmt_v fmt_s m info \<noteq> None"
  proof
    assume "computeVisualizationData srtl fmt_v fmt_s m info = None"
    then have "None \<in> (\<lambda>i. partition_data srtl ?m (?l ! i) (li_partialLinearizations info ! i)) ` {0..<length ?l}"
      by (simp add: computeVisualizationData_def those_None_iff i Let_def)
    then obtain j where "j < length ?l" "None = partition_data srtl ?m (?l ! j) (li_partialLinearizations info ! j)"
      unfolding image_iff by (metis atLeastLessThan_iff)
    with nn show False by metis
  qed
  then obtain data where run: "computeVisualizationData srtl fmt_v fmt_s m info = Some data" by blast
  then have "length data = length ?l" using length_those i
    by (fastforce simp: computeVisualizationData_def Let_def)
  with run show ?thesis by simp
qed

definition length_sort :: "'a list list \<Rightarrow> 'a list list" where
  "length_sort = sort_key (\<lambda>p. - int (length p))"

lemma length_sort_sorts: "sorts_by_length (length_sort :: 'a list list \<Rightarrow> 'a list list)"
proof -
  have "sorted_wrt (\<lambda>a b. length b \<le> length a) (length_sort xs)" for xs :: "'a list list"
    using sorted_sort_key [of "\<lambda>p. - int (length p)" xs] by (simp add: length_sort_def sorted_map)
  then show ?thesis by (simp add: sorts_by_length_def length_sort_def)
qed

definition stale_info :: "CheckResult \<times> kv_value linearizationInfo" where
  "stale_info = the (CheckOperationsVerbose time_sort (\<lambda>_. ''v'') (\<lambda>s. s) (KvModel (\<lambda>ks. ks)) stale_read
     (\<lambda>_ _. False) (\<lambda>qs. qs) [Result 1, Result 0])"

theorem visualization_no_panic_witness:
  "\<exists>data. computeVisualizationData length_sort (\<lambda>_. ''v'') (\<lambda>s. s) (KvModel (\<lambda>ks. ks)) (snd stale_info) = Some data \<and>
    length data = 2"
proof -
  have p: "partitions_of (KvModel (\<lambda>ks. ks)) stale_read = [take 3 stale_read, drop 3 stale_read]" by code_simp
  have t: "\<forall>p \<in> set (partitions_of (KvModel (\<lambda>ks. ks)) stale_read). \<forall>x \<in> set p. Call x \<le> Return x"
    unfolding p by (simp add: stale_read_def kv_op_def)
  have "CheckOperationsVerbose time_sort (\<lambda>_. ''v'') (\<lambda>s. s) (KvModel (\<lambda>ks. ks)) stale_read
     (\<lambda>_ _. False) (\<lambda>qs. qs) [Result 1, Result 0] \<noteq> None" by code_simp
  then have run: "CheckOperationsVerbose time_sort (\<lambda>_. ''v'') (\<lambda>s. s) (KvModel (\<lambda>ks. ks)) stale_read
     (\<lambda>_ _. False) (\<lambda>qs. qs) [Result 1, Result 0] = Some (fst stale_info, snd stale_info)"
    by (auto simp: stale_info_def)
  show ?thesis
    using visualization_no_panic [OF time_sort_sorts kv.state_equality_axioms t _ length_sort_sorts run] p by (simp add: numeral_2_eq_2)
qed

end
