(* ===== verification/Kvsrv.thy ===== *)
theory Kvsrv
  imports Locality
begin

text \<open>
  The key/value server with retrying clients (\<open>kvsrv/server.go\<close>, \<open>client.go\<close>, \<open>common.go\<close>).
  A handler takes the server and returns it updated, with its reply; the mutex makes each handler
  one step.  \<open>Call\<close> of \<open>labrpc\<close> may lose the request, lose the reply, or deliver; a clerk repeats it
  until it is delivered, and other clerks run between its attempts.  \<open>kv_step\<close> is the
  interleaving of any number of clerks.  Sequence numbers are unbounded integers: the Go counter
  wraps only after \<open>2^63\<close> updates of one clerk.
\<close>

section \<open>Data\<close>

record PutAppendArgs =
  pa_Key :: string
  pa_Value :: string
  pa_ClientId :: string
  pa_SeqNo :: int

record PutAppendReply =
  pr_Value :: string

record GetArgs =
  ga_Key :: string

record GetReply =
  gr_Value :: string

record ClientState =
  cs_ClientId :: string
  cs_SeqNo :: int
  cs_Value :: string

record KVServer =
  store :: "string \<rightharpoonup> string"
  clientState :: "string \<rightharpoonup> ClientState"

section \<open>The server\<close>

definition StartKVServer :: KVServer where
  "StartKVServer = \<lparr>store = Map.empty, clientState = Map.empty\<rparr>"

definition KVServer_Get :: "KVServer \<Rightarrow> GetArgs \<Rightarrow> KVServer \<times> GetReply" where
  "KVServer_Get kv args =
     (case store kv (ga_Key args) of
        Some value \<Rightarrow> (kv, \<lparr>gr_Value = value\<rparr>)
      | None \<Rightarrow> (kv, \<lparr>gr_Value = ''''\<rparr>))"

text \<open>Reading a missing key of a Go map gives the zero value.\<close>

definition map_get :: "(string \<rightharpoonup> string) \<Rightarrow> string \<Rightarrow> string" where
  "map_get m k = (case m k of None \<Rightarrow> '''' | Some v \<Rightarrow> v)"

definition KVServer_Put :: "KVServer \<Rightarrow> PutAppendArgs \<Rightarrow> KVServer \<times> PutAppendReply" where
  "KVServer_Put kv args =
     (let kv = kv\<lparr>store := (store kv)(pa_Key args \<mapsto> pa_Value args)\<rparr>
      in (kv, \<lparr>pr_Value = map_get (store kv) (pa_Key args)\<rparr>))"

definition KVServer_Append :: "KVServer \<Rightarrow> PutAppendArgs \<Rightarrow> KVServer \<times> PutAppendReply" where
  "KVServer_Append kv args =
     (let dup = (case clientState kv (pa_ClientId args) of
                   None \<Rightarrow> None
                 | Some prevState \<Rightarrow> if cs_SeqNo prevState = pa_SeqNo args then Some prevState else None)
      in case dup of
           Some prevState \<Rightarrow> (kv, \<lparr>pr_Value = cs_Value prevState\<rparr>)
         | None \<Rightarrow>
             let (kv, value) =
                   (case store kv (pa_Key args) of
                      Some value \<Rightarrow>
                        (kv\<lparr>store := (store kv)(pa_Key args \<mapsto> value @ pa_Value args)\<rparr>, value)
                    | None \<Rightarrow> (kv\<lparr>store := (store kv)(pa_Key args \<mapsto> pa_Value args)\<rparr>, ''''));
                 reply = \<lparr>pr_Value = value\<rparr>;
                 clientNewPrevState = \<lparr>cs_ClientId = pa_ClientId args, cs_SeqNo = pa_SeqNo args,
                                       cs_Value = value\<rparr>
             in (kv\<lparr>clientState := (clientState kv)(pa_ClientId args \<mapsto> clientNewPrevState)\<rparr>, reply))"

section \<open>The clerk\<close>

text \<open>What one \<open>Call\<close> can do.\<close>

datatype call_outcome = RequestLost | ReplyLost | Delivered

text \<open>The loop \<open>for !ck.server.Call(...)\<close>.  Each attempt comes with what other clients did to the
  server since the previous one; \<open>None\<close> is the clerk still trying when the attempts are used up.\<close>

fun retry_loop ::
  "('s \<Rightarrow> 'a \<Rightarrow> 's \<times> 'r) \<Rightarrow> 'a \<Rightarrow> (('s \<Rightarrow> 's) \<times> call_outcome) list \<Rightarrow> 's \<Rightarrow> ('s \<times> 'r) option" where
  "retry_loop handler args [] s = None"
| "retry_loop handler args ((env, RequestLost) # as) s = retry_loop handler args as (env s)"
| "retry_loop handler args ((env, ReplyLost) # as) s =
     retry_loop handler args as (fst (handler (env s) args))"
| "retry_loop handler args ((env, Delivered) # as) s = Some (handler (env s) args)"

record Clerk =
  clientId :: string
  updateSeqNo :: int

definition hex_digit :: "8 word \<Rightarrow> char" where
  "hex_digit d = ''0123456789abcdef'' ! unat d"

definition hex_EncodeToString :: "8 word list \<Rightarrow> string" where
  "hex_EncodeToString bs = concat (map (\<lambda>b. [hex_digit (drop_bit 4 b), hex_digit (b AND 15)]) bs)"

text \<open>\<open>random\<close> is what \<open>io.ReadFull\<close> reads from the random source, \<open>None\<close> its error.\<close>

definition generateUniqueID :: "8 word list option \<Rightarrow> string option" where
  "generateUniqueID random = (case random of None \<Rightarrow> None | Some bytes \<Rightarrow> Some (hex_EncodeToString bytes))"

definition MakeClerk :: "8 word list option \<Rightarrow> Clerk outcome" where
  "MakeClerk random =
     (case generateUniqueID random of
        None \<Rightarrow> Panics
      | Some c \<Rightarrow> Returns \<lparr>clientId = c, updateSeqNo = 0\<rparr>)"

definition put_append_args :: "Clerk \<Rightarrow> string \<Rightarrow> string \<Rightarrow> PutAppendArgs" where
  "put_append_args ck key value =
     \<lparr>pa_Key = key, pa_Value = value, pa_ClientId = clientId ck, pa_SeqNo = updateSeqNo ck\<rparr>"

definition Clerk_Get ::
  "Clerk \<Rightarrow> string \<Rightarrow> ((KVServer \<Rightarrow> KVServer) \<times> call_outcome) list \<Rightarrow> KVServer \<Rightarrow> (KVServer \<times> string) option" where
  "Clerk_Get ck key attempts kv = do {
     (kv, reply) \<leftarrow> retry_loop KVServer_Get \<lparr>ga_Key = key\<rparr> attempts kv;
     Some (kv, gr_Value reply) }"

text \<open>The method name \<open>"KVServer." + op\<close> selects the handler; a name the server does not have makes
  \<open>labrpc\<close> panic and is not modelled.\<close>

definition PutAppend ::
  "Clerk \<Rightarrow> string \<Rightarrow> string \<Rightarrow> (KVServer \<Rightarrow> PutAppendArgs \<Rightarrow> KVServer \<times> PutAppendReply) \<Rightarrow>
   ((KVServer \<Rightarrow> KVServer) \<times> call_outcome) list \<Rightarrow> KVServer \<Rightarrow> (Clerk \<times> KVServer \<times> string) option" where
  "PutAppend ck key value handler attempts kv = do {
     (kv, reply) \<leftarrow> retry_loop handler (put_append_args ck key value) attempts kv;
     Some (ck\<lparr>updateSeqNo := updateSeqNo ck + 1\<rparr>, kv, pr_Value reply) }"

definition Clerk_Put ::
  "Clerk \<Rightarrow> string \<Rightarrow> string \<Rightarrow> ((KVServer \<Rightarrow> KVServer) \<times> call_outcome) list \<Rightarrow> KVServer \<Rightarrow>
   (Clerk \<times> KVServer) option" where
  "Clerk_Put ck key value attempts kv = do {
     (ck, kv, _) \<leftarrow> PutAppend ck key value KVServer_Put attempts kv;
     Some (ck, kv) }"

definition Clerk_Append ::
  "Clerk \<Rightarrow> string \<Rightarrow> string \<Rightarrow> ((KVServer \<Rightarrow> KVServer) \<times> call_outcome) list \<Rightarrow> KVServer \<Rightarrow>
   (Clerk \<times> KVServer \<times> string) option" where
  "Clerk_Append ck key value attempts kv = PutAppend ck key value KVServer_Append attempts kv"

section \<open>Many clerks\<close>

datatype kv_request = RGet string | RPut string string | RAppend string string

text \<open>One execution of a request at the server; the string is the value the clerk would return.\<close>

fun serve :: "Clerk \<Rightarrow> kv_request \<Rightarrow> KVServer \<Rightarrow> KVServer \<times> string" where
  "serve ck (RGet k) kv = (case KVServer_Get kv \<lparr>ga_Key = k\<rparr> of (kv, r) \<Rightarrow> (kv, gr_Value r))"
| "serve ck (RPut k v) kv = (case KVServer_Put kv (put_append_args ck k v) of (kv, r) \<Rightarrow> (kv, pr_Value r))"
| "serve ck (RAppend k v) kv = (case KVServer_Append kv (put_append_args ck k v) of (kv, r) \<Rightarrow> (kv, pr_Value r))"

fun finish :: "kv_request \<Rightarrow> Clerk \<Rightarrow> Clerk" where
  "finish (RGet k) ck = ck"
| "finish _ ck = ck\<lparr>updateSeqNo := updateSeqNo ck + 1\<rparr>"

text \<open>The operation a test client logs for the checker.\<close>

fun kv_input :: "kv_request \<Rightarrow> kv_value" where
  "kv_input (RGet k) = InV \<lparr>Op = 0, Key = k, Value = ''''\<rparr>"
| "kv_input (RPut k v) = InV \<lparr>Op = 1, Key = k, Value = v\<rparr>"
| "kv_input (RAppend k v) = InV \<lparr>Op = 3, Key = k, Value = v\<rparr>"

fun kv_output :: "kv_request \<Rightarrow> string \<Rightarrow> kv_value" where
  "kv_output (RPut k v) r = OutV \<lparr>out_Value = ''''\<rparr>"
| "kv_output _ r = OutV \<lparr>out_Value = r\<rparr>"

definition log_op :: "nat \<Rightarrow> kv_request \<Rightarrow> int \<Rightarrow> string \<Rightarrow> int \<Rightarrow> kv_value Operation" where
  "log_op c req call r ret =
     \<lparr>ClientId = int c, Input = kv_input req, Call = call, Output = kv_output req r, Return = ret\<rparr>"

record kv_system =
  sys_server :: KVServer
  sys_clerk :: "nat \<Rightarrow> Clerk"
  sys_busy :: "nat \<rightharpoonup> kv_request \<times> int"
  sys_clock :: int
  sys_log :: "kv_value Operation list"

datatype kv_label = Invoke nat kv_request | Attempt nat call_outcome

text \<open>A clerk starts a request when it is idle and attempts it while it is busy.\<close>

fun kv_step :: "kv_label \<Rightarrow> kv_system \<Rightarrow> kv_system option" where
  "kv_step (Invoke c req) s =
     (case sys_busy s c of
        Some _ \<Rightarrow> None
      | None \<Rightarrow> Some (s\<lparr>sys_busy := (sys_busy s)(c \<mapsto> (req, sys_clock s)), sys_clock := sys_clock s + 1\<rparr>))"
| "kv_step (Attempt c out) s =
     (case sys_busy s c of
        None \<Rightarrow> None
      | Some (req, t) \<Rightarrow>
          (case out of
             RequestLost \<Rightarrow> Some (s\<lparr>sys_clock := sys_clock s + 1\<rparr>)
           | ReplyLost \<Rightarrow>
               Some (s\<lparr>sys_server := fst (serve (sys_clerk s c) req (sys_server s)),
                       sys_clock := sys_clock s + 1\<rparr>)
           | Delivered \<Rightarrow>
               let (kv, r) = serve (sys_clerk s c) req (sys_server s)
               in Some (s\<lparr>sys_server := kv,
                          sys_clerk := (sys_clerk s)(c := finish req (sys_clerk s c)),
                          sys_busy := (sys_busy s)(c := None),
                          sys_log := sys_log s @ [log_op c req t r (sys_clock s)],
                          sys_clock := sys_clock s + 1\<rparr>)))"

fun kv_run :: "kv_label list \<Rightarrow> kv_system \<Rightarrow> kv_system option" where
  "kv_run [] s = Some s"
| "kv_run (l # ls) s = do { s' \<leftarrow> kv_step l s; kv_run ls s' }"

definition kv_start :: "(nat \<Rightarrow> string) \<Rightarrow> kv_system" where
  "kv_start ids =
     \<lparr>sys_server = StartKVServer, sys_clerk = (\<lambda>c. \<lparr>clientId = ids c, updateSeqNo = 0\<rparr>),
      sys_busy = Map.empty, sys_clock = 0, sys_log = []\<rparr>"

text \<open>Runs in which no put executes with its reply lost.\<close>

fun puts_answered :: "kv_label list \<Rightarrow> kv_system \<Rightarrow> bool" where
  "puts_answered [] s = True"
| "puts_answered (l # ls) s =
     ((case l of
         Attempt c ReplyLost \<Rightarrow> (case sys_busy s c of Some (RPut _ _, _) \<Rightarrow> False | _ \<Rightarrow> True)
       | _ \<Rightarrow> True) \<and>
      (case kv_step l s of None \<Rightarrow> True | Some s' \<Rightarrow> puts_answered ls s'))"

abbreviation whole_store :: "(kv_value, string \<Rightarrow> string) Model" where
  "whole_store \<equiv> store_model (\<lambda>v. Key (in_of v)) (KvModel (\<lambda>ks. ks))"

end
