(* ===== verification/Effect_Order.thy ===== *)
theory Effect_Order
  imports Locality
begin

text \<open>
  How a system of concurrent clients is shown to leave a linearizable log.  The operations are kept in
  the order in which they took effect, the logged ones and those that are still pending; the locale
  \<open>effect_log\<close> states what is needed of a system and shows that each kind of step keeps such an order.
\<close>

section \<open>Executing a list of operations\<close>

text \<open>The state after a list of operations, when the model accepts all of them.\<close>

fun exec :: "('v, 's) Model \<Rightarrow> 's \<Rightarrow> 'v Operation list \<Rightarrow> 's option" where
  "exec m s [] = Some s"
| "exec m s (x # xs) =
     (case Step m s (Input x) (Output x) of (ok, s') \<Rightarrow> if ok then exec m s' xs else None)"

lemma exec_run: "run_operations m s xs \<longleftrightarrow> exec m s xs \<noteq> None"
  by (induction m s xs rule: exec.induct) (auto split: prod.splits)

lemma exec_append: "exec m s (xs @ ys) = do { s' \<leftarrow> exec m s xs; exec m s' ys }"
  by (induction m s xs rule: exec.induct) (auto split: prod.splits)

lemma exec_cong:
  "map Input xs = map Input ys \<Longrightarrow> map Output xs = map Output ys \<Longrightarrow> exec m s xs = exec m s ys"
proof (induction xs arbitrary: ys s)
  case (Cons x xs)
  then obtain y ys' where "ys = y # ys'" by (cases ys) auto
  with Cons show ?case by (auto split: prod.splits)
qed simp

text \<open>The same operation, seen later: only its return may have moved on.\<close>

definition later_op :: "'v Operation \<Rightarrow> 'v Operation \<Rightarrow> bool" where
  "later_op a b \<longleftrightarrow> Input b = Input a \<and> Output b = Output a \<and> Call b = Call a \<and> Return a \<le> Return b"

lemma later_op_refl [simp]: "later_op x x"
  by (simp add: later_op_def)

definition ordered :: "('v, 's) Model \<Rightarrow> 's \<Rightarrow> 'v Operation list \<Rightarrow> bool" where
  "ordered m S xs \<longleftrightarrow> exec m (Init m ()) xs = Some S \<and> sorted_wrt (\<lambda>a b. Call a \<le> Return b) xs"

lemma ordered_later:
  assumes "list_all2 later_op xs ys" "ordered m S xs"
  shows "ordered m S ys"
proof -
  have l: "length ys = length xs" "\<And>i. i < length xs \<Longrightarrow> later_op (xs ! i) (ys ! i)"
    using assms(1) by (auto simp: list_all2_conv_all_nth)
  have "exec m (Init m ()) ys = exec m (Init m ()) xs"
    by (rule exec_cong) (use l in \<open>auto intro!: nth_equalityI simp: later_op_def\<close>)
  moreover have "sorted_wrt (\<lambda>a b. Call a \<le> Return b) ys"
    unfolding sorted_wrt_iff_nth_less
  proof (intro allI impI)
    fix i j assume ij: "i < j" "j < length ys"
    then have "Call (xs ! i) \<le> Return (xs ! j)"
      using assms(2) l(1) by (auto simp: ordered_def sorted_wrt_iff_nth_less)
    with l(2) [of i] l(2) [of j] l(1) ij show "Call (ys ! i) \<le> Return (ys ! j)" by (auto simp: later_op_def)
  qed
  ultimately show ?thesis using assms(2) by (simp add: ordered_def)
qed

lemma ordered_snoc:
  assumes "ordered m S xs" "\<forall>a \<in> set xs. Call a \<le> Return x"
    and "Step m S (Input x) (Output x) = (True, S')"
  shows "ordered m S' (xs @ [x])"
  using assms by (auto simp: ordered_def exec_append sorted_wrt_append)

section \<open>Logged and pending operations\<close>

fun lefts :: "('a + 'b) list \<Rightarrow> 'a list" where
  "lefts [] = []"
| "lefts (Inl x # zs) = x # lefts zs"
| "lefts (Inr _ # zs) = lefts zs"

fun rights :: "('a + 'b) list \<Rightarrow> 'b list" where
  "rights [] = []"
| "rights (Inl _ # zs) = rights zs"
| "rights (Inr c # zs) = c # rights zs"

lemma lefts_append [simp]: "lefts (xs @ ys) = lefts xs @ lefts ys"
  by (induction xs rule: lefts.induct) auto

lemma rights_append [simp]: "rights (xs @ ys) = rights xs @ rights ys"
  by (induction xs rule: rights.induct) auto

lemma set_lefts: "set (lefts zs) = {x. Inl x \<in> set zs}"
  by (induction zs rule: lefts.induct) auto

lemma set_rights: "set (rights zs) = {c. Inr c \<in> set zs}"
  by (induction zs rule: rights.induct) auto

definition settle :: "'b \<Rightarrow> 'a \<Rightarrow> ('a + 'b) list \<Rightarrow> ('a + 'b) list" where
  "settle c x zs = map (\<lambda>z. if z = Inr c then Inl x else z) zs"

lemma settle_simps [simp]:
  "settle c x [] = []" "settle c x (Inl y # zs) = Inl y # settle c x zs"
  "settle c x (Inr d # zs) = (if d = c then Inl x else Inr d) # settle c x zs"
  by (simp_all add: settle_def)

lemma rights_settle [simp]: "rights (settle c x zs) = filter (\<lambda>d. d \<noteq> c) (rights zs)"
  by (induction zs rule: rights.induct) auto

lemma settle_other: "c \<notin> set (rights zs) \<Longrightarrow> settle c x zs = zs"
  by (induction zs rule: rights.induct) auto

lemma lefts_settle:
  "distinct (rights zs) \<Longrightarrow> c \<in> set (rights zs) \<Longrightarrow> mset (lefts (settle c x zs)) = add_mset x (mset (lefts zs))"
  by (induction zs rule: rights.induct) (auto simp: settle_other)

section \<open>Systems that log their operations\<close>

text \<open>
  \<open>effected w c\<close>: the pending operation of client \<open>c\<close> has taken effect, and will be logged as
  \<open>pend w c\<close>, but for a later return; \<open>abs w\<close> is the state as the sequential model sees it.
\<close>

locale effect_log =
  fixes m :: "('v, 's) Model"
    and log :: "'w \<Rightarrow> 'v Operation list"
    and clock :: "'w \<Rightarrow> int"
    and effected :: "'w \<Rightarrow> nat \<Rightarrow> bool"
    and pend :: "'w \<Rightarrow> nat \<Rightarrow> 'v Operation"
    and abs :: "'w \<Rightarrow> 's"
    and ok :: "'w \<Rightarrow> bool"
  assumes log_call: "ok w \<Longrightarrow> x \<in> set (log w) \<Longrightarrow> Call x \<le> clock w"
    and pend_call: "ok w \<Longrightarrow> effected w c \<Longrightarrow> Call (pend w c) \<le> clock w"
begin

definition as_op :: "'w \<Rightarrow> 'v Operation + nat \<Rightarrow> 'v Operation" where
  "as_op w z = (case z of Inl x \<Rightarrow> x | Inr c \<Rightarrow> pend w c)"

definition effect_order :: "'w \<Rightarrow> ('v Operation + nat) list \<Rightarrow> bool" where
  "effect_order w zs \<longleftrightarrow>
     mset (lefts zs) = mset (log w) \<and> distinct (rights zs) \<and>
     set (rights zs) = {c. effected w c} \<and> ordered m (abs w) (map (as_op w) zs)"

definition has_order :: "'w \<Rightarrow> bool" where
  "has_order w \<longleftrightarrow> (\<exists>zs. effect_order w zs)"

text \<open>The effected operations of these clients are as before, only later.\<close>

definition undisturbed :: "'w \<Rightarrow> 'w \<Rightarrow> nat set \<Rightarrow> bool" where
  "undisturbed w w' D \<longleftrightarrow> (\<forall>c \<in> D. later_op (pend w c) (pend w' c))"

lemma has_order_start: "log w = [] \<Longrightarrow> (\<And>c. \<not> effected w c) \<Longrightarrow> abs w = Init m () \<Longrightarrow> has_order w"
  unfolding has_order_def effect_order_def by (intro exI [of _ "[]"]) (simp add: ordered_def)

lemma undisturbed_later:
  assumes "undisturbed w w' D" "set (rights zs) \<subseteq> D"
  shows "list_all2 later_op (map (as_op w) zs) (map (as_op w') zs)"
  using assms(2)
proof (induction zs rule: rights.induct)
  case (3 c zs)
  then show ?case using assms(1) by (simp add: undisturbed_def as_op_def)
qed (auto simp: as_op_def)

lemma calls_bounded:
  assumes "ok w" "effect_order w zs"
  shows "\<forall>a \<in> set (map (as_op w) zs). Call a \<le> clock w"
proof
  fix a assume "a \<in> set (map (as_op w) zs)"
  then obtain z where z: "z \<in> set zs" "a = as_op w z" by auto
  show "Call a \<le> clock w"
  proof (cases z)
    case (Inl x)
    then have "x \<in> set (lefts zs)" using z by (simp add: set_lefts)
    then have "x \<in> set (log w)" using assms(2) by (metis effect_order_def set_mset_mset)
    then show ?thesis using log_call [OF assms(1)] z Inl by (simp add: as_op_def)
  next
    case (Inr c)
    then have "effected w c" using z assms(2) by (auto simp: effect_order_def set_rights)
    then show ?thesis using pend_call [OF assms(1)] z Inr by (simp add: as_op_def)
  qed
qed

text \<open>A step without effect.\<close>

lemma order_keep:
  assumes "has_order w" "undisturbed w w' {c. effected w c}" "log w' = log w"
    and "\<And>c. effected w' c \<longleftrightarrow> effected w c" "abs w' = abs w"
  shows "has_order w'"
proof -
  obtain zs where zs: "effect_order w zs" using assms(1) by (auto simp: has_order_def)
  then have "list_all2 later_op (map (as_op w) zs) (map (as_op w') zs)"
    by (intro undisturbed_later [OF assms(2)]) (simp add: effect_order_def)
  from ordered_later [OF this, of m "abs w"] have "effect_order w' zs"
    using zs assms(3-5) by (simp add: effect_order_def)
  then show ?thesis by (auto simp: has_order_def)
qed

text \<open>An operation takes effect.\<close>

lemma order_snoc:
  assumes "effect_order w zs" "ok w" "undisturbed w w' {c. effected w c}"
    and "later_op x (as_op w' z)" "clock w \<le> Return x"
    and "Step m (abs w) (Input x) (Output x) = (True, abs w')"
    and "mset (log w') = mset (log w) + mset (lefts [z])"
    and "distinct (rights (zs @ [z]))" "set (rights (zs @ [z])) = {c. effected w' c}"
  shows "effect_order w' (zs @ [z])"
proof -
  have "list_all2 later_op (map (as_op w) zs) (map (as_op w') zs)"
    using assms(1) by (intro undisturbed_later [OF assms(3)]) (simp add: effect_order_def)
  then have l: "list_all2 later_op (map (as_op w) zs @ [x]) (map (as_op w') (zs @ [z]))"
    using assms(4) by (simp add: list_all2_appendI)
  have "ordered m (abs w') (map (as_op w) zs @ [x])"
  proof (rule ordered_snoc)
    show "\<forall>a \<in> set (map (as_op w) zs). Call a \<le> Return x"
      using calls_bounded [OF assms(2,1)] assms(5) by fastforce
  qed (use assms(1,6) in \<open>auto simp: effect_order_def\<close>)
  from ordered_later [OF l this] show ?thesis using assms(1,7-9) by (simp add: effect_order_def)
qed

text \<open>It is logged at once, or stays pending.\<close>

lemma order_log:
  assumes "has_order w" "ok w" "undisturbed w w' {c. effected w c}" "clock w \<le> Return x"
    and "Step m (abs w) (Input x) (Output x) = (True, abs w')"
    and "log w' = log w @ [x]" "\<And>c. effected w' c \<longleftrightarrow> effected w c"
  shows "has_order w'"
proof -
  obtain zs where zs: "effect_order w zs" using assms(1) by (auto simp: has_order_def)
  have "effect_order w' (zs @ [Inl x])"
    by (rule order_snoc [OF zs assms(2,3) _ assms(4,5)])
       (use zs assms(6,7) in \<open>auto simp: as_op_def effect_order_def\<close>)
  then show ?thesis by (auto simp: has_order_def)
qed

lemma order_pend:
  assumes "has_order w" "ok w" "undisturbed w w' {c. effected w c}" "clock w \<le> Return (pend w' d)"
    and "Step m (abs w) (Input (pend w' d)) (Output (pend w' d)) = (True, abs w')"
    and "log w' = log w" "\<not> effected w d" "\<And>c. effected w' c \<longleftrightarrow> c = d \<or> effected w c"
  shows "has_order w'"
proof -
  obtain zs where zs: "effect_order w zs" using assms(1) by (auto simp: has_order_def)
  have "effect_order w' (zs @ [Inr d])"
    by (rule order_snoc [OF zs assms(2,3) _ assms(4,5)])
       (use zs assms(6-8) in \<open>auto simp: as_op_def effect_order_def\<close>)
  then show ?thesis by (auto simp: has_order_def)
qed

text \<open>An effected operation returns.\<close>

lemma order_settle:
  assumes "has_order w" "undisturbed w w' ({c. effected w c} - {d})" "effected w d"
    and "later_op (pend w d) x" "log w' = log w @ [x]"
    and "\<And>c. effected w' c \<longleftrightarrow> effected w c \<and> c \<noteq> d" "abs w' = abs w"
  shows "has_order w'"
proof -
  obtain zs where zs: "effect_order w zs" using assms(1) by (auto simp: has_order_def)
  then have z: "distinct (rights zs)" "set (rights zs) = {c. effected w c}"
    by (simp_all add: effect_order_def)
  have "list_all2 later_op (map (as_op w) zs) (map (as_op w) (settle d x zs))"
    using assms(4) by (induction zs rule: rights.induct) (auto simp: as_op_def)
  moreover have "list_all2 later_op (map (as_op w) (settle d x zs)) (map (as_op w') (settle d x zs))"
    by (rule undisturbed_later [OF assms(2)]) (auto simp: z)
  ultimately have "ordered m (abs w') (map (as_op w') (settle d x zs))"
    using zs assms(7) ordered_later by (metis effect_order_def)
  moreover have "mset (lefts (settle d x zs)) = mset (log w')"
    using lefts_settle [OF z(1), of d x] z(2) zs assms(3,5) by (simp add: effect_order_def)
  ultimately have "effect_order w' (settle d x zs)" using z assms(6) by (auto simp: effect_order_def)
  then show ?thesis by (auto simp: has_order_def)
qed

lemma quiescent_linearizable:
  assumes "has_order w" "\<And>c. \<not> effected w c"
  shows "linearizable_ops m (log w)"
proof -
  obtain zs where zs: "effect_order w zs" using assms(1) by (auto simp: has_order_def)
  have "rights zs = []" using zs assms(2) by (auto simp: effect_order_def)
  then have l: "map (as_op w) zs = lefts zs"
    by (induction zs rule: rights.induct) (auto simp: as_op_def)
  have "exec m (Init m ()) (lefts zs) \<noteq> None" "sorted_wrt (\<lambda>a b. Call a \<le> Return b) (lefts zs)"
    "mset (lefts zs) = mset (log w)"
    using zs l by (simp_all add: effect_order_def ordered_def)
  then show ?thesis
    unfolding linearizable_ops_def exec_run by (auto simp: not_less intro!: exI [of _ "lefts zs"])
qed

end

end
