(* ===== verification/Kvsrv_Correct.thy ===== *)
theory Kvsrv_Correct
  imports Kvsrv Effect_Order
begin

text \<open>
  Correctness of the key/value server.  The contract under which retrying a request is safe is the
  locale \<open>retry_safe\<close>; \<open>Get\<close> and \<open>Append\<close> meet it, \<open>Put\<close> does not.  The system of many clerks is
  related to the sequential store by an invariant that keeps the operations in the order in which
  they took effect; every quiescent log is then linearizable as long as no executed put is repeated.
\<close>

section \<open>Handlers\<close>

lemma Get_eq: "KVServer_Get kv args = (kv, \<lparr>gr_Value = map_get (store kv) (ga_Key args)\<rparr>)"
  by (simp add: KVServer_Get_def map_get_def split: option.splits)

text \<open>The entry that makes a request of a client a duplicate.\<close>

definition applied :: "KVServer \<Rightarrow> PutAppendArgs \<Rightarrow> string \<Rightarrow> bool" where
  "applied kv args v \<longleftrightarrow>
     (\<exists>cs. clientState kv (pa_ClientId args) = Some cs \<and> cs_SeqNo cs = pa_SeqNo args \<and> cs_Value cs = v)"

lemma Append_dup: "applied kv args v \<Longrightarrow> KVServer_Append kv args = (kv, \<lparr>pr_Value = v\<rparr>)"
  by (auto simp: applied_def KVServer_Append_def)

lemma Append_fresh:
  assumes "\<nexists>v. applied kv args v"
  shows "KVServer_Append kv args =
    (\<lparr>store = (store kv)(pa_Key args \<mapsto> map_get (store kv) (pa_Key args) @ pa_Value args),
      clientState = (clientState kv)(pa_ClientId args \<mapsto>
        \<lparr>cs_ClientId = pa_ClientId args, cs_SeqNo = pa_SeqNo args,
         cs_Value = map_get (store kv) (pa_Key args)\<rparr>)\<rparr>,
     \<lparr>pr_Value = map_get (store kv) (pa_Key args)\<rparr>)"
  using assms by (auto simp: applied_def KVServer_Append_def map_get_def Let_def split: option.splits)

lemma applied_Append: "KVServer_Append kv args = (kv', r) \<Longrightarrow> applied kv' args (pr_Value r)"
  using Append_dup [of kv args] Append_fresh [of kv args]
  by (cases "\<exists>v. applied kv args v") (auto simp: applied_def)

section \<open>Safe retries\<close>

text \<open>
  \<open>once\<close>: the request is executed at the first attempt that reaches the server; afterwards only
  the other clients act, and the reply of that one execution is returned at the first delivery.
\<close>

fun await :: "(('s \<Rightarrow> 's) \<times> call_outcome) list \<Rightarrow> 's \<Rightarrow> 'r \<Rightarrow> ('s \<times> 'r) option" where
  "await [] s r = None"
| "await ((env, out) # as) s r = (if out = Delivered then Some (env s, r) else await as (env s) r)"

fun once ::
  "('s \<Rightarrow> 'a \<Rightarrow> 's \<times> 'r) \<Rightarrow> 'a \<Rightarrow> (('s \<Rightarrow> 's) \<times> call_outcome) list \<Rightarrow> 's \<Rightarrow> ('s \<times> 'r) option" where
  "once handler args [] s = None"
| "once handler args ((env, out) # as) s =
     (if out = RequestLost then once handler args as (env s)
      else let (s', r) = handler (env s) args
           in if out = Delivered then Some (s', r) else await as s' r)"

locale retry_safe =
  fixes handler :: "'s \<Rightarrow> 'a \<Rightarrow> 's \<times> 'r"
    and executed :: "'s \<Rightarrow> 'a \<Rightarrow> 'r \<Rightarrow> bool"
  assumes handler_executes: "handler s a = (s', r) \<Longrightarrow> executed s' a r"
    and handler_again: "executed s a r \<Longrightarrow> handler s a = (s, r)"
begin

definition keeps_executed :: "'a \<Rightarrow> ('s \<Rightarrow> 's) \<Rightarrow> bool" where
  "keeps_executed a env \<longleftrightarrow> (\<forall>s r. executed s a r \<longrightarrow> executed (env s) a r)"

lemma retry_await:
  "executed s a r \<Longrightarrow> \<forall>(env, out) \<in> set as. keeps_executed a env \<Longrightarrow> retry_loop handler a as s = await as s r"
proof (induction as arbitrary: s)
  case (Cons x as)
  obtain env out where x: "x = (env, out)" by fastforce
  then have "executed (env s) a r" using Cons.prems by (auto simp: keeps_executed_def)
  from handler_again [OF this] this show ?case using Cons by (cases out) (auto simp: x)
qed simp

lemma retry_once:
  "\<forall>(env, out) \<in> set as. keeps_executed a env \<Longrightarrow> retry_loop handler a as s = once handler a as s"
proof (induction as arbitrary: s)
  case (Cons x as)
  obtain env out where x: "x = (env, out)" by fastforce
  obtain s' r where h: "handler (env s) a = (s', r)" by fastforce
  show ?case
    using Cons retry_await [OF handler_executes [OF h], of as] by (cases out) (auto simp: x h)
qed simp

end

interpretation append_retry: retry_safe KVServer_Append "\<lambda>kv args r. applied kv args (pr_Value r)"
proof unfold_locales
  fix s a s' r assume "KVServer_Append s a = (s', r)"
  then show "applied s' a (pr_Value r)" by (rule applied_Append)
next
  fix s a r assume "applied s a (pr_Value (r :: PutAppendReply))"
  then show "KVServer_Append s a = (s, r)" by (simp add: Append_dup)
qed

section \<open>The store as the sequential model sees it\<close>

definition abs_store :: "KVServer \<Rightarrow> string \<Rightarrow> string" where
  "abs_store kv = map_get (store kv)"

lemma abs_store_upd [simp]:
  "abs_store (kv\<lparr>store := (store kv)(k \<mapsto> v)\<rparr>) = (abs_store kv)(k := v)"
  "abs_store \<lparr>store = (store kv)(k \<mapsto> v), clientState = cs\<rparr> = (abs_store kv)(k := v)"
  by (auto simp: abs_store_def map_get_def)

lemma whole_store_step:
  "Step whole_store S (kv_input (RGet k)) (kv_output (RGet k) r) = (r = S k, S)"
  "Step whole_store S (kv_input (RPut k v)) (kv_output (RPut k v) r) = (True, S(k := v))"
  "Step whole_store S (kv_input (RAppend k v)) (kv_output (RAppend k v) r) = (r = S k, S(k := S k @ v))"
  by (auto simp: KvModel_Step_def)

section \<open>The invariant of the system\<close>

definition cached :: "kv_system \<Rightarrow> nat \<Rightarrow> ClientState option" where
  "cached s c = clientState (sys_server s) (clientId (sys_clerk s c))"

text \<open>A pending append that has been executed.\<close>

definition effected :: "kv_system \<Rightarrow> nat \<Rightarrow> bool" where
  "effected s c \<longleftrightarrow>
     (\<exists>k v t cs. sys_busy s c = Some (RAppend k v, t) \<and> cached s c = Some cs \<and>
        cs_SeqNo cs = updateSeqNo (sys_clerk s c))"

definition pend_op :: "kv_system \<Rightarrow> nat \<Rightarrow> kv_value Operation" where
  "pend_op s c =
     (case the (sys_busy s c) of
        (req, t) \<Rightarrow> log_op c req t (cs_Value (the (cached s c))) (sys_clock s))"

definition clerks_ok :: "kv_system \<Rightarrow> bool" where
  "clerks_ok s \<longleftrightarrow>
     inj (\<lambda>c. clientId (sys_clerk s c)) \<and>
     (\<forall>c cs. cached s c = Some cs \<longrightarrow> cs_SeqNo cs < updateSeqNo (sys_clerk s c) \<or> effected s c) \<and>
     (\<forall>c req t. sys_busy s c = Some (req, t) \<longrightarrow> t \<le> sys_clock s) \<and>
     (\<forall>x \<in> set (sys_log s). Call x \<le> sys_clock s \<and> Call x \<le> Return x)"

interpretation kvs: effect_log whole_store sys_log sys_clock effected pend_op "\<lambda>s. abs_store (sys_server s)" clerks_ok
proof unfold_locales
  fix s x assume "clerks_ok s" "x \<in> set (sys_log s)"
  then show "Call x \<le> sys_clock s" by (simp add: clerks_ok_def)
next
  fix s c assume "clerks_ok s" "effected s c"
  then show "Call (pend_op s c) \<le> sys_clock s"
    by (auto simp: effected_def clerks_ok_def pend_op_def log_op_def)
qed

definition kv_inv :: "kv_system \<Rightarrow> bool" where
  "kv_inv s \<longleftrightarrow> clerks_ok s \<and> kvs.has_order s"

lemma kv_inv_start: "inj ids \<Longrightarrow> kv_inv (kv_start ids)"
  unfolding kv_inv_def
  by (intro conjI kvs.has_order_start)
     (auto simp: clerks_ok_def kv_start_def cached_def StartKVServer_def effected_def abs_store_def
       map_get_def fun_eq_iff store_model_def)

lemma undisturbed_pending:
  assumes "\<And>c. c \<in> D \<Longrightarrow> effected s c \<and> sys_busy s' c = sys_busy s c \<and> cached s' c = cached s c"
    and "sys_clock s \<le> sys_clock s'"
  shows "kvs.undisturbed s s' D"
  unfolding kvs.undisturbed_def
  using assms by (force simp: effected_def pend_op_def later_op_def log_op_def)

section \<open>Every step keeps the invariant\<close>

lemma cached_less:
  "clerks_ok s \<Longrightarrow> cached s c = Some cs \<Longrightarrow> \<not> effected s c \<Longrightarrow> cs_SeqNo cs < updateSeqNo (sys_clerk s c)"
  by (auto simp: clerks_ok_def)

lemma inv_Invoke:
  assumes "kv_inv s" "kv_step (Invoke c req) s = Some s'"
  shows "kv_inv s'"
proof -
  from assms(2) have b: "sys_busy s c = None" and s': "s' = s\<lparr>sys_busy := (sys_busy s)(c \<mapsto> (req, sys_clock s)),
      sys_clock := sys_clock s + 1\<rparr>" by (auto split: option.splits)
  have ok: "clerks_ok s" and ord: "kvs.has_order s" using assms(1) by (simp_all add: kv_inv_def)
  have lt: "cs_SeqNo cs < updateSeqNo (sys_clerk s c)" if "cached s c = Some cs" for cs
    by (rule cached_less [OF ok that]) (simp add: effected_def b)
  have e: "effected s' d \<longleftrightarrow> effected s d" for d
    using lt b by (cases "d = c") (auto simp: s' effected_def cached_def)
  have "clerks_ok s'" using ok e by (auto simp: clerks_ok_def s' cached_def) force+
  moreover have "kvs.has_order s'"
    by (rule kvs.order_keep [OF ord undisturbed_pending])
       (use b e in \<open>auto simp: s' cached_def effected_def\<close>)
  ultimately show ?thesis by (auto simp: kv_inv_def)
qed

lemma inv_quiet:
  assumes "kv_inv s"
  shows "kv_inv (s\<lparr>sys_clock := sys_clock s + 1\<rparr>)"
proof -
  let ?s = "s\<lparr>sys_clock := sys_clock s + 1\<rparr>"
  have ok: "clerks_ok s" and ord: "kvs.has_order s" using assms by (simp_all add: kv_inv_def)
  have e: "effected ?s d \<longleftrightarrow> effected s d" for d by (simp add: effected_def cached_def)
  have "clerks_ok ?s" using ok by (force simp: clerks_ok_def e cached_def)
  moreover have "kvs.has_order ?s"
    by (rule kvs.order_keep [OF ord undisturbed_pending]) (auto simp: e cached_def)
  ultimately show ?thesis by (auto simp: kv_inv_def)
qed

text \<open>The state after a get or a put was executed and delivered.\<close>

lemma inv_deliver_simple:
  assumes "kv_inv s" "sys_busy s c = Some (req, t)" "\<forall>k v. req \<noteq> RAppend k v"
    and "serve (sys_clerk s c) req (sys_server s) = (kv, r)" "kv_step (Attempt c Delivered) s = Some s'"
  shows "kv_inv s'"
proof -
  have ok: "clerks_ok s" and ord: "kvs.has_order s" using assms(1) by (simp_all add: kv_inv_def)
  let ?x = "log_op c req t r (sys_clock s)"
  have s': "s' = s\<lparr>sys_server := kv, sys_clerk := (sys_clerk s)(c := finish req (sys_clerk s c)),
      sys_busy := (sys_busy s)(c := None), sys_log := sys_log s @ [?x], sys_clock := sys_clock s + 1\<rparr>"
    using assms(2,4,5) by simp
  have clk: "sys_clerk s' = (sys_clerk s)(c := finish req (sys_clerk s c))" by (simp add: s')
  have cs: "clientState kv = clientState (sys_server s)"
    using assms(3,4) by (cases req) (auto simp: Get_eq KVServer_Put_def Let_def)
  have fin: "clientId (finish req ck) = clientId ck" "updateSeqNo ck \<le> updateSeqNo (finish req ck)" for ck
    by (cases req; simp)+
  have ca: "cached s' d = cached s d" for d by (auto simp: cached_def s' cs fin)
  have ne: "\<not> effected s c" using assms(2,3) by (auto simp: effected_def)
  have e: "effected s' d \<longleftrightarrow> effected s d" for d
    using ne assms(3) by (cases "d = c") (auto simp: effected_def ca, auto simp: s')
  have lt: "cs_SeqNo x < updateSeqNo (finish req (sys_clerk s c))" if "cached s c = Some x" for x
    using cached_less [OF ok that ne] fin(2) [of "sys_clerk s c"] by simp
  have step: "Step whole_store (abs_store (sys_server s)) (Input ?x) (Output ?x) = (True, abs_store kv)"
    unfolding log_op_def Operation.select_convs using assms(3,4)
    by (cases req) (auto simp: whole_store_step Get_eq KVServer_Put_def Let_def abs_store_def map_get_def
        put_append_args_def fun_eq_iff simp del: store_Step kv_input.simps kv_output.simps)
  have "clerks_ok s'"
  proof -
    have "(\<lambda>d. clientId (sys_clerk s' d)) = (\<lambda>d. clientId (sys_clerk s d))" by (auto simp: s' fin)
    then have "inj (\<lambda>d. clientId (sys_clerk s' d))" using ok by (simp add: clerks_ok_def)
    moreover have "cs_SeqNo x < updateSeqNo (sys_clerk s' d) \<or> effected s' d" if "cached s' d = Some x" for d x
      using ok that lt clk by (cases "d = c") (auto simp: clerks_ok_def ca e)
    moreover have "\<forall>x \<in> set (sys_log s'). Call x \<le> sys_clock s' \<and> Call x \<le> Return x"
      using ok assms(2) by (fastforce simp: clerks_ok_def s' log_op_def)
    moreover have "t' \<le> sys_clock s'" if "sys_busy s' d = Some (q, t')" for d q t'
      using ok that by (fastforce simp: clerks_ok_def s' split: if_splits)
    ultimately show ?thesis by (auto simp: clerks_ok_def)
  qed
  moreover have "kvs.has_order s'"
  proof (rule kvs.order_log [OF ord ok, of _ ?x])
    show "kvs.undisturbed s s' {c. effected s c}"
      using ne by (intro undisturbed_pending) (auto simp: ca, auto simp: s')
  qed (use step e in \<open>auto simp: s' log_op_def simp del: store_Step\<close>)
  ultimately show ?thesis by (auto simp: kv_inv_def)
qed

lemma cached_Append:
  assumes "clerks_ok s" "sys_busy s c = Some (RAppend k v, t)" "\<not> effected s c"
  defines "args \<equiv> put_append_args (sys_clerk s c) k v"
  shows "\<nexists>w. applied (sys_server s) args w"
    "serve (sys_clerk s c) (RAppend k v) (sys_server s) =
       (fst (KVServer_Append (sys_server s) args), abs_store (sys_server s) k)"
proof -
  show n: "\<nexists>w. applied (sys_server s) args w"
    using assms by (auto simp: applied_def effected_def cached_def put_append_args_def)
  then show "serve (sys_clerk s c) (RAppend k v) (sys_server s) =
       (fst (KVServer_Append (sys_server s) args), abs_store (sys_server s) k)"
    using Append_fresh [OF n] by (simp add: args_def [symmetric] abs_store_def) (simp add: args_def put_append_args_def)
qed

lemma Append_executed:
  assumes "clerks_ok s" "sys_busy s c = Some (RAppend k v, t)" "\<not> effected s c"
    and kv: "kv = fst (KVServer_Append (sys_server s) (put_append_args (sys_clerk s c) k v))"
  shows "abs_store kv = (abs_store (sys_server s))(k := abs_store (sys_server s) k @ v)"
    "d \<noteq> c \<Longrightarrow> clientState kv (clientId (sys_clerk s d)) = cached s d"
    "\<exists>cs. clientState kv (clientId (sys_clerk s c)) = Some cs \<and> cs_SeqNo cs = updateSeqNo (sys_clerk s c) \<and>
       cs_Value cs = abs_store (sys_server s) k"
proof -
  note f = Append_fresh [OF cached_Append(1) [OF assms(1-3)]]
  show "abs_store kv = (abs_store (sys_server s))(k := abs_store (sys_server s) k @ v)"
    unfolding kv f by (simp add: put_append_args_def) (simp add: abs_store_def)
  show "d \<noteq> c \<Longrightarrow> clientState kv (clientId (sys_clerk s d)) = cached s d"
    using assms(1) unfolding kv f by (auto simp: put_append_args_def clerks_ok_def cached_def dest: injD)
  show "\<exists>cs. clientState kv (clientId (sys_clerk s c)) = Some cs \<and> cs_SeqNo cs = updateSeqNo (sys_clerk s c) \<and>
       cs_Value cs = abs_store (sys_server s) k"
    unfolding kv f by (simp add: put_append_args_def abs_store_def)
qed

lemma serve_effected:
  assumes "effected s c" "sys_busy s c = Some (req, t)"
  shows "serve (sys_clerk s c) req (sys_server s) = (sys_server s, cs_Value (the (cached s c)))"
proof -
  obtain k v cs where a: "req = RAppend k v" "cached s c = Some cs" "cs_SeqNo cs = updateSeqNo (sys_clerk s c)"
    using assms by (auto simp: effected_def)
  then have "applied (sys_server s) (put_append_args (sys_clerk s c) k v) (cs_Value cs)"
    by (auto simp: applied_def cached_def put_append_args_def)
  from Append_dup [OF this] show ?thesis using a by simp
qed

lemma inv_append_ReplyLost:
  assumes "kv_inv s" "sys_busy s c = Some (RAppend k v, t)" "kv_step (Attempt c ReplyLost) s = Some s'"
  shows "kv_inv s'"
proof (cases "effected s c")
  case True
  then have "s' = s\<lparr>sys_clock := sys_clock s + 1\<rparr>" using assms(2,3) serve_effected [OF True assms(2)] by simp
  then show ?thesis using inv_quiet [OF assms(1)] by simp
next
  case False
  have ok: "clerks_ok s" and ord: "kvs.has_order s" using assms(1) by (simp_all add: kv_inv_def)
  define kv where "kv = fst (KVServer_Append (sys_server s) (put_append_args (sys_clerk s c) k v))"
  note A = Append_executed [OF ok assms(2) False kv_def]
  let ?x = "log_op c (RAppend k v) t (abs_store (sys_server s) k) (sys_clock s)"
  have s': "s' = s\<lparr>sys_server := kv, sys_clock := sys_clock s + 1\<rparr>"
    using assms(2,3) cached_Append(2) [OF ok assms(2) False] by (simp add: kv_def)
  obtain cs where cs: "cached s' c = Some cs" "cs_SeqNo cs = updateSeqNo (sys_clerk s c)"
    "cs_Value cs = abs_store (sys_server s) k" using A(3) by (auto simp: cached_def s')
  have ca: "cached s' d = cached s d" if "d \<noteq> c" for d using A(2) that by (simp add: cached_def s')
  have e: "effected s' d \<longleftrightarrow> d = c \<or> effected s d" for d
    using cs assms(2) ca by (cases "d = c") (auto simp: effected_def s')
  have ce: "cached s' d = cached s d" if "effected s d" for d
    using that False ca by (cases "d = c") auto
  have p: "pend_op s' c = ?x\<lparr>Return := sys_clock s + 1\<rparr>"
    by (simp add: pend_op_def cs s' assms(2) log_op_def cached_def) (use cs in \<open>simp add: cached_def s'\<close>)
  have "clerks_ok s'" unfolding clerks_ok_def
  proof (intro conjI allI impI)
    fix d x assume "cached s' d = Some x"
    then show "cs_SeqNo x < updateSeqNo (sys_clerk s' d) \<or> effected s' d"
      using ok ca e by (cases "d = c") (auto simp: clerks_ok_def s')
  qed (use ok in \<open>fastforce simp: clerks_ok_def s'\<close>)+
  moreover have "kvs.has_order s'"
  proof (rule kvs.order_pend [OF ord ok, of _ c])
    show "kvs.undisturbed s s' {c. effected s c}"
      using ce by (intro undisturbed_pending) (auto simp: s')
    show "Step whole_store (abs_store (sys_server s)) (Input (pend_op s' c)) (Output (pend_op s' c)) =
        (True, abs_store (sys_server s'))"
      unfolding p log_op_def Operation.simps whole_store_step by (simp add: s' A(1))
    show "sys_clock s \<le> Return (pend_op s' c)" by (simp add: p)
  qed (use False e in \<open>auto simp: s'\<close>)
  ultimately show ?thesis by (auto simp: kv_inv_def)
qed

lemma inv_append_Delivered:
  assumes "kv_inv s" "sys_busy s c = Some (RAppend k v, t)" "kv_step (Attempt c Delivered) s = Some s'"
  shows "kv_inv s'"
proof -
  have ok: "clerks_ok s" and ord: "kvs.has_order s" using assms(1) by (simp_all add: kv_inv_def)
  obtain kv r where sv: "serve (sys_clerk s c) (RAppend k v) (sys_server s) = (kv, r)" by fastforce
  let ?x = "log_op c (RAppend k v) t r (sys_clock s)"
  have s': "s' = s\<lparr>sys_server := kv,
      sys_clerk := (sys_clerk s)(c := (sys_clerk s c)\<lparr>updateSeqNo := updateSeqNo (sys_clerk s c) + 1\<rparr>),
      sys_busy := (sys_busy s)(c := None), sys_log := sys_log s @ [?x], sys_clock := sys_clock s + 1\<rparr>"
    using assms(2,3) sv by simp
  note A = Append_executed [OF ok assms(2)] and F = cached_Append(2) [OF ok assms(2)]
  have kv: "\<not> effected s c \<Longrightarrow>
      kv = fst (KVServer_Append (sys_server s) (put_append_args (sys_clerk s c) k v)) \<and> r = abs_store (sys_server s) k"
    "effected s c \<Longrightarrow> kv = sys_server s \<and> r = cs_Value (the (cached s c))"
    using F sv serve_effected [OF _ assms(2)] by auto
  have ca: "cached s' d = cached s d" if "d \<noteq> c" for d
    using A(2) kv that by (cases "effected s c") (auto simp: cached_def s')
  have cc: "\<exists>cs. cached s' c = Some cs \<and> cs_SeqNo cs = updateSeqNo (sys_clerk s c)"
    using A(3) kv by (cases "effected s c") (auto simp: cached_def s' effected_def)
  have e: "effected s' d \<longleftrightarrow> effected s d \<and> d \<noteq> c" for d
    using ca by (cases "d = c") (auto simp: effected_def s')
  have "clerks_ok s'" unfolding clerks_ok_def
  proof (intro conjI allI impI)
    fix d x assume "cached s' d = Some x"
    then show "cs_SeqNo x < updateSeqNo (sys_clerk s' d) \<or> effected s' d"
      using ok ca e cc by (cases "d = c") (auto simp: clerks_ok_def s')
  next
    have "(\<lambda>d. clientId (sys_clerk s' d)) = (\<lambda>d. clientId (sys_clerk s d))" by (auto simp: s')
    then show "inj (\<lambda>d. clientId (sys_clerk s' d))" using ok by (simp add: clerks_ok_def)
  next
    show "\<forall>x \<in> set (sys_log s'). Call x \<le> sys_clock s' \<and> Call x \<le> Return x"
      using ok assms(2) by (fastforce simp: clerks_ok_def s' log_op_def)
  next
    fix d q t' assume "sys_busy s' d = Some (q, t')"
    then show "t' \<le> sys_clock s'" using ok by (fastforce simp: clerks_ok_def s' split: if_splits)
  qed
  moreover have "kvs.has_order s'"
  proof (cases "effected s c")
    case True
    show ?thesis
      by (rule kvs.order_settle [OF ord undisturbed_pending True, of _ ?x])
         (use True e ca kv(2) assms(2) in \<open>auto simp: s' pend_op_def\<close>)
  next
    case False
    have ce: "cached s' d = cached s d" "d \<noteq> c" if "effected s d" for d using that False ca by (cases "d = c"; simp)+
    show ?thesis
    proof (rule kvs.order_log [OF ord ok, of _ ?x])
      show "kvs.undisturbed s s' {c. effected s c}"
        using ce by (intro undisturbed_pending) (auto simp: s')
      show "Step whole_store (abs_store (sys_server s)) (Input ?x) (Output ?x) = (True, abs_store (sys_server s'))"
        unfolding log_op_def Operation.select_convs whole_store_step
        using A(1) [OF False] kv(1) [OF False] by (simp add: s')
    qed (use False e in \<open>auto simp: s' log_op_def\<close>)
  qed
  ultimately show ?thesis by (simp add: kv_inv_def)
qed

lemma kv_step_inv:
  assumes "kv_inv s" "kv_step l s = Some s'"
    and "\<And>c k v t. l = Attempt c ReplyLost \<Longrightarrow> sys_busy s c \<noteq> Some (RPut k v, t)"
  shows "kv_inv s'"
proof (cases l)
  case (Invoke c req)
  then show ?thesis using assms inv_Invoke by simp
next
  case (Attempt c out)
  then obtain req t where b: "sys_busy s c = Some (req, t)" using assms(2) by (auto split: option.splits)
  show ?thesis
  proof (cases out)
    case RequestLost
    then have "s' = s\<lparr>sys_clock := sys_clock s + 1\<rparr>" using assms(2) Attempt b by simp
    then show ?thesis using inv_quiet [OF assms(1)] by simp
  next
    case ReplyLost
    then show ?thesis
    proof (cases req)
      case (RGet k)
      then have "s' = s\<lparr>sys_clock := sys_clock s + 1\<rparr>" using assms(2) Attempt b ReplyLost by (simp add: Get_eq)
      then show ?thesis using inv_quiet [OF assms(1)] by simp
    next
      case (RAppend k v)
      then show ?thesis using inv_append_ReplyLost [OF assms(1)] assms(2) Attempt b ReplyLost by simp
    qed (use assms(3) Attempt b ReplyLost in auto)
  next
    case Delivered
    obtain kv r where sv: "serve (sys_clerk s c) req (sys_server s) = (kv, r)" by fastforce
    show ?thesis
    proof (cases "\<exists>k v. req = RAppend k v")
      case True
      then show ?thesis using inv_append_Delivered [OF assms(1)] assms(2) Attempt b Delivered by blast
    next
      case False
      then show ?thesis
        using inv_deliver_simple [OF assms(1) b _ sv] assms(2) Attempt Delivered by blast
    qed
  qed
qed

lemma kv_run_inv:
  "kv_inv s \<Longrightarrow> kv_run ls s = Some s' \<Longrightarrow> puts_answered ls s \<Longrightarrow> kv_inv s'"
proof (induction ls s rule: kv_run.induct)
  case (2 l ls s)
  then obtain s1 where s1: "kv_step l s = Some s1" "kv_run ls s1 = Some s'" by (auto split: bind_splits)
  have "kv_inv s1" by (rule kv_step_inv [OF "2.prems"(1) s1(1)]) (use "2.prems"(3) in auto)
  then show ?case using 2 s1 by simp
qed simp

lemma kv_quiescent:
  assumes "kv_inv s" "sys_busy s = Map.empty"
  shows "linearizable_ops whole_store (sys_log s)"
  by (rule kvs.quiescent_linearizable) (use assms in \<open>simp_all add: kv_inv_def effected_def\<close>)

end
