(* ===== verification/Kvsrv_Properties.thy ===== *)
theory Kvsrv_Properties
  imports Kvsrv_Correct Checker_Properties
begin

text \<open>
  What the key/value server guarantees its clients, and where it does not keep its promise: the
  theorems on the system of clerks of \<open>Kvsrv\<close>, checked against the models of \<open>Kv_Models\<close> and with
  the checker of \<open>Porcupine\<close>.
\<close>

section \<open>Identifiers\<close>

lemma hex_digit_inj: "d < 16 \<Longrightarrow> e < 16 \<Longrightarrow> hex_digit d = hex_digit e \<longleftrightarrow> d = e"
proof -
  assume d: "d < 16" "e < 16"
  have "distinct ''0123456789abcdef''" by code_simp
  moreover have "unat d < length ''0123456789abcdef''" "unat e < length ''0123456789abcdef''"
    using d by (simp_all add: word_less_nat_alt)
  ultimately have "hex_digit d = hex_digit e \<longleftrightarrow> unat d = unat e"
    unfolding hex_digit_def by (intro nth_eq_iff_index_eq)
  then show ?thesis by (simp add: word_unat_eq_iff)
qed

lemma low_nibble: "b AND 15 = take_bit 4 (b :: 8 word)"
  by (simp add: take_bit_eq_mask mask_eq_exp_minus_1)

lemma nibbles_less: "drop_bit 4 b < (16 :: 8 word)" "take_bit 4 b < (16 :: 8 word)"
  using unsigned_less [of b, where 'a = nat]
  by (simp_all add: word_less_nat_alt unat_drop_bit_eq drop_bit_eq_div unsigned_take_bit_eq take_bit_eq_mod
      unat_div unat_mod)

lemma nibbles_inj: "drop_bit 4 a = drop_bit 4 b \<Longrightarrow> take_bit 4 a = take_bit 4 b \<Longrightarrow> a = (b :: 8 word)"
  by (metis bits_ident)

lemma hex_inj: "length as = length bs \<Longrightarrow> hex_EncodeToString as = hex_EncodeToString bs \<longleftrightarrow> as = bs"
proof (induction as bs rule: list_induct2)
  case (Cons a as b bs)
  have "hex_EncodeToString (a # as) = hex_EncodeToString (b # bs) \<longleftrightarrow>
      hex_digit (drop_bit 4 a) = hex_digit (drop_bit 4 b) \<and> hex_digit (a AND 15) = hex_digit (b AND 15) \<and> as = bs"
    using Cons.IH by (auto simp: hex_EncodeToString_def)
  then show ?case using nibbles_inj [of a b] by (auto simp: hex_digit_inj nibbles_less low_nibble)
qed (simp add: hex_EncodeToString_def)

section \<open>The system of clerks\<close>

text \<open>C2. The log of any number of concurrent clerks is linearizable with respect to the whole
  store once all requests have returned, however often requests and replies are lost and however
  the attempts interleave, provided no put is executed with its reply lost: appends are executed
  exactly once although they are retried.\<close>

theorem kvsrv_linearizable:
  assumes "inj ids" "kv_run ls (kv_start ids) = Some s" "puts_answered ls (kv_start ids)"
    and "sys_busy s = Map.empty"
  shows "linearizable_ops whole_store (sys_log s)"
  by (rule kv_quiescent [OF kv_run_inv [OF kv_inv_start [OF assms(1)] assms(2,3)] assms(4)])

text \<open>Two clerks append to one key; the first reply of clerk 0 is lost after its append was executed,
  and clerk 1 appends before the retry.\<close>

definition append_run :: "kv_label list" where
  "append_run =
     [Invoke 0 (RAppend ''x'' ''a''), Attempt 0 ReplyLost, Invoke 1 (RAppend ''x'' ''b''),
      Attempt 1 RequestLost, Attempt 1 Delivered, Attempt 0 Delivered,
      Invoke 1 (RGet ''x''), Attempt 1 Delivered]"

definition kv_end :: "kv_label list \<Rightarrow> kv_system" where
  "kv_end ls = the (kv_run ls (kv_start itoa))"

lemma append_run_log:
  "map Output (sys_log (kv_end append_run)) =
     [OutV \<lparr>out_Value = ''a''\<rparr>, OutV \<lparr>out_Value = ''''\<rparr>, OutV \<lparr>out_Value = ''ab''\<rparr>]"
  by code_simp

theorem kvsrv_linearizable_witness: "linearizable_ops whole_store (sys_log (kv_end append_run))"
proof (rule kvsrv_linearizable [of itoa append_run])
  show "inj itoa" using itoa_inj by (auto intro: injI)
  have "kv_run append_run (kv_start itoa) \<noteq> None" by code_simp
  then show "kv_run append_run (kv_start itoa) = Some (kv_end append_run)" by (auto simp: kv_end_def)
  show "puts_answered append_run (kv_start itoa)" by code_simp
  show "sys_busy (kv_end append_run) = Map.empty"
    by (simp add: kv_end_def append_run_def kv_start_def fun_eq_iff serve.simps KVServer_Append_def
        KVServer_Get_def put_append_args_def StartKVServer_def Let_def)
qed

definition put_run :: "kv_label list" where
  "put_run =
     [Invoke 0 (RPut ''x'' ''1''), Attempt 0 ReplyLost, Invoke 1 (RGet ''x''), Attempt 1 Delivered,
      Invoke 1 (RPut ''x'' ''2''), Attempt 1 Delivered, Invoke 1 (RGet ''x''), Attempt 1 Delivered,
      Attempt 0 Delivered, Invoke 1 (RGet ''x''), Attempt 1 Delivered]"

lemma put_run_log:
  "sys_log (kv_end put_run) =
     [log_op 1 (RGet ''x'') 2 ''1'' 3, log_op 1 (RPut ''x'' ''2'') 4 ''2'' 5, log_op 1 (RGet ''x'') 6 ''2'' 7,
      log_op 0 (RPut ''x'' ''1'') 0 ''1'' 8, log_op 1 (RGet ''x'') 9 ''1'' 10]"
  by code_simp

text \<open>C26. Without that provision the guarantee fails: \<open>Put\<close> does not look at the client's sequence
  number, so the retry of a put whose reply was lost overwrites a later put.  In the run \<open>put_run\<close> a
  reader sees 1, then 2, then 1 again although 1 is put once; all requests return, and the log is
  not linearizable.\<close>

theorem kvsrv_put_not_linearizable:
  "kv_run put_run (kv_start itoa) = Some (kv_end put_run) \<and> sys_busy (kv_end put_run) = Map.empty \<and>
   \<not> linearizable_ops whole_store (sys_log (kv_end put_run))"
proof (intro conjI)
  have "kv_run put_run (kv_start itoa) \<noteq> None" by code_simp
  then show "kv_run put_run (kv_start itoa) = Some (kv_end put_run)" by (auto simp: kv_end_def)
  show "sys_busy (kv_end put_run) = Map.empty"
    by (simp add: kv_end_def put_run_def kv_start_def fun_eq_iff KVServer_Put_def
        KVServer_Get_def put_append_args_def StartKVServer_def map_get_def Let_def)
  have "CheckOperations time_sort (\<lambda>_. ''v'') (\<lambda>s. s) (KvModel (\<lambda>ks. ks)) (sys_log (kv_end put_run))
      (\<lambda>_ _. False) (\<lambda>qs. qs) [Result 0] = Some False" unfolding put_run_log by code_simp
  moreover have "CheckOperations time_sort (\<lambda>_. ''v'') (\<lambda>s. s) (KvModel (\<lambda>ks. ks)) (sys_log (kv_end put_run))
      (\<lambda>_ _. False) (\<lambda>qs. qs) [Result 0] = Some (linearizable_ops whole_store (sys_log (kv_end put_run)))"
  proof (rule CheckOperations_by_key [OF time_sort_sorts kv.state_equality_axioms])
    show "visits (\<lambda>ks :: string list. ks)" by (simp add: visits_def)
    have "card ((\<lambda>x. Key (in_of (Input x))) ` set (sys_log (kv_end put_run))) = 1"
      by (simp add: put_run_log log_op_def)
    then show "full_schedule (card ((\<lambda>x. Key (in_of (Input x))) ` set (sys_log (kv_end put_run)))) [Result 0]"
      by (simp add: full_schedule_def)
  qed (simp_all add: KvModel_Partition_def fun_eq_iff put_run_log log_op_def)
  ultimately show "\<not> linearizable_ops whole_store (sys_log (kv_end put_run))" by simp
qed

text \<open>\<open>Clerk.Append\<close> executes exactly once whatever is lost: as long as the other clients leave
  this client's entry alone, the retry loop has the effect of one execution at the first attempt
  that reaches the server, and returns the value that execution found.\<close>

theorem Clerk_Append_once:
  assumes "\<forall>(env, out) \<in> set attempts. \<forall>kv. clientState (env kv) (clientId ck) = clientState kv (clientId ck)"
  shows "Clerk_Append ck key value attempts kv =
    do { (kv', r) \<leftarrow> once KVServer_Append (put_append_args ck key value) attempts kv;
         Some (ck\<lparr>updateSeqNo := updateSeqNo ck + 1\<rparr>, kv', pr_Value r) }"
proof -
  have "\<forall>(env, out) \<in> set attempts. append_retry.keeps_executed (put_append_args ck key value) env"
    using assms unfolding append_retry.keeps_executed_def
    by (auto simp: applied_def put_append_args_def split: prod.splits)
  then show ?thesis
    by (simp add: Clerk_Append_def PutAppend_def append_retry.retry_once)
qed

definition other_put :: "KVServer \<Rightarrow> KVServer" where
  "other_put kv = kv\<lparr>store := (store kv)(''x'' \<mapsto> ''z'')\<rparr>"

theorem Clerk_Append_once_witness:
  "map_option (\<lambda>(ck, kv, r). (updateSeqNo ck, store kv ''x'', r))
     (Clerk_Append \<lparr>clientId = ''c'', updateSeqNo = 0\<rparr> ''x'' ''a''
       [(\<lambda>kv. kv, RequestLost), (\<lambda>kv. kv, ReplyLost), (other_put, ReplyLost), (\<lambda>kv. kv, Delivered)]
       StartKVServer) = Some (1, Some ''z'', '''')"
proof -
  have "\<forall>(env, out) \<in> set [(\<lambda>kv. kv, RequestLost), (\<lambda>kv. kv, ReplyLost), (other_put, ReplyLost),
      (\<lambda>kv. kv, Delivered)]. \<forall>kv. clientState (env kv) (clientId \<lparr>clientId = ''c'', updateSeqNo = 0\<rparr>) =
      clientState kv (clientId \<lparr>clientId = ''c'', updateSeqNo = 0\<rparr>)" by (simp add: other_put_def)
  note Clerk_Append_once [OF this, of "''x''" "''a''" StartKVServer]
  then show ?thesis
    by (simp add: KVServer_Append_def put_append_args_def StartKVServer_def other_put_def Let_def)
qed

text \<open>Clerks made from different random bytes have different client identifiers, of 32 hex
  digits for 16 bytes; only a failing random source makes \<open>MakeClerk\<close> panic.\<close>

theorem MakeClerk_unique:
  assumes "length as = 16" "length bs = 16" "as \<noteq> bs"
  shows "\<exists>ck dk. MakeClerk (Some as) = Returns ck \<and> MakeClerk (Some bs) = Returns dk \<and>
    clientId ck \<noteq> clientId dk \<and> length (clientId ck) = 32 \<and> updateSeqNo ck = 0 \<and> MakeClerk None = Panics"
proof -
  have "length (hex_EncodeToString cs) = 2 * length cs" for cs
    by (induction cs) (auto simp: hex_EncodeToString_def)
  then show ?thesis using assms hex_inj [of as bs] by (simp add: MakeClerk_def generateUniqueID_def)
qed

theorem MakeClerk_unique_witness:
  "\<exists>ck dk. MakeClerk (Some (replicate 16 0)) = Returns ck \<and> MakeClerk (Some (replicate 15 0 @ [1])) = Returns dk \<and>
    clientId ck \<noteq> clientId dk"
  using MakeClerk_unique [of "replicate 16 0" "replicate 15 0 @ [1]"]
  by (auto simp: replicate_append_same numeral_eq_Suc)

end
