(* ===== verification/Shardcfg.thy ===== *)
theory Shardcfg
  imports Prelude
begin

text \<open>
  Configurations of the sharded key/value service (\<open>shardkv1/shardcfg/shardcfg.go\<close>): the
  assignment of shards to groups, joining and leaving of groups, and the rebalancing loop.

  The Go map \<open>Groups\<close> is an association list with distinct keys; \<open>visit\<close> is the order in which Go
  ranges over its keys.  \<open>log.Fatalf\<close> is \<open>Panics\<close>.  The rebalancing loop is a partial function; that
  it returns is a theorem.  The JSON form of a configuration is not modelled.
\<close>

section \<open>Configurations\<close>

definition NShards :: nat where
  "NShards = 12"

definition Key2Shard :: "string \<Rightarrow> nat" where
  "Key2Shard key = unat (fnv32a key) mod NShards"

record ShardConfig =
  Num :: int
  Shards :: "int list"
  Groups :: "(int \<times> string list) list"

definition MakeShardConfig :: ShardConfig where
  "MakeShardConfig = \<lparr>Num = 0, Shards = replicate NShards 0, Groups = []\<rparr>"

fun copy_groups :: "(int \<times> string list) list \<Rightarrow> (int \<times> string list) list \<Rightarrow> (int \<times> string list) list" where
  "copy_groups acc [] = acc"
| "copy_groups acc ((k, srvs) # gs) = copy_groups (acc @ [(k, srvs)]) gs"

definition Copy ::
  "((int \<times> string list) list \<Rightarrow> (int \<times> string list) list) \<Rightarrow> ShardConfig \<Rightarrow> ShardConfig" where
  "Copy order cfg =
     MakeShardConfig\<lparr>Num := Num cfg, Shards := Shards cfg, Groups := copy_groups [] (order (Groups cfg))\<rparr>"

abbreviation has_group :: "ShardConfig \<Rightarrow> int \<Rightarrow> bool" where
  "has_group c g \<equiv> g \<in> fst ` set (Groups c)"

section \<open>Load of the groups\<close>

fun count_shards :: "(int \<Rightarrow> int) \<Rightarrow> int list \<Rightarrow> int \<Rightarrow> int" where
  "count_shards counts [] = counts"
| "count_shards counts (g # gs) = count_shards (counts(g := counts g + 1)) gs"

fun analyze_loop :: "(int \<Rightarrow> int) \<Rightarrow> int list \<Rightarrow> int \<times> int \<times> int \<times> int \<Rightarrow> int \<times> int \<times> int \<times> int" where
  "analyze_loop counts [] r = r"
| "analyze_loop counts (g # gs) (mg, mn, lg, ln) =
     (let (ln, lg) = (if counts g < ln then (counts g, g) else (ln, lg));
          (mn, mg) = (if counts g > mn then (counts g, g) else (mn, mg))
      in analyze_loop counts gs (mg, mn, lg, ln))"

definition analyze :: "(int list \<Rightarrow> int list) \<Rightarrow> ShardConfig \<Rightarrow> int \<times> int \<times> int \<times> int" where
  "analyze visit c =
     (let counts = count_shards (\<lambda>_. 0) (Shards c);
          groups = sort (visit (map fst (Groups c)))
      in analyze_loop counts groups (-1, -1, -1, 257))"

definition least :: "(int list \<Rightarrow> int list) \<Rightarrow> ShardConfig \<Rightarrow> int" where
  "least visit c = (case analyze visit c of (_, _, lg, _) \<Rightarrow> lg)"

section \<open>Rebalancing\<close>

fun assign_loop :: "(int list \<Rightarrow> int list) \<Rightarrow> nat list \<Rightarrow> ShardConfig \<Rightarrow> ShardConfig" where
  "assign_loop visit [] c = c"
| "assign_loop visit (s # ss) c =
     (if \<not> has_group c (Shards c ! s)
      then assign_loop visit ss (c\<lparr>Shards := (Shards c)[s := least visit c]\<rparr>)
      else assign_loop visit ss c)"

fun move_one :: "int \<Rightarrow> int \<Rightarrow> int list \<Rightarrow> int list" where
  "move_one mg lg [] = []"
| "move_one mg lg (g # gs) = (if g = mg then lg # gs else g # move_one mg lg gs)"

partial_function (option) move_loop :: "(int list \<Rightarrow> int list) \<Rightarrow> ShardConfig \<Rightarrow> ShardConfig option" where
  "move_loop visit c =
     (case analyze visit c of
        (mg, mn, lg, ln) \<Rightarrow>
          if mn < ln + 2 then Some c
          else move_loop visit (c\<lparr>Shards := move_one mg lg (Shards c)\<rparr>))"

declare move_loop.simps [code]

definition Rebalance :: "(int list \<Rightarrow> int list) \<Rightarrow> ShardConfig \<Rightarrow> ShardConfig option" where
  "Rebalance visit c =
     (if length (Groups c) < 1 then Some (c\<lparr>Shards := replicate (length (Shards c)) 0\<rparr>)
      else move_loop visit (assign_loop visit [0..<length (Shards c)] c))"

section \<open>Joining and leaving\<close>

text \<open>\<open>servers\<close> lists the new groups in the order in which Go ranges over the map.\<close>

definition shares_server :: "ShardConfig \<Rightarrow> string list \<Rightarrow> bool" where
  "shares_server cfg servers = list_ex (\<lambda>(xgid, xservers). list_ex (\<lambda>s1. s1 \<in> set servers) xservers) (Groups cfg)"

fun join_loop :: "bool \<Rightarrow> (int \<times> string list) list \<Rightarrow> ShardConfig \<Rightarrow> (ShardConfig \<times> bool) outcome" where
  "join_loop changed [] cfg = (if \<not> changed then Panics else Returns (cfg\<lparr>Num := Num cfg + 1\<rparr>, True))"
| "join_loop changed ((gid, servers) # gs) cfg =
     (if has_group cfg gid then Returns (cfg, False)
      else if shares_server cfg servers then Panics
      else join_loop True gs (cfg\<lparr>Groups := Groups cfg @ [(gid, servers)]\<rparr>))"

definition Join :: "(int \<times> string list) list \<Rightarrow> ShardConfig \<Rightarrow> (ShardConfig \<times> bool) outcome" where
  "Join servers cfg = join_loop False servers cfg"

fun leave_loop :: "bool \<Rightarrow> int list \<Rightarrow> ShardConfig \<Rightarrow> (ShardConfig \<times> bool) outcome" where
  "leave_loop changed [] cfg = (if \<not> changed then Panics else Returns (cfg\<lparr>Num := Num cfg + 1\<rparr>, True))"
| "leave_loop changed (gid # gids) cfg =
     (if \<not> has_group cfg gid then Returns (cfg, False)
      else leave_loop True gids (cfg\<lparr>Groups := filter (\<lambda>(g, _). g \<noteq> gid) (Groups cfg)\<rparr>))"

definition Leave :: "int list \<Rightarrow> ShardConfig \<Rightarrow> (ShardConfig \<times> bool) outcome" where
  "Leave gids cfg = leave_loop False gids cfg"

definition rebalanced ::
  "(int list \<Rightarrow> int list) \<Rightarrow> (ShardConfig \<times> bool) outcome \<Rightarrow> (ShardConfig \<times> bool) outcome option" where
  "rebalanced visit r =
     (case r of
        Panics \<Rightarrow> Some Panics
      | Returns (cfg, ok) \<Rightarrow>
          if \<not> ok then Some (Returns (cfg, False))
          else do { cfg' \<leftarrow> Rebalance visit cfg; Some (Returns (cfg', True)) })"

definition JoinBalance ::
  "(int list \<Rightarrow> int list) \<Rightarrow> (int \<times> string list) list \<Rightarrow> ShardConfig \<Rightarrow> (ShardConfig \<times> bool) outcome option" where
  "JoinBalance visit servers cfg = rebalanced visit (Join servers cfg)"

definition LeaveBalance ::
  "(int list \<Rightarrow> int list) \<Rightarrow> int list \<Rightarrow> ShardConfig \<Rightarrow> (ShardConfig \<times> bool) outcome option" where
  "LeaveBalance visit gids cfg = rebalanced visit (Leave gids cfg)"

section \<open>Queries and the check of the tests\<close>

definition GidServers :: "ShardConfig \<Rightarrow> nat \<Rightarrow> (int \<times> string list \<times> bool) option" where
  "GidServers cfg sh = do {
     gid \<leftarrow> slice_get (Shards cfg) sh;
     Some (case map_of (Groups cfg) gid of
             None \<Rightarrow> (gid, [], False)
           | Some srvs \<Rightarrow> (gid, srvs, True)) }"

fun member_loop :: "int \<Rightarrow> int list \<Rightarrow> bool" where
  "member_loop gid [] = False"
| "member_loop gid (g # gs) = (if g = gid then True else member_loop gid gs)"

definition IsMember :: "ShardConfig \<Rightarrow> int \<Rightarrow> bool" where
  "IsMember cfg gid = member_loop gid (Shards cfg)"

text \<open>The failures that \<open>CheckConfig\<close> reports.\<close>

datatype config_error =
  WrongGroups nat nat | MissingGroup int | InvalidShard nat int | Unbalanced int int

fun missing_loop :: "ShardConfig \<Rightarrow> int list \<Rightarrow> config_error option" where
  "missing_loop cfg [] = None"
| "missing_loop cfg (g # gs) = (if \<not> has_group cfg g then Some (MissingGroup g) else missing_loop cfg gs)"

fun invalid_loop :: "ShardConfig \<Rightarrow> nat \<Rightarrow> int list \<Rightarrow> config_error option" where
  "invalid_loop cfg s [] = None"
| "invalid_loop cfg s (g # gs) =
     (if \<not> has_group cfg g then Some (InvalidShard s g) else invalid_loop cfg (s + 1) gs)"

fun minmax_loop :: "(int \<Rightarrow> int) \<Rightarrow> int list \<Rightarrow> int \<times> int \<Rightarrow> int \<times> int" where
  "minmax_loop counts [] r = r"
| "minmax_loop counts (g # gs) (mi, ma) =
     (let ma = (if counts g > ma then counts g else ma);
          mi = (if counts g < mi then counts g else mi)
      in minmax_loop counts gs (mi, ma))"

definition CheckConfig :: "(int list \<Rightarrow> int list) \<Rightarrow> ShardConfig \<Rightarrow> int list \<Rightarrow> config_error option" where
  "CheckConfig visit cfg groups =
     (if length (Groups cfg) \<noteq> length groups then Some (WrongGroups (length groups) (length (Groups cfg)))
      else case missing_loop cfg groups of
        Some e \<Rightarrow> Some e
      | None \<Rightarrow>
          (case (if length groups > 0 then invalid_loop cfg 0 (Shards cfg) else None) of
             Some e \<Rightarrow> Some e
           | None \<Rightarrow>
               let counts = count_shards (\<lambda>_. 0) (Shards cfg);
                   (mi, ma) = minmax_loop counts (visit (map fst (Groups cfg))) (257, 0)
               in if ma > mi + 1 then Some (Unbalanced ma mi) else None))"

section \<open>Well-formed configurations\<close>

definition wf_config :: "ShardConfig \<Rightarrow> bool" where
  "wf_config c \<longleftrightarrow> length (Shards c) = NShards \<and> distinct (map fst (Groups c))"

definition all_assigned :: "ShardConfig \<Rightarrow> bool" where
  "all_assigned c \<longleftrightarrow> (\<forall>g \<in> set (Shards c). has_group c g)"

definition load :: "ShardConfig \<Rightarrow> int \<Rightarrow> nat" where
  "load c g = count_list (Shards c) g"

definition balanced :: "ShardConfig \<Rightarrow> bool" where
  "balanced c \<longleftrightarrow> (\<forall>g h. has_group c g \<longrightarrow> has_group c h \<longrightarrow> load c g \<le> load c h + 1)"

end
