(* ===== verification/Shardcfg_Correct.thy ===== *)
theory Shardcfg_Correct
  imports Shardcfg
begin

text \<open>
  Rebalancing terminates with every shard assigned to a live group and loads that differ by at most
  one.  The measure of the loop that moves shards is the sum of the squares of the loads.
\<close>

section \<open>Counting and extremes\<close>

lemma count_shards_eq: "count_shards counts gs g = counts g + int (count_list gs g)"
  by (induction gs arbitrary: counts) auto

lemma count_shards_load: "count_shards (\<lambda>_. 0) (Shards c) = (\<lambda>g. int (load c g))"
  by (auto simp: count_shards_eq load_def)

text \<open>The result of \<open>analyze\<close>: a group of largest and a group of smallest load.\<close>

definition extremes :: "(int \<Rightarrow> int) \<Rightarrow> int set \<Rightarrow> int \<times> int \<times> int \<times> int \<Rightarrow> bool" where
  "extremes counts G r \<longleftrightarrow>
     (case r of (mg, mn, lg, ln) \<Rightarrow>
        mg \<in> G \<and> lg \<in> G \<and> mn = counts mg \<and> ln = counts lg \<and> (\<forall>g \<in> G. ln \<le> counts g \<and> counts g \<le> mn))"

lemma analyze_loop_extremes:
  "extremes counts G r \<Longrightarrow> extremes counts (G \<union> set gs) (analyze_loop counts gs r)"
proof (induction gs arbitrary: G r)
  case (Cons g gs)
  obtain mg mn lg ln where r: "r = (mg, mn, lg, ln)" by (metis prod_cases4)
  let ?r = "(if counts g > mn then g else mg, if counts g > mn then counts g else mn,
             if counts g < ln then g else lg, if counts g < ln then counts g else ln)"
  have "extremes counts (insert g G) ?r" using Cons.prems by (fastforce simp: extremes_def r)
  moreover have "analyze_loop counts (g # gs) r = analyze_loop counts gs ?r" by (auto simp: r)
  ultimately show ?case using Cons.IH [of "insert g G" ?r] by simp
qed simp

lemma analyze_extremes:
  assumes "visits visit" "Groups c \<noteq> []" "\<And>g. load c g < 257"
  shows "extremes (\<lambda>g. int (load c g)) (fst ` set (Groups c)) (analyze visit c)"
proof -
  let ?gs = "sort (map fst (Groups c))" and ?n = "\<lambda>g. int (load c g)"
  obtain g gs where gs: "?gs = g # gs" using assms(2) by (cases ?gs) (auto simp flip: set_empty)
  have "analyze visit c = analyze_loop ?n gs (g, ?n g, g, ?n g)"
    using assms(3) [of g] by (simp add: analyze_def count_shards_load sort_visits [OF assms(1)] gs)
  moreover have "extremes ?n ({g} \<union> set gs) (analyze_loop ?n gs (g, ?n g, g, ?n g))"
    by (rule analyze_loop_extremes) (simp add: extremes_def)
  moreover have "{g} \<union> set gs = fst ` set (Groups c)" using arg_cong [OF gs, of set] by simp
  ultimately show ?thesis by simp
qed

lemma load_less: "wf_config c \<Longrightarrow> load c g < 257"
  using count_le_length [of "Shards c" g] by (simp add: wf_config_def NShards_def load_def)

lemma least_group:
  assumes "visits visit" "Groups c \<noteq> []" "wf_config c"
  shows "has_group c (least visit c)"
  using analyze_extremes [OF assms(1,2) load_less [OF assms(3)]]
  by (auto simp: extremes_def least_def split: prod.splits)

section \<open>Assigning the unassigned shards\<close>

lemma assign_loop_keeps:
  "Groups (assign_loop visit ss c) = Groups c \<and> Num (assign_loop visit ss c) = Num c \<and>
   length (Shards (assign_loop visit ss c)) = length (Shards c)"
  by (induction visit ss c rule: assign_loop.induct) auto

lemma assign_loop_assigned:
  assumes v: "visits visit"
  shows "Groups c \<noteq> [] \<Longrightarrow> wf_config c \<Longrightarrow> distinct ss \<Longrightarrow>
    \<forall>s < length (Shards c). s \<notin> set ss \<longrightarrow> has_group c (Shards c ! s) \<Longrightarrow>
    all_assigned (assign_loop visit ss c)"
proof (induction ss arbitrary: c)
  case Nil
  then show ?case by (auto simp: all_assigned_def in_set_conv_nth)
next
  case (Cons s ss)
  show ?case
  proof (cases "has_group c (Shards c ! s)")
    case True
    then show ?thesis using Cons by auto
  next
    case False
    let ?c = "c\<lparr>Shards := (Shards c)[s := least visit c]\<rparr>"
    have "all_assigned (assign_loop visit ss ?c)"
    proof (rule Cons.IH)
      show "\<forall>k < length (Shards ?c). k \<notin> set ss \<longrightarrow> has_group ?c (Shards ?c ! k)"
      proof (intro allI impI)
        fix k assume "k < length (Shards ?c)" "k \<notin> set ss"
        then show "has_group ?c (Shards ?c ! k)"
          using Cons.prems(4) least_group [OF v Cons.prems(1,2)] by (cases "k = s") simp_all
      qed
    qed (use Cons.prems in \<open>auto simp: wf_config_def\<close>)
    then show ?thesis using False by simp
  qed
qed

lemma assign_loop_id: "\<forall>s \<in> set ss. has_group c (Shards c ! s) \<Longrightarrow> assign_loop visit ss c = c"
  by (induction visit ss c rule: assign_loop.induct) auto

section \<open>Moving shards\<close>

lemma length_move_one [simp]: "length (move_one mg lg xs) = length xs"
  by (induction xs) auto

lemma set_move_one: "set (move_one mg lg xs) \<subseteq> insert lg (set xs)"
  by (induction xs) auto

lemma count_move_one:
  assumes "mg \<in> set xs" "mg \<noteq> lg"
  shows "count_list (move_one mg lg xs) g =
    (if g = mg then count_list xs mg - 1 else if g = lg then count_list xs lg + 1 else count_list xs g)"
  using assms(1)
proof (induction xs)
  case (Cons x xs)
  then show ?case using assms(2) count_list_0_iff [of xs mg] by (cases "x = mg") (auto simp: Suc_diff_le)
qed simp

definition spread :: "ShardConfig \<Rightarrow> nat" where
  "spread c = (\<Sum>g \<in> fst ` set (Groups c). (load c g)\<^sup>2)"

lemma sum_two:
  fixes f :: "'a \<Rightarrow> nat"
  assumes "finite A" "a \<in> A" "b \<in> A" "a \<noteq> b"
  shows "(\<Sum>x \<in> A. f x) = f a + f b + (\<Sum>x \<in> A - {a, b}. f x)"
proof -
  have "A = insert a (insert b (A - {a, b}))" using assms by auto
  then have "(\<Sum>x \<in> A. f x) = (\<Sum>x \<in> insert a (insert b (A - {a, b})). f x)" by simp
  also have "\<dots> = f a + (f b + (\<Sum>x \<in> A - {a, b}. f x))" using assms by simp
  finally show ?thesis by simp
qed

lemma spread_decreases:
  assumes "has_group c mg" "has_group c lg" "load c lg + 2 \<le> load c mg"
  shows "spread (c\<lparr>Shards := move_one mg lg (Shards c)\<rparr>) < spread c"
proof -
  let ?c = "c\<lparr>Shards := move_one mg lg (Shards c)\<rparr>" and ?G = "fst ` set (Groups c)"
  have ne: "mg \<noteq> lg" using assms(3) by auto
  have "count_list (Shards c) mg \<noteq> 0" using assms(3) by (simp add: load_def)
  then have "mg \<in> set (Shards c)" by (metis count_list_0_iff)
  note l = count_move_one [OF this ne]
  have l1: "load ?c mg = load c mg - 1" "load ?c lg = load c lg + 1" using ne by (simp_all add: load_def l)
  have rest: "(\<Sum>g \<in> ?G - {mg, lg}. (load ?c g)\<^sup>2) = (\<Sum>g \<in> ?G - {mg, lg}. (load c g)\<^sup>2)"
    by (rule sum.cong) (auto simp: load_def l)
  obtain k where k: "load c mg = load c lg + 2 + k" using assms(3) le_Suc_ex by blast
  have "(load ?c mg)\<^sup>2 + (load ?c lg)\<^sup>2 < (load c mg)\<^sup>2 + (load c lg)\<^sup>2"
    unfolding l1 k by (simp add: power2_eq_square algebra_simps)
  then show ?thesis
    using sum_two [OF _ assms(1,2) ne, of "\<lambda>g. (load ?c g)\<^sup>2"] sum_two [OF _ assms(1,2) ne, of "\<lambda>g. (load c g)\<^sup>2"]
    by (simp add: spread_def rest)
qed

lemma all_assigned_move:
  assumes "all_assigned c" "has_group c lg"
  shows "all_assigned (c\<lparr>Shards := move_one mg lg (Shards c)\<rparr>)"
proof -
  have "has_group c g" if "g \<in> set (move_one mg lg (Shards c))" for g
    using subsetD [OF set_move_one that] assms unfolding all_assigned_def by blast
  then show ?thesis by (simp add: all_assigned_def)
qed

lemma move_loop_balances:
  assumes v: "visits visit"
  shows "Groups c \<noteq> [] \<Longrightarrow> wf_config c \<Longrightarrow> all_assigned c \<Longrightarrow>
    \<exists>c'. move_loop visit c = Some c' \<and> Groups c' = Groups c \<and> Num c' = Num c \<and>
         wf_config c' \<and> all_assigned c' \<and> balanced c'"
proof (induction c rule: measure_induct_rule [of spread])
  case (less c)
  obtain mg mn lg ln where a: "analyze visit c = (mg, mn, lg, ln)" by (metis prod_cases4)
  have e: "has_group c mg" "has_group c lg" "mn = int (load c mg)" "ln = int (load c lg)"
    "\<And>g. has_group c g \<Longrightarrow> load c lg \<le> load c g \<and> load c g \<le> load c mg"
    using analyze_extremes [OF v less.prems(1) load_less [OF less.prems(2)]]
    by (auto simp: extremes_def a)
  show ?case
  proof (cases "mn < ln + 2")
    case True
    then have "load c mg \<le> load c lg + 1" using e(3,4) by simp
    then have "balanced c" using e(5) unfolding balanced_def by (meson add_le_mono1 le_trans)
    then show ?thesis using True less.prems by (subst move_loop.simps) (simp add: a)
  next
    case False
    let ?c = "c\<lparr>Shards := move_one mg lg (Shards c)\<rparr>"
    have "\<exists>c'. move_loop visit ?c = Some c' \<and> Groups c' = Groups ?c \<and> Num c' = Num ?c \<and>
        wf_config c' \<and> all_assigned c' \<and> balanced c'"
    proof (rule less.IH)
      show "spread ?c < spread c" by (rule spread_decreases [OF e(1,2)]) (use False e(3,4) in simp)
      show "all_assigned ?c" by (rule all_assigned_move [OF less.prems(3) e(2)])
    qed (use less.prems in \<open>simp_all add: wf_config_def\<close>)
    then show ?thesis using False by (subst move_loop.simps) (simp add: a)
  qed
qed

text \<open>The order in which the map of groups is visited does not matter.\<close>

lemma analyze_order: "visits v \<Longrightarrow> visits w \<Longrightarrow> analyze v = analyze w"
  by (auto simp: analyze_def sort_visits)

lemma move_loop_order:
  assumes v: "visits v" "visits w"
  shows "Groups c \<noteq> [] \<Longrightarrow> wf_config c \<Longrightarrow> all_assigned c \<Longrightarrow> move_loop v c = move_loop w c"
proof (induction c rule: measure_induct_rule [of spread])
  case (less c)
  obtain mg mn lg ln where a: "analyze w c = (mg, mn, lg, ln)" by (metis prod_cases4)
  have e: "has_group c mg" "has_group c lg" "mn = int (load c mg)" "ln = int (load c lg)"
    using analyze_extremes [OF v(2) less.prems(1) load_less [OF less.prems(2)]]
    by (auto simp: extremes_def a)
  let ?c = "c\<lparr>Shards := move_one mg lg (Shards c)\<rparr>"
  have "move_loop v ?c = move_loop w ?c" if "\<not> mn < ln + 2"
  proof (rule less.IH)
    show "spread ?c < spread c" by (rule spread_decreases [OF e(1,2)]) (use that e(3,4) in simp)
    show "all_assigned ?c" by (rule all_assigned_move [OF less.prems(3) e(2)])
  qed (use less.prems in \<open>simp_all add: wf_config_def\<close>)
  then show ?case by (simp add: move_loop.simps [of v c] move_loop.simps [of w c] analyze_order [OF v] a)
qed

lemma Rebalance_groups:
  assumes "visits visit" "Groups c \<noteq> []" "wf_config c"
  shows "\<exists>c'. Rebalance visit c = Some c' \<and> Groups c' = Groups c \<and> Num c' = Num c \<and>
    wf_config c' \<and> all_assigned c' \<and> balanced c'"
proof -
  let ?c = "assign_loop visit [0..<length (Shards c)] c"
  note k = assign_loop_keeps [of visit "[0..<length (Shards c)]" c]
  have "all_assigned ?c" by (rule assign_loop_assigned [OF assms]) auto
  moreover have "wf_config ?c" using k assms(3) by (simp add: wf_config_def)
  ultimately show ?thesis
    using move_loop_balances [OF assms(1), of ?c] k assms(2) by (auto simp: Rebalance_def)
qed

lemma Rebalance_empty:
  "Groups c = [] \<Longrightarrow> Rebalance visit c = Some (c\<lparr>Shards := replicate (length (Shards c)) 0\<rparr>)"
  by (simp add: Rebalance_def)

lemma Rebalance_balanced:
  assumes "visits v" "wf_config c" "Groups c \<noteq> []" "all_assigned c" "balanced c"
  shows "Rebalance v c = Some c"
proof -
  have "assign_loop v [0..<length (Shards c)] c = c"
    by (rule assign_loop_id) (use assms(4) in \<open>simp add: all_assigned_def\<close>)
  moreover obtain mg mn lg ln where an: "analyze v c = (mg, mn, lg, ln)" by (metis prod_cases4)
  then have e: "has_group c mg" "has_group c lg" "mn = int (load c mg)" "ln = int (load c lg)"
    using analyze_extremes [OF assms(1,3) load_less [OF assms(2)]] by (auto simp: extremes_def)
  then have "load c mg \<le> load c lg + 1" using assms(5) unfolding balanced_def by blast
  then have "mn < ln + 2" using e(3,4) by simp
  ultimately show ?thesis using assms(3) by (simp add: Rebalance_def move_loop.simps [of v c] an)
qed

section \<open>How many groups have a shard\<close>

lemma IsMember_iff: "IsMember c g \<longleftrightarrow> g \<in> set (Shards c)"
proof -
  have "member_loop g xs \<longleftrightarrow> g \<in> set xs" for xs by (induction xs) auto
  then show ?thesis by (simp add: IsMember_def)
qed

lemma load_sum:
  assumes "wf_config c" "all_assigned c"
  shows "(\<Sum>g \<in> fst ` set (Groups c). load c g) = NShards" "card (fst ` set (Groups c)) = length (Groups c)"
proof -
  have "set (Shards c) \<subseteq> fst ` set (Groups c)" using assms(2) by (auto simp: all_assigned_def)
  then show "(\<Sum>g \<in> fst ` set (Groups c). load c g) = NShards"
    using sum_count_set [of "Shards c" "fst ` set (Groups c)"] assms(1) by (simp add: load_def wf_config_def)
  show "card (fst ` set (Groups c)) = length (Groups c)"
    using assms(1) distinct_card [of "map fst (Groups c)"] by (simp add: wf_config_def)
qed

text \<open>With at most as many groups as shards every group of a balanced configuration has a shard; with at
  least as many no group has two.\<close>

lemma balanced_members:
  assumes "wf_config c" "all_assigned c" "balanced c" "has_group c g" "length (Groups c) \<le> NShards"
  shows "IsMember c g"
proof (rule ccontr)
  let ?K = "fst ` set (Groups c)"
  assume "\<not> IsMember c g"
  then have z: "load c g = 0" by (simp add: IsMember_iff load_def count_list_0_iff)
  then have le: "load c h \<le> 1" if "h \<in> ?K" for h using assms(3,4) that unfolding balanced_def by force
  have "(\<Sum>h \<in> ?K. load c h) = (\<Sum>h \<in> ?K - {g}. load c h)" using assms(4) z by (simp add: sum.remove)
  also have "\<dots> \<le> (\<Sum>h \<in> ?K - {g}. 1)" by (rule sum_mono) (use le in auto)
  also have "\<dots> < card ?K" using card_Diff1_less [OF _ assms(4)] by simp
  finally show False using load_sum [OF assms(1,2)] assms(5) by simp
qed

lemma balanced_loads:
  assumes "wf_config c" "all_assigned c" "balanced c" "has_group c g" "NShards \<le> length (Groups c)"
  shows "load c g \<le> 1"
proof (rule ccontr)
  let ?K = "fst ` set (Groups c)"
  assume g: "\<not> load c g \<le> 1"
  then have ge: "1 \<le> load c h" if "h \<in> ?K" for h using assms(3,4) that unfolding balanced_def by force
  have "card ?K = (\<Sum>h \<in> ?K. 1)" by simp
  also have "\<dots> < (\<Sum>h \<in> ?K. load c h)"
  proof (rule sum_strict_mono_ex1)
    show "\<exists>h \<in> ?K. 1 < load c h" using g assms(4) by (intro bexI [of _ g]) auto
  qed (use ge in auto)
  finally show False using load_sum [OF assms(1,2)] assms(5) by simp
qed

section \<open>Joining and leaving\<close>

lemma join_loop_ok:
  "join_loop changed gs cfg = Returns (cfg', True) \<Longrightarrow> wf_config cfg \<Longrightarrow>
   Groups cfg' = Groups cfg @ gs \<and> Num cfg' = Num cfg + 1 \<and> Shards cfg' = Shards cfg \<and> wf_config cfg' \<and>
   (changed \<or> gs \<noteq> [])"
proof (induction changed gs cfg rule: join_loop.induct)
  case (2 changed gid servers gs cfg)
  have "wf_config (cfg\<lparr>Groups := Groups cfg @ [(gid, servers)]\<rparr>)"
    using "2.prems" by (auto simp: wf_config_def split: if_splits)
  then show ?case using 2 by (auto split: if_splits)
qed (auto simp: wf_config_def split: if_splits)

lemma leave_loop_ok:
  "leave_loop changed gids cfg = Returns (cfg', True) \<Longrightarrow> wf_config cfg \<Longrightarrow>
   Groups cfg' = filter (\<lambda>(g, _). g \<notin> set gids) (Groups cfg) \<and> Num cfg' = Num cfg + 1 \<and>
   Shards cfg' = Shards cfg \<and> wf_config cfg' \<and> (changed \<or> gids \<noteq> [])"
proof (induction changed gids cfg rule: leave_loop.induct)
  case (2 changed gid gids cfg)
  let ?cfg = "cfg\<lparr>Groups := filter (\<lambda>(g, _). g \<noteq> gid) (Groups cfg)\<rparr>"
  have "wf_config ?cfg" using "2.prems"(2) by (simp add: wf_config_def distinct_map_filter)
  then show ?case using 2 by (auto simp: filter_filter case_prod_unfold conj_commute split: if_splits)
qed (auto simp: wf_config_def split: if_splits)

end
