(* ===== verification/Shardcfg_Properties.thy ===== *)
theory Shardcfg_Properties
  imports Shardcfg_Correct
begin

text \<open>
  What the shard configurations guarantee: the check that the tests run on a configuration is
  characterised, and every successful join or leave produces a configuration that passes it.
\<close>

section \<open>The check of the tests\<close>

lemma missing_loop_None: "missing_loop cfg gs = None \<longleftrightarrow> (\<forall>g \<in> set gs. has_group cfg g)"
  by (induction cfg gs rule: missing_loop.induct) auto

lemma invalid_loop_None: "invalid_loop cfg s gs = None \<longleftrightarrow> (\<forall>g \<in> set gs. has_group cfg g)"
  by (induction cfg s gs rule: invalid_loop.induct) auto

lemma first_error_None: "(case a of None \<Rightarrow> b | Some e \<Rightarrow> Some e) = None \<longleftrightarrow> a = None \<and> b = None"
  by (cases a) auto

lemma minmax_loop_eq:
  "minmax_loop counts gs (mi, ma) = (foldl min mi (map counts gs), foldl max ma (map counts gs))"
  by (induction gs arbitrary: mi ma) (auto simp: min_def max_def)

lemma le_foldl_min: "c \<le> foldl min (a :: int) xs \<longleftrightarrow> c \<le> a \<and> (\<forall>x \<in> set xs. c \<le> x)"
  by (induction xs arbitrary: a) auto

lemma foldl_max_le: "foldl max (a :: int) xs \<le> c \<longleftrightarrow> a \<le> c \<and> (\<forall>x \<in> set xs. x \<le> c)"
  by (induction xs arbitrary: a) auto

lemma spread_le_one:
  "foldl max (0 :: int) xs \<le> foldl min 257 xs + 1 \<longleftrightarrow> (\<forall>x \<in> set xs. \<forall>y \<in> set xs. x \<le> y + 1)"
  if "\<forall>x \<in> set xs. 0 \<le> x \<and> x < 257"
proof -
  have "foldl max 0 xs \<le> foldl min 257 xs + 1 \<longleftrightarrow>
      -1 \<le> foldl min 257 xs \<and> (\<forall>x \<in> set xs. x - 1 \<le> foldl min 257 xs)"
    by (auto simp: foldl_max_le)
  also have "\<dots> \<longleftrightarrow> (\<forall>x \<in> set xs. \<forall>y \<in> set xs. x \<le> y + 1)"
  proof -
    have h: "\<forall>x \<in> set xs. -1 \<le> x" "\<forall>x \<in> set xs. x \<le> 257 + 1" using that by force+
    show ?thesis unfolding le_foldl_min diff_le_eq using h by auto
  qed
  finally show ?thesis .
qed

lemma CheckConfig_None:
  assumes v: "visits visit" and wf: "wf_config cfg"
  shows "CheckConfig visit cfg groups = None \<longleftrightarrow>
    length groups = length (Groups cfg) \<and> (\<forall>g \<in> set groups. has_group cfg g) \<and>
    (groups \<noteq> [] \<longrightarrow> all_assigned cfg) \<and> balanced cfg"
proof -
  let ?ks = "visit (map fst (Groups cfg))" and ?n = "\<lambda>g. int (load cfg g)"
  have b: "foldl max 0 (map ?n ?ks) \<le> foldl min 257 (map ?n ?ks) + 1 \<longleftrightarrow> balanced cfg"
  proof -
    define K where "K = fst ` set (Groups cfg)"
    have K: "set (map ?n ?ks) = ?n ` K" by (simp add: set_visits [OF v] K_def)
    have i: "int a \<le> int b + 1 \<longleftrightarrow> a \<le> b + 1" for a b by linarith
    have "\<forall>x \<in> set (map ?n ?ks). 0 \<le> x \<and> x < 257"
      unfolding K using load_less [OF wf] by (auto simp: of_nat_less_iff [of _ 257, simplified])
    from spread_le_one [OF this] show ?thesis unfolding K balanced_def K_def [symmetric] by (auto simp: i)
  qed
  have "CheckConfig visit cfg groups = None \<longleftrightarrow>
    length groups = length (Groups cfg) \<and> (\<forall>g \<in> set groups. has_group cfg g) \<and>
    (groups \<noteq> [] \<longrightarrow> all_assigned cfg) \<and> foldl max 0 (map ?n ?ks) \<le> foldl min 257 (map ?n ?ks) + 1"
    by (auto simp: CheckConfig_def first_error_None missing_loop_None invalid_loop_None minmax_loop_eq
        count_shards_load all_assigned_def Let_def not_less)
  then show ?thesis by (simp only: b)
qed

section \<open>A concrete configuration\<close>

definition two_groups :: ShardConfig where
  "two_groups = \<lparr>Num = 3, Shards = [1, 1, 1, 1, 1, 1, 1, 1, 1, 2, 0, 0],
     Groups = [(2, [''s2'']), (1, [''s1''])]\<rparr>"

lemma two_groups_wf: "wf_config two_groups" "Groups two_groups \<noteq> []"
  by (simp_all add: two_groups_def wf_config_def NShards_def)

lemma visits_rev: "visits rev"
  by (simp add: visits_def)

section \<open>Rebalancing\<close>

text \<open>C6. \<open>Rebalance\<close> terminates on every well-formed configuration with a group, changes nothing
  but the assignment, assigns every shard to a group of the configuration, and leaves any two
  groups with loads that differ by at most one.\<close>

theorem Rebalance_correct:
  assumes "visits visit" "wf_config c" "Groups c \<noteq> []"
  shows "\<exists>c'. Rebalance visit c = Some c' \<and> Groups c' = Groups c \<and> Num c' = Num c \<and>
    length (Shards c') = NShards \<and> (\<forall>g \<in> set (Shards c'). has_group c g) \<and>
    (\<forall>g h. has_group c g \<longrightarrow> has_group c h \<longrightarrow> count_list (Shards c') g \<le> count_list (Shards c') h + 1)"
  using Rebalance_groups [OF assms(1,3,2)]
  by (auto simp: wf_config_def all_assigned_def balanced_def load_def)

theorem Rebalance_correct_witness:
  "\<exists>c'. Rebalance rev two_groups = Some c' \<and> count_list (Shards c') 1 = 6 \<and> count_list (Shards c') 2 = 6"
proof -
  have "map_option (\<lambda>c'. (count_list (Shards c') 1, count_list (Shards c') 2)) (Rebalance rev two_groups) = Some (6, 6)"
    by code_simp
  moreover obtain c' where "Rebalance rev two_groups = Some c'"
    using Rebalance_correct [OF visits_rev two_groups_wf] by blast
  ultimately show ?thesis by simp
qed

text \<open>The result does not depend on the order in which Go visits the map of groups, and a
  configuration that is already assigned and balanced is left as it is.\<close>

theorem Rebalance_deterministic:
  assumes "visits v" "visits w" "wf_config c" "Groups c \<noteq> []"
  shows "Rebalance v c = Rebalance w c \<and>
    (all_assigned c \<longrightarrow> balanced c \<longrightarrow> Rebalance v c = Some c)"
proof
  have "least v = least w" using analyze_order [OF assms(1,2)] by (auto simp: least_def)
  then have as: "assign_loop v ss d = assign_loop w ss d" for ss d
    by (induction ss arbitrary: d) auto
  have "all_assigned (assign_loop w [0..<length (Shards c)] c)"
    by (rule assign_loop_assigned [OF assms(2,4,3)]) auto
  then show "Rebalance v c = Rebalance w c"
    using move_loop_order [OF assms(1,2)] assign_loop_keeps [of w "[0..<length (Shards c)]" c] assms(3,4)
    by (simp add: Rebalance_def as wf_config_def)
  show "all_assigned c \<longrightarrow> balanced c \<longrightarrow> Rebalance v c = Some c"
    using Rebalance_balanced [OF assms(1,3,4)] by blast
qed

theorem Rebalance_deterministic_witness: "Rebalance rev two_groups = Rebalance (\<lambda>ks. ks) two_groups"
  using Rebalance_deterministic [OF visits_rev _ two_groups_wf, of "\<lambda>ks. ks"] by (simp add: visits_def)

section \<open>Joining and leaving\<close>

lemma rebalanced_check:
  assumes "visits visit" "wf_config cfg" "Rebalance visit cfg = Some cfg'"
  shows "CheckConfig visit cfg' (map fst (Groups cfg)) = None \<and> Num cfg' = Num cfg \<and>
    Groups cfg' = Groups cfg \<and> wf_config cfg'"
proof (cases "Groups cfg = []")
  case True
  then have "cfg' = cfg\<lparr>Shards := replicate (length (Shards cfg)) 0\<rparr>" using assms(3) by (simp add: Rebalance_empty)
  then show ?thesis using True assms(2) CheckConfig_None [OF assms(1), of cfg' "[]"]
    by (simp add: wf_config_def balanced_def)
next
  case False
  then show ?thesis
    using Rebalance_groups [OF assms(1) False assms(2)] assms(3) CheckConfig_None [OF assms(1), of cfg'] by auto
qed

text \<open>C18. A join that reports success yields a configuration with exactly the old and the new groups
  and the next number, and it passes the check that the tests run on it; a join never hangs.\<close>

theorem JoinBalance_correct:
  assumes "visits visit" "wf_config cfg"
  shows "JoinBalance visit servers cfg \<noteq> None \<and>
    (\<forall>cfg'. JoinBalance visit servers cfg = Some (Returns (cfg', True)) \<longrightarrow>
       CheckConfig visit cfg' (map fst (Groups cfg @ servers)) = None \<and> Num cfg' = Num cfg + 1 \<and>
       Groups cfg' = Groups cfg @ servers \<and> wf_config cfg')"
proof (cases "\<exists>c. Join servers cfg = Returns (c, True)")
  case True
  then obtain c where j: "Join servers cfg = Returns (c, True)" by blast
  then have c: "Groups c = Groups cfg @ servers" "Num c = Num cfg + 1" "wf_config c" "servers \<noteq> []"
    using join_loop_ok [of False servers cfg c] assms(2) by (auto simp: Join_def)
  obtain c' where r: "Rebalance visit c = Some c'" using Rebalance_groups [OF assms(1) _ c(3)] c(1,4) by auto
  then show ?thesis using rebalanced_check [OF assms(1) c(3) r] c by (simp add: JoinBalance_def rebalanced_def j)
next
  case False
  then show ?thesis by (auto simp: JoinBalance_def rebalanced_def split: outcome.splits)
qed

theorem JoinBalance_correct_witness:
  "\<exists>cfg'. JoinBalance rev [(7, [''s7''])] two_groups = Some (Returns (cfg', True)) \<and>
     CheckConfig rev cfg' [2, 1, 7] = None \<and> Num cfg' = 4"
proof -
  have "(case JoinBalance rev [(7, [''s7''])] two_groups of Some (Returns (_, True)) \<Rightarrow> True | _ \<Rightarrow> False)" by code_simp
  then obtain cfg' where "JoinBalance rev [(7, [''s7''])] two_groups = Some (Returns (cfg', True))"
    by (auto split: option.splits outcome.splits bool.splits)
  then show ?thesis
    using JoinBalance_correct [OF visits_rev two_groups_wf(1), of "[(7, [''s7''])]"] by (simp add: two_groups_def)
qed

text \<open>A leave that reports success removes exactly the named groups, passes the check of the
  tests, and no shard is left on a group that left; when no group remains all shards are unassigned.\<close>

theorem LeaveBalance_correct:
  assumes "visits visit" "wf_config cfg" "LeaveBalance visit gids cfg = Some (Returns (cfg', True))"
  shows "CheckConfig visit cfg' (filter (\<lambda>g. g \<notin> set gids) (map fst (Groups cfg))) = None \<and>
    Num cfg' = Num cfg + 1 \<and> (\<forall>g \<in> set gids. g \<noteq> 0 \<longrightarrow> \<not> IsMember cfg' g) \<and>
    (Groups cfg' = [] \<longrightarrow> set (Shards cfg') = {0})"
proof -
  obtain c where l: "Leave gids cfg = Returns (c, True)" "Rebalance visit c = Some cfg'"
    using assms(3) by (auto simp: LeaveBalance_def rebalanced_def split: outcome.splits prod.splits if_splits bind_splits)
  have c: "Groups c = filter (\<lambda>(g, _). g \<notin> set gids) (Groups cfg)" "Num c = Num cfg + 1" "wf_config c"
    using leave_loop_ok [of False gids cfg c] l(1) assms(2) by (simp_all add: Leave_def)
  note r = rebalanced_check [OF assms(1) c(3) l(2)]
  have keys: "map fst (Groups c) = filter (\<lambda>g. g \<notin> set gids) (map fst (Groups cfg))"
    by (simp add: c(1) filter_map comp_def case_prod_unfold)
  have sh: "set (Shards cfg') = {0}" if "Groups c = []"
    using l(2) that c(3) by (auto simp: Rebalance_empty wf_config_def NShards_def)
  have "\<not> IsMember cfg' g" if "g \<in> set gids" "g \<noteq> 0" for g
  proof (cases "Groups c = []")
    case True
    then show ?thesis using sh that by (simp add: IsMember_iff)
  next
    case False
    then have "all_assigned cfg'" using Rebalance_groups [OF assms(1) False c(3)] l(2) by auto
    moreover have "\<not> has_group cfg' g" using r c(1) that(1) by auto
    ultimately show ?thesis by (auto simp: IsMember_iff all_assigned_def)
  qed
  then show ?thesis using r c(2) sh keys by auto
qed

theorem LeaveBalance_correct_witness:
  "\<exists>cfg'. LeaveBalance rev [1] two_groups = Some (Returns (cfg', True)) \<and> \<not> IsMember cfg' 1 \<and>
     CheckConfig rev cfg' [2] = None"
proof -
  have "(case LeaveBalance rev [1] two_groups of Some (Returns (_, True)) \<Rightarrow> True | _ \<Rightarrow> False)" by code_simp
  then obtain cfg' where r: "LeaveBalance rev [1] two_groups = Some (Returns (cfg', True))"
    by (auto split: option.splits outcome.splits bool.splits)
  show ?thesis using LeaveBalance_correct [OF visits_rev two_groups_wf(1) r] r by (simp add: two_groups_def)
qed

text \<open>A join that reports failure has already added the groups that the range loop visited
  before the duplicate: the configuration is changed although its number is not.\<close>

theorem Join_failure_partial:
  assumes "Join servers cfg = Returns (cfg', False)"
  shows "\<exists>pre gid srvs post. servers = pre @ (gid, srvs) # post \<and> has_group cfg' gid \<and>
    cfg' = cfg\<lparr>Groups := Groups cfg @ pre\<rparr>"
proof -
  have "join_loop changed servers cfg = Returns (cfg', False) \<Longrightarrow>
      \<exists>pre gid srvs post. servers = pre @ (gid, srvs) # post \<and> has_group cfg' gid \<and>
        cfg' = cfg\<lparr>Groups := Groups cfg @ pre\<rparr>" for changed
  proof (induction changed servers cfg rule: join_loop.induct)
    case (2 changed gid servers gs cfg)
    show ?case
    proof (cases "has_group cfg gid")
      case True
      then show ?thesis using "2.prems" by (intro exI [of _ "[]"]) auto
    next
      case False
      then have n: "\<not> shares_server cfg servers" using "2.prems" by (auto split: if_splits)
      then have "join_loop True gs (cfg\<lparr>Groups := Groups cfg @ [(gid, servers)]\<rparr>) = Returns (cfg', False)"
        using "2.prems" False by simp
      from "2.IH" [OF False n this] obtain pre gid' srvs post where
        "gs = pre @ (gid', srvs) # post" "has_group cfg' gid'"
        "cfg' = cfg\<lparr>Groups := (Groups cfg @ [(gid, servers)]) @ pre\<rparr>"
        by (elim exE conjE) simp
      then show ?thesis by (intro exI [of _ "(gid, servers) # pre"]) auto
    qed
  qed (auto split: if_splits)
  with assms show ?thesis by (simp add: Join_def)
qed

theorem Join_failure_partial_witness:
  "\<exists>cfg'. Join [(7, [''s7'']), (1, [''s9''])] two_groups = Returns (cfg', False) \<and> cfg' \<noteq> two_groups \<and>
     Num cfg' = Num two_groups"
proof -
  let ?c = "two_groups\<lparr>Groups := Groups two_groups @ [(7, [''s7''])]\<rparr>"
  have r: "Join [(7, [''s7'']), (1, [''s9''])] two_groups = Returns (?c, False)"
    by (simp add: Join_def two_groups_def shares_server_def)
  show ?thesis using Join_failure_partial [OF r] r by (auto simp: two_groups_def)
qed

text \<open>Every key is in one of the shards, so looking up its group never panics, and in a fully
  assigned configuration the lookup finds a group.\<close>

theorem Key2Shard_lookup:
  assumes "wf_config cfg"
  shows "Key2Shard key < NShards \<and> (\<exists>gid srvs ok. GidServers cfg (Key2Shard key) = Some (gid, srvs, ok) \<and>
    gid = Shards cfg ! Key2Shard key \<and> (all_assigned cfg \<longrightarrow> ok \<and> (gid, srvs) \<in> set (Groups cfg)))"
proof -
  let ?s = "Key2Shard key"
  have s: "?s < NShards" by (simp add: Key2Shard_def NShards_def)
  then have g: "slice_get (Shards cfg) ?s = Some (Shards cfg ! ?s)" using assms by (simp add: wf_config_def)
  have "map_of (Groups cfg) (Shards cfg ! ?s) \<noteq> None" if "all_assigned cfg"
    using that s assms by (auto simp: all_assigned_def wf_config_def map_of_eq_None_iff)
  then show ?thesis
    unfolding GidServers_def g using s map_of_SomeD [of "Groups cfg" "Shards cfg ! ?s"]
    by (cases "map_of (Groups cfg) (Shards cfg ! ?s)") auto
qed

theorem Key2Shard_lookup_witness: "\<exists>gid srvs ok. GidServers two_groups (Key2Shard ''a'') = Some (gid, srvs, ok)"
  using Key2Shard_lookup [OF two_groups_wf(1), of "''a''"] by blast

end
