(* ===== verification/MapReduce.thy ===== *)
theory MapReduce
  imports Prelude
begin

text \<open>
  The MapReduce coordinator (\<open>mr/coordinator.go\<close>, \<open>mr/rpc.go\<close>, \<open>mr/model.go\<close>).  Each RPC handler
  holds the table lock for its whole body and is one step.  \<open>time.Now().Second()\<close> is the second
  within the current minute, a number from 0 to 59; the handler reads it again for every table
  entry it looks at (\<open>clock i\<close> for entry \<open>i\<close>) and once more when it schedules (\<open>at\<close>).
  An index outside the table is a panic (\<open>None\<close>).
\<close>

section \<open>Tasks and messages\<close>

datatype TaskType = Map | Reduce | Wait | NoTask

fun TaskType_String :: "TaskType \<Rightarrow> string" where
  "TaskType_String Map = ''Map''"
| "TaskType_String Reduce = ''Reduce''"
| "TaskType_String Wait = ''Wait''"
| "TaskType_String NoTask = ''None''"

datatype TaskStatus = New | Scheduled | Delayed | Rescheduled | Completed

fun TaskStatus_String :: "TaskStatus \<Rightarrow> string" where
  "TaskStatus_String New = ''New''"
| "TaskStatus_String Scheduled = ''Scheduled''"
| "TaskStatus_String Delayed = ''Delayed''"
| "TaskStatus_String Rescheduled = ''Rescheduled''"
| "TaskStatus_String Completed = ''Completed''"

record TaskEntry =
  te_TaskId :: string
  te_TaskType :: TaskType
  te_TaskSlot :: int
  te_TaskFile :: string
  te_ScheduledTo :: string
  te_ScheduleAt :: int
  te_Status :: TaskStatus

record Coordinator =
  inputFiles :: "string list"
  mapperCount :: nat
  reducerCount :: nat
  taskTable :: "TaskEntry list"

record GetNextTaskArgs =
  WorkerId :: string

record GetNextTaskReply =
  TaskId :: string
  TaskKind :: TaskType
  TaskSlot :: int
  TaskFileName :: string
  MapperCount :: nat
  ReducerCount :: nat

record AckTaskCompletionArgs =
  ack_TaskId :: string

record AckTaskCompletionReply =
  ack_Status :: string

section \<open>The coordinator\<close>

text \<open>The loop over a part of the table: the entry to hand out, if any, and whether every entry seen
  was completed.\<close>

fun select_loop :: "(nat \<Rightarrow> int) \<Rightarrow> TaskEntry list \<Rightarrow> nat list \<Rightarrow> bool \<Rightarrow> (nat option \<times> bool) option" where
  "select_loop clock table [] allDone = Some (None, allDone)"
| "select_loop clock table (i # is) allDone = do {
     e \<leftarrow> slice_get table i;
     let allDone = (if te_Status e \<noteq> Completed then False else allDone);
     (if te_Status e = New then Some (Some i, allDone)
      else if te_Status e = Scheduled \<and> te_ScheduleAt e + 10 < clock i then Some (Some i, allDone)
      else select_loop clock table is allDone) }"

definition schedule :: "string \<Rightarrow> int \<Rightarrow> nat \<Rightarrow> Coordinator \<Rightarrow> Coordinator" where
  "schedule worker at i c =
     c\<lparr>taskTable := (taskTable c)[i := (taskTable c ! i)
         \<lparr>te_Status := Scheduled, te_ScheduleAt := at, te_ScheduledTo := worker\<rparr>]\<rparr>"

definition GetNextTask ::
  "Coordinator \<Rightarrow> GetNextTaskArgs \<Rightarrow> (nat \<Rightarrow> int) \<Rightarrow> int \<Rightarrow> (Coordinator \<times> GetNextTaskReply) option" where
  "GetNextTask c args clock at =
     (let reply = \<lparr>TaskId = '''', TaskKind = Wait, TaskSlot = -1, TaskFileName = '''',
                   MapperCount = mapperCount c, ReducerCount = reducerCount c\<rparr>
      in do {
        (selected, allMappersDone) \<leftarrow> select_loop clock (taskTable c) [0..<mapperCount c] True;
        (case selected of
           Some i \<Rightarrow>
             let c' = schedule (WorkerId args) at i c; e = taskTable c' ! i
             in Some (c', reply\<lparr>TaskKind := Map, TaskId := te_TaskId e, TaskFileName := te_TaskFile e,
                                TaskSlot := int i\<rparr>)
         | None \<Rightarrow>
             if \<not> allMappersDone then Some (c, reply\<lparr>TaskKind := Wait\<rparr>)
             else do {
               (selected, allReducersDone) \<leftarrow>
                 select_loop clock (taskTable c) [mapperCount c..<mapperCount c + reducerCount c] True;
               (case selected of
                  Some i \<Rightarrow>
                    let c' = schedule (WorkerId args) at i c; e = taskTable c' ! i
                    in Some (c', reply\<lparr>TaskKind := Reduce, TaskId := te_TaskId e,
                                       TaskFileName := te_TaskFile e,
                                       TaskSlot := int i - int (mapperCount c)\<rparr>)
                | None \<Rightarrow>
                    if \<not> allReducersDone then Some (c, reply\<lparr>TaskKind := Wait\<rparr>)
                    else Some (c, reply\<lparr>TaskKind := NoTask\<rparr>)) }) })"

fun ack_loop :: "string \<Rightarrow> TaskEntry list \<Rightarrow> TaskEntry list \<times> string" where
  "ack_loop t [] = ([], ''not-found'')"
| "ack_loop t (e # es) =
     (if te_TaskId e = t then (e\<lparr>te_Status := Completed\<rparr> # es, ''ok'')
      else let (es', r) = ack_loop t es in (e # es', r))"

definition AckTaskCompletion ::
  "Coordinator \<Rightarrow> AckTaskCompletionArgs \<Rightarrow> Coordinator \<times> AckTaskCompletionReply" where
  "AckTaskCompletion c args =
     (let (table, status) = ack_loop (ack_TaskId args) (taskTable c)
      in (c\<lparr>taskTable := table\<rparr>, \<lparr>ack_Status = status\<rparr>))"

fun done_loop :: "TaskEntry list \<Rightarrow> bool" where
  "done_loop [] = True"
| "done_loop (e # es) = (if te_Status e \<noteq> Completed then False else done_loop es)"

definition Done :: "Coordinator \<Rightarrow> bool" where
  "Done c = done_loop (taskTable c)"

definition map_task :: "nat \<Rightarrow> string \<Rightarrow> TaskEntry" where
  "map_task i file =
     \<lparr>te_TaskId = ''Map-'' @ itoa i, te_TaskType = Map, te_TaskSlot = int i, te_TaskFile = file,
      te_ScheduledTo = '''', te_ScheduleAt = 0, te_Status = New\<rparr>"

definition reduce_task :: "nat \<Rightarrow> TaskEntry" where
  "reduce_task i =
     \<lparr>te_TaskId = ''Reduce-'' @ itoa i, te_TaskType = Reduce, te_TaskSlot = int i,
      te_TaskFile = ''mr-out-'' @ itoa i, te_ScheduledTo = '''', te_ScheduleAt = 0, te_Status = New\<rparr>"

text \<open>The table that \<open>MakeCoordinator\<close> builds; the old files it removes are in \<open>MapReduce_Worker\<close>.\<close>

definition MakeCoordinator :: "string list \<Rightarrow> nat \<Rightarrow> Coordinator" where
  "MakeCoordinator files nReduce =
     \<lparr>inputFiles = files, mapperCount = length files, reducerCount = nReduce,
      taskTable = map (\<lambda>i. map_task i (files ! i)) [0..<length files] @ map reduce_task [0..<nReduce]\<rparr>"

section \<open>The table\<close>

text \<open>The identity of a task never changes: the table differs from the initial one only in the
  scheduling fields.\<close>

definition same_task :: "TaskEntry \<Rightarrow> TaskEntry \<Rightarrow> bool" where
  "same_task e e' \<longleftrightarrow>
     te_TaskId e = te_TaskId e' \<and> te_TaskType e = te_TaskType e' \<and> te_TaskSlot e = te_TaskSlot e' \<and>
     te_TaskFile e = te_TaskFile e'"

definition table_ok :: "string list \<Rightarrow> nat \<Rightarrow> Coordinator \<Rightarrow> bool" where
  "table_ok files nReduce c \<longleftrightarrow>
     mapperCount c = length files \<and> reducerCount c = nReduce \<and>
     list_all2 same_task (taskTable c) (taskTable (MakeCoordinator files nReduce))"

definition completed :: "Coordinator \<Rightarrow> nat \<Rightarrow> bool" where
  "completed c i \<longleftrightarrow> te_Status (taskTable c ! i) = Completed"

lemma table_MakeCoordinator:
  assumes "i < length files + nReduce"
  shows "taskTable (MakeCoordinator files nReduce) ! i =
    (if i < length files then map_task i (files ! i) else reduce_task (i - length files))"
  using assms by (auto simp: MakeCoordinator_def nth_append)

lemma table_ok_nth:
  assumes "table_ok files nReduce c"
  shows "length (taskTable c) = length files + nReduce"
    "i < length files \<Longrightarrow> te_TaskId (taskTable c ! i) = ''Map-'' @ itoa i \<and> te_TaskFile (taskTable c ! i) = files ! i"
    "i < nReduce \<Longrightarrow> te_TaskId (taskTable c ! (length files + i)) = ''Reduce-'' @ itoa i \<and>
       te_TaskFile (taskTable c ! (length files + i)) = ''mr-out-'' @ itoa i"
proof -
  have l: "length (taskTable (MakeCoordinator files nReduce)) = length files + nReduce"
    by (simp add: MakeCoordinator_def)
  show len: "length (taskTable c) = length files + nReduce"
    using assms l list_all2_lengthD by (fastforce simp: table_ok_def)
  have s: "same_task (taskTable c ! k) (taskTable (MakeCoordinator files nReduce) ! k)"
    if "k < length files + nReduce" for k
    using assms that len by (auto simp: table_ok_def list_all2_conv_all_nth)
  show "i < length files \<Longrightarrow> te_TaskId (taskTable c ! i) = ''Map-'' @ itoa i \<and> te_TaskFile (taskTable c ! i) = files ! i"
    using s [of i] by (simp add: same_task_def table_MakeCoordinator map_task_def)
  show "i < nReduce \<Longrightarrow> te_TaskId (taskTable c ! (length files + i)) = ''Reduce-'' @ itoa i \<and>
       te_TaskFile (taskTable c ! (length files + i)) = ''mr-out-'' @ itoa i"
    using s [of "length files + i"] by (simp add: same_task_def table_MakeCoordinator reduce_task_def)
qed

lemma table_ok_start: "table_ok files nReduce (MakeCoordinator files nReduce)"
  by (simp add: table_ok_def list_all2_conv_all_nth same_task_def) (simp add: MakeCoordinator_def)

lemma table_ok_update:
  assumes "table_ok files nReduce c" "same_task e (taskTable c ! i)"
  shows "table_ok files nReduce (c\<lparr>taskTable := (taskTable c)[i := e]\<rparr>)"
proof (cases "i < length (taskTable c)")
  case True
  let ?t = "taskTable (MakeCoordinator files nReduce)"
  have l: "list_all2 same_task (taskTable c) ?t" using assms(1) by (simp add: table_ok_def)
  then have "same_task (taskTable c ! i) (?t ! i)" using True by (rule list_all2_nthD)
  then have "same_task e (?t ! i)" using assms(2) by (simp add: same_task_def)
  then have "list_all2 same_task ((taskTable c)[i := e]) (?t[i := ?t ! i])" by (rule list_all2_update_cong [OF l])
  then show ?thesis using assms(1) by (simp add: table_ok_def)
next
  case False
  then have "(taskTable c)[i := e] = taskTable c" by (simp add: list_update_beyond)
  then show ?thesis using assms(1) by (simp add: table_ok_def)
qed

lemma table_ok_schedule:
  "table_ok files nReduce c \<Longrightarrow> table_ok files nReduce (schedule w at i c)"
  unfolding schedule_def by (rule table_ok_update) (simp_all add: same_task_def)

section \<open>What the handlers do\<close>

lemma Done_iff: "Done c \<longleftrightarrow> (\<forall>i < length (taskTable c). completed c i)"
proof -
  have "done_loop es \<longleftrightarrow> (\<forall>e \<in> set es. te_Status e = Completed)" for es by (induction es) auto
  then show ?thesis by (auto simp: Done_def completed_def all_set_conv_all_nth)
qed

lemma select_loop_spec:
  "\<forall>i \<in> set is. i < length table \<Longrightarrow>
   \<exists>r d. select_loop clock table is allDone = Some (r, d) \<and>
     (case r of
        None \<Rightarrow> d = (allDone \<and> (\<forall>i \<in> set is. te_Status (table ! i) = Completed)) \<and>
                (\<forall>i \<in> set is. te_Status (table ! i) \<noteq> New)
      | Some i \<Rightarrow> i \<in> set is \<and>
          (te_Status (table ! i) = New \<or>
           te_Status (table ! i) = Scheduled \<and> te_ScheduleAt (table ! i) + 10 < clock i))"
proof (induction "is" arbitrary: allDone)
  case (Cons i "is")
  show ?case
  proof (cases "te_Status (table ! i) = New \<or>
      te_Status (table ! i) = Scheduled \<and> te_ScheduleAt (table ! i) + 10 < clock i")
    case True
    then show ?thesis using Cons.prems by (auto simp: slice_get_def Let_def)
  next
    case False
    let ?d = "if te_Status (table ! i) \<noteq> Completed then False else allDone"
    obtain r d where run: "select_loop clock table is ?d = Some (r, d)"
      and IH: "case r of
        None \<Rightarrow> d = (?d \<and> (\<forall>i \<in> set is. te_Status (table ! i) = Completed)) \<and>
                (\<forall>i \<in> set is. te_Status (table ! i) \<noteq> New)
      | Some i \<Rightarrow> i \<in> set is \<and>
          (te_Status (table ! i) = New \<or>
           te_Status (table ! i) = Scheduled \<and> te_ScheduleAt (table ! i) + 10 < clock i)"
      using Cons.IH [of ?d] Cons.prems by auto
    have "select_loop clock table (i # is) allDone = Some (r, d)"
      using False run Cons.prems by (auto simp: slice_get_def Let_def)
    moreover have "te_Status (table ! i) \<noteq> New" using False by simp
    ultimately show ?thesis using IH by (cases r) auto
  qed
qed simp

text \<open>The four answers of \<open>GetNextTask\<close>.\<close>

definition due :: "Coordinator \<Rightarrow> (nat \<Rightarrow> int) \<Rightarrow> nat \<Rightarrow> bool" where
  "due c clock i \<longleftrightarrow> te_Status (taskTable c ! i) = New \<or>
     te_Status (taskTable c ! i) = Scheduled \<and> te_ScheduleAt (taskTable c ! i) + 10 < clock i"

lemma GetNextTask_cases:
  assumes "table_ok files nReduce c" "GetNextTask c args clock at = Some (c', reply)"
  shows "MapperCount reply = length files \<and> ReducerCount reply = nReduce \<and>
    ((\<exists>i < length files. due c clock i \<and> c' = schedule (WorkerId args) at i c \<and> TaskKind reply = Map \<and>
        TaskSlot reply = int i \<and> TaskId reply = ''Map-'' @ itoa i \<and> TaskFileName reply = files ! i) \<or>
     (\<exists>i < nReduce. due c clock (length files + i) \<and> (\<forall>m < length files. completed c m) \<and>
        c' = schedule (WorkerId args) at (length files + i) c \<and> TaskKind reply = Reduce \<and>
        TaskSlot reply = int i \<and> TaskId reply = ''Reduce-'' @ itoa i \<and>
        TaskFileName reply = ''mr-out-'' @ itoa i) \<or>
     c' = c \<and> (TaskKind reply = Wait \<and> \<not> Done c \<or> TaskKind reply = NoTask \<and> Done c))"
proof -
  let ?t = "taskTable c" and ?M = "length files"
  note T = table_ok_nth [OF assms(1)]
  have k: "mapperCount c = ?M" "reducerCount c = nReduce" using assms(1) by (auto simp: table_ok_def)
  have e: "te_TaskId (taskTable (schedule w at i c) ! i) = te_TaskId (?t ! i)"
    "te_TaskFile (taskTable (schedule w at i c) ! i) = te_TaskFile (?t ! i)" if "i < length ?t" for w i
    using that by (simp_all add: schedule_def)
  obtain r d where m: "select_loop clock ?t [0..<?M] True = Some (r, d)"
    "case r of None \<Rightarrow> d = (\<forall>i \<in> set [0..<?M]. te_Status (?t ! i) = Completed)
     | Some i \<Rightarrow> i \<in> set [0..<?M] \<and> due c clock i"
    using select_loop_spec [of "[0..<?M]" ?t clock True] T(1) by (auto simp: due_def split: option.splits)
  obtain r' d' where n: "select_loop clock ?t [?M..<?M + nReduce] True = Some (r', d')"
    "case r' of None \<Rightarrow> d' = (\<forall>i \<in> set [?M..<?M + nReduce]. te_Status (?t ! i) = Completed)
     | Some i \<Rightarrow> i \<in> set [?M..<?M + nReduce] \<and> due c clock i"
    using select_loop_spec [of "[?M..<?M + nReduce]" ?t clock True] T(1) by (auto simp: due_def split: option.splits)
  have cnt: "MapperCount reply = ?M \<and> ReducerCount reply = nReduce"
    using assms(2) by (auto simp: GetNextTask_def Let_def k m(1) n(1) split: option.splits if_splits)
  show ?thesis
  proof (cases r)
    case (Some i)
    then have i: "i < ?M" "due c clock i" using m(2) by auto
    then have "c' = schedule (WorkerId args) at i c \<and> TaskKind reply = Map \<and> TaskSlot reply = int i \<and>
        TaskId reply = ''Map-'' @ itoa i \<and> TaskFileName reply = files ! i"
      using assms(2) e [of i] T(1,2) Some by (auto simp: GetNextTask_def Let_def k m(1))
    then show ?thesis using cnt i by blast
  next
    case None
    note rn = None
    show ?thesis
    proof (cases d)
      case False
      then obtain i where "i < ?M" "\<not> completed c i" using m(2) None by (auto simp: completed_def)
      then have "\<not> Done c" unfolding Done_iff T(1) using trans_less_add1 by blast
      moreover have "c' = c \<and> TaskKind reply = Wait"
        using assms(2) None False by (auto simp: GetNextTask_def Let_def k m(1))
      ultimately show ?thesis using cnt by blast
    next
      case True
      then have all: "\<forall>i < ?M. completed c i" using m(2) None by (auto simp: completed_def)
      show ?thesis
      proof (cases r')
        case (Some j)
        then have j: "?M \<le> j" "j < ?M + nReduce" "due c clock j" using n(2) by auto
        then obtain i where i: "j = ?M + i" "i < nReduce" using le_Suc_ex by fastforce
        have "c' = schedule (WorkerId args) at (?M + i) c \<and> TaskKind reply = Reduce \<and> TaskSlot reply = int i \<and>
            TaskId reply = ''Reduce-'' @ itoa i \<and> TaskFileName reply = ''mr-out-'' @ itoa i"
          using assms(2) e [of j] T(1) T(3) [OF i(2)] Some rn True i j
          by (auto simp: GetNextTask_def Let_def k m(1) n(1))
        then show ?thesis using cnt i j all by blast
      next
        case None
        have "d' \<longleftrightarrow> Done c"
          unfolding Done_iff T(1) using n(2) None all
          by (auto simp: completed_def)
        moreover have "c' = c \<and> TaskKind reply = (if d' then NoTask else Wait)"
          using assms(2) rn True None by (auto simp: GetNextTask_def Let_def k m(1) n(1))
        ultimately show ?thesis using cnt by (metis (full_types))
      qed
    qed
  qed
qed

lemma GetNextTask_returns:
  assumes "table_ok files nReduce c"
  shows "GetNextTask c args clock at \<noteq> None"
proof -
  have "select_loop clock (taskTable c) is True \<noteq> None" if "\<forall>i \<in> set is. i < length (taskTable c)" for "is"
    using select_loop_spec [OF that, of clock True] by auto
  from this [of "[0..<length files]"] this [of "[length files..<length files + nReduce]"]
  show ?thesis using assms table_ok_nth(1) [OF assms]
    by (auto simp: GetNextTask_def Let_def table_ok_def split: option.splits)
qed

lemma ack_loop_spec:
  "i < length es \<Longrightarrow> te_TaskId (es ! i) = t \<Longrightarrow> \<forall>j < i. te_TaskId (es ! j) \<noteq> t \<Longrightarrow>
   ack_loop t es = (es[i := (es ! i)\<lparr>te_Status := Completed\<rparr>], ''ok'')"
proof (induction es arbitrary: i)
  case (Cons e es)
  show ?case
  proof (cases i)
    case 0
    then show ?thesis using Cons.prems by simp
  next
    case (Suc k)
    have "te_TaskId e \<noteq> t" using Cons.prems(3) Suc by fastforce
    moreover have "ack_loop t es = (es[k := (es ! k)\<lparr>te_Status := Completed\<rparr>], ''ok'')"
      using Cons.prems Suc by (intro Cons.IH) auto
    ultimately show ?thesis using Suc by simp
  qed
qed simp

lemma ack_loop_other: "\<forall>e \<in> set es. te_TaskId e \<noteq> t \<Longrightarrow> ack_loop t es = (es, ''not-found'')"
  by (induction es) auto

lemma task_ids_distinct:
  assumes "table_ok files nReduce c" "i < length (taskTable c)" "j < length (taskTable c)"
    and "te_TaskId (taskTable c ! i) = te_TaskId (taskTable c ! j)"
  shows "i = j"
proof -
  have "te_TaskId (taskTable c ! k) = (if k < length files then ''Map-'' @ itoa k else ''Reduce-'' @ itoa (k - length files))"
    if "k < length (taskTable c)" for k
  proof (cases "k < length files")
    case False
    then obtain d where "k = length files + d" using le_Suc_ex not_less by blast
    then show ?thesis using that table_ok_nth(1,3) [OF assms(1)] by auto
  qed (use table_ok_nth(2) [OF assms(1)] in auto)
  with assms show ?thesis by (auto split: if_splits)
qed

lemma Ack_eq:
  assumes "table_ok files nReduce c" "i < length (taskTable c)" "te_TaskId (taskTable c ! i) = t"
  shows "AckTaskCompletion c \<lparr>ack_TaskId = t\<rparr> =
    (c\<lparr>taskTable := (taskTable c)[i := (taskTable c ! i)\<lparr>te_Status := Completed\<rparr>]\<rparr>, \<lparr>ack_Status = ''ok''\<rparr>)"
proof -
  have "\<forall>j < i. te_TaskId (taskTable c ! j) \<noteq> t"
    using task_ids_distinct [OF assms(1) _ assms(2)] assms(2,3) by (metis less_irrefl less_trans)
  from ack_loop_spec [OF assms(2,3) this] show ?thesis by (simp add: AckTaskCompletion_def)
qed

end
