(* ===== verification/MapReduce_Worker.thy ===== *)
theory MapReduce_Worker
  imports MapReduce
begin

text \<open>
  The MapReduce worker and the sequential program it is compared with (\<open>mr/worker.go\<close>,
  \<open>mr/common.go\<close>, \<open>main/mrsequential.go\<close>).  The directory is a map from names to contents.  A file
  written through the JSON encoder is represented by the value it encodes, a file written line by
  line by its lines, an input file by its text.  A temporary file that is renamed over its target
  is one write of the target.  \<open>log.Fatalf\<close> and a division by zero are \<open>None\<close>.

  Reading back a file that was written through the JSON encoder gives the pairs that were written.  That
  is so for keys and values that are valid UTF-8: the encoder replaces other bytes by the replacement
  character, and such keys and values are outside the model.
\<close>

section \<open>Files\<close>

record KeyValue =
  kv_Key :: string
  kv_Value :: string

datatype file_content = Text string | Json "KeyValue list" | Lines "string list"

type_synonym files = "string \<rightharpoonup> file_content"

type_synonym map_fun = "string \<Rightarrow> string \<Rightarrow> KeyValue list"
type_synonym reduce_fun = "string \<Rightarrow> string list \<Rightarrow> string"

definition read_text :: "files \<Rightarrow> string \<Rightarrow> string option" where
  "read_text fs name = (case fs name of Some (Text t) \<Rightarrow> Some t | _ \<Rightarrow> None)"

fun apply_writes :: "(string \<times> file_content) list \<Rightarrow> files \<Rightarrow> files" where
  "apply_writes [] fs = fs"
| "apply_writes ((name, content) # ws) fs = apply_writes ws (fs(name \<mapsto> content))"

text \<open>\<open>RemoveFiles\<close> with a pattern \<open>prefix*\<close>.\<close>

definition has_prefix :: "string \<Rightarrow> string \<Rightarrow> bool" where
  "has_prefix p s \<longleftrightarrow> take (length p) s = p"

definition RemoveFiles :: "string \<Rightarrow> files \<Rightarrow> files" where
  "RemoveFiles p fs = (\<lambda>name. if has_prefix p name then None else fs name)"

definition start_files :: "files \<Rightarrow> files" where
  "start_files fs = RemoveFiles ''mr-out-'' (RemoveFiles ''mr-int-'' fs)"

definition ihash :: "string \<Rightarrow> nat" where
  "ihash key = unat (fnv32a key AND 0x7fffffff)"

definition int_file :: "nat \<Rightarrow> nat \<Rightarrow> string" where
  "int_file i m = ''mr-int-'' @ itoa i @ ''-'' @ itoa m @ ''.json''"

section \<open>The map side\<close>

fun bucket_loop :: "nat \<Rightarrow> KeyValue list \<Rightarrow> KeyValue list list \<Rightarrow> KeyValue list list option" where
  "bucket_loop n [] bs = Some bs"
| "bucket_loop n (kv # kvs) bs =
     (if n = 0 then None
      else do {
        let slot = ihash (kv_Key kv) mod n;
        b \<leftarrow> slice_get bs slot;
        bs \<leftarrow> slice_put bs slot (b @ [kv]);
        bucket_loop n kvs bs })"

definition mapper_writes ::
  "map_fun \<Rightarrow> string \<Rightarrow> nat \<Rightarrow> nat \<Rightarrow> files \<Rightarrow> (string \<times> file_content) list option" where
  "mapper_writes mapf inputFile mapSlot n fs = do {
     content \<leftarrow> read_text fs inputFile;
     bs \<leftarrow> bucket_loop n (mapf inputFile content) (replicate n []);
     Some (map (\<lambda>i. (int_file i mapSlot, Json (bs ! i))) [0..<n]) }"

definition Mapper :: "map_fun \<Rightarrow> string \<Rightarrow> nat \<Rightarrow> nat \<Rightarrow> files \<Rightarrow> files option" where
  "Mapper mapf inputFile mapSlot n fs = do {
     ws \<leftarrow> mapper_writes mapf inputFile mapSlot n fs;
     Some (apply_writes ws fs) }"

section \<open>The reduce side\<close>

text \<open>The error of \<open>json.Unmarshal\<close> is ignored: a file that is not JSON contributes nothing.\<close>

fun gather_loop :: "nat \<Rightarrow> nat list \<Rightarrow> files \<Rightarrow> (string \<times> string list) list \<Rightarrow> (string \<times> string list) list option" where
  "gather_loop slot [] fs acc = Some acc"
| "gather_loop slot (m # ms) fs acc = do {
     content \<leftarrow> fs (int_file slot m);
     let kvs = (case content of Json kvs \<Rightarrow> kvs | _ \<Rightarrow> []);
     gather_loop slot ms fs (foldl (\<lambda>acc kv. assoc_append (kv_Key kv) (kv_Value kv) acc) acc kvs) }"

definition output_line :: "string \<Rightarrow> string \<Rightarrow> string" where
  "output_line key value = key @ '' '' @ value @ [CHR 0x0A]"

text \<open>\<open>visit\<close> is the order in which Go ranges over the keys of \<open>reducerMap\<close>.\<close>

definition reducer_writes ::
  "reduce_fun \<Rightarrow> (string list \<Rightarrow> string list) \<Rightarrow> string \<Rightarrow> nat \<Rightarrow> nat \<Rightarrow> files \<Rightarrow>
   (string \<times> file_content) list option" where
  "reducer_writes reducef visit outputFile slot nm fs = do {
     reducerMap \<leftarrow> gather_loop slot [0..<nm] fs [];
     Some [(outputFile, Lines (map (\<lambda>key. output_line key (reducef key (the (map_of reducerMap key))))
                                 (visit (map fst reducerMap))))] }"

definition Reducer ::
  "reduce_fun \<Rightarrow> (string list \<Rightarrow> string list) \<Rightarrow> string \<Rightarrow> nat \<Rightarrow> nat \<Rightarrow> files \<Rightarrow> files option" where
  "Reducer reducef visit outputFile slot nm fs = do {
     ws \<leftarrow> reducer_writes reducef visit outputFile slot nm fs;
     Some (apply_writes ws fs) }"

section \<open>The sequential program\<close>

fun read_loop :: "map_fun \<Rightarrow> string list \<Rightarrow> files \<Rightarrow> KeyValue list \<Rightarrow> KeyValue list option" where
  "read_loop mapf [] fs acc = Some acc"
| "read_loop mapf (f # names) fs acc = do {
     content \<leftarrow> read_text fs f;
     read_loop mapf names fs (acc @ mapf f content) }"

text \<open>What \<open>sort.Sort(ByKey(...))\<close> promises; the order of equal keys is not specified.\<close>

definition sorts_by_key :: "(KeyValue list \<Rightarrow> KeyValue list) \<Rightarrow> bool" where
  "sorts_by_key srt \<longleftrightarrow> (\<forall>xs. mset (srt xs) = mset xs \<and> sorted (map kv_Key (srt xs)))"

function group_loop :: "reduce_fun \<Rightarrow> KeyValue list \<Rightarrow> string list" where
  "group_loop reducef [] = []"
| "group_loop reducef (kv # kvs) =
     (let same = takeWhile (\<lambda>x. kv_Key x = kv_Key kv) kvs;
          rest = dropWhile (\<lambda>x. kv_Key x = kv_Key kv) kvs;
          values = map kv_Value (kv # same)
      in output_line (kv_Key kv) (reducef (kv_Key kv) values) # group_loop reducef rest)"
  by pat_completeness auto

termination
  by (relation "measure (\<lambda>(_, kvs). length kvs)") (auto simp: less_Suc_eq_le length_dropWhile_le)

definition mrsequential ::
  "(KeyValue list \<Rightarrow> KeyValue list) \<Rightarrow> map_fun \<Rightarrow> reduce_fun \<Rightarrow> string list \<Rightarrow> files \<Rightarrow> files option" where
  "mrsequential srt mapf reducef names fs = do {
     intermediate \<leftarrow> read_loop mapf names fs [];
     Some (fs(''mr-out-0'' \<mapsto> Lines (group_loop reducef (srt intermediate)))) }"

section \<open>Applications\<close>

text \<open>\<open>unicode.IsLetter\<close> on a single-byte character; contents are taken to be ASCII.\<close>

definition IsLetter :: "char \<Rightarrow> bool" where
  "IsLetter c = (let n = of_char c :: nat in 65 \<le> n \<and> n \<le> 90 \<or> 97 \<le> n \<and> n \<le> 122)"

text \<open>\<open>strings.FieldsFunc\<close>: the maximal runs of characters that are not separators.\<close>

fun fields_loop :: "(char \<Rightarrow> bool) \<Rightarrow> string \<Rightarrow> string \<Rightarrow> string list" where
  "fields_loop sep cur [] = (if cur = [] then [] else [cur])"
| "fields_loop sep cur (c # cs) =
     (if sep c then (if cur = [] then fields_loop sep [] cs else cur # fields_loop sep [] cs)
      else fields_loop sep (cur @ [c]) cs)"

definition FieldsFunc :: "string \<Rightarrow> (char \<Rightarrow> bool) \<Rightarrow> string list" where
  "FieldsFunc s sep = fields_loop sep [] s"

definition wc_Map :: map_fun where
  "wc_Map filename contents =
     map (\<lambda>w. \<lparr>kv_Key = w, kv_Value = ''1''\<rparr>) (FieldsFunc contents (\<lambda>r. \<not> IsLetter r))"

definition wc_Reduce :: reduce_fun where
  "wc_Reduce key values = itoa (length values)"

text \<open>The indexer ranges over a map of words; \<open>visit\<close> is that order.\<close>

definition indexer_Map :: "(string list \<Rightarrow> string list) \<Rightarrow> map_fun" where
  "indexer_Map visit document value =
     (let m = remdups (FieldsFunc value (\<lambda>x. \<not> IsLetter x))
      in map (\<lambda>w. \<lparr>kv_Key = w, kv_Value = document\<rparr>) (visit m))"

fun join_strings :: "string \<Rightarrow> string list \<Rightarrow> string" where
  "join_strings sep [] = []"
| "join_strings sep [s] = s"
| "join_strings sep (s # t # ss) = s @ sep @ join_strings sep (t # ss)"

definition indexer_Reduce :: reduce_fun where
  "indexer_Reduce key values =
     (let values = sort values in itoa (length values) @ '' '' @ join_strings '','' values)"

definition nocrash_Map :: map_fun where
  "nocrash_Map filename contents =
     (let kva = [];
          kva = kva @ [\<lparr>kv_Key = ''a'', kv_Value = filename\<rparr>];
          kva = kva @ [\<lparr>kv_Key = ''b'', kv_Value = itoa (length filename)\<rparr>];
          kva = kva @ [\<lparr>kv_Key = ''c'', kv_Value = itoa (length contents)\<rparr>];
          kva = kva @ [\<lparr>kv_Key = ''d'', kv_Value = ''xyzzy''\<rparr>]
      in kva)"

definition nocrash_Reduce :: reduce_fun where
  "nocrash_Reduce key values = (let vv = sort values in join_strings '' '' vv)"

definition early_exit_Map :: map_fun where
  "early_exit_Map filename contents = [\<lparr>kv_Key = filename, kv_Value = ''1''\<rparr>]"

definition early_exit_Reduce :: reduce_fun where
  "early_exit_Reduce key values = itoa (length values)"

text \<open>The contract a reduce function must meet for the result not to depend on the order in which
  values arrive.\<close>

locale mr_reduce =
  fixes reducef :: reduce_fun
  assumes reduce_order: "mset vs = mset ws \<Longrightarrow> reducef k vs = reducef k ws"

interpretation wc: mr_reduce wc_Reduce
  by unfold_locales (auto simp: wc_Reduce_def dest: mset_eq_length)

interpretation early_exit: mr_reduce early_exit_Reduce
  by unfold_locales (auto simp: early_exit_Reduce_def dest: mset_eq_length)

lemma sort_mset: "mset vs = mset ws \<Longrightarrow> sort vs = sort ws"
  by (metis mset_sort properties_for_sort sorted_sort)

interpretation indexer: mr_reduce indexer_Reduce
proof unfold_locales
  fix vs ws :: "string list" and k assume "mset vs = mset ws"
  then have "sort vs = sort ws" by (rule sort_mset)
  then show "indexer_Reduce k vs = indexer_Reduce k ws" by (simp only: indexer_Reduce_def)
qed

interpretation nocrash: mr_reduce nocrash_Reduce
proof unfold_locales
  fix vs ws :: "string list" and k assume "mset vs = mset ws"
  then have "sort vs = sort ws" by (rule sort_mset)
  then show "nocrash_Reduce k vs = nocrash_Reduce k ws" by (simp only: nocrash_Reduce_def)
qed

end
