(* ===== verification/MapReduce_System.thy ===== *)
theory MapReduce_System
  imports MapReduce_Worker
begin

text \<open>
  The whole MapReduce system: one coordinator, a directory, and any number of workers that fetch
  tasks, write their files one rename at a time, acknowledge, and may die at any moment
  (\<open>Worker\<close> in \<open>mr/worker.go\<close> against the handlers of \<open>mr/coordinator.go\<close>).  Tasks may run many times
  and concurrently.  The invariant says that every file that exists has the right content and that
  a completed task has left all its files.
\<close>

section \<open>Steps\<close>

datatype worker = Idle | Busy string "(string \<times> file_content) list" | Dead

record mr_system =
  coord :: Coordinator
  dir :: files
  workers :: "nat \<Rightarrow> worker"

text \<open>The clock readings and the orders in which Go visits maps are part of a label; \<open>shuffle\<close> is
  the order of the pairs that one execution of the map function returns.\<close>

datatype mr_label =
  Fetch nat "nat \<Rightarrow> int" int "KeyValue list \<Rightarrow> KeyValue list" "string list \<Rightarrow> string list"
| WriteNext nat
| Ack nat bool
| Crash nat

text \<open>The \<open>switch\<close> of \<open>Worker\<close> on the reply: a map or reduce task computes its writes, any other
  reply leads back to the loop head.\<close>

definition react ::
  "map_fun \<Rightarrow> reduce_fun \<Rightarrow> (string list \<Rightarrow> string list) \<Rightarrow> GetNextTaskReply \<Rightarrow> files \<Rightarrow> worker" where
  "react mapf reducef visit reply fs =
     (case TaskKind reply of
        Map \<Rightarrow>
          (case mapper_writes mapf (TaskFileName reply) (nat (TaskSlot reply)) (ReducerCount reply) fs of
             None \<Rightarrow> Dead | Some ws \<Rightarrow> Busy (TaskId reply) ws)
      | Reduce \<Rightarrow>
          (case reducer_writes reducef visit (TaskFileName reply) (nat (TaskSlot reply)) (MapperCount reply) fs of
             None \<Rightarrow> Dead | Some ws \<Rightarrow> Busy (TaskId reply) ws)
      | Wait \<Rightarrow> Idle
      | NoTask \<Rightarrow> Idle)"

fun mr_step :: "map_fun \<Rightarrow> reduce_fun \<Rightarrow> mr_label \<Rightarrow> mr_system \<Rightarrow> mr_system option" where
  "mr_step mapf reducef (Fetch w clock at shuffle visit) s =
     (case workers s w of
        Idle \<Rightarrow> do {
          (c, reply) \<leftarrow> GetNextTask (coord s) \<lparr>WorkerId = itoa w\<rparr> clock at;
          Some (s\<lparr>coord := c, workers := (workers s)(w :=
            react (\<lambda>f t. shuffle (mapf f t)) reducef visit reply (dir s))\<rparr>) }
      | _ \<Rightarrow> None)"
| "mr_step mapf reducef (WriteNext w) s =
     (case workers s w of
        Busy t ((name, content) # ws) \<Rightarrow>
          Some (s\<lparr>dir := (dir s)(name \<mapsto> content), workers := (workers s)(w := Busy t ws)\<rparr>)
      | _ \<Rightarrow> None)"
| "mr_step mapf reducef (Ack w received) s =
     (case workers s w of
        Busy t [] \<Rightarrow>
          Some (s\<lparr>coord := (if received then fst (AckTaskCompletion (coord s) \<lparr>ack_TaskId = t\<rparr>) else coord s),
                  workers := (workers s)(w := Idle)\<rparr>)
      | _ \<Rightarrow> None)"
| "mr_step mapf reducef (Crash w) s = Some (s\<lparr>workers := (workers s)(w := Dead)\<rparr>)"

fun mr_run :: "map_fun \<Rightarrow> reduce_fun \<Rightarrow> mr_label list \<Rightarrow> mr_system \<Rightarrow> mr_system option" where
  "mr_run mapf reducef [] s = Some s"
| "mr_run mapf reducef (l # ls) s = do { s' \<leftarrow> mr_step mapf reducef l s; mr_run mapf reducef ls s' }"

definition mr_start :: "string list \<Rightarrow> nat \<Rightarrow> files \<Rightarrow> mr_system" where
  "mr_start names nReduce fs =
     \<lparr>coord = MakeCoordinator names nReduce, dir = start_files fs, workers = (\<lambda>_. Idle)\<rparr>"

fun fair_label :: "mr_label \<Rightarrow> bool" where
  "fair_label (Fetch w clock at shuffle visit) \<longleftrightarrow> visits shuffle \<and> visits visit"
| "fair_label _ \<longleftrightarrow> True"

section \<open>File names\<close>

definition out_file :: "nat \<Rightarrow> string" where
  "out_file r = ''mr-out-'' @ itoa r"

lemma takeWhile_itoa: "takeWhile (\<lambda>c. c \<noteq> CHR ''-'') (itoa n @ CHR ''-'' # xs) = itoa n"
  "takeWhile (\<lambda>c. c \<noteq> CHR ''.'') (itoa n @ CHR ''.'' # xs) = itoa n"
  using itoa_digits [of _ n] by (auto simp: takeWhile_append2)

lemma int_file_inj [simp]: "int_file i m = int_file j n \<longleftrightarrow> i = j \<and> m = n"
proof
  assume "int_file i m = int_file j n"
  then have e: "itoa i @ CHR ''-'' # itoa m @ ''.json'' = itoa j @ CHR ''-'' # itoa n @ ''.json''"
    by (simp add: int_file_def)
  then have "itoa i = itoa j" using takeWhile_itoa(1) by metis
  then have "itoa m @ CHR ''.'' # ''json'' = itoa n @ CHR ''.'' # ''json''" using e by simp
  then have "itoa m = itoa n" using takeWhile_itoa(2) by metis
  with \<open>itoa i = itoa j\<close> show "i = j \<and> m = n" by simp
qed simp

lemma file_prefixes:
  "has_prefix ''mr-int-'' (int_file i m)" "has_prefix ''mr-out-'' (out_file r)"
  "int_file i m \<noteq> out_file r" "out_file r = out_file q \<longleftrightarrow> r = q"
  by (simp_all add: has_prefix_def int_file_def out_file_def)

section \<open>The result of a job\<close>

definition values_of :: "string \<Rightarrow> KeyValue list \<Rightarrow> string list" where
  "values_of k kvs = map kv_Value (filter (\<lambda>x. kv_Key x = k) kvs)"

definition result_lines :: "reduce_fun \<Rightarrow> KeyValue list \<Rightarrow> string multiset" where
  "result_lines reducef kvs =
     image_mset (\<lambda>k. output_line k (reducef k (values_of k kvs))) (mset_set (kv_Key ` set kvs))"

definition slot_kvs :: "nat \<Rightarrow> nat \<Rightarrow> KeyValue list \<Rightarrow> KeyValue list" where
  "slot_kvs n i kvs = filter (\<lambda>kv. ihash (kv_Key kv) mod n = i) kvs"

definition job_kvs :: "map_fun \<Rightarrow> (string \<Rightarrow> string) \<Rightarrow> string list \<Rightarrow> KeyValue list" where
  "job_kvs mapf txt names = concat (map (\<lambda>f. mapf f (txt f)) names)"

lemma bucket_loop_eq:
  "length bs = n \<Longrightarrow> 0 < n \<Longrightarrow>
   bucket_loop n kvs bs = Some (map (\<lambda>i. bs ! i @ slot_kvs n i kvs) [0..<n])"
proof (induction kvs arbitrary: bs)
  case Nil
  then show ?case by (auto simp: slot_kvs_def map_nth)
next
  case (Cons kv kvs)
  let ?s = "ihash (kv_Key kv) mod n"
  let ?bs = "bs[?s := bs ! ?s @ [kv]]"
  have "bucket_loop n (kv # kvs) bs = bucket_loop n kvs ?bs"
    using Cons.prems by (simp add: slice_get_def slice_put_def Let_def)
  also have "\<dots> = Some (map (\<lambda>i. ?bs ! i @ slot_kvs n i kvs) [0..<n])" using Cons by simp
  also have "\<dots> = Some (map (\<lambda>i. bs ! i @ slot_kvs n i (kv # kvs)) [0..<n])"
    using Cons.prems by (auto simp: slot_kvs_def nth_list_update)
  finally show ?case .
qed

lemma values_of_mset: "mset kvs = mset kvs' \<Longrightarrow> mset (values_of k kvs) = mset (values_of k kvs')"
  by (metis mset_filter mset_map values_of_def)

context mr_reduce
begin

lemma result_lines_mset: "mset kvs = mset kvs' \<Longrightarrow> result_lines reducef kvs = result_lines reducef kvs'"
proof -
  assume m: "mset kvs = mset kvs'"
  then have "set kvs = set kvs'" by (metis set_mset_mset)
  moreover have "reducef k (values_of k kvs) = reducef k (values_of k kvs')" for k
    by (rule reduce_order [OF values_of_mset [OF m]])
  ultimately show ?thesis by (simp add: result_lines_def)
qed

end

lemma image_mset_cong_set: "finite A \<Longrightarrow> (\<And>x. x \<in> A \<Longrightarrow> f x = g x) \<Longrightarrow> image_mset f (mset_set A) = image_mset g (mset_set A)"
  by (rule image_mset_cong) simp

text \<open>The sequential program computes \<open>result_lines\<close>.\<close>

lemma group_loop_lines:
  "sorted (map kv_Key kvs) \<Longrightarrow> mset (group_loop reducef kvs) = result_lines reducef kvs"
proof (induction reducef kvs rule: group_loop.induct)
  case (2 reducef kv kvs)
  let ?P = "\<lambda>x. kv_Key x = kv_Key kv"
  obtain S R where SR: "takeWhile ?P kvs = S" "dropWhile ?P kvs = R" by blast
  have kvs: "kvs = S @ R" using SR takeWhile_dropWhile_id [of ?P kvs] by simp
  have S: "\<forall>x \<in> set S. kv_Key x = kv_Key kv" using SR(1) set_takeWhileD by metis
  have "map kv_Key (kv # kvs) = kv_Key kv # map kv_Key S @ map kv_Key R" by (simp only: kvs list.map map_append)
  with "2.prems" have "sorted (kv_Key kv # map kv_Key S @ map kv_Key R)" by (simp only:)
  then have R: "sorted (map kv_Key R)" "\<forall>x \<in> set R. kv_Key kv \<le> kv_Key x"
    by (simp_all add: sorted_append)
  have gt: "kv_Key x \<noteq> kv_Key kv" if x: "x \<in> set R" for x
  proof (cases R)
    case (Cons y ys)
    then have "kv_Key y \<noteq> kv_Key kv" using SR(2) hd_dropWhile [of ?P kvs] by auto
    moreover have "kv_Key y \<le> kv_Key x" "kv_Key kv \<le> kv_Key y" using R x Cons by auto
    ultimately show ?thesis by (metis order_antisym)
  qed (use x in simp)
  have keys: "kv_Key ` set (kv # kvs) = insert (kv_Key kv) (kv_Key ` set R)" "kv_Key kv \<notin> kv_Key ` set R"
    using S gt by (auto simp: kvs) metis
  have "filter ?P S = S" "filter ?P R = []" using S gt by (auto simp: filter_id_conv filter_empty_conv)
  then have v1: "values_of (kv_Key kv) (kv # kvs) = map kv_Value (kv # S)" by (simp add: values_of_def kvs)
  have v2: "values_of k (kv # kvs) = values_of k R" if "k \<in> kv_Key ` set R" for k
  proof -
    have "k \<noteq> kv_Key kv" using keys(2) that by metis
    then have "filter (\<lambda>x. kv_Key x = k) S = []" using S by (auto simp: filter_empty_conv)
    then show ?thesis using \<open>k \<noteq> kv_Key kv\<close> by (simp add: values_of_def kvs)
  qed
  have "mset (group_loop reducef R) = result_lines reducef R"
    using "2.IH" [OF refl refl refl] R(1) by (simp add: SR)
  also have "\<dots> = image_mset (\<lambda>k. output_line k (reducef k (values_of k (kv # kvs)))) (mset_set (kv_Key ` set R))"
    unfolding result_lines_def by (rule image_mset_cong_set) (simp_all add: v2)
  finally show ?case
    unfolding result_lines_def keys(1) using keys(2) by (simp add: v1 SR del: list.map)
qed (simp add: result_lines_def)

lemma read_loop_eq:
  "\<forall>f \<in> set names. fs f = Some (Text (txt f)) \<Longrightarrow>
   read_loop mapf names fs acc = Some (acc @ job_kvs mapf txt names)"
  by (induction names arbitrary: acc) (auto simp: job_kvs_def read_text_def)

text \<open>The slots of the reducers split the result.\<close>

lemma keys_slot: "kv_Key ` set (slot_kvs n i kvs) = {k \<in> kv_Key ` set kvs. ihash k mod n = i}"
  by (auto simp: slot_kvs_def)

lemma values_slot: "ihash k mod n = i \<Longrightarrow> values_of k (slot_kvs n i kvs) = values_of k kvs"
  by (auto simp: values_of_def slot_kvs_def intro!: arg_cong [of _ _ "map kv_Value"] filter_cong)

lemma result_lines_slots:
  assumes "0 < n"
  shows "(\<Sum>i < n. result_lines reducef (slot_kvs n i kvs)) = result_lines reducef kvs"
proof -
  let ?K = "kv_Key ` set kvs" and ?f = "\<lambda>k. output_line k (reducef k (values_of k kvs))"
  have "(\<Sum>i < m. result_lines reducef (slot_kvs n i kvs)) = image_mset ?f (mset_set {k \<in> ?K. ihash k mod n < m})" for m
  proof (induction m)
    case (Suc m)
    have "result_lines reducef (slot_kvs n m kvs) = image_mset ?f (mset_set {k \<in> ?K. ihash k mod n = m})"
      unfolding result_lines_def keys_slot by (rule image_mset_cong_set) (auto simp: values_slot)
    moreover have "{k \<in> ?K. ihash k mod n < Suc m} = {k \<in> ?K. ihash k mod n < m} \<union> {k \<in> ?K. ihash k mod n = m}"
      by auto
    ultimately show ?case using Suc by (simp add: mset_set_Union disjoint_iff)
  qed simp
  moreover have "{k \<in> ?K. ihash k mod n < n} = ?K" using assms by auto
  ultimately show ?thesis by (simp add: result_lines_def)
qed

text \<open>What a reducer gathers.\<close>

definition collect :: "KeyValue list \<Rightarrow> (string \<times> string list) list" where
  "collect kvs = foldl (\<lambda>acc kv. assoc_append (kv_Key kv) (kv_Value kv) acc) [] kvs"

lemma collect_spec:
  "distinct (map fst (collect kvs)) \<and> fst ` set (collect kvs) = kv_Key ` set kvs \<and>
   (\<forall>k \<in> kv_Key ` set kvs. map_of (collect kvs) k = Some (values_of k kvs))"
proof (induction kvs rule: rev_induct)
  case (snoc kv kvs)
  have c: "collect (kvs @ [kv]) = assoc_append (kv_Key kv) (kv_Value kv) (collect kvs)" by (simp add: collect_def)
  have n: "map_of (collect kvs) k = None" "values_of k kvs = []" if "k \<notin> kv_Key ` set kvs" for k
    using that snoc by (auto simp: map_of_eq_None_iff values_of_def filter_empty_conv)
  have "map fst (collect (kvs @ [kv])) =
      (if kv_Key kv \<in> kv_Key ` set kvs then map fst (collect kvs) else map fst (collect kvs) @ [kv_Key kv])"
    using snoc unfolding c keys_assoc_append by simp
  then have "distinct (map fst (collect (kvs @ [kv])))" "set (map fst (collect (kvs @ [kv]))) = kv_Key ` set (kvs @ [kv])"
    using snoc by (auto simp: image_iff)
  moreover have "map_of (collect (kvs @ [kv])) k = Some (values_of k (kvs @ [kv]))" if "k \<in> kv_Key ` set (kvs @ [kv])" for k
    using that snoc n [of k] unfolding c map_of_assoc_append
    by (cases "k \<in> kv_Key ` set kvs") (auto simp: values_of_def split: option.splits)
  ultimately show ?case by simp
qed (simp add: collect_def)

lemma gather_loop_eq:
  "\<forall>m \<in> set ms. fs (int_file slot m) = Some (Json (K m)) \<Longrightarrow>
   gather_loop slot ms fs (collect kvs) = Some (collect (kvs @ concat (map K ms)))"
proof (induction ms arbitrary: kvs)
  case (Cons m ms)
  then show ?case using Cons.IH [of "kvs @ K m"] by (simp add: collect_def Let_def)
qed simp

lemma reducer_lines:
  assumes "\<forall>m < nm. fs (int_file slot m) = Some (Json (K m))" "visits visit"
  shows "\<exists>ls. reducer_writes reducef visit out slot nm fs = Some [(out, Lines ls)] \<and>
    mset ls = result_lines reducef (concat (map K [0..<nm]))"
proof -
  let ?kvs = "concat (map K [0..<nm])"
  have g: "gather_loop slot [0..<nm] fs [] = Some (collect ?kvs)"
    using gather_loop_eq [of "[0..<nm]" fs slot K "[]"] assms(1) by (simp add: collect_def)
  let ?f = "\<lambda>k. output_line k (reducef k (the (map_of (collect ?kvs) k)))"
  have "mset (map ?f (visit (map fst (collect ?kvs)))) = image_mset ?f (mset (map fst (collect ?kvs)))"
    using assms(2) by (simp add: visits_def)
  also have "mset (map fst (collect ?kvs)) = mset_set (kv_Key ` set ?kvs)"
    using collect_spec [of ?kvs] by (metis list.set_map mset_set_set)
  also have "image_mset ?f (mset_set (kv_Key ` set ?kvs)) = result_lines reducef ?kvs"
    unfolding result_lines_def by (rule image_mset_cong_set) (use collect_spec [of ?kvs] in simp, metis collect_spec option.sel)
  finally show ?thesis by (simp add: reducer_writes_def g)
qed

section \<open>The invariant\<close>

definition bucket :: "map_fun \<Rightarrow> (string \<Rightarrow> string) \<Rightarrow> string list \<Rightarrow> nat \<Rightarrow> nat \<Rightarrow> nat \<Rightarrow> KeyValue list" where
  "bucket mapf txt names n i m = slot_kvs n i (mapf (names ! m) (txt (names ! m)))"

text \<open>The right content of an intermediate file and of an output file.\<close>

definition int_right ::
  "map_fun \<Rightarrow> (string \<Rightarrow> string) \<Rightarrow> string list \<Rightarrow> nat \<Rightarrow> nat \<Rightarrow> nat \<Rightarrow> file_content \<Rightarrow> bool" where
  "int_right mapf txt names n i m content \<longleftrightarrow>
     (\<exists>kvs. content = Json kvs \<and> mset kvs = mset (bucket mapf txt names n i m))"

definition out_right ::
  "map_fun \<Rightarrow> reduce_fun \<Rightarrow> (string \<Rightarrow> string) \<Rightarrow> string list \<Rightarrow> nat \<Rightarrow> nat \<Rightarrow> file_content \<Rightarrow> bool" where
  "out_right mapf reducef txt names n r content \<longleftrightarrow>
     (\<exists>ls. content = Lines ls \<and> mset ls = result_lines reducef (slot_kvs n r (job_kvs mapf txt names)))"

definition files_ok :: "map_fun \<Rightarrow> reduce_fun \<Rightarrow> (string \<Rightarrow> string) \<Rightarrow> string list \<Rightarrow> nat \<Rightarrow> files \<Rightarrow> bool" where
  "files_ok mapf reducef txt names n fs \<longleftrightarrow>
     (\<forall>f \<in> set names. fs f = Some (Text (txt f))) \<and>
     (\<forall>i m content. m < length names \<longrightarrow> fs (int_file i m) = Some content \<longrightarrow> int_right mapf txt names n i m content) \<and>
     (\<forall>r content. fs (out_file r) = Some content \<longrightarrow> out_right mapf reducef txt names n r content)"

text \<open>A running map or reduce task: what it still writes is right, and what it does not write any
  more is there.\<close>

definition map_running ::
  "map_fun \<Rightarrow> (string \<Rightarrow> string) \<Rightarrow> string list \<Rightarrow> nat \<Rightarrow> files \<Rightarrow> string \<Rightarrow> (string \<times> file_content) list \<Rightarrow> bool" where
  "map_running mapf txt names n fs t ws \<longleftrightarrow>
     (\<exists>m < length names. t = ''Map-'' @ itoa m \<and>
        (\<forall>(name, content) \<in> set ws. \<exists>i. name = int_file i m \<and> int_right mapf txt names n i m content) \<and>
        (\<forall>i < n. int_file i m \<in> fst ` set ws \<or> fs (int_file i m) \<noteq> None))"

definition reduce_running ::
  "map_fun \<Rightarrow> reduce_fun \<Rightarrow> (string \<Rightarrow> string) \<Rightarrow> string list \<Rightarrow> nat \<Rightarrow> files \<Rightarrow> string \<Rightarrow>
   (string \<times> file_content) list \<Rightarrow> bool" where
  "reduce_running mapf reducef txt names n fs t ws \<longleftrightarrow>
     (\<exists>r < n. t = ''Reduce-'' @ itoa r \<and>
        (\<forall>(name, content) \<in> set ws. name = out_file r \<and> out_right mapf reducef txt names n r content) \<and>
        (out_file r \<in> fst ` set ws \<or> fs (out_file r) \<noteq> None))"

definition mr_inv :: "map_fun \<Rightarrow> reduce_fun \<Rightarrow> (string \<Rightarrow> string) \<Rightarrow> string list \<Rightarrow> nat \<Rightarrow> mr_system \<Rightarrow> bool" where
  "mr_inv mapf reducef txt names n s \<longleftrightarrow>
     table_ok names n (coord s) \<and> files_ok mapf reducef txt names n (dir s) \<and>
     (\<forall>m < length names. completed (coord s) m \<longrightarrow> (\<forall>i < n. dir s (int_file i m) \<noteq> None)) \<and>
     (\<forall>r < n. completed (coord s) (length names + r) \<longrightarrow> dir s (out_file r) \<noteq> None) \<and>
     (\<forall>w t ws. workers s w = Busy t ws \<longrightarrow>
        map_running mapf txt names n (dir s) t ws \<or> reduce_running mapf reducef txt names n (dir s) t ws)"

section \<open>Every step keeps the invariant\<close>

definition plain_names :: "string list \<Rightarrow> bool" where
  "plain_names names \<longleftrightarrow> (\<forall>f \<in> set names. \<not> has_prefix ''mr-int-'' f \<and> \<not> has_prefix ''mr-out-'' f)"

lemma plain_namesD:
  "plain_names names \<Longrightarrow> f \<in> set names \<Longrightarrow> f \<noteq> int_file i m \<and> f \<noteq> out_file r"
  using file_prefixes(1,2) by (metis plain_names_def)

lemma files_ok_write_int:
  assumes "files_ok mapf reducef txt names n fs" "plain_names names" "int_right mapf txt names n i m content"
  shows "files_ok mapf reducef txt names n (fs(int_file i m \<mapsto> content))"
  using assms plain_namesD [OF assms(2)] unfolding files_ok_def
  by (auto simp: file_prefixes(3) file_prefixes(3) [symmetric])

lemma files_ok_write_out:
  assumes "files_ok mapf reducef txt names n fs" "plain_names names" "out_right mapf reducef txt names n r content"
  shows "files_ok mapf reducef txt names n (fs(out_file r \<mapsto> content))"
  using assms plain_namesD [OF assms(2)] unfolding files_ok_def
  by (auto simp: file_prefixes(3,4))

lemma map_running_mono:
  assumes "\<And>x. fs x \<noteq> None \<Longrightarrow> fs' x \<noteq> None" "map_running mapf txt names n fs t ws"
  shows "map_running mapf txt names n fs' t ws"
proof -
  obtain m where m: "m < length names" "t = ''Map-'' @ itoa m"
    "\<forall>(name, content) \<in> set ws. \<exists>i. name = int_file i m \<and> int_right mapf txt names n i m content"
    "\<forall>i < n. int_file i m \<in> fst ` set ws \<or> fs (int_file i m) \<noteq> None"
    using assms(2) unfolding map_running_def by blast
  have "\<forall>i < n. int_file i m \<in> fst ` set ws \<or> fs' (int_file i m) \<noteq> None" using m(4) assms(1) by blast
  with m(1-3) show ?thesis unfolding map_running_def by blast
qed

lemma reduce_running_mono:
  assumes "\<And>x. fs x \<noteq> None \<Longrightarrow> fs' x \<noteq> None" "reduce_running mapf reducef txt names n fs t ws"
  shows "reduce_running mapf reducef txt names n fs' t ws"
  using assms unfolding reduce_running_def by blast

lemma mapper_running:
  assumes "files_ok mapf reducef txt names n fs" "m < length names" "visits shuffle"
    and "mapper_writes (\<lambda>f t. shuffle (mapf f t)) (names ! m) m n fs = Some ws"
  shows "map_running mapf txt names n fs (''Map-'' @ itoa m) ws"
proof -
  let ?kvs = "shuffle (mapf (names ! m) (txt (names ! m)))"
  have t: "read_text fs (names ! m) = Some (txt (names ! m))"
    using assms(1,2) by (simp add: files_ok_def read_text_def)
  show ?thesis
  proof (cases "n = 0")
    case True
    then show ?thesis using assms(2,4) by (auto simp: mapper_writes_def map_running_def split: bind_splits)
  next
    case False
    have "map (\<lambda>i. replicate n [] ! i @ slot_kvs n i ?kvs) [0..<n] = map (\<lambda>i. slot_kvs n i ?kvs) [0..<n]" by simp
    then have "bucket_loop n ?kvs (replicate n []) = Some (map (\<lambda>i. slot_kvs n i ?kvs) [0..<n])"
      using bucket_loop_eq [of "replicate n []" n ?kvs] False by simp
    then have ws: "ws = map (\<lambda>i. (int_file i m, Json (slot_kvs n i ?kvs))) [0..<n]"
      using assms(4) by (auto simp: mapper_writes_def t)
    have "int_right mapf txt names n i m (Json (slot_kvs n i ?kvs))" for i
      using assms(3) by (simp add: int_right_def bucket_def slot_kvs_def visits_def)
    then show ?thesis using assms(2) by (auto simp: map_running_def ws image_iff)
  qed
qed

lemma mset_concat_buckets:
  "\<forall>m < length names. mset (K m) = mset (bucket mapf txt names n r m) \<Longrightarrow>
   mset (concat (map K [0..<length names])) = mset (slot_kvs n r (job_kvs mapf txt names))"
proof -
  assume k: "\<forall>m < length names. mset (K m) = mset (bucket mapf txt names n r m)"
  have "mset (concat (map K [0..<length names])) =
      mset (concat (map (bucket mapf txt names n r) [0..<length names]))"
    using k by (simp add: mset_concat cong: map_cong) (metis (mono_tags, lifting) atLeastLessThan_iff map_eq_conv set_upt)
  also have "concat (map (bucket mapf txt names n r) [0..<length names]) =
      slot_kvs n r (concat (map (\<lambda>m. mapf (names ! m) (txt (names ! m))) [0..<length names]))"
    by (simp add: bucket_def [abs_def] slot_kvs_def filter_concat comp_def)
  also have "map (\<lambda>m. mapf (names ! m) (txt (names ! m))) [0..<length names] = map (\<lambda>f. mapf f (txt f)) names"
    by (rule nth_equalityI) simp_all
  finally show ?thesis by (simp add: job_kvs_def)
qed

context mr_reduce
begin

lemma reducer_running:
  assumes "files_ok mapf reducef txt names n fs" "r < n" "visits visit"
    and "\<forall>m < length names. fs (int_file r m) \<noteq> None"
    and "reducer_writes reducef visit (out_file r) r (length names) fs = Some ws"
  shows "reduce_running mapf reducef txt names n fs (''Reduce-'' @ itoa r) ws"
proof -
  have "\<exists>kvs. fs (int_file r m) = Some (Json kvs) \<and> mset kvs = mset (bucket mapf txt names n r m)"
    if "m < length names" for m
    using assms(1,4) that unfolding files_ok_def int_right_def by (metis option.exhaust)
  then obtain K where K: "\<forall>m < length names. fs (int_file r m) = Some (Json (K m)) \<and>
      mset (K m) = mset (bucket mapf txt names n r m)" by metis
  then obtain ls where ls: "reducer_writes reducef visit (out_file r) r (length names) fs = Some [(out_file r, Lines ls)]"
    "mset ls = result_lines reducef (concat (map K [0..<length names]))"
    using reducer_lines [of "length names" fs r K visit reducef "out_file r"] assms(3) by blast
  have "out_right mapf reducef txt names n r (Lines ls)"
    using ls(2) result_lines_mset [OF mset_concat_buckets] K by (simp add: out_right_def)
  then show ?thesis using assms(2,5) ls(1) by (auto simp: reduce_running_def)
qed

end


lemma completed_schedule: "completed (schedule w at i c) j \<Longrightarrow> completed c j"
  by (cases "i < length (taskTable c)"; cases "j = i")
     (auto simp: completed_def schedule_def list_update_beyond)

lemma files_ok_readable:
  "files_ok mapf reducef txt names n fs \<Longrightarrow> m < length names \<Longrightarrow> read_text fs (names ! m) \<noteq> None"
  by (simp add: files_ok_def read_text_def)

context mr_reduce
begin

lemma react_running:
  assumes inv: "mr_inv mapf reducef txt names n s" and fair: "visits shuffle" "visits visit"
    and get: "GetNextTask (coord s) args clock at = Some (c, reply)"
    and busy: "react (\<lambda>f t. shuffle (mapf f t)) reducef visit reply (dir s) = Busy t ws"
  shows "map_running mapf txt names n (dir s) t ws \<or> reduce_running mapf reducef txt names n (dir s) t ws"
proof -
  have tab: "table_ok names n (coord s)" and f: "files_ok mapf reducef txt names n (dir s)"
    and int: "\<forall>m < length names. completed (coord s) m \<longrightarrow> (\<forall>i < n. dir s (int_file i m) \<noteq> None)"
    using inv by (auto simp: mr_inv_def)
  from GetNextTask_cases [OF tab get] consider
      (map) i where "i < length names" "TaskKind reply = Map" "TaskSlot reply = int i"
        "TaskId reply = ''Map-'' @ itoa i" "TaskFileName reply = names ! i" "ReducerCount reply = n"
    | (reduce) i where "i < n" "\<forall>m < length names. completed (coord s) m" "TaskKind reply = Reduce"
        "TaskSlot reply = int i" "TaskId reply = ''Reduce-'' @ itoa i" "TaskFileName reply = out_file i"
        "MapperCount reply = length names"
    | (none) "TaskKind reply = Wait \<or> TaskKind reply = NoTask"
    by (auto simp: out_file_def)
  then show ?thesis
  proof cases
    case map
    then have "mapper_writes (\<lambda>f t. shuffle (mapf f t)) (names ! i) i n (dir s) = Some ws" "t = ''Map-'' @ itoa i"
      using busy by (auto simp: react_def split: option.splits)
    then show ?thesis using mapper_running [OF f map(1) fair(1)] by simp
  next
    case reduce
    then have "reducer_writes reducef visit (out_file i) i (length names) (dir s) = Some ws" "t = ''Reduce-'' @ itoa i"
      using busy by (auto simp: react_def split: option.splits)
    moreover have "\<forall>m < length names. dir s (int_file i m) \<noteq> None" using reduce(1,2) int by simp
    ultimately show ?thesis using reducer_running [OF f reduce(1) fair(2)] by simp
  qed (use busy in \<open>auto simp: react_def\<close>)
qed

lemma mr_inv_Fetch:
  assumes inv: "mr_inv mapf reducef txt names n s" and fair: "visits shuffle" "visits visit"
    and st: "mr_step mapf reducef (Fetch w clock at shuffle visit) s = Some s'"
  shows "mr_inv mapf reducef txt names n s'"
proof -
  obtain c reply where get: "GetNextTask (coord s) \<lparr>WorkerId = itoa w\<rparr> clock at = Some (c, reply)"
    and s': "s' = s\<lparr>coord := c, workers := (workers s)(w :=
            react (\<lambda>f t. shuffle (mapf f t)) reducef visit reply (dir s))\<rparr>"
    using st by (auto split: worker.splits bind_splits)
  have tab: "table_ok names n (coord s)" using inv by (simp add: mr_inv_def)
  have "c = coord s \<or> (\<exists>i. c = schedule (itoa w) at i (coord s))"
    using GetNextTask_cases [OF tab get] by auto
  then have "table_ok names n c" and c: "completed c j \<Longrightarrow> completed (coord s) j" for j
    using tab table_ok_schedule completed_schedule by blast+
  moreover note react_running [OF inv fair get]
  ultimately show ?thesis using inv unfolding mr_inv_def s' by auto
qed

end


lemma map_running_write:
  assumes "map_running mapf txt names n fs t ((name, content) # ws)"
  shows "\<exists>i m. name = int_file i m \<and> int_right mapf txt names n i m content \<and>
    map_running mapf txt names n (fs(name \<mapsto> content)) t ws"
proof -
  obtain m where m: "m < length names" "t = ''Map-'' @ itoa m"
    "\<forall>(x, y) \<in> set ((name, content) # ws). \<exists>i. x = int_file i m \<and> int_right mapf txt names n i m y"
    "\<forall>i < n. int_file i m \<in> fst ` set ((name, content) # ws) \<or> fs (int_file i m) \<noteq> None"
    using assms unfolding map_running_def by blast
  obtain i where i: "name = int_file i m" "int_right mapf txt names n i m content" using m(3) by auto
  have "\<forall>k < n. int_file k m \<in> fst ` set ws \<or> (fs(name \<mapsto> content)) (int_file k m) \<noteq> None"
    using m(4) by auto
  moreover have "\<forall>(x, y) \<in> set ws. \<exists>i. x = int_file i m \<and> int_right mapf txt names n i m y" using m(3) by simp
  ultimately have "map_running mapf txt names n (fs(name \<mapsto> content)) t ws" using m(1,2) unfolding map_running_def by blast
  with i show ?thesis by blast
qed

lemma reduce_running_write:
  assumes "reduce_running mapf reducef txt names n fs t ((name, content) # ws)"
  shows "\<exists>r. name = out_file r \<and> out_right mapf reducef txt names n r content \<and>
    reduce_running mapf reducef txt names n (fs(name \<mapsto> content)) t ws"
  using assms unfolding reduce_running_def by fastforce

lemma mr_inv_WriteNext:
  assumes inv: "mr_inv mapf reducef txt names n s" and plain: "plain_names names"
    and st: "mr_step mapf reducef (WriteNext w) s = Some s'"
  shows "mr_inv mapf reducef txt names n s'"
proof -
  obtain t name content ws where wk: "workers s w = Busy t ((name, content) # ws)"
    and s': "s' = s\<lparr>dir := (dir s)(name \<mapsto> content), workers := (workers s)(w := Busy t ws)\<rparr>"
    using st by (auto split: worker.splits list.splits)
  have f: "files_ok mapf reducef txt names n (dir s)" using inv by (simp add: mr_inv_def)
  let ?fs = "(dir s)(name \<mapsto> content)"
  have own: "files_ok mapf reducef txt names n ?fs \<and>
      (map_running mapf txt names n ?fs t ws \<or> reduce_running mapf reducef txt names n ?fs t ws)"
    using inv wk map_running_write [of mapf "txt" names n "dir s" t name content ws]
      reduce_running_write [of mapf reducef "txt" names n "dir s" t name content ws]
      files_ok_write_int [OF f plain] files_ok_write_out [OF f plain]
    unfolding mr_inv_def by blast
  have others: "map_running mapf txt names n ?fs t' ws' \<or> reduce_running mapf reducef txt names n ?fs t' ws'"
    if "workers s w' = Busy t' ws'" for w' t' ws'
  proof -
    have "map_running mapf txt names n (dir s) t' ws' \<or> reduce_running mapf reducef txt names n (dir s) t' ws'"
      using inv that unfolding mr_inv_def by blast
    then show ?thesis using map_running_mono [of "dir s" ?fs] reduce_running_mono [of "dir s" ?fs] by auto
  qed
  show ?thesis using inv own others unfolding mr_inv_def s' by auto
qed

lemma completed_Ack:
  assumes "table_ok names n c" "i < length names + n" "te_TaskId (taskTable c ! i) = t"
  shows "table_ok names n (fst (AckTaskCompletion c \<lparr>ack_TaskId = t\<rparr>)) \<and>
    (completed (fst (AckTaskCompletion c \<lparr>ack_TaskId = t\<rparr>)) j \<longleftrightarrow> completed c j \<or> j = i)"
proof -
  have l: "i < length (taskTable c)" using assms(1,2) by (simp add: table_ok_nth)
  show ?thesis
    unfolding Ack_eq [OF assms(1) l assms(3)] using table_ok_update [OF assms(1)] l
    by (auto simp: completed_def nth_list_update same_task_def)
qed

lemma mr_inv_Ack:
  assumes inv: "mr_inv mapf reducef txt names n s"
    and st: "mr_step mapf reducef (Ack w received) s = Some s'"
  shows "mr_inv mapf reducef txt names n s'"
proof -
  obtain t where w: "workers s w = Busy t []"
    and s': "s' = s\<lparr>coord := (if received then fst (AckTaskCompletion (coord s) \<lparr>ack_TaskId = t\<rparr>) else coord s),
                  workers := (workers s)(w := Idle)\<rparr>"
    using st by (auto split: worker.splits list.splits)
  have tab: "table_ok names n (coord s)" using inv by (simp add: mr_inv_def)
  note T = table_ok_nth [OF tab]
  have "map_running mapf txt names n (dir s) t [] \<or> reduce_running mapf reducef txt names n (dir s) t []"
    using inv w unfolding mr_inv_def by blast
  then consider (map) m where "m < length names" "t = ''Map-'' @ itoa m" "\<forall>i < n. dir s (int_file i m) \<noteq> None"
    | (reduce) r where "r < n" "t = ''Reduce-'' @ itoa r" "dir s (out_file r) \<noteq> None"
    by (auto simp: map_running_def reduce_running_def)
  then show ?thesis
  proof cases
    case map
    have "te_TaskId (taskTable (coord s) ! m) = t" using T(2) map by simp
    from completed_Ack [OF tab _ this] map(1) show ?thesis
      using inv map unfolding mr_inv_def s' by auto
  next
    case reduce
    have "te_TaskId (taskTable (coord s) ! (length names + r)) = t" using T(3) reduce by simp
    from completed_Ack [OF tab _ this] reduce(1) show ?thesis
      using inv reduce unfolding mr_inv_def s' by auto
  qed
qed

lemma mr_inv_Crash:
  assumes "mr_inv mapf reducef txt names n s" "mr_step mapf reducef (Crash w) s = Some s'"
  shows "mr_inv mapf reducef txt names n s'"
proof -
  have "workers s' w' = Busy t ws \<Longrightarrow> workers s w' = Busy t ws" for w' t ws
    using assms(2) by (auto split: if_splits)
  moreover have "coord s' = coord s" "dir s' = dir s" using assms(2) by auto
  ultimately show ?thesis using assms(1) unfolding mr_inv_def by metis
qed

lemma mr_inv_start:
  assumes "plain_names names" "\<forall>f \<in> set names. fs f = Some (Text (txt f))"
  shows "mr_inv mapf reducef txt names n (mr_start names n fs)"
proof -
  have "start_files fs f = fs f" if "f \<in> set names" for f
    using assms(1) that by (simp add: plain_names_def start_files_def RemoveFiles_def)
  moreover have "start_files fs (int_file i m) = None" "start_files fs (out_file r) = None" for i m r
    by (simp_all add: start_files_def RemoveFiles_def file_prefixes)
  moreover have "\<not> completed (MakeCoordinator names n) i" if "i < length names + n" for i
    using that by (simp add: completed_def table_MakeCoordinator map_task_def reduce_task_def)
  ultimately show ?thesis using assms(2) table_ok_start [of names n]
    by (auto simp: mr_inv_def mr_start_def files_ok_def)
qed

context mr_reduce
begin

lemma mr_inv_step:
  assumes "mr_inv mapf reducef txt names n s" "plain_names names" "fair_label l"
    and "mr_step mapf reducef l s = Some s'"
  shows "mr_inv mapf reducef txt names n s'"
proof (cases l)
  case (Fetch w clock at shuffle visit)
  then show ?thesis using mr_inv_Fetch [OF assms(1), of shuffle visit w clock at s'] assms(3,4)
    by (simp del: mr_step.simps)
next
  case (WriteNext w)
  then show ?thesis using mr_inv_WriteNext assms by blast
next
  case (Ack w received)
  then show ?thesis using mr_inv_Ack assms by blast
next
  case (Crash w)
  then show ?thesis using mr_inv_Crash assms by blast
qed

lemma mr_inv_run:
  assumes "mr_inv mapf reducef txt names n s" "plain_names names" "\<forall>l \<in> set ls. fair_label l"
    and "mr_run mapf reducef ls s = Some s'"
  shows "mr_inv mapf reducef txt names n s'"
  using assms
proof (induction ls arbitrary: s)
  case (Cons l ls)
  from Cons.prems(4) obtain s1 where "mr_step mapf reducef l s = Some s1" "mr_run mapf reducef ls s1 = Some s'"
    by (auto simp del: mr_step.simps split: bind_splits)
  with Cons.IH [of s1] mr_inv_step [OF Cons.prems(1,2), of l s1] Cons.prems show ?case by simp
qed simp

text \<open>When the coordinator is done, the output files together hold the result of the job.\<close>

lemma done_output:
  assumes "mr_inv mapf reducef txt names n s" "0 < n" "Done (coord s)"
  shows "\<exists>L. (\<forall>r < n. dir s (out_file r) = Some (Lines (L r))) \<and>
    (\<Sum>r < n. mset (L r)) = result_lines reducef (job_kvs mapf txt names)"
proof -
  have tab: "table_ok names n (coord s)" using assms(1) by (simp add: mr_inv_def)
  have "completed (coord s) (length names + r)" if "r < n" for r
    using assms(3) that table_ok_nth(1) [OF tab] by (simp add: Done_iff)
  then have "\<exists>ls. dir s (out_file r) = Some (Lines ls) \<and>
      mset ls = result_lines reducef (slot_kvs n r (job_kvs mapf txt names))" if "r < n" for r
    using assms(1) that unfolding mr_inv_def files_ok_def out_right_def by (metis option.exhaust)
  then obtain L where L: "\<forall>r < n. dir s (out_file r) = Some (Lines (L r)) \<and>
      mset (L r) = result_lines reducef (slot_kvs n r (job_kvs mapf txt names))" by metis
  then have "(\<Sum>r < n. mset (L r)) = result_lines reducef (job_kvs mapf txt names)"
    using result_lines_slots [OF assms(2), of reducef] by simp
  with L show ?thesis by blast
qed

end

end
