(* ===== verification/MapReduce_Properties.thy ===== *)
theory MapReduce_Properties
  imports MapReduce_System
begin

text \<open>
  The claims about the MapReduce library: the distributed job computes what the sequential program
  computes, the phases of the coordinator, the partition of a map task's output, and the tasks that
  the timeout test never hands out again.
\<close>

section \<open>Runs with a wall clock\<close>

text \<open>\<open>time.Now().Second()\<close> is at most 59.\<close>

fun clock_label :: "mr_label \<Rightarrow> bool" where
  "clock_label (Fetch w clock at shuffle visit) \<longleftrightarrow> (\<forall>i. clock i \<le> 59)"
| "clock_label _ \<longleftrightarrow> True"

text \<open>Task \<open>i\<close> was handed out in the last seconds of a minute, and no worker is working on it.\<close>

definition lost_task :: "string list \<Rightarrow> nat \<Rightarrow> nat \<Rightarrow> mr_system \<Rightarrow> bool" where
  "lost_task names n i s \<longleftrightarrow>
     table_ok names n (coord s) \<and> i < length names + n \<and>
     te_Status (taskTable (coord s) ! i) = Scheduled \<and> 49 \<le> te_ScheduleAt (taskTable (coord s) ! i) \<and>
     (\<forall>w ws. workers s w \<noteq> Busy (te_TaskId (taskTable (coord s) ! i)) ws)"

lemma ack_loop_keeps:
  "i < length es \<Longrightarrow> te_TaskId (es ! i) \<noteq> t \<Longrightarrow> fst (ack_loop t es) ! i = es ! i"
  by (induction es arbitrary: i) (auto simp: nth_Cons split: nat.splits prod.splits)

lemma ack_loop_same: "list_all2 same_task es fs \<Longrightarrow> list_all2 same_task (fst (ack_loop t es)) fs"
proof (induction es arbitrary: fs)
  case (Cons e es)
  from Cons.prems obtain f gs where f: "fs = f # gs" "same_task e f" "list_all2 same_task es gs"
    by (auto simp: list_all2_Cons1)
  have "same_task (e\<lparr>te_Status := Completed\<rparr>) f" using f(2) by (simp add: same_task_def)
  then show ?case using Cons.IH [OF f(3)] f by (auto split: prod.splits)
qed simp

lemma table_ok_Ack: "table_ok names n c \<Longrightarrow> table_ok names n (fst (AckTaskCompletion c args))"
  using ack_loop_same by (auto simp: table_ok_def AckTaskCompletion_def split: prod.splits) (metis fst_conv)

lemma react_Busy:
  "react mapf reducef visit reply fs = Busy t ws \<Longrightarrow> t = TaskId reply \<and> TaskKind reply \<in> {Map, Reduce}"
  by (auto simp: react_def split: TaskType.splits option.splits)

lemma lost_Fetch:
  assumes "lost_task names n i s" "\<forall>j. clock j \<le> 59"
    and "mr_step mapf reducef (Fetch w clock at shuffle visit) s = Some s'"
  shows "lost_task names n i s'"
proof -
  let ?T = "taskTable (coord s)"
  have tab: "table_ok names n (coord s)" and i: "i < length ?T" "te_Status (?T ! i) = Scheduled" "49 \<le> te_ScheduleAt (?T ! i)"
    using assms(1) table_ok_nth(1) by (auto simp: lost_task_def)
  obtain c reply where get: "GetNextTask (coord s) \<lparr>WorkerId = itoa w\<rparr> clock at = Some (c, reply)"
    and s': "s' = s\<lparr>coord := c, workers := (workers s)(w :=
            react (\<lambda>f t. shuffle (mapf f t)) reducef visit reply (dir s))\<rparr>"
    using assms(3) by (auto split: worker.splits bind_splits)
  have notdue: "\<not> due (coord s) clock i" using i assms(2) [rule_format, of i] by (simp add: due_def)
  have "c = coord s \<and> TaskKind reply \<in> {Wait, NoTask} \<or>
      (\<exists>j. due (coord s) clock j \<and> j < length ?T \<and> c = schedule (itoa w) at j (coord s) \<and> TaskId reply = te_TaskId (?T ! j))"
    using GetNextTask_cases [OF tab get] table_ok_nth [OF tab] by (auto intro: trans_less_add1)
  then consider "c = coord s" "TaskKind reply \<in> {Wait, NoTask}"
    | j where "j \<noteq> i" "j < length ?T" "c = schedule (itoa w) at j (coord s)" "TaskId reply = te_TaskId (?T ! j)"
    using notdue by metis
  then have "taskTable c ! i = ?T ! i \<and> table_ok names n c \<and>
      (\<forall>t ws. react (\<lambda>f t. shuffle (mapf f t)) reducef visit reply (dir s) = Busy t ws \<longrightarrow> t \<noteq> te_TaskId (?T ! i))"
  proof cases
    case 1
    then show ?thesis using tab react_Busy by fastforce
  next
    case 2
    then have "TaskId reply \<noteq> te_TaskId (?T ! i)" using task_ids_distinct [OF tab 2(2) i(1)] by metis
    moreover have "taskTable c ! i = ?T ! i" using 2(1,3) by (simp add: schedule_def)
    ultimately show ?thesis using table_ok_schedule [OF tab] 2(3) react_Busy by metis
  qed
  then show ?thesis using assms(1) unfolding lost_task_def s' by auto
qed

lemma lost_step:
  assumes "lost_task names n i s" "clock_label l" "mr_step mapf reducef l s = Some s'"
  shows "lost_task names n i s'"
proof (cases l)
  case (Fetch w clock at shuffle visit)
  then show ?thesis using lost_Fetch [OF assms(1), of clock mapf reducef w at shuffle visit s'] assms(2,3)
    by (simp del: mr_step.simps)
next
  case (WriteNext w)
  then have "coord s' = coord s" "\<And>w' t ws. workers s' w' = Busy t ws \<Longrightarrow> \<exists>ws'. workers s w' = Busy t ws'"
    using assms(3) by (auto split: worker.splits list.splits if_splits)
  then show ?thesis using assms(1) unfolding lost_task_def by metis
next
  case (Ack w received)
  then obtain t where t: "workers s w = Busy t []"
    "s' = s\<lparr>coord := (if received then fst (AckTaskCompletion (coord s) \<lparr>ack_TaskId = t\<rparr>) else coord s),
           workers := (workers s)(w := Idle)\<rparr>"
    using assms(3) by (auto split: worker.splits list.splits)
  have l: "i < length (taskTable (coord s))" "te_TaskId (taskTable (coord s) ! i) \<noteq> t"
    using assms(1) t(1) table_ok_nth(1) by (auto simp: lost_task_def)
  have "taskTable (fst (AckTaskCompletion (coord s) \<lparr>ack_TaskId = t\<rparr>)) ! i = taskTable (coord s) ! i"
    using ack_loop_keeps [OF l] by (auto simp: AckTaskCompletion_def split: prod.splits)
  then show ?thesis using assms(1) table_ok_Ack unfolding lost_task_def t(2) by auto
next
  case (Crash w)
  then have "coord s' = coord s" "\<And>w' t ws. workers s' w' = Busy t ws \<Longrightarrow> workers s w' = Busy t ws"
    using assms(3) by (auto split: if_splits)
  then show ?thesis using assms(1) unfolding lost_task_def by metis
qed

lemma lost_run:
  assumes "lost_task names n i s" "\<forall>l \<in> set ls. clock_label l" "mr_run mapf reducef ls s = Some s'"
  shows "lost_task names n i s'"
  using assms
proof (induction ls arbitrary: s)
  case (Cons l ls)
  from Cons.prems(3) obtain s1 where s1: "mr_step mapf reducef l s = Some s1" "mr_run mapf reducef ls s1 = Some s'"
    by (auto simp del: mr_step.simps split: bind_splits)
  show ?case using Cons.IH [of s1] lost_step [OF Cons.prems(1) _ s1(1)] Cons.prems s1 by simp
qed simp

section \<open>Claims\<close>

definition one_file :: files where
  "one_file = [''in'' \<mapsto> Text ''go to go'']"

definition wc_schedule :: "mr_label list" where
  "wc_schedule =
     [Fetch 0 (\<lambda>_. 3) 4 (\<lambda>x. x) (\<lambda>x. x), WriteNext 0, Fetch 1 (\<lambda>_. 30) 30 rev rev, WriteNext 1, Ack 1 True,
      Crash 0, Fetch 1 (\<lambda>_. 31) 31 rev rev, WriteNext 1, Ack 1 True]"

lemma wc_Map_one_file:
  "wc_Map ''in'' ''go to go'' =
     [\<lparr>kv_Key = ''go'', kv_Value = ''1''\<rparr>, \<lparr>kv_Key = ''to'', kv_Value = ''1''\<rparr>, \<lparr>kv_Key = ''go'', kv_Value = ''1''\<rparr>]"
  by code_simp

lemma itoa_0: "itoa 0 = ''0''"
  by code_simp

lemmas mr_eval = mr_start_def MakeCoordinator_def GetNextTask_def map_task_def reduce_task_def
  slice_get_def slice_put_def schedule_def react_def mapper_writes_def reducer_writes_def read_text_def
  start_files_def RemoveFiles_def has_prefix_def AckTaskCompletion_def Done_def

lemma one_file_run:
  "\<exists>s. mr_run wc_Map wc_Reduce wc_schedule (mr_start [''in''] 1 one_file) = Some s \<and> Done (coord s)"
proof -
  have "map_option (\<lambda>s. Done (coord s)) (mr_run wc_Map wc_Reduce wc_schedule (mr_start [''in''] 1 one_file)) = Some True"
    by (simp add: wc_schedule_def one_file_def mr_eval wc_Map_one_file int_file_def itoa_0)
  then show ?thesis by auto
qed

lemma one_file_ok:
  "\<forall>l \<in> set wc_schedule. fair_label l" "plain_names [''in'']"
  "\<forall>f \<in> set [''in'']. one_file f = Some (Text ''go to go'')"
  by (auto simp: wc_schedule_def visits_def plain_names_def has_prefix_def one_file_def)

lemma sort_sorts_by_key: "sorts_by_key (sort_key kv_Key)"
  by (simp add: sorts_by_key_def)

text \<open>C3. MapReduce computes what the sequential program computes: after any interleaving of any
  number of workers, with tasks executed several times and workers crashing between any two writes,
  whenever \<open>Done\<close> answers true every output file \<open>mr-out-r\<close> exists, and the lines of all of them
  together are, as a multiset, the lines that \<open>mrsequential\<close> writes.\<close>

theorem mapreduce_matches_sequential:
  assumes "mr_reduce reducef" "0 < nReduce" "plain_names names" "sorts_by_key srt"
    and "\<forall>f \<in> set names. fs f = Some (Text (content f))"
    and "\<forall>l \<in> set ls. fair_label l" "mr_run mapf reducef ls (mr_start names nReduce fs) = Some s"
    and "Done (coord s)"
  shows "\<exists>L out seq. (\<forall>r < nReduce. dir s (''mr-out-'' @ itoa r) = Some (Lines (L r))) \<and>
    mrsequential srt mapf reducef names fs = Some out \<and> out ''mr-out-0'' = Some (Lines seq) \<and>
    (\<Sum>r < nReduce. mset (L r)) = mset seq"
proof -
  let ?kvs = "job_kvs mapf content names"
  have "mr_inv mapf reducef content names nReduce s"
    by (rule mr_reduce.mr_inv_run [OF assms(1) mr_inv_start [OF assms(3,5)] assms(3,6,7)])
  from mr_reduce.done_output [OF assms(1) this assms(2,8)] obtain L where
    L: "\<forall>r < nReduce. dir s (out_file r) = Some (Lines (L r))"
    "(\<Sum>r < nReduce. mset (L r)) = result_lines reducef ?kvs" by blast
  have "mset (group_loop reducef (srt ?kvs)) = result_lines reducef (srt ?kvs)"
    using assms(4) by (intro group_loop_lines) (simp add: sorts_by_key_def)
  also have "\<dots> = result_lines reducef ?kvs"
    using assms(4) by (intro mr_reduce.result_lines_mset [OF assms(1)]) (simp add: sorts_by_key_def)
  finally show ?thesis using L read_loop_eq [OF assms(5), of mapf "[]"]
    by (auto simp: mrsequential_def out_file_def)
qed

theorem mapreduce_matches_sequential_witness:
  "\<exists>s L out seq. mr_run wc_Map wc_Reduce wc_schedule (mr_start [''in''] 1 one_file) = Some s \<and>
    (\<forall>r < 1. dir s (''mr-out-'' @ itoa r) = Some (Lines (L r))) \<and>
    mrsequential (sort_key kv_Key) wc_Map wc_Reduce [''in''] one_file = Some out \<and>
    out ''mr-out-0'' = Some (Lines seq) \<and> (\<Sum>r < 1. mset (L r)) = mset seq"
proof -
  obtain s where s: "mr_run wc_Map wc_Reduce wc_schedule (mr_start [''in''] 1 one_file) = Some s" "Done (coord s)"
    using one_file_run by blast
  show ?thesis
    using s(1) mapreduce_matches_sequential [OF wc.mr_reduce_axioms zero_less_one one_file_ok(2) sort_sorts_by_key
      one_file_ok(3,1) s] by blast
qed

text \<open>C27. Phases of the coordinator: in every state that the system reaches, \<open>GetNextTask\<close> does not
  panic; it hands out a reduce task only when every map task is completed; it answers that there is
  no task exactly when \<open>Done\<close> holds; and otherwise tells the worker to wait.\<close>

theorem GetNextTask_phases:
  assumes "mr_reduce reducef" "plain_names names" "\<forall>f \<in> set names. fs f = Some (Text (content f))"
    and "\<forall>l \<in> set ls. fair_label l" "mr_run mapf reducef ls (mr_start names nReduce fs) = Some s"
  shows "\<exists>c' reply. GetNextTask (coord s) args clock at = Some (c', reply) \<and>
    (TaskKind reply = Reduce \<longrightarrow> (\<forall>m < length names. completed (coord s) m)) \<and>
    (TaskKind reply = NoTask \<longleftrightarrow> Done (coord s)) \<and>
    (TaskKind reply = Map \<longrightarrow> (\<exists>m < length names. \<not> completed (coord s) m \<and> TaskFileName reply = names ! m))"
proof -
  have tab: "table_ok names nReduce (coord s)"
    using mr_reduce.mr_inv_run [OF assms(1) mr_inv_start [OF assms(2,3)] assms(2,4,5)] by (simp add: mr_inv_def)
  obtain c' reply where get: "GetNextTask (coord s) args clock at = Some (c', reply)"
    using GetNextTask_returns [OF tab] by fastforce
  have "due (coord s) clock i \<Longrightarrow> \<not> completed (coord s) i" for i by (auto simp: due_def completed_def)
  moreover have "Done (coord s) \<longleftrightarrow> (\<forall>i < length names + nReduce. completed (coord s) i)"
    using table_ok_nth(1) [OF tab] by (simp add: Done_iff)
  ultimately show ?thesis using GetNextTask_cases [OF tab get] get
    by (smt (verit, best) TaskType.distinct nat_add_left_cancel_less trans_less_add1)
qed

theorem GetNextTask_phases_witness:
  "\<exists>s c' reply. mr_run wc_Map wc_Reduce wc_schedule (mr_start [''in''] 1 one_file) = Some s \<and>
    GetNextTask (coord s) \<lparr>WorkerId = ''w''\<rparr> (\<lambda>_. 5) 5 = Some (c', reply) \<and> TaskKind reply = NoTask"
proof -
  obtain s where s: "mr_run wc_Map wc_Reduce wc_schedule (mr_start [''in''] 1 one_file) = Some s" "Done (coord s)"
    using one_file_run by blast
  then show ?thesis
    using GetNextTask_phases [OF wc.mr_reduce_axioms one_file_ok(2,3,1) s(1), of "\<lparr>WorkerId = ''w''\<rparr>" "\<lambda>_. 5" 5] by blast
qed

text \<open>C28. A task can be lost for ever: if a task was handed out at second 49 or later of a minute and
  no worker is working on it any more, then, because the timeout test compares the second of the
  minute with \<open>ScheduleAt + 10\<close>, no run of the system ever hands it out again and \<open>Done\<close> never
  answers true, however many workers keep asking.\<close>

theorem late_task_is_lost:
  assumes "lost_task names nReduce i s" "\<forall>l \<in> set ls. clock_label l" "mr_run mapf reducef ls s = Some s'"
  shows "te_Status (taskTable (coord s') ! i) = Scheduled \<and> \<not> Done (coord s')"
proof -
  have l: "lost_task names nReduce i s'" by (rule lost_run [OF assms])
  then have "\<not> completed (coord s') i" "i < length (taskTable (coord s'))"
    using table_ok_nth(1) by (auto simp: lost_task_def completed_def)
  then show ?thesis using l by (auto simp: Done_iff lost_task_def)
qed

definition late_system :: mr_system where
  "late_system =
     (mr_start [''in''] 1 one_file)\<lparr>coord := schedule ''0'' 50 0 (MakeCoordinator [''in''] 1),
                                  workers := (\<lambda>_. Idle)(0 := Dead)\<rparr>"

lemma late_system_reached:
  "mr_run wc_Map wc_Reduce [Fetch 0 (\<lambda>_. 50) 50 (\<lambda>x. x) (\<lambda>x. x), Crash 0] (mr_start [''in''] 1 one_file) = Some late_system"
  by (simp add: late_system_def one_file_def mr_eval wc_Map_one_file itoa_0)

theorem late_task_is_lost_witness:
  "\<exists>s'. mr_run wc_Map wc_Reduce [Fetch 1 (\<lambda>_. 5) 5 rev rev, Fetch 1 (\<lambda>_. 59) 59 rev rev] late_system = Some s' \<and>
    \<not> Done (coord s')"
proof -
  have lost: "lost_task [''in''] 1 0 late_system"
    using table_ok_schedule [OF table_ok_start [of "[''in'']" 1], of "''0''" 50 0]
    by (auto simp: lost_task_def late_system_def mr_eval)
  obtain s' where s': "mr_run wc_Map wc_Reduce [Fetch 1 (\<lambda>_. 5) 5 rev rev, Fetch 1 (\<lambda>_. 59) 59 rev rev] late_system = Some s'"
    by (simp add: late_system_def mr_eval)
  show ?thesis using s' late_task_is_lost [OF lost _ s'] by simp
qed


lemma ihash_bound: "ihash key < 2 ^ 31"
proof -
  have "fnv32a key AND 0x7fffffff = take_bit 31 (fnv32a key)" by (simp add: take_bit_eq_mask mask_eq_exp_minus_1)
  then have "ihash key = take_bit 31 (unat (fnv32a key))" by (simp add: ihash_def unsigned_take_bit_eq)
  also have "\<dots> < 2 ^ 31" by (rule take_bit_nat_less_exp)
  finally show ?thesis .
qed

lemma apply_writes_get:
  "distinct (map fst ws) \<Longrightarrow> apply_writes ws fs x = (case map_of ws x of None \<Rightarrow> fs x | Some c \<Rightarrow> Some c)"
proof (induction ws fs rule: apply_writes.induct)
  case (2 name content ws fs)
  then have "map_of ws name = None" by (simp add: map_of_eq_None_iff)
  then show ?case using 2
    by (cases "x = name"; cases "map_of ws x") (simp_all del: fun_upd_apply add: fun_upd_same fun_upd_other)
qed simp

text \<open>C29. A map task partitions its output: with \<open>n\<close> reducers, file \<open>mr-int-i-m.json\<close> for \<open>i < n\<close>
  receives, in order, exactly the pairs whose key hashes to \<open>i\<close>, no other file changes, the hash is a
  non-negative 31-bit number, and with no reducers a map task that emits a pair panics.\<close>

theorem Mapper_partition:
  assumes "fs input = Some (Text content)"
  shows "(0 < n \<longrightarrow> (\<exists>fs'. Mapper mapf input m n fs = Some fs' \<and>
      (\<forall>i < n. fs' (int_file i m) = Some (Json (filter (\<lambda>kv. ihash (kv_Key kv) mod n = i) (mapf input content)))) \<and>
      (\<forall>f. (\<forall>i < n. f \<noteq> int_file i m) \<longrightarrow> fs' f = fs f))) \<and>
    (\<forall>key. ihash key < 2 ^ 31) \<and> (n = 0 \<and> mapf input content \<noteq> [] \<longrightarrow> Mapper mapf input m n fs = None)"
proof (intro conjI impI)
  assume n: "0 < n"
  let ?kvs = "mapf input content"
  let ?ws = "map (\<lambda>i. (int_file i m, Json (slot_kvs n i ?kvs))) [0..<n]"
  have "map (\<lambda>i. replicate n [] ! i @ slot_kvs n i ?kvs) [0..<n] = map (\<lambda>i. slot_kvs n i ?kvs) [0..<n]" by simp
  then have "mapper_writes mapf input m n fs = Some ?ws"
    using bucket_loop_eq [of "replicate n []" n ?kvs] n assms by (auto simp: mapper_writes_def read_text_def)
  then have r: "Mapper mapf input m n fs = Some (apply_writes ?ws fs)" by (simp add: Mapper_def)
  have d: "distinct (map fst ?ws)" by (simp add: comp_def distinct_map inj_on_def)
  have "map_of ?ws (int_file i m) = Some (Json (slot_kvs n i ?kvs))" if "i < n" for i
    using d that by (intro map_of_is_SomeI) auto
  then have "\<forall>i < n. apply_writes ?ws fs (int_file i m) = Some (Json (slot_kvs n i ?kvs))"
    using apply_writes_get [OF d] by simp
  moreover have "\<forall>f. (\<forall>i < n. f \<noteq> int_file i m) \<longrightarrow> apply_writes ?ws fs f = fs f"
  proof (intro allI impI)
    fix f assume "\<forall>i < n. f \<noteq> int_file i m"
    then have "map_of ?ws f = None" by (auto simp: map_of_eq_None_iff)
    then show "apply_writes ?ws fs f = fs f" using apply_writes_get [OF d] by simp
  qed
  ultimately show "\<exists>fs'. Mapper mapf input m n fs = Some fs' \<and>
      (\<forall>i < n. fs' (int_file i m) = Some (Json (filter (\<lambda>kv. ihash (kv_Key kv) mod n = i) ?kvs))) \<and>
      (\<forall>f. (\<forall>i < n. f \<noteq> int_file i m) \<longrightarrow> fs' f = fs f)"
    using r unfolding slot_kvs_def by blast
next
  assume "n = 0 \<and> mapf input content \<noteq> []"
  then show "Mapper mapf input m n fs = None"
    using assms by (cases "mapf input content") (auto simp: Mapper_def mapper_writes_def read_text_def)
qed (rule allI, rule ihash_bound)

theorem Mapper_partition_witness:
  "\<exists>fs'. Mapper wc_Map ''in'' 0 2 one_file = Some fs' \<and> fs' ''in'' = Some (Text ''go to go'') \<and>
    fs' (int_file 1 0) = Some (Json (filter (\<lambda>kv. ihash (kv_Key kv) mod 2 = 1) (wc_Map ''in'' ''go to go'')))"
proof -
  have "one_file ''in'' = Some (Text ''go to go'')" by (simp add: one_file_def)
  from Mapper_partition [of one_file "''in''", OF this, of 2 wc_Map 0] obtain fs' where fs': "Mapper wc_Map ''in'' 0 2 one_file = Some fs'"
    "\<forall>i < 2. fs' (int_file i 0) = Some (Json (filter (\<lambda>kv. ihash (kv_Key kv) mod 2 = i) (wc_Map ''in'' ''go to go'')))"
    "\<forall>f. (\<forall>i < 2. f \<noteq> int_file i 0) \<longrightarrow> fs' f = one_file f" by auto
  moreover have "\<forall>i < 2. ''in'' \<noteq> int_file i 0" by (simp add: int_file_def)
  ultimately show ?thesis by (auto simp: one_file_def)
qed

lemma fields_loop_append:
  "\<forall>c \<in> set w. \<not> sep c \<Longrightarrow> fields_loop sep cur (w @ rest) = fields_loop sep (cur @ w) rest"
  by (induction w arbitrary: cur) auto

definition is_word :: "(char \<Rightarrow> bool) \<Rightarrow> string \<Rightarrow> bool" where
  "is_word sep w \<longleftrightarrow> w \<noteq> [] \<and> (\<forall>c \<in> set w. \<not> sep c)"

lemma fields_loop_words:
  assumes "cur = [] \<or> is_word sep cur"
  shows "(\<forall>w \<in> set (fields_loop sep cur s). is_word sep w) \<and>
    concat (fields_loop sep cur s) = cur @ filter (\<lambda>c. \<not> sep c) s"
  using assms
proof (induction s arbitrary: cur)
  case (Cons c cs)
  show ?case
  proof (cases "sep c")
    case True
    then show ?thesis using Cons.IH [of "[]"] Cons.prems by (cases "cur = []") simp_all
  next
    case False
    then have "is_word sep (cur @ [c])" using Cons.prems by (auto simp: is_word_def)
    then show ?thesis using Cons.IH [of "cur @ [c]"] False by simp
  qed
qed auto

lemma fields_join:
  "\<forall>w \<in> set ws. is_word sep w \<Longrightarrow> sep s \<Longrightarrow>
   fields_loop sep [] (join_strings [s] ws) = ws"
proof (induction "[s]" ws rule: join_strings.induct)
  case (2 w)
  then show ?case using fields_loop_append [of w sep "[]" "[]"] by (simp add: is_word_def)
next
  case (3 w v ws)
  then show ?case using fields_loop_append [of w sep "[]" "s # join_strings [s] (v # ws)"] by (simp add: is_word_def)
qed simp

abbreviation letter_word :: "string \<Rightarrow> bool" where
  "letter_word \<equiv> is_word (\<lambda>r. \<not> IsLetter r)"

text \<open>The words of the applications: the word counter emits the pair of a word of letters and 1
  for every word, the words together are the letters of the text in order, a text that joins words
  by a separator yields these words, and the indexer emits every one of these words exactly once,
  with the name of the document.\<close>

theorem application_words:
  "(\<forall>kv \<in> set (wc_Map file contents). letter_word (kv_Key kv) \<and> kv_Value kv = ''1'') \<and>
   concat (map kv_Key (wc_Map file contents)) = filter IsLetter contents \<and>
   (\<not> IsLetter b \<and> (\<forall>w \<in> set ws. letter_word w) \<longrightarrow>
     map kv_Key (wc_Map file (join_strings [b] ws)) = ws) \<and>
   (visits visit \<longrightarrow> distinct (indexer_Map visit file contents) \<and>
     set (indexer_Map visit file contents) = (\<lambda>kv. kv\<lparr>kv_Value := file\<rparr>) ` set (wc_Map file contents))"
proof (intro conjI impI)
  show "\<forall>kv \<in> set (wc_Map file contents). letter_word (kv_Key kv) \<and> kv_Value kv = ''1''"
    using fields_loop_words [of "[]" "\<lambda>r. \<not> IsLetter r" contents] by (auto simp: wc_Map_def FieldsFunc_def)
  show "concat (map kv_Key (wc_Map file contents)) = filter IsLetter contents"
    using fields_loop_words [of "[]" "\<lambda>r. \<not> IsLetter r" contents] by (simp add: wc_Map_def FieldsFunc_def comp_def)
next
  assume "\<not> IsLetter b \<and> (\<forall>w \<in> set ws. letter_word w)"
  then show "map kv_Key (wc_Map file (join_strings [b] ws)) = ws"
    using fields_join [of ws "\<lambda>r. \<not> IsLetter r" b] by (simp add: wc_Map_def FieldsFunc_def comp_def)
next
  assume v: "visits visit"
  have "distinct (visit (remdups (FieldsFunc contents (\<lambda>x. \<not> IsLetter x))))"
    using v by (metis distinct_remdups mset_eq_imp_distinct_iff visits_def)
  then show "distinct (indexer_Map visit file contents)"
    by (simp add: indexer_Map_def distinct_map inj_on_def)
  show "set (indexer_Map visit file contents) = (\<lambda>kv. kv\<lparr>kv_Value := file\<rparr>) ` set (wc_Map file contents)"
    using v by (simp add: indexer_Map_def wc_Map_def set_visits image_image)
qed

theorem application_words_witness:
  "map kv_Key (wc_Map ''in'' (join_strings '' '' [''go'', ''to'', ''go''])) = [''go'', ''to'', ''go'']"
proof -
  have "\<not> IsLetter CHR '' ''" "IsLetter CHR ''g''" "IsLetter CHR ''o''" "IsLetter CHR ''t''" by code_simp+
  then show ?thesis using application_words [of "''in''" "[]" "CHR '' ''" "[''go'', ''to'', ''go'']" rev]
    by (simp add: is_word_def)
qed

end
