(* ===== verification/Labrpc.thy ===== *)
theory Labrpc
  imports Prelude
begin

text \<open>
  The simulated network (\<open>labrpc/labrpc.go\<close>): client ends, servers with their services, the
  administrative operations, and \<open>processReq\<close> with its handler goroutine as a step machine.
  Names of ends and of servers are strings.  A pointer to a server is an address (\<open>nat\<close>), so that
  two servers installed under one name are told apart.  The program state on which the RPC handlers
  act is the type parameter \<open>'s\<close>.  The encoding of arguments and replies belongs to a method: it
  maps argument bytes to reply bytes.  \<open>None\<close> is the end of the process (\<open>log.Fatalf\<close> or a panic).
  Delays are not modelled; every moment at which a timer may fire is a step of its own.
\<close>

section \<open>Messages\<close>

record reqMsg =
  req_endname :: string
  svcMeth :: string
  args :: string

record replyMsg =
  ok :: bool
  reply :: string

abbreviation failed :: replyMsg where
  "failed \<equiv> \<lparr>ok = False, reply = ''''\<rparr>"

section \<open>Services and servers\<close>

text \<open>What \<open>reflect\<close> reports of a method of the receiver, and the call of it: decode the argument,
  call the method, encode the reply; \<open>None\<close> when the argument cannot be decoded.\<close>

record 's Method =
  mname :: string
  exported :: bool
  NumIn :: nat
  In2IsPtr :: bool
  NumOut :: nat
  Func :: "'s \<Rightarrow> string \<Rightarrow> ('s \<times> string) option"

record 's Service =
  svc_name :: string
  methods :: "string \<rightharpoonup> 's Method"

fun method_loop :: "'s Method list \<Rightarrow> (string \<rightharpoonup> 's Method) \<Rightarrow> (string \<rightharpoonup> 's Method)" where
  "method_loop [] ms = ms"
| "method_loop (m # rest) ms =
     (if \<not> exported m \<or> NumIn m \<noteq> 3 \<or> \<not> In2IsPtr m \<or> NumOut m \<noteq> 0 then method_loop rest ms
      else method_loop rest (ms(mname m \<mapsto> m)))"

definition MakeService :: "string \<Rightarrow> 's Method list \<Rightarrow> 's Service" where
  "MakeService typname ms = \<lparr>svc_name = typname, methods = method_loop ms Map.empty\<rparr>"

definition Service_dispatch :: "'s Service \<Rightarrow> string \<Rightarrow> 's \<Rightarrow> reqMsg \<Rightarrow> ('s \<times> replyMsg) option" where
  "Service_dispatch svc methname st req =
     (case methods svc methname of
        Some m \<Rightarrow> do {
          (st', bytes) \<leftarrow> Func m st (args req);
          Some (st', \<lparr>ok = True, reply = bytes\<rparr>) }
      | None \<Rightarrow> None)"

record 's Server =
  services :: "string \<rightharpoonup> 's Service"
  srv_count :: int
  dispatchf :: "('s \<Rightarrow> string \<Rightarrow> string \<Rightarrow> ('s \<times> string \<times> bool) option) option"

definition MakeServer :: "'s Server" where
  "MakeServer = \<lparr>services = Map.empty, srv_count = 0, dispatchf = None\<rparr>"

definition SetDispatch ::
  "('s \<Rightarrow> string \<Rightarrow> string \<Rightarrow> ('s \<times> string \<times> bool) option) \<Rightarrow> 's Server \<Rightarrow> 's Server" where
  "SetDispatch f rs = rs\<lparr>dispatchf := Some f\<rparr>"

definition AddService :: "'s Service \<Rightarrow> 's Server \<Rightarrow> 's Server" where
  "AddService svc rs = rs\<lparr>services := (services rs)(svc_name svc \<mapsto> svc)\<rparr>"

definition Server_GetCount :: "'s Server \<Rightarrow> int" where
  "Server_GetCount rs = srv_count rs"

text \<open>\<open>strings.LastIndex(s, ".")\<close>; \<open>None\<close> is -1.\<close>

fun last_dot :: "string \<Rightarrow> nat option" where
  "last_dot [] = None"
| "last_dot (c # cs) =
     (case last_dot cs of Some i \<Rightarrow> Some (Suc i) | None \<Rightarrow> if c = CHR ''.'' then Some 0 else None)"

text \<open>Without a dot the slice expression \<open>svcMeth[:-1]\<close> panics, even when \<open>dispatchf\<close> is set.\<close>

definition Server_dispatch :: "'s Server \<Rightarrow> 's \<Rightarrow> reqMsg \<Rightarrow> ('s Server \<times> 's \<times> replyMsg) option" where
  "Server_dispatch rs st req =
     (let rs = rs\<lparr>srv_count := srv_count rs + 1\<rparr>
      in do {
        dot \<leftarrow> last_dot (svcMeth req);
        let serviceName = take dot (svcMeth req);
        let methodName = drop (dot + 1) (svcMeth req);
        (case dispatchf rs of
           Some f \<Rightarrow> do {
             (st', rep, okf) \<leftarrow> f st (svcMeth req) (args req);
             Some (rs, st', \<lparr>ok = okf, reply = rep\<rparr>) }
         | None \<Rightarrow>
             (case services rs serviceName of
                Some service \<Rightarrow> do {
                  (st', r) \<leftarrow> Service_dispatch service methodName st req;
                  Some (rs, st', r) }
              | None \<Rightarrow> None)) })"

definition Dispatch ::
  "'s Server \<Rightarrow> 's \<Rightarrow> string \<Rightarrow> string \<Rightarrow> string \<Rightarrow> ('s Server \<times> 's \<times> string \<times> bool) option" where
  "Dispatch rs st meth clnt a = do {
     (rs', st', rep) \<leftarrow> Server_dispatch rs st \<lparr>req_endname = clnt, svcMeth = meth, args = a\<rparr>;
     Some (rs', st', reply rep, ok rep) }"

section \<open>The network\<close>

record ClientEnd =
  endname :: string
  callf :: "(string \<Rightarrow> string \<Rightarrow> string \<Rightarrow> string \<times> bool) option"

definition SetCall :: "(string \<Rightarrow> string \<Rightarrow> string \<Rightarrow> string \<times> bool) \<Rightarrow> ClientEnd \<Rightarrow> ClientEnd" where
  "SetCall f e = e\<lparr>callf := Some f\<rparr>"

text \<open>A map whose missing keys and nil values cannot be told apart by the code is a partial function
  without nil values.\<close>

record Network =
  reliable :: bool
  longDelays :: bool
  longReordering :: bool
  ends :: "string \<rightharpoonup> ClientEnd"
  enabled :: "string \<rightharpoonup> bool"
  servers :: "string \<rightharpoonup> nat"
  connections :: "string \<rightharpoonup> string"
  net_done :: bool
  net_count :: "32 word"
  net_bytes :: "64 word"

definition MakeNetwork :: Network where
  "MakeNetwork =
     \<lparr>reliable = True, longDelays = False, longReordering = False, ends = Map.empty,
      enabled = Map.empty, servers = Map.empty, connections = Map.empty, net_done = False,
      net_count = 0, net_bytes = 0\<rparr>"

definition is_enabled :: "Network \<Rightarrow> string \<Rightarrow> bool" where
  "is_enabled rn e = (enabled rn e = Some True)"

definition Cleanup :: "Network \<Rightarrow> Network option" where
  "Cleanup rn = (if net_done rn then None else Some (rn\<lparr>net_done := True\<rparr>))"

definition Reliable :: "bool \<Rightarrow> Network \<Rightarrow> Network" where
  "Reliable yes rn = rn\<lparr>reliable := yes\<rparr>"

definition IsReliable :: "Network \<Rightarrow> bool" where
  "IsReliable rn = reliable rn"

definition LongReordering :: "bool \<Rightarrow> Network \<Rightarrow> Network" where
  "LongReordering yes rn = rn\<lparr>longReordering := yes\<rparr>"

definition LongDelays :: "bool \<Rightarrow> Network \<Rightarrow> Network" where
  "LongDelays yes rn = rn\<lparr>longDelays := yes\<rparr>"

definition IsLongDelays :: "Network \<Rightarrow> bool" where
  "IsLongDelays rn = longDelays rn"

record end_info =
  i_enabled :: bool
  i_servername :: "string option"
  i_server :: "nat option"
  i_reliable :: bool
  i_longreordering :: bool

definition readEndnameInfo :: "Network \<Rightarrow> string \<Rightarrow> end_info" where
  "readEndnameInfo rn e =
     \<lparr>i_enabled = is_enabled rn e, i_servername = connections rn e,
      i_server = (case connections rn e of Some s \<Rightarrow> servers rn s | None \<Rightarrow> None),
      i_reliable = reliable rn, i_longreordering = longReordering rn\<rparr>"

definition isServerDead :: "Network \<Rightarrow> string \<Rightarrow> string \<Rightarrow> nat \<Rightarrow> bool" where
  "isServerDead rn e servername server \<longleftrightarrow> \<not> is_enabled rn e \<or> servers rn servername \<noteq> Some server"

definition MakeEnd :: "string \<Rightarrow> Network \<Rightarrow> (Network \<times> ClientEnd) option" where
  "MakeEnd e rn =
     (if ends rn e \<noteq> None then None
      else let ce = \<lparr>endname = e, callf = None\<rparr>
           in Some (rn\<lparr>ends := (ends rn)(e \<mapsto> ce), enabled := (enabled rn)(e \<mapsto> False),
                       connections := (connections rn)(e := None)\<rparr>, ce))"

definition LookupEnd :: "string \<Rightarrow> Network \<Rightarrow> ClientEnd option" where
  "LookupEnd e rn = ends rn e"

definition DeleteEnd :: "string \<Rightarrow> Network \<Rightarrow> Network option" where
  "DeleteEnd e rn =
     (if ends rn e = None then None
      else Some (rn\<lparr>ends := (ends rn)(e := None), enabled := (enabled rn)(e := None),
                    connections := (connections rn)(e := None)\<rparr>))"

definition AddServer :: "string \<Rightarrow> nat \<Rightarrow> Network \<Rightarrow> Network" where
  "AddServer servername rs rn = rn\<lparr>servers := (servers rn)(servername \<mapsto> rs)\<rparr>"

definition DeleteServer :: "string \<Rightarrow> Network \<Rightarrow> Network" where
  "DeleteServer servername rn = rn\<lparr>servers := (servers rn)(servername := None)\<rparr>"

definition Connect :: "string \<Rightarrow> string \<Rightarrow> Network \<Rightarrow> Network" where
  "Connect e servername rn = rn\<lparr>connections := (connections rn)(e \<mapsto> servername)\<rparr>"

definition Enable :: "string \<Rightarrow> bool \<Rightarrow> Network \<Rightarrow> Network" where
  "Enable e b rn = rn\<lparr>enabled := (enabled rn)(e \<mapsto> b)\<rparr>"

text \<open>\<open>None\<close>: the method is called on a nil server.\<close>

definition GetCount :: "string \<Rightarrow> (nat \<Rightarrow> 's Server) \<Rightarrow> Network \<Rightarrow> int option" where
  "GetCount servername objs rn = map_option (\<lambda>a. Server_GetCount (objs a)) (servers rn servername)"

definition GetTotalCount :: "Network \<Rightarrow> int" where
  "GetTotalCount rn = sint (net_count rn)"

definition GetTotalBytes :: "Network \<Rightarrow> int" where
  "GetTotalBytes rn = sint (net_bytes rn)"

section \<open>Requests in flight\<close>

text \<open>Where the goroutine running \<open>processReq\<close> for a request is, with the values it has read.
  \<open>Sent\<close>: the caller has made the request.  \<open>Arrived\<close>: taken off the channel.  \<open>Admitted\<close>: end and
  server found, before the decision to drop the request.  \<open>Waiting\<close>: the loop that waits for the handler.
  \<open>Leaving\<close>: after the loop, with the reply if there is one.  \<open>LateReply\<close> and \<open>TimingOut\<close>: a timer
  holds the answer.  \<open>Replied\<close>: the answer was sent on the reply channel.\<close>

datatype pstate =
  Sent
| Arrived
| Admitted string nat bool bool
| Waiting string nat bool bool
| Leaving string nat bool bool "replyMsg option"
| LateReply replyMsg
| TimingOut
| Replied replyMsg

text \<open>The handler goroutine.\<close>

datatype estate = Unborn | Running nat | Finished nat replyMsg

record request =
  r_msg :: reqMsg
  r_state :: pstate
  r_exec :: estate

record 's system =
  net :: Network
  objs :: "nat \<Rightarrow> 's Server"
  app :: 's
  listening :: bool
  reqs :: "request list"

definition start_system :: "(nat \<Rightarrow> 's Server) \<Rightarrow> 's \<Rightarrow> 's system" where
  "start_system os st = \<lparr>net = MakeNetwork, objs = os, app = st, listening = True, reqs = []\<rparr>"

definition add_bytes :: "string \<Rightarrow> Network \<Rightarrow> Network" where
  "add_bytes b rn = rn\<lparr>net_bytes := net_bytes rn + of_nat (length b)\<rparr>"

text \<open>The goroutine of \<open>MakeNetwork\<close> takes a request off the channel.\<close>

definition accept :: "reqMsg \<Rightarrow> Network \<Rightarrow> Network" where
  "accept m rn = add_bytes (args m) (rn\<lparr>net_count := net_count rn + 1\<rparr>)"

definition lookup_phase :: "Network \<Rightarrow> reqMsg \<Rightarrow> pstate" where
  "lookup_phase rn m =
     (let info = readEndnameInfo rn (req_endname m)
      in (case (i_enabled info, i_servername info, i_server info) of
            (True, Some sn, Some a) \<Rightarrow> Admitted sn a (i_reliable info) (i_longreordering info)
          | _ \<Rightarrow> TimingOut))"

text \<open>\<open>d\<close>, \<open>d2\<close> are the draws of \<open>rand.Int()\<close> and \<open>rand.Intn(900)\<close>.\<close>

definition drop_phase :: "string \<Rightarrow> nat \<Rightarrow> bool \<Rightarrow> bool \<Rightarrow> nat \<Rightarrow> pstate \<times> estate" where
  "drop_phase sn a rel lre d =
     (if \<not> rel \<and> d mod 1000 < 100 then (Replied failed, Unborn)
      else (Waiting sn a rel lre, Running a))"

definition leave_phase ::
  "Network \<Rightarrow> reqMsg \<Rightarrow> string \<Rightarrow> nat \<Rightarrow> bool \<Rightarrow> bool \<Rightarrow> replyMsg option \<Rightarrow> nat \<Rightarrow> nat \<Rightarrow> Network \<times> pstate" where
  "leave_phase rn m sn a rel lre rep d d2 =
     (case rep of
        None \<Rightarrow> (rn, Replied failed)
      | Some r \<Rightarrow>
          if isServerDead rn (req_endname m) sn a then (rn, Replied failed)
          else if \<not> rel \<and> d mod 1000 < 100 then (rn, Replied failed)
          else if lre \<and> d2 < 600 then (rn, LateReply r)
          else (add_bytes (reply r) rn, Replied r))"

section \<open>Steps\<close>

datatype net_op =
  OpReliable bool | OpLongReordering bool | OpLongDelays bool | OpMakeEnd string | OpDeleteEnd string
| OpAddServer string nat | OpDeleteServer string | OpConnect string string | OpEnable string bool | OpCleanup

fun apply_op :: "net_op \<Rightarrow> Network \<Rightarrow> Network option" where
  "apply_op (OpReliable b) rn = Some (Reliable b rn)"
| "apply_op (OpLongReordering b) rn = Some (LongReordering b rn)"
| "apply_op (OpLongDelays b) rn = Some (LongDelays b rn)"
| "apply_op (OpMakeEnd e) rn = map_option fst (MakeEnd e rn)"
| "apply_op (OpDeleteEnd e) rn = DeleteEnd e rn"
| "apply_op (OpAddServer s a) rn = Some (AddServer s a rn)"
| "apply_op (OpDeleteServer s) rn = Some (DeleteServer s rn)"
| "apply_op (OpConnect e s) rn = Some (Connect e s rn)"
| "apply_op (OpEnable e b) rn = Some (Enable e b rn)"
| "apply_op OpCleanup rn = Cleanup rn"

datatype label =
  Admin net_op | Send reqMsg | Accept nat | GiveUp nat | StopListening | Lookup nat | Admit nat nat
| Execute nat | Receive nat | Poll nat | Leave nat nat nat | Timer nat

definition set_req :: "nat \<Rightarrow> request \<Rightarrow> 's system \<Rightarrow> 's system" where
  "set_req i r s = s\<lparr>reqs := (reqs s)[i := r]\<rparr>"

text \<open>One step of the goroutines of request \<open>i\<close>.\<close>

definition req_step :: "label \<Rightarrow> nat \<Rightarrow> request \<Rightarrow> 's system \<Rightarrow> 's system option" where
  "req_step l i r s =
     (case (l, r_state r) of
        (Accept _, Sent) \<Rightarrow>
          if listening s then Some (set_req i (r\<lparr>r_state := Arrived\<rparr>) (s\<lparr>net := accept (r_msg r) (net s)\<rparr>)) else None
      | (GiveUp _, Sent) \<Rightarrow>
          if net_done (net s) then Some (set_req i (r\<lparr>r_state := Replied failed\<rparr>) s) else None
      | (Lookup _, Arrived) \<Rightarrow> Some (set_req i (r\<lparr>r_state := lookup_phase (net s) (r_msg r)\<rparr>) s)
      | (Admit _ d, Admitted sn a rel lre) \<Rightarrow>
          (case drop_phase sn a rel lre d of (p, e) \<Rightarrow> Some (set_req i (r\<lparr>r_state := p, r_exec := e\<rparr>) s))
      | (Execute _, _) \<Rightarrow>
          (case r_exec r of
             Running a \<Rightarrow> do {
               (rs, st, rep) \<leftarrow> Server_dispatch (objs s a) (app s) (r_msg r);
               Some (set_req i (r\<lparr>r_exec := Finished a rep\<rparr>) (s\<lparr>objs := (objs s)(a := rs), app := st\<rparr>)) }
           | _ \<Rightarrow> None)
      | (Receive _, Waiting sn a rel lre) \<Rightarrow>
          (case r_exec r of
             Finished _ rep \<Rightarrow> Some (set_req i (r\<lparr>r_state := Leaving sn a rel lre (Some rep)\<rparr>) s)
           | _ \<Rightarrow> None)
      | (Poll _, Waiting sn a rel lre) \<Rightarrow>
          if isServerDead (net s) (req_endname (r_msg r)) sn a
          then Some (set_req i (r\<lparr>r_state := Leaving sn a rel lre None\<rparr>) s) else Some s
      | (Leave _ d d2, Leaving sn a rel lre rep) \<Rightarrow>
          (case leave_phase (net s) (r_msg r) sn a rel lre rep d d2 of
             (rn, p) \<Rightarrow> Some (set_req i (r\<lparr>r_state := p\<rparr>) (s\<lparr>net := rn\<rparr>)))
      | (Timer _, LateReply rep) \<Rightarrow>
          Some (set_req i (r\<lparr>r_state := Replied rep\<rparr>) (s\<lparr>net := add_bytes (reply rep) (net s)\<rparr>))
      | (Timer _, TimingOut) \<Rightarrow> Some (set_req i (r\<lparr>r_state := Replied failed\<rparr>) s)
      | _ \<Rightarrow> None)"

fun label_req :: "label \<Rightarrow> nat option" where
  "label_req (Accept i) = Some i"
| "label_req (GiveUp i) = Some i"
| "label_req (Lookup i) = Some i"
| "label_req (Admit i _) = Some i"
| "label_req (Execute i) = Some i"
| "label_req (Receive i) = Some i"
| "label_req (Poll i) = Some i"
| "label_req (Leave i _ _) = Some i"
| "label_req (Timer i) = Some i"
| "label_req _ = None"

definition rpc_step :: "label \<Rightarrow> 's system \<Rightarrow> 's system option" where
  "rpc_step l s =
     (case label_req l of
        Some i \<Rightarrow> (if i < length (reqs s) then req_step l i (reqs s ! i) s else None)
      | None \<Rightarrow>
          (case l of
             Admin op \<Rightarrow> do { rn \<leftarrow> apply_op op (net s); Some (s\<lparr>net := rn\<rparr>) }
           | Send m \<Rightarrow> Some (s\<lparr>reqs := reqs s @ [\<lparr>r_msg = m, r_state = Sent, r_exec = Unborn\<rparr>]\<rparr>)
           | StopListening \<Rightarrow> if net_done (net s) then Some (s\<lparr>listening := False\<rparr>) else None
           | _ \<Rightarrow> None))"

fun rpc_run :: "label list \<Rightarrow> 's system \<Rightarrow> 's system option" where
  "rpc_run [] s = Some s"
| "rpc_run (l # ls) s = do { s' \<leftarrow> rpc_step l s; rpc_run ls s' }"

text \<open>\<open>Call\<close> either uses the end's own function, or hands a request to the network (the step \<open>Send\<close>) and
  waits for its answer; \<open>decode\<close> is \<open>Unmarshall\<close> into the caller's reply variable, which is untouched
  on failure, and \<open>args\<close> is already marshalled.  \<open>Forward\<close> passes bytes through.\<close>

definition Call_result :: "(string \<Rightarrow> 'v) \<Rightarrow> 'v \<Rightarrow> replyMsg \<Rightarrow> 'v \<times> bool" where
  "Call_result decode old rep = (if ok rep then (decode (reply rep), True) else (old, False))"

definition Call :: "(string \<Rightarrow> 'v) \<Rightarrow> 'v \<Rightarrow> ClientEnd \<Rightarrow> string \<Rightarrow> string \<Rightarrow> ('v \<times> bool) + reqMsg" where
  "Call decode old e meth a =
     (case callf e of
        Some f \<Rightarrow> let (rep, okf) = f (endname e) meth a
                  in if \<not> okf then Inl (old, False) else Inl (decode rep, True)
      | None \<Rightarrow> Inr \<lparr>req_endname = endname e, svcMeth = meth, args = a\<rparr>)"

definition Forward :: "ClientEnd \<Rightarrow> string \<Rightarrow> string \<Rightarrow> reqMsg" where
  "Forward e meth a = \<lparr>req_endname = endname e, svcMeth = meth, args = a\<rparr>"

definition Forward_result :: "replyMsg \<Rightarrow> string \<times> bool" where
  "Forward_result rep = (reply rep, ok rep)"

end
