(* ===== verification/Labrpc_Correct.thy ===== *)
theory Labrpc_Correct
  imports Labrpc
begin

text \<open>
  Lemmas about the simulated network: the cases of a step, the relation between the progress of a
  request and the number of times its handler ran, requests to a deleted server, and requests on a
  reliable network.
\<close>

section \<open>The cases of a step\<close>

lemma req_step_cases:
  assumes "req_step l i r s = Some s'"
  obtains
    (Accept) i' where "l = Accept i'" "r_state r = Sent" "listening s"
      "s' = set_req i (r\<lparr>r_state := Arrived\<rparr>) (s\<lparr>net := accept (r_msg r) (net s)\<rparr>)"
  | (GiveUp) i' where "l = GiveUp i'" "r_state r = Sent" "net_done (net s)"
      "s' = set_req i (r\<lparr>r_state := Replied failed\<rparr>) s"
  | (Lookup) i' where "l = Lookup i'" "r_state r = Arrived"
      "s' = set_req i (r\<lparr>r_state := lookup_phase (net s) (r_msg r)\<rparr>) s"
  | (Admit) i' d sn a rel lre where "l = Admit i' d" "r_state r = Admitted sn a rel lre"
      "s' = set_req i (r\<lparr>r_state := fst (drop_phase sn a rel lre d), r_exec := snd (drop_phase sn a rel lre d)\<rparr>) s"
  | (Execute) i' a rs st rep where "l = Execute i'" "r_exec r = Running a" "Server_dispatch (objs s a) (app s) (r_msg r) = Some (rs, st, rep)"
      "s' = set_req i (r\<lparr>r_exec := Finished a rep\<rparr>) (s\<lparr>objs := (objs s)(a := rs), app := st\<rparr>)"
  | (Receive) i' sn a rel lre b rep where "l = Receive i'" "r_state r = Waiting sn a rel lre" "r_exec r = Finished b rep"
      "s' = set_req i (r\<lparr>r_state := Leaving sn a rel lre (Some rep)\<rparr>) s"
  | (Dead) i' sn a rel lre where "l = Poll i'" "r_state r = Waiting sn a rel lre" "isServerDead (net s) (req_endname (r_msg r)) sn a"
      "s' = set_req i (r\<lparr>r_state := Leaving sn a rel lre None\<rparr>) s"
  | (Alive) i' sn a rel lre where "l = Poll i'" "r_state r = Waiting sn a rel lre" "\<not> isServerDead (net s) (req_endname (r_msg r)) sn a"
      "s' = s"
  | (Leave) i' d d2 sn a rel lre rep where "l = Leave i' d d2" "r_state r = Leaving sn a rel lre rep"
      "s' = set_req i (r\<lparr>r_state := snd (leave_phase (net s) (r_msg r) sn a rel lre rep d d2)\<rparr>)
              (s\<lparr>net := fst (leave_phase (net s) (r_msg r) sn a rel lre rep d d2)\<rparr>)"
  | (Late) i' rep where "l = Timer i'" "r_state r = LateReply rep"
      "s' = set_req i (r\<lparr>r_state := Replied rep\<rparr>) (s\<lparr>net := add_bytes (reply rep) (net s)\<rparr>)"
  | (Timeout) i' where "l = Timer i'" "r_state r = TimingOut" "s' = set_req i (r\<lparr>r_state := Replied failed\<rparr>) s"
proof (cases l)
  case (Admin x1)
  then show ?thesis using assms by (auto simp: req_step_def)
next
  case (Send x2)
  then show ?thesis using assms by (auto simp: req_step_def)
next
  case (Accept x3)
  then show ?thesis using assms that(1) by (auto simp: req_step_def split: pstate.splits if_splits)
next
  case (GiveUp x4)
  then show ?thesis using assms that(2) by (auto simp: req_step_def split: pstate.splits if_splits)
next
  case StopListening
  then show ?thesis using assms by (auto simp: req_step_def)
next
  case (Lookup x6)
  then show ?thesis using assms that(3) by (auto simp: req_step_def split: pstate.splits)
next
  case (Admit x71 x72)
  then obtain sn a rel lre where "r_state r = Admitted sn a rel lre"
    using assms by (cases "r_state r") (simp_all add: req_step_def)
  with Admit assms [symmetric] show ?thesis by (intro that(4)) (simp_all add: req_step_def case_prod_beta)
next
  case (Execute x8)
  then show ?thesis using assms that(5) by (auto simp: req_step_def split: estate.splits bind_splits)
next
  case (Receive x9)
  then show ?thesis using assms that(6) by (auto simp: req_step_def split: pstate.splits estate.splits)
next
  case (Poll x10)
  then obtain sn a rel lre where r: "r_state r = Waiting sn a rel lre"
    using assms by (cases "r_state r") (simp_all add: req_step_def)
  show ?thesis
  proof (cases "isServerDead (net s) (req_endname (r_msg r)) sn a")
    case True
    with Poll r assms [symmetric] show ?thesis by (intro that(7)) (simp_all add: req_step_def)
  next
    case False
    with Poll r assms [symmetric] show ?thesis by (intro that(8)) (simp_all add: req_step_def)
  qed
next
  case (Leave x111 x112 x113)
  then obtain sn a rel lre rep where "r_state r = Leaving sn a rel lre rep"
    using assms by (cases "r_state r") (simp_all add: req_step_def)
  with Leave assms [symmetric] show ?thesis by (intro that(9)) (simp_all add: req_step_def case_prod_beta)
next
  case (Timer x12)
  then show ?thesis using assms that(10,11) by (auto simp: req_step_def split: pstate.splits)
qed

text \<open>A step of another request does not touch request \<open>i\<close>.\<close>

lemma req_step_reqs:
  assumes "req_step l j r s = Some s'"
  shows "length (reqs s') = length (reqs s) \<and> (i \<noteq> j \<longrightarrow> reqs s' ! i = reqs s ! i)"
  using assms by (cases rule: req_step_cases) (simp_all add: set_req_def)

lemma rpc_step_cases:
  assumes "rpc_step l s = Some s'"
  obtains (req) j where "label_req l = Some j" "j < length (reqs s)" "req_step l j (reqs s ! j) s = Some s'"
  | (admin) op rn where "l = Admin op" "apply_op op (net s) = Some rn" "s' = s\<lparr>net := rn\<rparr>"
  | (send) m where "l = Send m" "s' = s\<lparr>reqs := reqs s @ [\<lparr>r_msg = m, r_state = Sent, r_exec = Unborn\<rparr>]\<rparr>"
  | (stop) "l = StopListening" "net_done (net s)" "s' = s\<lparr>listening := False\<rparr>"
  using assms by (cases l) (auto simp: rpc_step_def split: if_splits bind_splits)

lemma rpc_run_append: "rpc_run (ls @ ms) s = do { s' \<leftarrow> rpc_run ls s; rpc_run ms s' }"
  by (induction ls arbitrary: s) (auto split: bind_split)

lemma rpc_run_snoc: "rpc_run (ls @ [l]) s = Some s' \<longleftrightarrow> (\<exists>s1. rpc_run ls s = Some s1 \<and> rpc_step l s1 = Some s')"
  by (auto simp: rpc_run_append bind_eq_Some_conv)

text \<open>A property of a request and its network that every step of that request and every other step
  keeps holds along a run.\<close>

lemma rpc_run_invariant:
  assumes "P s" "rpc_run ls s = Some s'" "\<And>l s s'. l \<in> set ls \<Longrightarrow> P s \<Longrightarrow> rpc_step l s = Some s' \<Longrightarrow> P s'"
  shows "P s'"
  using assms
proof (induction ls arbitrary: s)
  case (Cons l ls)
  from Cons.prems(2) obtain s1 where s1: "rpc_step l s = Some s1" "rpc_run ls s1 = Some s'"
    by (auto simp: bind_eq_Some_conv)
  have "P s1" using Cons.prems(3) [of l s s1] Cons.prems(1) s1(1) by simp
  then show ?case using Cons.IH [OF _ s1(2)] Cons.prems(3) by (meson list.set_intros(2))
qed simp

lemma rpc_step_length: "rpc_step l s = Some s' \<Longrightarrow> length (reqs s) \<le> length (reqs s')"
  by (erule rpc_step_cases) (auto dest: req_step_reqs)

section \<open>A handler runs at most once\<close>

text \<open>How often request \<open>i\<close> was executed, against where it is.\<close>

definition progress_ok :: "nat \<Rightarrow> request \<Rightarrow> bool" where
  "progress_ok n r \<longleftrightarrow>
     (case r_exec r of
        Unborn \<Rightarrow> n = 0 \<and> (case r_state r of Sent \<Rightarrow> True | Arrived \<Rightarrow> True | Admitted _ _ _ _ \<Rightarrow> True |
                            TimingOut \<Rightarrow> True | Replied m \<Rightarrow> m = failed | _ \<Rightarrow> False)
      | Running a \<Rightarrow> n = 0 \<and> (case r_state r of Waiting _ b _ _ \<Rightarrow> b = a | Leaving _ b _ _ m \<Rightarrow> b = a \<and> m = None |
                               Replied m \<Rightarrow> m = failed | _ \<Rightarrow> False)
      | Finished a rep \<Rightarrow> n = 1 \<and> (case r_state r of Waiting _ b _ _ \<Rightarrow> b = a |
                               Leaving _ b _ _ m \<Rightarrow> b = a \<and> (m = None \<or> m = Some rep) |
                               LateReply m \<Rightarrow> m = rep | Replied m \<Rightarrow> m = failed \<or> m = rep | _ \<Rightarrow> False))"

lemma lookup_phase_cases:
  "lookup_phase rn m = TimingOut \<or> (\<exists>sn a. lookup_phase rn m = Admitted sn a (reliable rn) (longReordering rn) \<and>
     is_enabled rn (req_endname m) \<and> connections rn (req_endname m) = Some sn \<and> servers rn sn = Some a)"
  by (auto simp: lookup_phase_def readEndnameInfo_def Let_def split: bool.splits option.splits)

lemma progress_step:
  assumes "progress_ok n r" "req_step l i r s = Some s'" "i < length (reqs s)" "reqs s ! i = r"
  shows "progress_ok (case l of Execute _ \<Rightarrow> Suc n | _ \<Rightarrow> n) (reqs s' ! i) \<and> r_msg (reqs s' ! i) = r_msg r"
  using assms(2)
proof (cases rule: req_step_cases)
  case (Lookup i')
  then show ?thesis using assms(1,3,4) lookup_phase_cases [of "net s" "r_msg r"]
    by (auto simp: progress_ok_def set_req_def split: estate.splits)
next
  case (Admit i' d sn a rel lre)
  then show ?thesis using assms(1,3,4) by (auto simp: progress_ok_def set_req_def drop_phase_def split: estate.splits)
next
  case (Leave i' d d2 sn a rel lre rep)
  then show ?thesis using assms(1,3,4)
    by (auto simp: progress_ok_def set_req_def leave_phase_def split: estate.splits option.splits)
qed (use assms in \<open>auto simp: progress_ok_def set_req_def split: estate.splits pstate.splits\<close>)

definition executions :: "nat \<Rightarrow> label list \<Rightarrow> nat" where
  "executions i ls = count_list ls (Execute i)"

lemma executions_snoc: "executions i (ls @ [l]) = executions i ls + (if l = Execute i then 1 else 0)"
  by (simp add: executions_def)

lemma progress_run:
  assumes "rpc_run ls (start_system os st) = Some s"
  shows "(\<forall>i \<ge> length (reqs s). executions i ls = 0) \<and>
    (\<forall>i < length (reqs s). progress_ok (executions i ls) (reqs s ! i))"
  using assms
proof (induction ls arbitrary: s rule: rev_induct)
  case Nil
  then show ?case by (auto simp: start_system_def executions_def)
next
  case (snoc l ls)
  from snoc.prems obtain s1 where run: "rpc_run ls (start_system os st) = Some s1" and st: "rpc_step l s1 = Some s"
    by (auto simp: rpc_run_snoc)
  note IH = snoc.IH [OF run]
  from st show ?case
  proof (cases rule: rpc_step_cases)
    case (req j)
    have len: "length (reqs s) = length (reqs s1)" using req_step_reqs [OF req(3)] by blast
    have e: "l = Execute i \<Longrightarrow> i = j" for i using req(1) by auto
    have "progress_ok (executions i (ls @ [l])) (reqs s ! i)" if i: "i < length (reqs s)" for i
    proof (cases "i = j")
      case True
      have "executions i (ls @ [l]) = (case l of Execute _ \<Rightarrow> Suc (executions i ls) | _ \<Rightarrow> executions i ls)"
        using req(1) True by (cases l) (auto simp: executions_snoc)
      then show ?thesis using progress_step [OF _ req(3,2)] IH i True len by simp
    next
      case False
      then show ?thesis using IH i len req_step_reqs [OF req(3)] e by (auto simp: executions_snoc)
    qed
    moreover have "executions i (ls @ [l]) = 0" if "length (reqs s) \<le> i" for i
      using IH that len e req(2) by (auto simp: executions_snoc)
    ultimately show ?thesis by blast
  next
    case (admin op rn)
    then show ?thesis using IH by (auto simp: executions_snoc)
  next
    case (send m)
    then show ?thesis using IH by (auto simp: executions_snoc nth_append progress_ok_def less_Suc_eq)
  next
    case stop
    then show ?thesis using IH by (auto simp: executions_snoc)
  qed
qed


section \<open>Where a reply comes from\<close>

lemma rpc_step_msg:
  assumes "rpc_step l s = Some s'" "i < length (reqs s)"
  shows "r_msg (reqs s' ! i) = r_msg (reqs s ! i)"
  using assms(1)
proof (cases rule: rpc_step_cases)
  case (req j)
  show ?thesis
  proof (cases "i = j")
    case True
    with req(3) show ?thesis using req(2) by (cases rule: req_step_cases) (simp_all add: set_req_def)
  next
    case False
    then show ?thesis using req_step_reqs [OF req(3)] by simp
  qed
qed (use assms(2) in \<open>auto simp: nth_append\<close>)

text \<open>Only the step \<open>Execute i\<close> makes the handler of request \<open>i\<close> finish.\<close>

lemma finished_step:
  assumes "rpc_step l s = Some s'" "i < length (reqs s')" "r_exec (reqs s' ! i) = Finished a rep"
  shows "i < length (reqs s) \<and> (r_exec (reqs s ! i) = Finished a rep \<or>
    l = Execute i \<and> (\<exists>rs st. Server_dispatch (objs s a) (app s) (r_msg (reqs s ! i)) = Some (rs, st, rep)))"
  using assms(1)
proof (cases rule: rpc_step_cases)
  case (req j)
  have len: "i < length (reqs s)" using req_step_reqs [OF req(3)] assms(2) by simp
  show ?thesis
  proof (cases "i = j")
    case True
    from req(3) show ?thesis
      by (cases rule: req_step_cases)
         (use True len assms(3) req(1) in \<open>auto simp: set_req_def drop_phase_def split: if_splits\<close>)
  next
    case False
    then show ?thesis using req_step_reqs [OF req(3)] len assms(3) by auto
  qed
qed (use assms(2,3) in \<open>auto simp: nth_append split: if_splits\<close>)

lemma finished_origin:
  assumes "rpc_run ls s0 = Some s" "reqs s0 = []" "i < length (reqs s)" "r_exec (reqs s ! i) = Finished a rep"
  shows "\<exists>ls1 ls2 s1 rs st. ls = ls1 @ Execute i # ls2 \<and> rpc_run ls1 s0 = Some s1 \<and> i < length (reqs s1) \<and>
    Server_dispatch (objs s1 a) (app s1) (r_msg (reqs s ! i)) = Some (rs, st, rep)"
  using assms
proof (induction ls arbitrary: s rule: rev_induct)
  case (snoc l ls)
  from snoc.prems(1) obtain s1 where s1: "rpc_run ls s0 = Some s1" "rpc_step l s1 = Some s"
    by (auto simp: rpc_run_snoc)
  note f = finished_step [OF s1(2) snoc.prems(3,4)]
  have m: "r_msg (reqs s ! i) = r_msg (reqs s1 ! i)" using rpc_step_msg [OF s1(2)] f by simp
  show ?case
  proof (cases "r_exec (reqs s1 ! i) = Finished a rep")
    case True
    then obtain ls1 ls2 s2 rs st where "ls = ls1 @ Execute i # ls2" "rpc_run ls1 s0 = Some s2" "i < length (reqs s2)"
      "Server_dispatch (objs s2 a) (app s2) (r_msg (reqs s1 ! i)) = Some (rs, st, rep)"
      using snoc.IH [OF s1(1) snoc.prems(2)] f by blast
    then show ?thesis using m by (intro exI [of _ ls1] exI [of _ "ls2 @ [l]"]) auto
  next
    case False
    then show ?thesis using f s1(1) m by (intro exI [of _ ls] exI [of _ "[]"]) auto
  qed
qed simp

section \<open>A deleted server\<close>

text \<open>Request \<open>i\<close> is being processed by the server at address \<open>a\<close>, which is no longer installed.\<close>

definition orphan :: "nat \<Rightarrow> string \<Rightarrow> nat \<Rightarrow> 's system \<Rightarrow> bool" where
  "orphan i sn a s \<longleftrightarrow> i < length (reqs s) \<and> servers (net s) sn \<noteq> Some a \<and>
     (case r_state (reqs s ! i) of
        Waiting n b _ _ \<Rightarrow> n = sn \<and> b = a
      | Leaving n b _ _ _ \<Rightarrow> n = sn \<and> b = a
      | Replied m \<Rightarrow> m = failed
      | _ \<Rightarrow> False)"

lemma accept_net [simp]:
  "servers (accept m rn) = servers rn" "enabled (accept m rn) = enabled rn" "connections (accept m rn) = connections rn"
  "reliable (accept m rn) = reliable rn" "longReordering (accept m rn) = longReordering rn" "net_done (accept m rn) = net_done rn"
  "servers (add_bytes b rn) = servers rn" "enabled (add_bytes b rn) = enabled rn" "connections (add_bytes b rn) = connections rn"
  "reliable (add_bytes b rn) = reliable rn" "longReordering (add_bytes b rn) = longReordering rn" "net_done (add_bytes b rn) = net_done rn"
  by (simp_all add: accept_def add_bytes_def)

text \<open>What decides over a request changes only by administrative operations.\<close>

definition same_config :: "Network \<Rightarrow> Network \<Rightarrow> bool" where
  "same_config rn rn' \<longleftrightarrow> servers rn' = servers rn \<and> enabled rn' = enabled rn \<and> connections rn' = connections rn \<and>
     reliable rn' = reliable rn \<and> longReordering rn' = longReordering rn \<and> net_done rn' = net_done rn"

lemma leave_phase_config: "same_config rn (fst (leave_phase rn m sn a rel lre rep d d2))"
  by (auto simp: leave_phase_def same_config_def split: option.splits)

lemma req_step_config:
  assumes "req_step l j r s = Some s'"
  shows "same_config (net s) (net s') \<and> listening s' = listening s"
  using assms
proof (cases rule: req_step_cases)
  case (Leave i' d d2 sn a rel lre rep)
  then show ?thesis using leave_phase_config by (simp add: set_req_def)
qed (simp_all add: same_config_def set_req_def)

lemma apply_op_servers:
  "apply_op op rn = Some rn' \<Longrightarrow> op \<noteq> OpAddServer sn a \<Longrightarrow> servers rn sn \<noteq> Some a \<Longrightarrow> servers rn' sn \<noteq> Some a"
  by (cases op) (auto simp: Reliable_def LongReordering_def LongDelays_def MakeEnd_def DeleteEnd_def AddServer_def
    DeleteServer_def Connect_def Enable_def Cleanup_def Let_def split: if_splits)

lemma orphan_req_step:
  assumes "orphan i sn a s" "req_step l i (reqs s ! i) s = Some s'"
  shows "orphan i sn a s'"
  using assms(2)
proof (cases rule: req_step_cases)
  case (Leave i' d d2 sn' b rel lre rep)
  then have "sn' = sn" "b = a" using assms(1) by (auto simp: orphan_def)
  then have "leave_phase (net s) (r_msg (reqs s ! i)) sn' b rel lre rep d d2 = (net s, Replied failed)"
    using assms(1) by (auto simp: leave_phase_def orphan_def isServerDead_def split: option.splits)
  then show ?thesis using assms(1) Leave by (simp add: orphan_def set_req_def)
qed (use assms(1) in \<open>auto simp: orphan_def set_req_def split: pstate.splits\<close>)

lemma orphan_step:
  assumes "orphan i sn a s" "rpc_step l s = Some s'" "l \<noteq> Admin (OpAddServer sn a)"
  shows "orphan i sn a s'"
  using assms(2)
proof (cases rule: rpc_step_cases)
  case (req j)
  show ?thesis
  proof (cases "i = j")
    case True
    then show ?thesis using orphan_req_step [OF assms(1)] req(3) by blast
  next
    case False
    then show ?thesis using req_step_reqs [OF req(3)] req_step_config [OF req(3)] assms(1)
      by (auto simp: orphan_def same_config_def split: pstate.splits)
  qed
next
  case (admin op rn)
  then show ?thesis using assms(1,3) apply_op_servers [OF admin(2)] by (auto simp: orphan_def)
next
  case (send m)
  then show ?thesis using assms(1) by (auto simp: orphan_def nth_append)
next
  case stop
  then show ?thesis using assms(1) by (auto simp: orphan_def)
qed


section \<open>A reliable network\<close>

text \<open>Request \<open>i\<close> goes over an enabled end to the installed server at address \<open>a\<close> on a reliable network.\<close>

definition route_ok :: "string \<Rightarrow> string \<Rightarrow> nat \<Rightarrow> Network \<Rightarrow> bool" where
  "route_ok e sn a rn \<longleftrightarrow> \<not> net_done rn \<and> reliable rn \<and> \<not> longReordering rn \<and> is_enabled rn e \<and>
     connections rn e = Some sn \<and> servers rn sn = Some a"

definition served :: "nat \<Rightarrow> string \<Rightarrow> nat \<Rightarrow> 's system \<Rightarrow> bool" where
  "served i sn a s \<longleftrightarrow> i < length (reqs s) \<and> route_ok (req_endname (r_msg (reqs s ! i))) sn a (net s) \<and>
     (case r_state (reqs s ! i) of
        Sent \<Rightarrow> True
      | Arrived \<Rightarrow> True
      | Admitted n b rel lre \<Rightarrow> n = sn \<and> b = a \<and> rel \<and> \<not> lre
      | Waiting n b rel lre \<Rightarrow> n = sn \<and> b = a \<and> rel \<and> \<not> lre
      | Leaving n b rel lre m \<Rightarrow> n = sn \<and> b = a \<and> rel \<and> \<not> lre \<and> m \<noteq> None
      | Replied m \<Rightarrow> \<exists>b. r_exec (reqs s ! i) = Finished b m
      | _ \<Rightarrow> False)"

definition heard :: "nat \<Rightarrow> 's system \<Rightarrow> bool" where
  "heard i s \<longleftrightarrow> (case r_state (reqs s ! i) of
     Leaving n b rel lre (Some m) \<Rightarrow> \<exists>b. r_exec (reqs s ! i) = Finished b m | _ \<Rightarrow> True)"

lemma same_config_route: "same_config rn rn' \<Longrightarrow> route_ok e sn a rn' = route_ok e sn a rn"
  by (simp add: same_config_def route_ok_def is_enabled_def)

lemma route_lookup: "route_ok (req_endname m) sn a rn \<Longrightarrow> lookup_phase rn m = Admitted sn a True False"
  by (simp add: route_ok_def lookup_phase_def readEndnameInfo_def Let_def)

lemma route_alive: "route_ok e sn a rn \<Longrightarrow> \<not> isServerDead rn e sn a"
  by (simp add: route_ok_def isServerDead_def)

lemma served_req_step:
  assumes "served i sn a s" "heard i s" "req_step l i (reqs s ! i) s = Some s'"
  shows "served i sn a s' \<and> heard i s'"
proof -
  have i: "i < length (reqs s)" and r: "route_ok (req_endname (r_msg (reqs s ! i))) sn a (net s)"
    using assms(1) by (auto simp: served_def)
  have r': "route_ok e sn a (net s') = route_ok e sn a (net s)" for e
    using req_step_config [OF assms(3)] same_config_route by blast
  note [simp] = route_lookup [OF r] route_alive [OF r]
  show ?thesis using assms(3)
  proof (cases rule: req_step_cases)
    case (GiveUp i')
    then show ?thesis using r by (simp add: route_ok_def)
  next
    case (Dead i' sn' b rel lre)
    then have "sn' = sn \<and> b = a" using assms(1) by (auto simp: served_def)
    then show ?thesis using Dead by simp
  next
    case (Leave i' d d2 sn' b rel lre rep)
    then have "sn' = sn" "b = a" "rel" "\<not> lre" using assms(1) by (auto simp: served_def)
    moreover obtain m c where "rep = Some m" "r_exec (reqs s ! i) = Finished c m"
      using assms(1,2) Leave by (auto simp: served_def heard_def)
    ultimately show ?thesis using r r' i Leave
      by (auto simp: served_def heard_def set_req_def leave_phase_def)
  next
    case (Execute i' a' rs st rep)
    then show ?thesis using assms(1,2) i r r'
      by (auto simp: served_def heard_def set_req_def split: pstate.splits option.splits)
  qed (use assms(1,2) i r r' in \<open>auto simp: served_def heard_def set_req_def drop_phase_def\<close>)
qed

lemma served_step:
  assumes "served i sn a s \<and> heard i s" "rpc_step l s = Some s'" "\<forall>op. l \<noteq> Admin op"
  shows "served i sn a s' \<and> heard i s'"
  using assms(2)
proof (cases rule: rpc_step_cases)
  case (req j)
  show ?thesis
  proof (cases "i = j")
    case True
    then show ?thesis using served_req_step [of i sn a s l s'] assms(1) req(3) by blast
  next
    case False
    have "route_ok e sn a (net s') = route_ok e sn a (net s)" for e
      using req_step_config [OF req(3)] same_config_route by blast
    moreover have "reqs s' ! i = reqs s ! i" "length (reqs s') = length (reqs s)"
      using False req_step_reqs [OF req(3), of i] by auto
    ultimately show ?thesis using assms(1) by (simp only: served_def heard_def)
  qed
next
  case (send m)
  then have "reqs s' ! i = reqs s ! i" "i < length (reqs s')" "net s' = net s"
    using assms(1) by (auto simp: served_def nth_append)
  then show ?thesis using assms(1) by (simp only: served_def heard_def)
next
  case stop
  then show ?thesis using assms(1) by (simp add: served_def route_ok_def)
qed (use assms(3) in blast)

section \<open>Every request can be answered\<close>

definition replied :: "nat \<Rightarrow> 's system \<Rightarrow> bool" where
  "replied i s \<longleftrightarrow> i < length (reqs s) \<and> (case r_state (reqs s ! i) of Replied _ \<Rightarrow> True | _ \<Rightarrow> False)"

text \<open>Request \<open>i\<close> can be answered by at most \<open>n\<close> steps of its own goroutines.\<close>

definition answerable :: "nat \<Rightarrow> nat \<Rightarrow> 's system \<Rightarrow> bool" where
  "answerable n i s \<longleftrightarrow>
     (\<exists>ls s'. length ls \<le> n \<and> (\<forall>l \<in> set ls. label_req l = Some i) \<and> rpc_run ls s = Some s' \<and> replied i s')"

lemma answerable_now: "replied i s \<Longrightarrow> answerable n i s"
  unfolding answerable_def by (intro exI [of _ "[]"] exI [of _ s]) simp

lemma answerable_step:
  assumes "label_req l = Some i" "i < length (reqs s)" "req_step l i (reqs s ! i) s = Some s'" "answerable n i s'"
  shows "answerable (Suc n) i s"
proof -
  obtain ls s'' where ls: "length ls \<le> n" "\<forall>l \<in> set ls. label_req l = Some i" "rpc_run ls s' = Some s''" "replied i s''"
    using assms(4) unfolding answerable_def by blast
  have "rpc_run (l # ls) s = Some s''" using assms(1-3) ls(3) by (simp add: rpc_step_def)
  then show ?thesis unfolding answerable_def using ls assms(1) by (intro exI [of _ "l # ls"] exI [of _ s'']) simp
qed

lemma answerable_mono: "answerable m i s \<Longrightarrow> m \<le> n \<Longrightarrow> answerable n i s"
  unfolding answerable_def by (meson order_trans)

lemma answer_timer:
  assumes "i < length (reqs s)" "r_state (reqs s ! i) = TimingOut \<or> (\<exists>m. r_state (reqs s ! i) = LateReply m)"
  shows "answerable 1 i s"
proof -
  obtain s' where "req_step (Timer i) i (reqs s ! i) s = Some s'" "replied i s'"
    using assms by (auto simp: req_step_def replied_def set_req_def)
  then show ?thesis using answerable_step [of "Timer i" i s s' 0] answerable_now [of i s' 0] assms(1) by simp
qed

lemma answer_leaving:
  assumes "i < length (reqs s)" "r_state (reqs s ! i) = Leaving sn a rel lre m"
  shows "answerable 2 i s"
proof -
  let ?p = "leave_phase (net s) (r_msg (reqs s ! i)) sn a rel lre m 0 0"
  obtain s' where s': "req_step (Leave i 0 0) i (reqs s ! i) s = Some s'" "i < length (reqs s')"
    "r_state (reqs s' ! i) = snd ?p"
    using assms by (simp add: req_step_def set_req_def case_prod_beta)
  have "(\<exists>m. snd ?p = Replied m) \<or> (\<exists>m. snd ?p = LateReply m)" by (auto simp: leave_phase_def split: option.splits)
  then have "answerable 1 i s'" using s'(2,3) answer_timer [OF s'(2)] answerable_now [of i s'] by (auto simp: replied_def)
  then show ?thesis using answerable_step [OF _ assms(1) s'(1)] by (simp add: numeral_2_eq_2)
qed

lemma answer_waiting:
  assumes "i < length (reqs s)" "r_state (reqs s ! i) = Waiting sn a rel lre"
    and "\<exists>b. r_exec (reqs s ! i) = Running b \<or> (\<exists>m. r_exec (reqs s ! i) = Finished b m)"
    and "\<forall>b. Server_dispatch (objs s b) (app s) (r_msg (reqs s ! i)) \<noteq> None"
  shows "answerable 4 i s"
proof -
  have fin: "answerable 3 i s" if i: "i < length (reqs s)" and w: "r_state (reqs s ! i) = Waiting sn a rel lre"
    and e: "r_exec (reqs s ! i) = Finished b m" for s :: "'a system" and b m
  proof -
    obtain s' where "req_step (Receive i) i (reqs s ! i) s = Some s'" "i < length (reqs s')"
      "r_state (reqs s' ! i) = Leaving sn a rel lre (Some m)"
      using i w e by (simp add: req_step_def set_req_def)
    then show ?thesis using answer_leaving [of i s' sn a rel lre "Some m"] answerable_step [of "Receive i" i s s' 2] i by (simp add: numeral_3_eq_3)
  qed
  show ?thesis
  proof (cases "\<exists>b. r_exec (reqs s ! i) = Running b")
    case True
    then obtain b rs st rep where "r_exec (reqs s ! i) = Running b"
      "Server_dispatch (objs s b) (app s) (r_msg (reqs s ! i)) = Some (rs, st, rep)"
      using assms(4) by (metis option.exhaust prod_cases3)
    then obtain s' where "req_step (Execute i) i (reqs s ! i) s = Some s'" "i < length (reqs s')"
      "r_state (reqs s' ! i) = Waiting sn a rel lre" "r_exec (reqs s' ! i) = Finished b rep"
      using assms(1,2) by (simp add: req_step_def set_req_def)
    then show ?thesis using fin [of s'] answerable_step [of "Execute i" i s s' 3] assms(1) by simp
  next
    case False
    then show ?thesis using fin [OF assms(1,2)] assms(3) answerable_mono [of 3 i s 4] by auto
  qed
qed

lemma answer_admitted:
  assumes "i < length (reqs s)" "r_state (reqs s ! i) = Admitted sn a rel lre"
    and "\<forall>b. Server_dispatch (objs s b) (app s) (r_msg (reqs s ! i)) \<noteq> None"
  shows "answerable 5 i s"
proof -
  obtain s' where s': "req_step (Admit i 100) i (reqs s ! i) s = Some s'" "i < length (reqs s')"
    "r_state (reqs s' ! i) = Waiting sn a rel lre" "r_exec (reqs s' ! i) = Running a"
    "objs s' = objs s" "app s' = app s" "r_msg (reqs s' ! i) = r_msg (reqs s ! i)"
    using assms(1,2) by (simp add: req_step_def set_req_def drop_phase_def)
  then show ?thesis using answer_waiting [OF s'(2,3)] answerable_step [of "Admit i 100" i s s' 4] assms(1,3) by simp
qed

lemma answer_arrived:
  assumes "i < length (reqs s)" "r_state (reqs s ! i) = Arrived"
    and "\<forall>b. Server_dispatch (objs s b) (app s) (r_msg (reqs s ! i)) \<noteq> None"
  shows "answerable 6 i s"
proof -
  obtain s' where s': "req_step (Lookup i) i (reqs s ! i) s = Some s'" "i < length (reqs s')"
    "r_state (reqs s' ! i) = lookup_phase (net s) (r_msg (reqs s ! i))"
    "objs s' = objs s" "app s' = app s" "r_msg (reqs s' ! i) = r_msg (reqs s ! i)"
    using assms(1,2) by (simp add: req_step_def set_req_def)
  have "answerable 5 i s'"
    using lookup_phase_cases [of "net s" "r_msg (reqs s ! i)"] answer_admitted [OF s'(2)] answer_timer [OF s'(2)] s'
      answerable_mono [of 1 i s' 5] assms(3) by auto
  then show ?thesis using answerable_step [of "Lookup i" i s s' 5] s'(1) assms(1) by simp
qed

lemma listening_step:
  assumes "listening s \<or> net_done (net s)" "rpc_step l s = Some s'"
  shows "listening s' \<or> net_done (net s')"
  using assms(2)
proof (cases rule: rpc_step_cases)
  case (req j)
  then show ?thesis using req_step_config [OF req(3)] assms(1) by (simp add: same_config_def)
next
  case (admin op rn)
  have "net_done (net s) \<Longrightarrow> net_done rn"
    using admin(2) by (cases op) (auto simp: Reliable_def LongReordering_def LongDelays_def MakeEnd_def DeleteEnd_def
      AddServer_def DeleteServer_def Connect_def Enable_def Cleanup_def Let_def split: if_splits)
  then show ?thesis using assms(1) admin(3) by auto
qed (use assms(1) in auto)

lemma answer_sent:
  assumes "i < length (reqs s)" "r_state (reqs s ! i) = Sent" "listening s \<or> net_done (net s)"
    and "\<forall>b. Server_dispatch (objs s b) (app s) (r_msg (reqs s ! i)) \<noteq> None"
  shows "answerable 7 i s"
proof (cases "listening s")
  case True
  then obtain s' where s': "req_step (Accept i) i (reqs s ! i) s = Some s'" "i < length (reqs s')"
    "r_state (reqs s' ! i) = Arrived" "objs s' = objs s" "app s' = app s" "r_msg (reqs s' ! i) = r_msg (reqs s ! i)"
    using assms(1,2) by (simp add: req_step_def set_req_def)
  then show ?thesis using answer_arrived [OF s'(2,3)] answerable_step [of "Accept i" i s s' 6] assms(1,4) by simp
next
  case False
  then obtain s' where "req_step (GiveUp i) i (reqs s ! i) s = Some s'" "replied i s'"
    using assms(1-3) by (simp add: req_step_def set_req_def replied_def)
  then show ?thesis using answerable_step [of "GiveUp i" i s s' 6] answerable_now [of i s' 6] assms(1) by simp
qed

section \<open>Dispatch by name\<close>

lemma last_dot_None: "CHR ''.'' \<notin> set s \<Longrightarrow> last_dot s = None"
  by (induction s) auto

lemma last_dot_None_iff: "last_dot s = None \<longleftrightarrow> CHR ''.'' \<notin> set s"
  by (induction s) (auto split: option.splits)

lemma last_dot_join: "CHR ''.'' \<notin> set m \<Longrightarrow> last_dot (n @ CHR ''.'' # m) = Some (length n)"
  by (induction n) (auto simp: last_dot_None)

definition suitable :: "'s Method \<Rightarrow> bool" where
  "suitable m \<longleftrightarrow> exported m \<and> NumIn m = 3 \<and> In2IsPtr m \<and> NumOut m = 0"

lemma method_loop_get:
  "distinct (map mname ms) \<Longrightarrow> m \<in> set ms \<Longrightarrow>
   method_loop ms acc (mname m) = (if suitable m then Some m else acc (mname m))"
proof (induction ms acc rule: method_loop.induct)
  case (2 x rest acc)
  have other: "mname x \<notin> mname ` set rest" using "2.prems"(1) by simp
  have keep: "k \<notin> mname ` set ns \<Longrightarrow> method_loop ns f k = f k" for k ns f
    by (induction ns f rule: method_loop.induct) auto
  show ?case
  proof (cases "m = x")
    case True
    then show ?thesis using keep [OF other] by (auto simp: suitable_def)
  next
    case False
    then have "m \<in> set rest" "mname m \<noteq> mname x" using "2.prems" by (auto, metis imageI)
    then show ?thesis using 2 by (auto simp: suitable_def simp del: fun_upd_apply) (simp_all add: fun_upd_other)
  qed
qed simp

end
