(* ===== verification/Labrpc_Properties.thy ===== *)
theory Labrpc_Properties
  imports Labrpc_Correct
begin

text \<open>
  The claims about the simulated network: what a positive answer to \<open>Call\<close> means, servers that were
  deleted, that every call is answered, calls on a reliable network, and dispatch by name.  The
  witnesses use a server with one service whose method \<open>Inc\<close> counts.
\<close>

section \<open>A counting server\<close>

definition Inc_method :: "nat Method" where
  "Inc_method = \<lparr>mname = ''Inc'', exported = True, NumIn = 3, In2IsPtr = True, NumOut = 0,
                 Func = (\<lambda>n a. Some (Suc n, itoa n))\<rparr>"

definition counter_server :: "nat Server" where
  "counter_server = AddService (MakeService ''Ctr'' [Inc_method]) MakeServer"

definition inc_req :: reqMsg where
  "inc_req = \<lparr>req_endname = ''e'', svcMeth = ''Ctr.Inc'', args = ''''\<rparr>"

definition setup_labels :: "label list" where
  "setup_labels = map Admin [OpMakeEnd ''e'', OpConnect ''e'' ''srv'', OpAddServer ''srv'' 0, OpEnable ''e'' True] @ [Send inc_req]"

lemmas counter_eval = counter_server_def Inc_method_def inc_req_def setup_labels_def start_system_def MakeNetwork_def
  MakeServer_def MakeService_def AddService_def rpc_step_def req_step_def MakeEnd_def Connect_def AddServer_def
  Enable_def set_req_def accept_def add_bytes_def lookup_phase_def readEndnameInfo_def is_enabled_def
  drop_phase_def Server_dispatch_def Service_dispatch_def leave_phase_def isServerDead_def DeleteServer_def Let_def

lemma call_run:
  "\<exists>s. rpc_run (setup_labels @ [Accept 0, Lookup 0, Admit 0 7, Execute 0, Receive 0, Leave 0 7 7])
     (start_system (\<lambda>_. counter_server) 5) = Some s \<and> length (reqs s) = 1 \<and>
     r_state (reqs s ! 0) = Replied \<lparr>ok = True, reply = itoa 5\<rparr>"
  by (simp add: counter_eval)

section \<open>Claims\<close>

text \<open>C4. What \<open>Call\<close> promises: in every run of the network, whatever is delayed, dropped, reordered,
  disabled or deleted, the handler of a request runs at most once; and when a request is answered
  positively its handler has run exactly once, on the request's own message, and the answer is what
  that execution returned.\<close>

theorem rpc_at_most_once:
  assumes "rpc_run ls (start_system os st) = Some s" "i < length (reqs s)"
  shows "executions i ls \<le> 1 \<and>
    (r_state (reqs s ! i) = Replied rep \<and> ok rep \<longrightarrow>
      (\<exists>ls1 ls2 s1 a rs st'. ls = ls1 @ Execute i # ls2 \<and> executions i ls1 = 0 \<and> executions i ls2 = 0 \<and>
         rpc_run ls1 (start_system os st) = Some s1 \<and>
         Server_dispatch (objs s1 a) (app s1) (r_msg (reqs s ! i)) = Some (rs, st', rep)))"
proof (intro conjI impI)
  have p: "progress_ok (executions i ls) (reqs s ! i)" using progress_run [OF assms(1)] assms(2) by blast
  then show e: "executions i ls \<le> 1" by (auto simp: progress_ok_def split: estate.splits)
  assume r: "r_state (reqs s ! i) = Replied rep \<and> ok rep"
  then obtain a where f: "r_exec (reqs s ! i) = Finished a rep"
    using p by (auto simp: progress_ok_def split: estate.splits)
  have "reqs (start_system os st) = []" by (simp add: start_system_def)
  from finished_origin [OF assms(1) this assms(2) f] obtain ls1 ls2 s1 rs st' where
    o: "ls = ls1 @ Execute i # ls2" "rpc_run ls1 (start_system os st) = Some s1"
      "Server_dispatch (objs s1 a) (app s1) (r_msg (reqs s ! i)) = Some (rs, st', rep)" by blast
  have "executions i ls = Suc (executions i ls1 + executions i ls2)" using o(1) by (simp add: executions_def)
  with e have "executions i ls1 = 0" "executions i ls2 = 0" by auto
  with o show "\<exists>ls1 ls2 s1 a rs st'. ls = ls1 @ Execute i # ls2 \<and> executions i ls1 = 0 \<and> executions i ls2 = 0 \<and>
         rpc_run ls1 (start_system os st) = Some s1 \<and>
         Server_dispatch (objs s1 a) (app s1) (r_msg (reqs s ! i)) = Some (rs, st', rep)" by blast
qed

theorem rpc_at_most_once_witness:
  "\<exists>s1 a rs st'. rpc_run (setup_labels @ [Accept 0, Lookup 0, Admit 0 7]) (start_system (\<lambda>_. counter_server) 5) = Some s1 \<and>
    Server_dispatch (objs s1 a) (app s1) inc_req = Some (rs, st', \<lparr>ok = True, reply = itoa 5\<rparr>)"
proof -
  let ?ls = "setup_labels @ [Accept 0, Lookup 0, Admit 0 7, Execute 0, Receive 0, Leave 0 7 7]"
  obtain s where s: "rpc_run ?ls (start_system (\<lambda>_. counter_server) 5) = Some s" "0 < length (reqs s)"
    "r_state (reqs s ! 0) = Replied \<lparr>ok = True, reply = itoa 5\<rparr>" using call_run by (metis zero_less_one)
  obtain ls1 ls2 s1 a rs st' where r: "?ls = ls1 @ Execute 0 # ls2" "executions 0 ls1 = 0" "executions 0 ls2 = 0"
    "rpc_run ls1 (start_system (\<lambda>_. counter_server) 5) = Some s1"
    "Server_dispatch (objs s1 a) (app s1) (r_msg (reqs s ! 0)) = Some (rs, st', \<lparr>ok = True, reply = itoa 5\<rparr>)"
    using rpc_at_most_once [OF s(1,2), of "\<lparr>ok = True, reply = itoa 5\<rparr>"] s(3) by auto
  have m: "r_msg (reqs s ! 0) = inc_req" using s(1) by (simp add: counter_eval) (auto simp: inc_req_def)
  have "Execute 0 \<notin> set ls1" using r(2) by (simp add: executions_def count_list_0_iff)
  then have "ls1 = takeWhile (\<lambda>l. l \<noteq> Execute 0) (ls1 @ Execute 0 # ls2)"
    by (subst takeWhile_append2) auto
  also have "\<dots> = setup_labels @ [Accept 0, Lookup 0, Admit 0 7]" unfolding r(1) [symmetric] by (simp add: setup_labels_def)
  finally show ?thesis using r(4,5) m by metis
qed

text \<open>C17. A deleted server does not answer: once \<open>DeleteServer\<close> or a replacement has taken away the
  server that is processing a request, and as long as that same server is not installed again, the
  request can only be answered negatively, even if its handler completes later.\<close>

theorem deleted_server_is_silent:
  assumes "i < length (reqs s)" "servers (net s) sn \<noteq> Some a"
    and "r_state (reqs s ! i) = Waiting sn a rel lre \<or> r_state (reqs s ! i) = Leaving sn a rel lre m"
    and "Admin (OpAddServer sn a) \<notin> set ls" "rpc_run ls s = Some s'" "r_state (reqs s' ! i) = Replied rep"
  shows "\<not> ok rep"
proof -
  have "orphan i sn a s" using assms(1-3) by (auto simp: orphan_def)
  then have "orphan i sn a s'"
    using assms(4) by (intro rpc_run_invariant [OF _ assms(5), of "orphan i sn a"]) (auto intro: orphan_step)
  then show ?thesis using assms(6) by (simp add: orphan_def)
qed

theorem deleted_server_is_silent_witness:
  "\<exists>s s' rep. rpc_run (setup_labels @ [Accept 0, Lookup 0, Admit 0 7, Execute 0, Admin (OpDeleteServer ''srv'')])
       (start_system (\<lambda>_. counter_server) 5) = Some s \<and>
    rpc_run [Admin (OpAddServer ''srv'' 1), Receive 0, Leave 0 7 7] s = Some s' \<and>
    r_state (reqs s' ! 0) = Replied rep \<and> \<not> ok rep"
proof -
  obtain s where s: "rpc_run (setup_labels @ [Accept 0, Lookup 0, Admit 0 7, Execute 0, Admin (OpDeleteServer ''srv'')])
       (start_system (\<lambda>_. counter_server) 5) = Some s" "0 < length (reqs s)" "servers (net s) ''srv'' \<noteq> Some 0"
    "r_state (reqs s ! 0) = Waiting ''srv'' 0 True False" "r_exec (reqs s ! 0) = Finished 0 \<lparr>ok = True, reply = itoa 5\<rparr>"
    by (simp add: counter_eval)
  obtain s' rep where s': "rpc_run [Admin (OpAddServer ''srv'' 1), Receive 0, Leave 0 7 7] s = Some s'"
    "r_state (reqs s' ! 0) = Replied rep"
    using s(2,4,5) by (simp add: rpc_step_def req_step_def set_req_def AddServer_def leave_phase_def isServerDead_def)
  have "\<not> ok rep"
    by (rule deleted_server_is_silent [OF s(2,3) _ _ s']) (use s(4) in auto)
  with s(1) s' show ?thesis by blast
qed

text \<open>C30. \<open>Call\<close> always returns: in every state that the network reaches, every request that has not
  been answered can be answered by at most seven steps of its own goroutines (no step of any other
  request and no administrative operation is needed), provided its handler returns.\<close>

theorem call_returns:
  assumes "rpc_run ls (start_system os st) = Some s" "i < length (reqs s)"
    and "\<forall>a. Server_dispatch (objs s a) (app s) (r_msg (reqs s ! i)) \<noteq> None"
  shows "\<exists>ms s' rep. length ms \<le> 7 \<and> (\<forall>l \<in> set ms. label_req l = Some i) \<and> rpc_run ms s = Some s' \<and>
    r_state (reqs s' ! i) = Replied rep"
proof -
  have p: "progress_ok (executions i ls) (reqs s ! i)" using progress_run [OF assms(1)] assms(2) by blast
  have "listening (start_system os st) \<or> net_done (net (start_system os st))" by (simp add: start_system_def)
  then have l: "listening s \<or> net_done (net s)"
    by (rule rpc_run_invariant [OF _ assms(1)]) (rule listening_step)
  have w: "\<exists>b. r_exec (reqs s ! i) = Running b \<or> (\<exists>m. r_exec (reqs s ! i) = Finished b m)"
    if "r_state (reqs s ! i) = Waiting sn a rel lre" for sn a rel lre
    using p that by (auto simp: progress_ok_def split: estate.splits)
  have "answerable 7 i s"
  proof (cases "r_state (reqs s ! i)")
    case (Replied m)
    then show ?thesis using assms(2) by (intro answerable_now) (simp add: replied_def)
  next
    case Sent
    then show ?thesis using answer_sent [OF assms(2) _ l assms(3)] by blast
  next
    case Arrived
    then show ?thesis using answer_arrived [OF assms(2) _ assms(3)] answerable_mono [of 6 i s 7] by simp
  next
    case (Admitted sn a rel lre)
    then show ?thesis using answer_admitted [OF assms(2) _ assms(3)] answerable_mono [of 5 i s 7] by simp
  next
    case (Waiting sn a rel lre)
    then show ?thesis using answer_waiting [OF assms(2) Waiting w [OF Waiting] assms(3)] answerable_mono [of 4 i s 7] by simp
  next
    case (Leaving sn a rel lre m)
    then show ?thesis using answer_leaving [OF assms(2)] answerable_mono [of 2 i s 7] by simp
  qed (use answer_timer [OF assms(2)] answerable_mono [of 1 i s 7] in simp_all)
  then obtain ms s' where ms: "length ms \<le> 7" "\<forall>l \<in> set ms. label_req l = Some i" "rpc_run ms s = Some s'" "replied i s'"
    unfolding answerable_def by blast
  then obtain rep where "r_state (reqs s' ! i) = Replied rep" by (auto simp: replied_def split: pstate.splits)
  with ms show ?thesis by blast
qed

theorem call_returns_witness:
  "\<exists>s ms s' rep. rpc_run setup_labels (start_system (\<lambda>_. counter_server) 5) = Some s \<and>
    length ms \<le> 7 \<and> rpc_run ms s = Some s' \<and> r_state (reqs s' ! 0) = Replied rep"
proof -
  obtain s where s: "rpc_run setup_labels (start_system (\<lambda>_. counter_server) 5) = Some s" "0 < length (reqs s)"
    "\<forall>a. Server_dispatch (objs s a) (app s) (r_msg (reqs s ! 0)) \<noteq> None"
    by (simp add: counter_eval)
  show ?thesis using s(1) call_returns [OF s] by blast
qed

text \<open>On a reliable network nothing is lost: if the network is reliable and does not reorder, the
  end of a request is enabled and connected to an installed server, and no administrative operation
  intervenes, then, whatever other requests do, the request is never answered negatively by the
  network: any answer is the result of its own handler.\<close>

theorem reliable_call_succeeds:
  assumes "i < length (reqs s)" "r_state (reqs s ! i) = Sent"
    and "route_ok (req_endname (r_msg (reqs s ! i))) sn a (net s)"
    and "\<forall>op. Admin op \<notin> set ls" "rpc_run ls s = Some s'" "r_state (reqs s' ! i) = Replied rep"
  shows "\<exists>b. r_exec (reqs s' ! i) = Finished b rep"
proof -
  have "served i sn a s \<and> heard i s" using assms(1-3) by (simp add: served_def heard_def)
  then have "served i sn a s' \<and> heard i s'"
    by (rule rpc_run_invariant [OF _ assms(5)]) (rule served_step, use assms(4) in auto)
  then show ?thesis using assms(6) by (simp add: served_def)
qed

theorem reliable_call_succeeds_witness:
  "\<exists>s s' rep b. rpc_run setup_labels (start_system (\<lambda>_. counter_server) 5) = Some s \<and>
    rpc_run [Accept 0, Lookup 0, Admit 0 7, Execute 0, Receive 0, Leave 0 7 7] s = Some s' \<and>
    r_state (reqs s' ! 0) = Replied rep \<and> r_exec (reqs s' ! 0) = Finished b rep"
proof -
  let ?ls = "[Accept 0, Lookup 0, Admit 0 7, Execute 0, Receive 0, Leave 0 7 7]"
  obtain s where s: "rpc_run setup_labels (start_system (\<lambda>_. counter_server) 5) = Some s" "0 < length (reqs s)"
    "r_state (reqs s ! 0) = Sent" "route_ok (req_endname (r_msg (reqs s ! 0))) ''srv'' 0 (net s)"
    by (simp add: counter_eval route_ok_def)
  obtain s' where s': "rpc_run ?ls s = Some s'" "r_state (reqs s' ! 0) = Replied \<lparr>ok = True, reply = itoa 5\<rparr>"
    using call_run s(1) by (auto simp: rpc_run_append simp del: rpc_run.simps)
  have "\<exists>b. r_exec (reqs s' ! 0) = Finished b \<lparr>ok = True, reply = itoa 5\<rparr>"
    by (rule reliable_call_succeeds [OF s(2-4) _ s']) simp
  with s(1) s' show ?thesis by blast
qed

text \<open>Dispatch by name: a call of \<open>Svc.Meth\<close> reaches the method \<open>Meth\<close> of the service \<open>Svc\<close> that was
  added last under that name, if the method has the shape of a handler, and counts one RPC; a method
  that does not have that shape, and a name without a dot, end the process.\<close>

theorem dispatch_reaches_method:
  assumes "m \<in> set ms" "distinct (map mname ms)" "CHR ''.'' \<notin> set (mname m)" "dispatchf rs = None"
    and "svcMeth req = svc @ ''.'' @ mname m"
  shows "Server_dispatch (AddService (MakeService svc ms) rs) st req =
    (if suitable m
     then map_option (\<lambda>(st', bytes). ((AddService (MakeService svc ms) rs)\<lparr>srv_count := srv_count rs + 1\<rparr>, st',
                        \<lparr>ok = True, reply = bytes\<rparr>)) (Func m st (args req))
     else None) \<and>
    (CHR ''.'' \<notin> set (svcMeth req') \<longrightarrow> Server_dispatch rs st req' = None)"
proof -
  have dot: "last_dot (svcMeth req) = Some (length svc)" using last_dot_join [OF assms(3)] assms(5) by simp
  have "method_loop ms Map.empty (mname m) = (if suitable m then Some m else None)"
    using method_loop_get [OF assms(2,1)] by simp
  then show ?thesis using assms(4,5) dot
    by (auto simp: Server_dispatch_def Service_dispatch_def MakeService_def AddService_def Let_def last_dot_None
      split: option.splits bind_split)
qed

theorem dispatch_reaches_method_witness:
  "Server_dispatch (AddService (MakeService ''Ctr'' [Inc_method]) MakeServer) 5 inc_req =
     Some ((AddService (MakeService ''Ctr'' [Inc_method]) MakeServer)\<lparr>srv_count := 1\<rparr>, 6, \<lparr>ok = True, reply = itoa 5\<rparr>)"
  using dispatch_reaches_method [of Inc_method "[Inc_method]" MakeServer inc_req "''Ctr''" 5 inc_req]
  by (simp add: Inc_method_def inc_req_def MakeServer_def suitable_def)

end
