(* ===== verification/Tester.thy ===== *)
theory Tester
  imports Labrpc
begin

text \<open>
  The test framework on top of the simulated network: persisters (\<open>tester1/persister.go\<close>), servers
  and their client ends (\<open>tester1/srv.go\<close>), server groups with connect, disconnect, partition,
  shutdown and restart (\<open>tester1/group.go\<close>), and clients (\<open>tester1/clnts.go\<close>).  The network is passed
  along; the strings that \<open>Randstring\<close> draws are arguments.  A running server process is represented by
  the persister it holds.  \<open>None\<close> is a panic (index out of range, nil dereference) or \<open>log.Fatalf\<close>.
\<close>

section \<open>Persisters\<close>

record Persister =
  raftstate :: string
  snapshot :: string

definition MakePersister :: Persister where
  "MakePersister = \<lparr>raftstate = '''', snapshot = ''''\<rparr>"

definition Checkpoint :: "Persister \<Rightarrow> Persister" where
  "Checkpoint ps = (let np = MakePersister in np\<lparr>raftstate := raftstate ps, snapshot := snapshot ps\<rparr>)"

definition ReadRaftState :: "Persister \<Rightarrow> string" where
  "ReadRaftState ps = raftstate ps"

definition RaftStateSize :: "Persister \<Rightarrow> nat" where
  "RaftStateSize ps = length (raftstate ps)"

definition Save :: "string \<Rightarrow> string \<Rightarrow> Persister \<Rightarrow> Persister" where
  "Save rs sn ps = ps\<lparr>raftstate := rs, snapshot := sn\<rparr>"

definition ReadSnapshot :: "Persister \<Rightarrow> string" where
  "ReadSnapshot ps = snapshot ps"

definition Persister_SnapshotSize :: "Persister \<Rightarrow> nat" where
  "Persister_SnapshotSize ps = length (snapshot ps)"

section \<open>Servers\<close>

definition ServerName :: "nat \<Rightarrow> nat \<Rightarrow> string" where
  "ServerName gid i = ''server-'' @ itoa gid @ ''-'' @ itoa i"

record TServer =
  saved :: "Persister option"
  endNames :: "string list"
  dc :: "Persister option"

fun make_ends :: "nat \<Rightarrow> nat \<Rightarrow> string list \<Rightarrow> Network \<Rightarrow> Network option" where
  "make_ends gid j [] rn = Some rn"
| "make_ends gid j (e # es) rn = do {
     (rn, _) \<leftarrow> MakeEnd e rn;
     make_ends gid (Suc j) es (Connect e (ServerName gid j) rn) }"

text \<open>\<open>names\<close> are the random names of the fresh ends, one per server of the group.\<close>

definition makeTServer :: "nat \<Rightarrow> string list \<Rightarrow> Network \<Rightarrow> (Network \<times> TServer) option" where
  "makeTServer gid names rn = do {
     rn \<leftarrow> make_ends gid 0 names rn;
     Some (rn, \<lparr>saved = None, endNames = names, dc = None\<rparr>) }"

definition startTServer :: "nat \<Rightarrow> string list \<Rightarrow> TServer \<Rightarrow> Network \<Rightarrow> (Network \<times> TServer) option" where
  "startTServer gid names s rn = do {
     (rn, srv) \<leftarrow> makeTServer gid names rn;
     Some (rn, srv\<lparr>saved := (case saved s of None \<Rightarrow> Some MakePersister | Some p \<Rightarrow> Some p)\<rparr>) }"

definition shutdownTServer :: "TServer \<Rightarrow> TServer" where
  "shutdownTServer s =
     (case dc s of Some p \<Rightarrow> s\<lparr>saved := Some (Checkpoint p), dc := None\<rparr> | None \<Rightarrow> s)"

definition snapshotSize :: "TServer \<Rightarrow> nat option" where
  "snapshotSize s = (case dc s of Some p \<Rightarrow> Some (Persister_SnapshotSize p) | None \<Rightarrow> map_option Persister_SnapshotSize (saved s))"

definition raftSize :: "TServer \<Rightarrow> nat option" where
  "raftSize s = (case dc s of Some p \<Rightarrow> Some (RaftStateSize p) | None \<Rightarrow> map_option RaftStateSize (saved s))"

section \<open>Server groups\<close>

record ServerGrp =
  srvs :: "TServer list"
  servernames :: "string list"
  gid :: nat
  connected :: "bool list"

fun make_servers :: "nat \<Rightarrow> string list list \<Rightarrow> Network \<Rightarrow> (Network \<times> TServer list) option" where
  "make_servers g [] rn = Some (rn, [])"
| "make_servers g (names # rest) rn = do {
     (rn, s) \<leftarrow> makeTServer g names rn;
     (rn, ss) \<leftarrow> make_servers g rest rn;
     Some (rn, s # ss) }"

definition makeSrvGrp :: "nat \<Rightarrow> string list list \<Rightarrow> Network \<Rightarrow> (Network \<times> ServerGrp) option" where
  "makeSrvGrp g namess rn = do {
     (rn, ss) \<leftarrow> make_servers g namess rn;
     Some (rn, \<lparr>srvs = ss, servernames = map (ServerName g) [0..<length namess], gid = g,
                 connected = replicate (length namess) False\<rparr>) }"

definition N :: "ServerGrp \<Rightarrow> nat" where
  "N sg = length (srvs sg)"

definition SrvNames :: "ServerGrp \<Rightarrow> string list" where
  "SrvNames sg = servernames sg"

definition SrvName :: "ServerGrp \<Rightarrow> nat \<Rightarrow> string option" where
  "SrvName sg i = slice_get (servernames sg) i"

fun SrvNamesTo :: "ServerGrp \<Rightarrow> nat list \<Rightarrow> string list option" where
  "SrvNamesTo sg [] = Some []"
| "SrvNamesTo sg (i # is) = do { n \<leftarrow> slice_get (servernames sg) i; ns \<leftarrow> SrvNamesTo sg is; Some (n # ns) }"

definition all :: "ServerGrp \<Rightarrow> nat list" where
  "all sg = [0..<length (srvs sg)]"

definition IsConnected :: "ServerGrp \<Rightarrow> nat \<Rightarrow> bool option" where
  "IsConnected sg i = slice_get (connected sg) i"

definition GetConnected :: "ServerGrp \<Rightarrow> bool list" where
  "GetConnected sg = connected sg"

text \<open>\<open>Server.connect\<close> and \<open>Server.disconnect\<close>: the outgoing ends.\<close>

fun out_connect :: "ServerGrp \<Rightarrow> TServer \<Rightarrow> nat list \<Rightarrow> Network \<Rightarrow> Network option" where
  "out_connect sg s [] rn = Some rn"
| "out_connect sg s (j # js) rn = do {
     c \<leftarrow> IsConnected sg j;
     (if c then do { e \<leftarrow> slice_get (endNames s) j; out_connect sg s js (Enable e True rn) }
      else out_connect sg s js rn) }"

fun out_disconnect :: "TServer \<Rightarrow> nat list \<Rightarrow> Network \<Rightarrow> Network option" where
  "out_disconnect s [] rn = Some rn"
| "out_disconnect s (j # js) rn = do {
     e \<leftarrow> slice_get (endNames s) j;
     out_disconnect s js (Enable e False rn) }"

fun in_connect :: "ServerGrp \<Rightarrow> nat \<Rightarrow> nat list \<Rightarrow> Network \<Rightarrow> Network option" where
  "in_connect sg i [] rn = Some rn"
| "in_connect sg i (j # js) rn = do {
     c \<leftarrow> IsConnected sg j;
     (if c then do {
        s \<leftarrow> slice_get (srvs sg) j;
        e \<leftarrow> slice_get (endNames s) i;
        in_connect sg i js (Enable e True rn) }
      else in_connect sg i js rn) }"

fun in_disconnect :: "ServerGrp \<Rightarrow> nat \<Rightarrow> nat list \<Rightarrow> Network \<Rightarrow> Network option" where
  "in_disconnect sg i [] rn = Some rn"
| "in_disconnect sg i (j # js) rn = do {
     s \<leftarrow> slice_get (srvs sg) j;
     e \<leftarrow> slice_get (endNames s) i;
     in_disconnect sg i js (Enable e False rn) }"

definition connect :: "nat \<Rightarrow> nat list \<Rightarrow> Network \<times> ServerGrp \<Rightarrow> (Network \<times> ServerGrp) option" where
  "connect i to = (\<lambda>(rn, sg). do {
     cs \<leftarrow> slice_put (connected sg) i True;
     let sg = sg\<lparr>connected := cs\<rparr>;
     s \<leftarrow> slice_get (srvs sg) i;
     rn \<leftarrow> out_connect sg s to rn;
     rn \<leftarrow> in_connect sg i to rn;
     Some (rn, sg) })"

definition disconnect :: "nat \<Rightarrow> nat list \<Rightarrow> Network \<times> ServerGrp \<Rightarrow> (Network \<times> ServerGrp) option" where
  "disconnect i froms = (\<lambda>(rn, sg). do {
     cs \<leftarrow> slice_put (connected sg) i False;
     let sg = sg\<lparr>connected := cs\<rparr>;
     s \<leftarrow> slice_get (srvs sg) i;
     rn \<leftarrow> out_disconnect s froms rn;
     rn \<leftarrow> in_disconnect sg i froms rn;
     Some (rn, sg) })"

definition ConnectOne :: "nat \<Rightarrow> Network \<times> ServerGrp \<Rightarrow> (Network \<times> ServerGrp) option" where
  "ConnectOne i = (\<lambda>(rn, sg). connect i (all sg) (rn, sg))"

fun each :: "('i \<Rightarrow> 'a \<Rightarrow> 'a option) \<Rightarrow> 'i list \<Rightarrow> 'a \<Rightarrow> 'a option" where
  "each f [] x = Some x"
| "each f (i # is) x = do { y \<leftarrow> f i x; each f is y }"

definition ConnectAll :: "Network \<times> ServerGrp \<Rightarrow> (Network \<times> ServerGrp) option" where
  "ConnectAll = (\<lambda>(rn, sg). each ConnectOne (all sg) (rn, sg))"

definition DisconnectAll :: "nat \<Rightarrow> Network \<times> ServerGrp \<Rightarrow> (Network \<times> ServerGrp) option" where
  "DisconnectAll i = (\<lambda>(rn, sg). disconnect i (all sg) (rn, sg))"

definition ShutdownServer :: "nat \<Rightarrow> Network \<times> ServerGrp \<Rightarrow> (Network \<times> ServerGrp) option" where
  "ShutdownServer i = (\<lambda>(rn, sg). do {
     (rn, sg) \<leftarrow> disconnect i (all sg) (rn, sg);
     let rn = DeleteServer (ServerName (gid sg) i) rn;
     s \<leftarrow> slice_get (srvs sg) i;
     Some (rn, sg\<lparr>srvs := (srvs sg)[i := shutdownTServer s]\<rparr>) })"

definition Kill :: "nat list \<Rightarrow> Network \<times> ServerGrp \<Rightarrow> (Network \<times> ServerGrp) option" where
  "Kill is = each ShutdownServer is"

definition Shutdown :: "Network \<times> ServerGrp \<Rightarrow> (Network \<times> ServerGrp) option" where
  "Shutdown = (\<lambda>(rn, sg). Kill (all sg) (rn, sg))"

text \<open>\<open>names\<close> are the fresh end names and \<open>a\<close> the address of the new server object.  The process
  starts from the saved state; that starting it fails is not modelled.\<close>

definition StartServer :: "nat \<times> string list \<times> nat \<Rightarrow> Network \<times> ServerGrp \<Rightarrow> (Network \<times> ServerGrp) option" where
  "StartServer = (\<lambda>(i, names, a) (rn, sg). do {
     s \<leftarrow> slice_get (srvs sg) i;
     (rn, srv) \<leftarrow> startTServer (gid sg) names s rn;
     let srv = srv\<lparr>dc := saved srv\<rparr>;
     Some (AddServer (ServerName (gid sg) i) a rn, sg\<lparr>srvs := (srvs sg)[i := srv]\<rparr>) })"

definition StartSrvs :: "(nat \<times> string list \<times> nat) list \<Rightarrow> Network \<times> ServerGrp \<Rightarrow> (Network \<times> ServerGrp) option" where
  "StartSrvs xs = each StartServer xs"

definition StartServers :: "(nat \<times> string list \<times> nat) list \<Rightarrow> Network \<times> ServerGrp \<Rightarrow> (Network \<times> ServerGrp) option" where
  "StartServers xs p = do { p \<leftarrow> StartSrvs xs p; ConnectAll p }"

fun max_size :: "(TServer \<Rightarrow> nat option) \<Rightarrow> TServer list \<Rightarrow> nat \<Rightarrow> nat option" where
  "max_size f [] m = Some m"
| "max_size f (s # ss) m = do { n \<leftarrow> f s; max_size f ss (if n > m then n else m) }"

definition RaftSize :: "ServerGrp \<Rightarrow> nat option" where
  "RaftSize sg = max_size raftSize (srvs sg) 0"

definition SnapshotSize :: "ServerGrp \<Rightarrow> nat option" where
  "SnapshotSize sg = max_size snapshotSize (srvs sg) 0"

fun assign_sides :: "nat \<Rightarrow> nat list \<Rightarrow> nat \<Rightarrow> nat list \<Rightarrow> nat list \<Rightarrow> (nat list \<times> nat list) option" where
  "assign_sides l [] j p1 p2 = Some (p1, p2)"
| "assign_sides l (i # is) j p1 p2 =
     (if i \<noteq> l then
        (if j < length p1 then assign_sides l is (Suc j) (p1[j := i]) p2
         else do { p2 \<leftarrow> slice_put p2 (j - length p1) i; assign_sides l is (Suc j) p1 p2 })
      else assign_sides l is j p1 p2)"

definition MakePartition :: "nat \<Rightarrow> nat \<Rightarrow> (nat list \<times> nat list) option" where
  "MakePartition n l = do {
     (p1, p2) \<leftarrow> assign_sides l [0..<n] 0 (replicate (n div 2 + 1) 0) (replicate (n div 2) 0);
     p2 \<leftarrow> int_put p2 (int (length p2) - 1) l;
     Some (p1, p2) }"

definition Partition :: "nat list \<Rightarrow> nat list \<Rightarrow> Network \<times> ServerGrp \<Rightarrow> (Network \<times> ServerGrp) option" where
  "Partition p1 p2 st = do {
     st \<leftarrow> each (\<lambda>i st. do { st \<leftarrow> disconnect i p2 st; connect i p1 st }) p1 st;
     each (\<lambda>i st. do { st \<leftarrow> disconnect i p1 st; connect i p2 st }) p2 st }"

definition RpcCount :: "nat \<Rightarrow> (nat \<Rightarrow> 's Server) \<Rightarrow> Network \<times> ServerGrp \<Rightarrow> int option" where
  "RpcCount i os = (\<lambda>(rn, sg). GetCount (ServerName (gid sg) i) os rn)"

section \<open>Clients\<close>

text \<open>The ends of a client by server name, in the order they were made (every loop over them performs
  the same operation on each, so the visiting order does not matter); no list of servers means all.\<close>

record Clnt =
  clnt_ends :: "(string \<times> string) list"
  clnt_srvs :: "string list option"

definition makeClntTo :: "string list option \<Rightarrow> Clnt" where
  "makeClntTo to = \<lparr>clnt_ends = [], clnt_srvs = to\<rparr>"

definition allowedL :: "Clnt \<Rightarrow> string \<Rightarrow> bool" where
  "allowedL c server = (case clnt_srvs c of None \<Rightarrow> True | Some ns \<Rightarrow> server \<in> set ns)"

text \<open>\<open>name\<close> is the random name of a fresh end; the name of the client's end is returned.\<close>

definition Clnt_makeEnd :: "string \<Rightarrow> string \<Rightarrow> Network \<times> Clnt \<Rightarrow> (string \<times> Network \<times> Clnt) option" where
  "Clnt_makeEnd name server = (\<lambda>(rn, c).
     (case map_of (clnt_ends c) server of
        Some e \<Rightarrow> Some (e, rn, c)
      | None \<Rightarrow> do {
          (rn, _) \<leftarrow> MakeEnd name rn;
          let rn = Connect name server rn;
          let rn = (if allowedL c server then Enable name True rn else Enable name False rn);
          Some (name, rn, c\<lparr>clnt_ends := clnt_ends c @ [(server, name)]\<rparr>) }))"

fun enable_each :: "bool \<Rightarrow> (string \<times> string) list \<Rightarrow> Network \<Rightarrow> Network" where
  "enable_each b [] rn = rn"
| "enable_each b ((s, e) # es) rn = enable_each b es (Enable e b rn)"

definition Clnt_ConnectAll :: "Network \<times> Clnt \<Rightarrow> Network \<times> Clnt" where
  "Clnt_ConnectAll = (\<lambda>(rn, c). (enable_each True (clnt_ends c) rn, c\<lparr>clnt_srvs := None\<rparr>))"

definition Clnt_ConnectTo :: "string list \<Rightarrow> Network \<times> Clnt \<Rightarrow> Network \<times> Clnt" where
  "Clnt_ConnectTo ss = (\<lambda>(rn, c).
     let c = c\<lparr>clnt_srvs := Some ss\<rparr>
     in (enable_each True (filter (\<lambda>(s, e). allowedL c s) (clnt_ends c)) rn, c))"

definition Clnt_Disconnect :: "string \<Rightarrow> Network \<times> Clnt \<Rightarrow> Network \<times> Clnt" where
  "Clnt_Disconnect srv = (\<lambda>(rn, c). (enable_each False (filter (\<lambda>(s, e). s = srv) (clnt_ends c)) rn, c))"

definition Clnt_DisconnectAll :: "Network \<times> Clnt \<Rightarrow> Network \<times> Clnt" where
  "Clnt_DisconnectAll = (\<lambda>(rn, c). (enable_each False (clnt_ends c) rn, c\<lparr>clnt_srvs := Some []\<rparr>))"

fun delete_ends :: "(string \<times> string) list \<Rightarrow> Network \<Rightarrow> Network option" where
  "delete_ends [] rn = Some rn"
| "delete_ends ((s, e) # es) rn = do { rn \<leftarrow> DeleteEnd e rn; delete_ends es rn }"

definition Clnt_remove :: "Network \<times> Clnt \<Rightarrow> Network option" where
  "Clnt_remove = (\<lambda>(rn, c). delete_ends (clnt_ends c) rn)"

definition Clnts_makeEnd :: "string \<Rightarrow> string \<Rightarrow> Network \<Rightarrow> (Network \<times> ClientEnd) option" where
  "Clnts_makeEnd name servername rn = do {
     (rn, e) \<leftarrow> MakeEnd name rn;
     Some (Enable name True (Connect name servername rn), e) }"

text \<open>The set of clients, by address; a client is created at a fresh address.\<close>

definition MakeClientTo :: "nat \<Rightarrow> string list option \<Rightarrow> (nat \<rightharpoonup> Clnt) \<Rightarrow> (nat \<rightharpoonup> Clnt)" where
  "MakeClientTo a to clerks = clerks(a \<mapsto> makeClntTo to)"

definition MakeClient :: "nat \<Rightarrow> (nat \<rightharpoonup> Clnt) \<Rightarrow> (nat \<rightharpoonup> Clnt)" where
  "MakeClient a clerks = MakeClientTo a None clerks"

definition DeleteClient :: "nat \<Rightarrow> Network \<times> (nat \<rightharpoonup> Clnt) \<Rightarrow> (Network \<times> (nat \<rightharpoonup> Clnt)) option" where
  "DeleteClient a = (\<lambda>(rn, clerks).
     (case clerks a of
        Some c \<Rightarrow> do { rn \<leftarrow> Clnt_remove (rn, c); Some (rn, clerks(a := None)) }
      | None \<Rightarrow> Some (rn, clerks)))"

end
