(* ===== verification/Enabling.thy ===== *)
theory Enabling
  imports Labrpc
begin

text \<open>
  Enabling or disabling the ends of a list, which is what the loops of both test harnesses that connect
  and disconnect servers come down to.
\<close>

section \<open>Enabling a list of ends\<close>

definition enable_names :: "bool \<Rightarrow> string list \<Rightarrow> Network \<Rightarrow> Network" where
  "enable_names b es rn = fold (\<lambda>e. Enable e b) es rn"

lemma enable_names_simps [simp]:
  "enable_names b [] rn = rn" "enable_names b (e # es) rn = enable_names b es (Enable e b rn)"
  "enable_names b (es @ fs) rn = enable_names b fs (enable_names b es rn)"
  by (simp_all add: enable_names_def)

lemma is_enabled_names:
  "is_enabled (enable_names b es rn) e = (if e \<in> set es then b else is_enabled rn e)"
  by (induction es arbitrary: rn) (auto simp: is_enabled_def Enable_def)

lemma enable_names_frame [simp]:
  "servers (enable_names b es rn) = servers rn" "connections (enable_names b es rn) = connections rn"
  "ends (enable_names b es rn) = ends rn"
  by (induction es arbitrary: rn) (simp_all add: Enable_def)

section \<open>A fresh end\<close>

lemma new_end:
  assumes "ends rn e = None"
  obtains rn1 ce where "MakeEnd e rn = Some (rn1, ce)" "servers (Connect e s rn1) = servers rn"
    "\<And>x. is_enabled (Connect e s rn1) x = (x \<noteq> e \<and> is_enabled rn x)"
    "\<And>x. ends (Connect e s rn1) x \<noteq> None \<longleftrightarrow> x = e \<or> ends rn x \<noteq> None"
  using assms that by (auto simp: MakeEnd_def Connect_def Let_def is_enabled_def)

end
