(* ===== verification/Tester_Correct.thy ===== *)
theory Tester_Correct
  imports Tester Enabling
begin

text \<open>
  Connect and disconnect as operations on the matrix of enabled ends of a group, and the effect of
  the loops of \<open>Partition\<close> on it.
\<close>

section \<open>The matrix of a group\<close>

lemma enable_each_names: "enable_each b es rn = enable_names b (map snd es) rn"
  by (induction b es rn rule: enable_each.induct) auto

definition edge :: "ServerGrp \<Rightarrow> nat \<Rightarrow> nat \<Rightarrow> string" where
  "edge sg i j = endNames (srvs sg ! i) ! j"

definition group_ok :: "nat \<Rightarrow> ServerGrp \<Rightarrow> bool" where
  "group_ok n sg \<longleftrightarrow> length (srvs sg) = n \<and> length (connected sg) = n \<and>
     (\<forall>i < n. length (endNames (srvs sg ! i)) = n) \<and>
     (\<forall>i < n. \<forall>j < n. \<forall>i' < n. \<forall>j' < n. edge sg i j = edge sg i' j' \<longrightarrow> i = i' \<and> j = j')"

definition linked :: "Network \<times> ServerGrp \<Rightarrow> nat \<Rightarrow> nat \<Rightarrow> bool" where
  "linked p i j = is_enabled (fst p) (edge (snd p) i j)"

definition online :: "Network \<times> ServerGrp \<Rightarrow> nat \<Rightarrow> bool" where
  "online p i = connected (snd p) ! i"

definition own_end :: "nat \<Rightarrow> ServerGrp \<Rightarrow> string \<Rightarrow> bool" where
  "own_end n sg e \<longleftrightarrow> (\<exists>i < n. \<exists>j < n. e = edge sg i j)"

text \<open>What an operation on a group leaves alone: names, ends that exist, and the ends of others.\<close>

definition group_frame :: "nat \<Rightarrow> Network \<times> ServerGrp \<Rightarrow> Network \<times> ServerGrp \<Rightarrow> bool" where
  "group_frame n p p' \<longleftrightarrow> gid (snd p') = gid (snd p) \<and> servernames (snd p') = servernames (snd p) \<and>
     ends (fst p') = ends (fst p) \<and> (\<forall>e. own_end n (snd p') e = own_end n (snd p) e) \<and>
     (\<forall>e. \<not> own_end n (snd p) e \<longrightarrow> is_enabled (fst p') e = is_enabled (fst p) e)"

lemma group_frame_refl: "group_frame n p p"
  by (simp add: group_frame_def)

lemma group_frame_trans: "group_frame n p q \<Longrightarrow> group_frame n q r \<Longrightarrow> group_frame n p r"
  unfolding group_frame_def by (elim conjE) auto

lemma out_connect_eq:
  "\<forall>j \<in> set js. j < length (connected sg) \<and> j < length (endNames s) \<Longrightarrow>
   out_connect sg s js rn = Some (enable_names True (map ((!) (endNames s)) (filter ((!) (connected sg)) js)) rn)"
  by (induction js arbitrary: rn) (auto simp: IsConnected_def slice_get_def)

lemma in_connect_eq:
  "\<forall>j \<in> set js. j < length (connected sg) \<and> j < length (srvs sg) \<and> i < length (endNames (srvs sg ! j)) \<Longrightarrow>
   in_connect sg i js rn = Some (enable_names True (map (\<lambda>j. edge sg j i) (filter ((!) (connected sg)) js)) rn)"
  by (induction js arbitrary: rn) (auto simp: IsConnected_def slice_get_def edge_def)

lemma out_disconnect_eq:
  "\<forall>j \<in> set js. j < length (endNames s) \<Longrightarrow>
   out_disconnect s js rn = Some (enable_names False (map ((!) (endNames s)) js) rn)"
  by (induction js arbitrary: rn) (auto simp: slice_get_def)

lemma in_disconnect_eq:
  "\<forall>j \<in> set js. j < length (srvs sg) \<and> i < length (endNames (srvs sg ! j)) \<Longrightarrow>
   in_disconnect sg i js rn = Some (enable_names False (map (\<lambda>j. edge sg j i) js) rn)"
  by (induction js arbitrary: rn) (auto simp: slice_get_def edge_def)

lemma edge_connected [simp]: "edge (sg\<lparr>connected := cs\<rparr>) = edge sg"
  by (simp add: edge_def fun_eq_iff)

lemma group_ok_connected: "group_ok n sg \<Longrightarrow> length cs = n \<Longrightarrow> group_ok n (sg\<lparr>connected := cs\<rparr>)"
  by (simp add: group_ok_def)

lemma connect_matrix:
  assumes "group_ok n (snd p)" "i < n" "\<forall>j \<in> set to. j < n"
  shows "\<exists>p'. connect i to p = Some p' \<and> group_ok n (snd p') \<and> srvs (snd p') = srvs (snd p) \<and> gid (snd p') = gid (snd p) \<and>
    group_frame n p p' \<and>
    servers (fst p') = servers (fst p) \<and> (\<forall>a < n. online p' a = (a = i \<or> online p a)) \<and>
    (\<forall>a < n. \<forall>b < n. linked p' a b =
       (linked p a b \<or> a = i \<and> b \<in> set to \<and> online p' b \<or> b = i \<and> a \<in> set to \<and> online p' a))"
proof -
  obtain rn sg where p: "p = (rn, sg)" by force
  let ?sg = "sg\<lparr>connected := (connected sg)[i := True]\<rparr>"
  let ?es = "map ((!) (endNames (srvs sg ! i))) (filter ((!) (connected ?sg)) to)"
  let ?fs = "map (\<lambda>j. edge sg j i) (filter ((!) (connected ?sg)) to)"
  let ?p = "(enable_names True (?es @ ?fs) rn, ?sg)"
  have g: "group_ok n sg" using assms(1) p by simp
  have len: "length (srvs sg) = n" "length (connected sg) = n" "\<forall>j < n. length (endNames (srvs sg ! j)) = n"
    using g by (auto simp: group_ok_def)
  have inj: "edge sg a b = edge sg a' b' \<longleftrightarrow> a = a' \<and> b = b'" if "a < n" "b < n" "a' < n" "b' < n" for a b a' b'
    using g that unfolding group_ok_def by metis
  have own_out: "own_end n sg e" if "e \<in> set ?es" for e
    using that assms(2,3) by (auto simp: own_end_def edge_def)
  have own_in: "own_end n sg e" if "e \<in> set ?fs" for e
    using that assms(2,3) by (auto simp: own_end_def)
  have "connect i to p = Some ?p"
    using assms(2,3) len out_connect_eq [of to ?sg "srvs sg ! i" rn]
      in_connect_eq [of to ?sg i "enable_names True ?es rn"]
    by (simp add: p connect_def slice_put_def slice_get_def)
  moreover have "linked ?p a b = (linked p a b \<or> a = i \<and> b \<in> set to \<and> online ?p b \<or> b = i \<and> a \<in> set to \<and> online ?p a)"
    if ab: "a < n" "b < n" for a b
  proof -
    have "edge sg a b \<in> set ?es \<longleftrightarrow> a = i \<and> b \<in> set to \<and> online ?p b"
      using inj [OF ab assms(2)] ab assms(3) by (auto simp: online_def edge_def image_iff)
    moreover have "edge sg a b \<in> set ?fs \<longleftrightarrow> b = i \<and> a \<in> set to \<and> online ?p a"
      using inj [OF ab _ assms(2)] ab assms(3) by (auto simp: online_def image_iff)
    ultimately show ?thesis by (simp add: linked_def p is_enabled_names del: enable_names_simps(3)) blast
  qed
  moreover have "group_frame n p ?p"
    using own_out own_in by (auto simp: group_frame_def p own_end_def is_enabled_names simp del: enable_names_simps(3))
  ultimately show ?thesis
    using group_ok_connected [OF g] len assms(2) by (intro exI [of _ ?p]) (auto simp: online_def p nth_list_update)
qed

lemma disconnect_matrix:
  assumes "group_ok n (snd p)" "i < n" "\<forall>j \<in> set to. j < n"
  shows "\<exists>p'. disconnect i to p = Some p' \<and> group_ok n (snd p') \<and> srvs (snd p') = srvs (snd p) \<and> gid (snd p') = gid (snd p) \<and>
    group_frame n p p' \<and>
    servers (fst p') = servers (fst p) \<and> ends (fst p') = ends (fst p) \<and> (\<forall>a < n. online p' a = (a \<noteq> i \<and> online p a)) \<and>
    (\<forall>a < n. \<forall>b < n. linked p' a b = (linked p a b \<and> \<not> (a = i \<and> b \<in> set to) \<and> \<not> (b = i \<and> a \<in> set to)))"
proof -
  obtain rn sg where p: "p = (rn, sg)" by force
  let ?sg = "sg\<lparr>connected := (connected sg)[i := False]\<rparr>"
  let ?es = "map ((!) (endNames (srvs sg ! i))) to"
  let ?fs = "map (\<lambda>j. edge sg j i) to"
  let ?p = "(enable_names False (?es @ ?fs) rn, ?sg)"
  have g: "group_ok n sg" using assms(1) p by simp
  have len: "length (srvs sg) = n" "length (connected sg) = n" "\<forall>j < n. length (endNames (srvs sg ! j)) = n"
    using g by (auto simp: group_ok_def)
  have inj: "edge sg a b = edge sg a' b' \<longleftrightarrow> a = a' \<and> b = b'" if "a < n" "b < n" "a' < n" "b' < n" for a b a' b'
    using g that unfolding group_ok_def by metis
  have own_out: "own_end n sg e" if "e \<in> set ?es" for e
    using that assms(2,3) by (auto simp: own_end_def edge_def)
  have own_in: "own_end n sg e" if "e \<in> set ?fs" for e
    using that assms(2,3) by (auto simp: own_end_def)
  have "disconnect i to p = Some ?p"
    using assms(2,3) len out_disconnect_eq [of to "srvs sg ! i" rn]
      in_disconnect_eq [of to ?sg i "enable_names False ?es rn"]
    by (simp add: p disconnect_def slice_put_def slice_get_def)
  moreover have "linked ?p a b = (linked p a b \<and> \<not> (a = i \<and> b \<in> set to) \<and> \<not> (b = i \<and> a \<in> set to))"
    if ab: "a < n" "b < n" for a b
  proof -
    have "edge sg a b \<in> set ?es \<longleftrightarrow> a = i \<and> b \<in> set to"
      using inj [OF ab assms(2)] ab assms(3) by (auto simp: edge_def image_iff)
    moreover have "edge sg a b \<in> set ?fs \<longleftrightarrow> b = i \<and> a \<in> set to"
      using inj [OF ab _ assms(2)] ab assms(3) by (auto simp: image_iff)
    ultimately show ?thesis by (simp add: linked_def p is_enabled_names del: enable_names_simps(3))
  qed
  moreover have "group_frame n p ?p"
    using own_out own_in by (auto simp: group_frame_def p own_end_def is_enabled_names simp del: enable_names_simps(3))
  ultimately show ?thesis
    using group_ok_connected [OF g] len assms(2) by (intro exI [of _ ?p]) (auto simp: online_def p nth_list_update)
qed

section \<open>One side of a partition\<close>

lemma side_step:
  assumes "group_ok n (snd p)" "i \<in> set P" "set P \<subseteq> {..<n}" "set Q \<subseteq> {..<n}" "set P \<inter> set Q = {}"
  shows "\<exists>p'. do { p \<leftarrow> disconnect i Q p; connect i P p } = Some p' \<and> group_ok n (snd p') \<and> srvs (snd p') = srvs (snd p) \<and>
    (\<forall>a < n. online p' a = (a = i \<or> online p a)) \<and>
    (\<forall>a < n. \<forall>b < n. linked p' a b =
       (if a = i \<and> b \<in> set Q \<or> b = i \<and> a \<in> set Q then False
        else linked p a b \<or> a = i \<and> b \<in> set P \<and> online p' b \<or> b = i \<and> a \<in> set P \<and> online p' a))"
proof -
  have i: "i < n" and Q: "\<forall>j \<in> set Q. j < n" and P: "\<forall>j \<in> set P. j < n" using assms(2-4) by auto
  obtain q where q: "disconnect i Q p = Some q" "group_ok n (snd q)" "srvs (snd q) = srvs (snd p)"
    "\<forall>a < n. online q a = (a \<noteq> i \<and> online p a)"
    "\<forall>a < n. \<forall>b < n. linked q a b = (linked p a b \<and> \<not> (a = i \<and> b \<in> set Q) \<and> \<not> (b = i \<and> a \<in> set Q))"
    using disconnect_matrix [OF assms(1) i Q] by blast
  obtain r where r: "connect i P q = Some r" "group_ok n (snd r)" "srvs (snd r) = srvs (snd q)"
    "\<forall>a < n. online r a = (a = i \<or> online q a)"
    "\<forall>a < n. \<forall>b < n. linked r a b =
       (linked q a b \<or> a = i \<and> b \<in> set P \<and> online r b \<or> b = i \<and> a \<in> set P \<and> online r a)"
    using connect_matrix [OF q(2) i P] by blast
  have "linked r a b = (if a = i \<and> b \<in> set Q \<or> b = i \<and> a \<in> set Q then False
        else linked p a b \<or> a = i \<and> b \<in> set P \<and> online r b \<or> b = i \<and> a \<in> set P \<and> online r a)" if "a < n" "b < n" for a b
    using q(5) r(5) that assms(2,5) by auto
  moreover have "\<forall>a < n. online r a = (a = i \<or> online p a)" using q(4) r(4) by auto
  ultimately show ?thesis using q(1,3) r(1-3) by auto
qed

lemma side_loop:
  assumes "group_ok n (snd p)" "set xs \<subseteq> set P" "D \<subseteq> set P" "set P \<subseteq> {..<n}" "set Q \<subseteq> {..<n}" "set P \<inter> set Q = {}"
    and "\<forall>i \<in> D. online p i" "\<forall>i \<in> D. \<forall>j \<in> D. linked p i j" "\<forall>i \<in> D. \<forall>j \<in> set Q. \<not> linked p i j \<and> \<not> linked p j i"
  shows "\<exists>p'. each (\<lambda>i p. do { p \<leftarrow> disconnect i Q p; connect i P p }) xs p = Some p' \<and> group_ok n (snd p') \<and>
    srvs (snd p') = srvs (snd p) \<and>
    (\<forall>i \<in> set xs \<union> D. online p' i) \<and> (\<forall>i \<in> set xs \<union> D. \<forall>j \<in> set xs \<union> D. linked p' i j) \<and>
    (\<forall>i \<in> set xs \<union> D. \<forall>j \<in> set Q. \<not> linked p' i j \<and> \<not> linked p' j i) \<and>
    (\<forall>i \<in> set Q. online p' i = online p i) \<and> (\<forall>i \<in> set Q. \<forall>j \<in> set Q. linked p' i j = linked p i j)"
  using assms
proof (induction xs arbitrary: p D)
  case (Cons x xs)
  have x: "x \<in> set P" "x < n" "x \<notin> set Q" using Cons.prems(2,4,6) by auto
  have small: "\<And>i. i \<in> D \<Longrightarrow> i < n" "\<And>i. i \<in> set Q \<Longrightarrow> i < n" "\<And>i. i \<in> D \<Longrightarrow> i \<in> set P"
    "\<And>i. i \<in> D \<Longrightarrow> i \<notin> set Q" using Cons.prems(3-6) by auto
  obtain q where q: "do { p \<leftarrow> disconnect x Q p; connect x P p } = Some q" "group_ok n (snd q)" "srvs (snd q) = srvs (snd p)"
    "\<forall>a < n. online q a = (a = x \<or> online p a)"
    "\<forall>a < n. \<forall>b < n. linked q a b =
       (if a = x \<and> b \<in> set Q \<or> b = x \<and> a \<in> set Q then False
        else linked p a b \<or> a = x \<and> b \<in> set P \<and> online q b \<or> b = x \<and> a \<in> set P \<and> online q a)"
    using side_step [OF Cons.prems(1) x(1) Cons.prems(4-6)] by blast
  have on: "\<forall>i \<in> insert x D. online q i" using q(4) x(2) small(1) Cons.prems(7) by auto
  have same: "\<forall>i \<in> insert x D. \<forall>j \<in> insert x D. linked q i j"
    using q(5) x small on Cons.prems(6,8) by auto
  have cross: "\<forall>i \<in> insert x D. \<forall>j \<in> set Q. \<not> linked q i j \<and> \<not> linked q j i"
    using q(5) x small Cons.prems(6,9) by auto
  have QQ: "\<forall>i \<in> set Q. online q i = online p i" "\<forall>i \<in> set Q. \<forall>j \<in> set Q. linked q i j = linked p i j"
    using q(4,5) x small Cons.prems(6) by auto
  have s1: "set xs \<subseteq> set P" and s2: "insert x D \<subseteq> set P" using Cons.prems(2,3) by auto
  obtain p' where p': "each (\<lambda>i p. do { p \<leftarrow> disconnect i Q p; connect i P p }) xs q = Some p'" "group_ok n (snd p')"
    "srvs (snd p') = srvs (snd q)"
    "\<forall>i \<in> set xs \<union> insert x D. online p' i" "\<forall>i \<in> set xs \<union> insert x D. \<forall>j \<in> set xs \<union> insert x D. linked p' i j"
    "\<forall>i \<in> set xs \<union> insert x D. \<forall>j \<in> set Q. \<not> linked p' i j \<and> \<not> linked p' j i"
    "\<forall>i \<in> set Q. online p' i = online q i" "\<forall>i \<in> set Q. \<forall>j \<in> set Q. linked p' i j = linked q i j"
    using Cons.IH [OF q(2) s1 s2 Cons.prems(4-6) on same cross] by blast
  have "set xs \<union> insert x D = set (x # xs) \<union> D" by auto
  then show ?case using p' q(1,3) QQ by (intro exI [of _ p']) auto
qed simp

section \<open>Shutting down and starting\<close>

lemma make_ends_fresh:
  "distinct names \<Longrightarrow> \<forall>e \<in> set names. ends rn e = None \<Longrightarrow>
   \<exists>rn'. make_ends g j names rn = Some rn' \<and> servers rn' = servers rn \<and>
     (\<forall>e. is_enabled rn' e = (e \<notin> set names \<and> is_enabled rn e)) \<and>
     (\<forall>e. ends rn' e \<noteq> None \<longleftrightarrow> e \<in> set names \<or> ends rn e \<noteq> None)"
proof (induction names arbitrary: rn j)
  case (Cons e es)
  have "ends rn e = None" using Cons.prems(2) by simp
  then obtain rn1 ce where q: "MakeEnd e rn = Some (rn1, ce)" "servers (Connect e (ServerName g j) rn1) = servers rn"
    "\<And>x. is_enabled (Connect e (ServerName g j) rn1) x = (x \<noteq> e \<and> is_enabled rn x)"
    "\<And>x. ends (Connect e (ServerName g j) rn1) x \<noteq> None \<longleftrightarrow> x = e \<or> ends rn x \<noteq> None"
    using new_end by metis
  have "\<forall>x \<in> set es. ends (Connect e (ServerName g j) rn1) x = None"
    using q(4) Cons.prems by (metis distinct.simps(2) list.set_intros(2))
  from Cons.IH [OF _ this, of "Suc j"] Cons.prems(1) obtain rn' where
    "make_ends g (Suc j) es (Connect e (ServerName g j) rn1) = Some rn'" "servers rn' = servers (Connect e (ServerName g j) rn1)"
    "\<forall>x. is_enabled rn' x = (x \<notin> set es \<and> is_enabled (Connect e (ServerName g j) rn1) x)"
    "\<forall>x. ends rn' x \<noteq> None \<longleftrightarrow> x \<in> set es \<or> ends (Connect e (ServerName g j) rn1) x \<noteq> None" by auto
  then show ?case using q(1-3) unfolding q(4) by auto
qed simp

lemma shutdown_matrix:
  assumes "group_ok n (snd st)" "i < n"
  shows "\<exists>st'. ShutdownServer i st = Some st' \<and> group_ok n (snd st') \<and> gid (snd st') = gid (snd st) \<and>
    servers (fst st') = (servers (fst st))(ServerName (gid (snd st)) i := None) \<and> ends (fst st') = ends (fst st) \<and>
    group_frame n st st' \<and> srvs (snd st') = (srvs (snd st))[i := shutdownTServer (srvs (snd st) ! i)] \<and>
    (\<forall>a < n. \<forall>b < n. linked st' a b \<longleftrightarrow> linked st a b \<and> a \<noteq> i \<and> b \<noteq> i)"
proof -
  obtain rn sg where st: "st = (rn, sg)" by force
  have len: "length (srvs sg) = n" using assms(1) st by (simp add: group_ok_def)
  have a: "set (all sg) = {..<n}" using len by (auto simp: all_def)
  obtain q where q: "disconnect i (all sg) (rn, sg) = Some q" "group_ok n (snd q)" "srvs (snd q) = srvs sg" "gid (snd q) = gid sg"
    "servers (fst q) = servers rn" "ends (fst q) = ends rn" "group_frame n st q"
    "\<forall>a < n. \<forall>b < n. linked q a b = (linked st a b \<and> \<not> (a = i \<and> b \<in> set (all sg)) \<and> \<not> (b = i \<and> a \<in> set (all sg)))"
    using disconnect_matrix [OF assms, of "all sg"] a st by auto
  let ?s = "shutdownTServer (srvs sg ! i)"
  let ?q = "(DeleteServer (ServerName (gid sg) i) (fst q), (snd q)\<lparr>srvs := (srvs sg)[i := ?s]\<rparr>)"
  have r: "ShutdownServer i st = Some ?q" using q(1,3,4) assms(2) len
    by (cases q) (simp add: ShutdownServer_def st slice_get_def)
  have e: "edge (snd ?q) = edge (snd q)"
    using q(3) assms(2) len by (auto simp: edge_def fun_eq_iff nth_list_update shutdownTServer_def split: option.splits)
  have "endNames ?s = endNames (srvs sg ! i)" by (simp add: shutdownTServer_def split: option.splits)
  then have "length (endNames ((srvs sg)[i := ?s] ! k)) = length (endNames (srvs sg ! k))" for k
    using assms(2) len by (cases "k = i") simp_all
  then have "group_ok n (snd ?q)" using q(2,3) e len unfolding group_ok_def by simp
  moreover have "linked ?q a b = linked q a b" for a b
    unfolding linked_def e by (simp add: DeleteServer_def is_enabled_def)
  moreover have "group_frame n st ?q"
  proof (rule group_frame_trans [OF q(7)])
    show "group_frame n q ?q" unfolding group_frame_def own_end_def e by (simp add: DeleteServer_def is_enabled_def)
  qed
  ultimately show ?thesis using r q a by (intro exI [of _ ?q]) (simp add: st DeleteServer_def)
qed

lemma start_matrix:
  assumes g: "group_ok n (snd st)" and i: "i < n" and names: "length names = n" "distinct names"
    and fresh: "\<forall>e \<in> set names. ends (fst st) e = None" "\<forall>a < n. \<forall>b < n. ends (fst st) (edge (snd st) a b) \<noteq> None"
  shows "\<exists>st'. StartServer (i, names, addr) st = Some st' \<and> group_ok n (snd st') \<and> gid (snd st') = gid (snd st) \<and>
    servers (fst st') = (servers (fst st))(ServerName (gid (snd st)) i \<mapsto> addr) \<and>
    servernames (snd st') = servernames (snd st) \<and> connected (snd st') = connected (snd st) \<and>
    map endNames (srvs (snd st')) = (map endNames (srvs (snd st)))[i := names] \<and>
    (\<forall>e. ends (fst st') e \<noteq> None \<longleftrightarrow> e \<in> set names \<or> ends (fst st) e \<noteq> None) \<and>
    (\<forall>e. is_enabled (fst st') e = (e \<notin> set names \<and> is_enabled (fst st) e)) \<and>
    (\<forall>j. j \<noteq> i \<longrightarrow> srvs (snd st') ! j = srvs (snd st) ! j) \<and>
    dc (srvs (snd st') ! i) = (case saved (srvs (snd st) ! i) of None \<Rightarrow> Some MakePersister | Some p \<Rightarrow> Some p) \<and>
    (\<forall>a < n. \<forall>b < n. linked st' a b \<longleftrightarrow> linked st a b \<and> a \<noteq> i)"
proof -
  obtain rn sg where st: "st = (rn, sg)" by force
  have len: "length (srvs sg) = n" using g st by (simp add: group_ok_def)
  obtain rn' where rn': "make_ends (gid sg) 0 names rn = Some rn'" "servers rn' = servers rn"
    "\<forall>e. is_enabled rn' e = (e \<notin> set names \<and> is_enabled rn e)"
    "\<forall>e. ends rn' e \<noteq> None \<longleftrightarrow> e \<in> set names \<or> ends rn e \<noteq> None"
    using make_ends_fresh [OF names(2), of rn "gid sg" 0] fresh(1) st by auto
  let ?sv = "case saved (srvs sg ! i) of None \<Rightarrow> Some MakePersister | Some p \<Rightarrow> Some p"
  let ?srv = "\<lparr>saved = ?sv, endNames = names, dc = ?sv\<rparr>"
  let ?q = "(AddServer (ServerName (gid sg) i) addr rn', sg\<lparr>srvs := (srvs sg)[i := ?srv]\<rparr>)"
  have r: "StartServer (i, names, addr) st = Some ?q"
    using rn'(1) i len by (simp add: StartServer_def startTServer_def makeTServer_def st slice_get_def Let_def)
  have e: "edge (snd ?q) a b = (if a = i then names ! b else edge sg a b)" if "a < n" for a b
    using that i len by (simp add: edge_def nth_list_update)
  have old: "edge sg a b \<notin> set names" if "a < n" "b < n" for a b using fresh that st by (metis fst_conv snd_conv)
  have "edge (snd ?q) a b = edge (snd ?q) a' b' \<longrightarrow> a = a' \<and> b = b'" if x: "a < n" "b < n" "a' < n" "b' < n" for a b a' b'
  proof (cases "a = i \<or> a' = i")
    case True
    then show ?thesis using e x old [OF x(1,2)] old [OF x(3,4)] names nth_eq_iff_index_eq [OF names(2)] by (metis nth_mem)
  next
    case False
    then show ?thesis using e x g st unfolding group_ok_def by (metis snd_conv)
  qed
  then have "group_ok n (snd ?q)" using g st i len names(1) unfolding group_ok_def by (simp add: nth_list_update)
  moreover have "linked ?q a b \<longleftrightarrow> linked st a b \<and> a \<noteq> i" if "a < n" "b < n" for a b
    using rn'(3) e [OF that(1), of b] old [OF that] that names(1)
    by (auto simp: linked_def st AddServer_def is_enabled_def)
  ultimately show ?thesis
    using r rn'(2-4) i len by (intro exI [of _ ?q]) (simp add: st AddServer_def is_enabled_def map_update)
qed

end
