(* ===== verification/Tester_Properties.thy ===== *)
theory Tester_Properties
  imports Tester_Correct
begin

text \<open>
  The claims about the test framework: partitions of a group, the computation of a partition, shutdown
  and restart of a server, and which servers a client reaches.
\<close>

section \<open>Computing a partition\<close>

lemma partition_loop_eq:
  "j + length (filter (\<lambda>i. i \<noteq> l) is) \<le> length p1 + length p2 \<Longrightarrow>
   assign_sides l is j p1 p2 =
     (let w = take j (p1 @ p2) @ filter (\<lambda>i. i \<noteq> l) is @ drop (j + length (filter (\<lambda>i. i \<noteq> l) is)) (p1 @ p2)
      in Some (take (length p1) w, drop (length p1) w))"
proof (induction l "is" j p1 p2 rule: assign_sides.induct)
  case (2 l i "is" j p1 p2)
  let ?k = "length (filter (\<lambda>i. i \<noteq> l) is)"
  show ?case
  proof (cases "i = l")
    case True
    then show ?thesis using 2 by simp
  next
    case i: False
    have j: "j < length (p1 @ p2)" using "2.prems" i by simp
    have w: "take (Suc j) ((p1 @ p2)[j := i]) = take j (p1 @ p2) @ [i]" "drop (Suc j + ?k) ((p1 @ p2)[j := i]) = drop (Suc j + ?k) (p1 @ p2)"
      using j by (simp_all add: take_Suc_conv_app_nth del: take_append drop_append)
    show ?thesis
    proof (cases "j < length p1")
      case True
      then have "(p1 @ p2)[j := i] = p1[j := i] @ p2" by (simp add: list_update_append)
      then show ?thesis using "2.IH"(1) [OF i True] "2.prems" w i True
        by (simp add: Let_def del: take_append drop_append)
    next
      case False
      then have u: "(p1 @ p2)[j := i] = p1 @ p2[j - length p1 := i]" by (simp add: list_update_append)
      have "slice_put p2 (j - length p1) i = Some (p2[j - length p1 := i])" using j False by (simp add: slice_put_def)
      then show ?thesis using "2.IH"(2) [OF i False, of "p2[j - length p1 := i]"] "2.prems" w u i False
        by (simp add: Let_def slice_put_def del: take_append drop_append)
    qed
  qed
next
  case (1 l j p1 p2)
  show ?case by (simp add: Let_def del: take_append drop_append) simp
qed

lemma filter_others: "l < n \<Longrightarrow> mset (filter (\<lambda>i. i \<noteq> l) [0..<n]) = mset [0..<n] - {#l#}"
proof -
  have "filter (\<lambda>i. i \<noteq> l) [0..<n] = removeAll l [0..<n]" by (induction n) auto
  also have "\<dots> = remove1 l [0..<n]" by (simp add: distinct_remove1_removeAll)
  finally show ?thesis by (simp only: mset_remove1)
qed

lemma length_others: "l < n \<Longrightarrow> length (filter (\<lambda>i. i \<noteq> l) [0..<n]) = n - 1"
proof -
  assume l: "l < n"
  have "length (filter (\<lambda>i. i \<noteq> l) [0..<n]) = size (mset [0..<n] - {#l#})"
    unfolding filter_others [OF l, symmetric] by (rule size_mset [symmetric])
  also have "\<dots> = size (mset [0..<n]) - 1" using l by (intro size_Diff_singleton) simp
  finally show ?thesis by (simp only: size_mset length_upt)
qed

text \<open>C32. \<open>MakePartition\<close>: with an odd number of at least three servers it splits them into a majority
  and a minority that contains the given leader; with an even number of servers some server is on
  both sides (or twice on one), and with a single server it panics.\<close>

theorem MakePartition_splits:
  assumes "l < n"
  shows "(odd n \<and> 3 \<le> n \<longrightarrow> (\<exists>p1 p2. MakePartition n l = Some (p1, p2) \<and> mset (p1 @ p2) = mset [0..<n] \<and>
      l \<in> set p2 \<and> length p1 = n div 2 + 1 \<and> length p2 = n div 2)) \<and>
    (even n \<longrightarrow> (\<exists>p1 p2. MakePartition n l = Some (p1, p2) \<and> \<not> distinct (p1 @ p2))) \<and>
    (n = 1 \<longrightarrow> MakePartition n l = None)"
proof -
  let ?o = "filter (\<lambda>i. i \<noteq> l) [0..<n]" and ?h = "n div 2"
  let ?z = "replicate (?h + 1) (0::nat)" and ?y = "replicate ?h (0::nat)"
  let ?w = "?o @ drop (n - 1) (?z @ ?y)"
  have lo: "length ?o = n - 1" by (rule length_others [OF assms])
  have fit: "0 + length ?o \<le> length ?z + length ?y" using lo by simp
  have loop: "assign_sides l [0..<n] 0 ?z ?y = Some (take (?h + 1) ?w, drop (?h + 1) ?w)"
    using partition_loop_eq [OF fit] lo by (simp add: Let_def del: drop_append take_append)
  have lw: "length ?w = 2 * ?h + 1" using lo assms by simp
  have mp: "MakePartition n l = Some (take (?h + 1) ?w, (drop (?h + 1) ?w)[?h - 1 := l])" if "0 < ?h"
    using loop lw that by (simp add: MakePartition_def int_put_def slice_put_def nat_diff_distrib del: drop_append take_append)
  have "\<exists>p1 p2. MakePartition n l = Some (p1, p2) \<and> mset (p1 @ p2) = mset [0..<n] \<and>
      l \<in> set p2 \<and> length p1 = ?h + 1 \<and> length p2 = ?h" if o: "odd n \<and> 3 \<le> n"
  proof -
    have n: "n = 2 * ?h + 1" "0 < ?h" using o by presburger+
    have "?h + 1 + ?h - (n - 1) = 1" using n by linarith
    then have "drop (n - 1) (?z @ ?y) = [0]" by (simp only: replicate_add [symmetric] drop_replicate) simp
    then have w: "?w = ?o @ [0]" by simp
    let ?p1 = "take (?h + 1) ?o" and ?p2 = "drop (?h + 1) ?o @ [l]"
    have "?h + 1 \<le> length ?o" using lo n by linarith
    then have "take (?h + 1) ?w = ?p1" "drop (?h + 1) ?w = drop (?h + 1) ?o @ [0]" "length (drop (?h + 1) ?o) = ?h - 1"
      using w n lo by simp_all
    then have "MakePartition n l = Some (?p1, ?p2)" using mp [OF n(2)] by (simp add: list_update_append)
    moreover have "mset (?p1 @ ?p2) = add_mset l (mset ?o)"
      by (simp only: mset_append mset.simps union_assoc [symmetric]) (simp flip: mset_append)
    moreover have "\<dots> = mset [0..<n]" using filter_others [OF assms] assms by simp
    moreover have "length ?p1 = ?h + 1" "length ?p2 = ?h" using lo n by auto
    ultimately show ?thesis by (metis in_set_conv_decomp)
  qed
  moreover have "\<exists>p1 p2. MakePartition n l = Some (p1, p2) \<and> \<not> distinct (p1 @ p2)" if e: "even n"
  proof -
    have h: "0 < ?h" "n = 2 * ?h" using e assms by presburger+
    let ?p = "take (?h + 1) ?w @ (drop (?h + 1) ?w)[?h - 1 := l]"
    have "set (drop (n - 1) (?z @ ?y)) \<subseteq> {0}" by (rule order_trans [OF set_drop_subset]) auto
    then have "set ?w \<subseteq> {..<n}" using assms by auto
    then have "set (take (?h + 1) ?w) \<subseteq> {..<n}" "set (drop (?h + 1) ?w) \<subseteq> {..<n}"
      by (meson order_trans set_take_subset set_drop_subset)+
    then have "set ?p \<subseteq> {..<n}" using assms set_update_subset_insert [of "drop (?h + 1) ?w" "?h - 1" l] by auto
    then have "card (set ?p) \<le> n" using card_mono [of "{..<n}" "set ?p"] by simp
    moreover have "length (take k w @ (drop k w)[m := l]) = length w" for k m and w :: "nat list" by simp
    then have "length ?p = n + 1" using lw h(2) by metis
    ultimately have "\<not> distinct ?p" by (metis distinct_card not_less_eq_eq Suc_eq_plus1 le_refl)
    then show ?thesis using mp [OF h(1)] by blast
  qed
  moreover have "MakePartition n l = None" if "n = 1"
    using that assms by (simp add: MakePartition_def int_put_def upt_rec)
  ultimately show ?thesis by blast
qed

theorem MakePartition_splits_witness:
  "MakePartition 5 2 = Some ([0, 1, 3], [4, 2]) \<and> MakePartition 4 1 = Some ([0, 2, 3], [0, 1]) \<and>
   (\<exists>p1 p2. MakePartition 5 2 = Some (p1, p2) \<and> mset (p1 @ p2) = mset [0..<5])"
proof -
  have "MakePartition 5 2 = Some ([0, 1, 3], [4, 2])" "MakePartition 4 1 = Some ([0, 2, 3], [0, 1])" by code_simp+
  moreover have "\<exists>p1 p2. MakePartition 5 2 = Some (p1, p2) \<and> mset (p1 @ p2) = mset [0..<5]"
    using MakePartition_splits [of 2 5] by (simp del: mset_append mset_upt) blast
  ultimately show ?thesis by blast
qed

section \<open>A small group\<close>

definition grp3_names :: "string list list" where
  "grp3_names = [[''a0'', ''a1'', ''a2''], [''b0'', ''b1'', ''b2''], [''c0'', ''c1'', ''c2'']]"

definition grp3 :: "Network \<times> ServerGrp" where
  "grp3 = the (makeSrvGrp 0 grp3_names MakeNetwork)"

lemma less_3: "(\<forall>i < 3. P (i::nat)) \<longleftrightarrow> P 0 \<and> P 1 \<and> P 2"
  by (auto simp: numeral_3_eq_3 less_Suc_eq numeral_2_eq_2)

lemma grp3_eq:
  "makeSrvGrp 0 grp3_names MakeNetwork = Some grp3"
  "srvs (snd grp3) = map (\<lambda>ns. \<lparr>saved = None, endNames = ns, dc = None\<rparr>) grp3_names"
  "connected (snd grp3) = [False, False, False]" "gid (snd grp3) = 0"
  "ends (fst grp3) = (\<lambda>e. if e \<in> set (concat grp3_names) then Some \<lparr>endname = e, callf = None\<rparr> else None)"
  by (auto simp: grp3_def grp3_names_def makeSrvGrp_def makeTServer_def MakeEnd_def MakeNetwork_def Connect_def fun_eq_iff Let_def)

lemma grp3_ok: "group_ok 3 (snd grp3)"
proof -
  have s: "length (srvs (snd grp3)) = 3" "length (connected (snd grp3)) = 3" by (simp_all add: grp3_eq grp3_names_def)
  moreover have "\<forall>i < 3. length (endNames (srvs (snd grp3) ! i)) = 3" unfolding less_3 by (simp add: grp3_eq grp3_names_def)
  moreover have "\<forall>i < 3. \<forall>j < 3. \<forall>i' < 3. \<forall>j' < 3. edge (snd grp3) i j = edge (snd grp3) i' j' \<longrightarrow> i = i' \<and> j = j'"
    unfolding less_3 by (simp add: edge_def grp3_eq grp3_names_def)
  ultimately show ?thesis by (simp add: group_ok_def)
qed

section \<open>Claims about groups\<close>

text \<open>C15. \<open>Partition\<close> separates the two sides exactly: whatever was connected before, after
  \<open>Partition p1 p2\<close> on two lists that together hold every server once, the end from server \<open>i\<close> to
  server \<open>j\<close> is enabled if and only if \<open>i\<close> and \<open>j\<close> are on the same side.\<close>

theorem Partition_separates:
  assumes "group_ok n (snd st)" "set p1 \<union> set p2 = {..<n}" "set p1 \<inter> set p2 = {}"
  shows "\<exists>st'. Partition p1 p2 st = Some st' \<and> group_ok n (snd st') \<and>
    (\<forall>i < n. online st' i) \<and> (\<forall>i < n. \<forall>j < n. linked st' i j \<longleftrightarrow> (i \<in> set p1 \<longleftrightarrow> j \<in> set p1))"
proof -
  have s: "set p1 \<subseteq> {..<n}" "set p2 \<subseteq> {..<n}" "set p2 \<inter> set p1 = {}" using assms(2,3) by auto
  obtain q where q: "each (\<lambda>i st. do { st \<leftarrow> disconnect i p2 st; connect i p1 st }) p1 st = Some q" "group_ok n (snd q)"
    "\<forall>i \<in> set p1. online q i" "\<forall>i \<in> set p1. \<forall>j \<in> set p1. linked q i j"
    using side_loop [OF assms(1) order_refl empty_subsetI s(1,2) assms(3)] by auto
  obtain r where r: "each (\<lambda>i st. do { st \<leftarrow> disconnect i p1 st; connect i p2 st }) p2 q = Some r" "group_ok n (snd r)"
    "\<forall>i \<in> set p2. online r i" "\<forall>i \<in> set p2. \<forall>j \<in> set p2. linked r i j"
    "\<forall>i \<in> set p2. \<forall>j \<in> set p1. \<not> linked r i j \<and> \<not> linked r j i"
    "\<forall>i \<in> set p1. online r i = online q i" "\<forall>i \<in> set p1. \<forall>j \<in> set p1. linked r i j = linked q i j"
    using side_loop [OF q(2) order_refl empty_subsetI s(2,1,3)] by auto
  have side: "i \<in> set p1 \<or> i \<in> set p2" if "i < n" for i using assms(2) that by auto
  have "\<forall>i < n. online r i" using side r(3,6) q(3) by blast
  moreover have "linked r i j \<longleftrightarrow> (i \<in> set p1 \<longleftrightarrow> j \<in> set p1)" if ij: "i < n" "j < n" for i j
    using side [OF ij(1)] side [OF ij(2)]
  proof (elim disjE)
    assume "i \<in> set p1" "j \<in> set p1"
    then show ?thesis using r(7) q(4) by simp
  next
    assume "i \<in> set p1" "j \<in> set p2"
    then show ?thesis using r(5) assms(3) by auto
  next
    assume "i \<in> set p2" "j \<in> set p1"
    then show ?thesis using r(5) assms(3) by auto
  next
    assume "i \<in> set p2" "j \<in> set p2"
    then show ?thesis using r(4) assms(3) by auto
  qed
  ultimately show ?thesis using q(1) r(1,2) by (simp add: Partition_def)
qed

theorem Partition_separates_witness:
  "\<exists>st'. Partition [0, 2] [1] grp3 = Some st' \<and> linked st' 0 2 \<and> linked st' 2 0 \<and> \<not> linked st' 0 1 \<and> \<not> linked st' 1 2"
proof -
  obtain st' where "Partition [0, 2] [1] grp3 = Some st'"
    "\<forall>i < 3. \<forall>j < 3. linked st' i j \<longleftrightarrow> (i \<in> set [0, 2] \<longleftrightarrow> j \<in> set [0, 2])"
  proof -
    have "set [0, 2] \<union> set [1] = {..<3::nat}" "set [0, 2] \<inter> set [1::nat] = {}" by auto
    from Partition_separates [OF grp3_ok this] show ?thesis using that by blast
  qed
  then show ?thesis by auto
qed

text \<open>C31. Crash and restart of a server: \<open>ShutdownServer\<close> takes the server off the network and
  disables every end from and to it while leaving all other links alone; a following \<open>StartServer\<close> with
  fresh end names installs a new server object under the same name whose process starts from the
  state the old one had persisted; and it stays isolated from the others until it is connected.\<close>

theorem crash_restart:
  assumes "group_ok n (snd st)" "i < n" "dc (srvs (snd st) ! i) = Some p"
    and "length names = n" "distinct names"
    and "\<forall>e \<in> set names. ends (fst st) e = None" "\<forall>a < n. \<forall>b < n. ends (fst st) (edge (snd st) a b) \<noteq> None"
  shows "\<exists>st1 st2. ShutdownServer i st = Some st1 \<and> servers (fst st1) (ServerName (gid (snd st)) i) = None \<and>
    (\<forall>a < n. \<forall>b < n. linked st1 a b \<longleftrightarrow> linked st a b \<and> a \<noteq> i \<and> b \<noteq> i) \<and>
    (StartServer (i, names, addr) st1 = Some st2 \<and> group_ok n (snd st2) \<and>
     servers (fst st2) (ServerName (gid (snd st)) i) = Some addr \<and> dc (srvs (snd st2) ! i) = Some p \<and>
     (\<forall>a < n. \<forall>b < n. linked st2 a b \<longleftrightarrow> linked st1 a b))"
proof -
  have len: "length (srvs (snd st)) = n" using assms(1) by (simp add: group_ok_def)
  obtain q where q: "ShutdownServer i st = Some q" "group_ok n (snd q)" "gid (snd q) = gid (snd st)"
    "servers (fst q) = (servers (fst st))(ServerName (gid (snd st)) i := None)" "ends (fst q) = ends (fst st)"
    "srvs (snd q) = (srvs (snd st))[i := shutdownTServer (srvs (snd st) ! i)]"
    "\<forall>a < n. \<forall>b < n. linked q a b \<longleftrightarrow> linked st a b \<and> a \<noteq> i \<and> b \<noteq> i"
    using shutdown_matrix [OF assms(1,2)] by blast
  have sv: "saved (srvs (snd q) ! i) = Some p" using q(6) assms(2,3) len
    by (simp add: shutdownTServer_def Checkpoint_def MakePersister_def)
  have ends: "edge (snd q) = edge (snd st)"
    using q(6) assms(2) len
    by (auto simp: edge_def fun_eq_iff nth_list_update shutdownTServer_def split: option.splits)
  obtain r where "StartServer (i, names, addr) q = Some r" "group_ok n (snd r)"
    "servers (fst r) = (servers (fst q))(ServerName (gid (snd q)) i \<mapsto> addr)" "dc (srvs (snd r) ! i) = Some p"
    "\<forall>a < n. \<forall>b < n. linked r a b \<longleftrightarrow> linked q a b \<and> a \<noteq> i"
    using start_matrix [OF q(2) assms(2,4,5), of addr] assms(6,7) ends q(5) sv by auto
  then show ?thesis using q by (intro exI [of _ q] exI [of _ r]) auto
qed


definition running3 :: "Network \<times> ServerGrp" where
  "running3 = (fst grp3, (snd grp3)\<lparr>srvs := map (\<lambda>ns. \<lparr>saved = None, endNames = ns, dc = Some (Save ''log'' ''snap'' MakePersister)\<rparr>) grp3_names\<rparr>)"

lemma running3_edge: "i < 3 \<Longrightarrow> edge (snd running3) i j = edge (snd grp3) i j"
proof -
  assume "i < 3"
  moreover have "length grp3_names = 3" by (simp add: grp3_names_def)
  ultimately show ?thesis by (simp add: edge_def running3_def grp3_eq)
qed

lemma running3_ok: "group_ok 3 (snd running3)"
proof -
  have "length (srvs (snd running3)) = 3" "connected (snd running3) = connected (snd grp3)"
    by (simp_all add: running3_def grp3_names_def)
  moreover have "\<forall>i < 3. length (endNames (srvs (snd running3) ! i)) = 3" unfolding less_3 by (simp add: running3_def grp3_names_def)
  ultimately show ?thesis using grp3_ok running3_edge unfolding group_ok_def by metis
qed

theorem crash_restart_witness:
  "\<exists>st1 st2. ShutdownServer 1 running3 = Some st1 \<and> StartServer (1, [''d0'', ''d1'', ''d2''], 9) st1 = Some st2 \<and>
    servers (fst st2) (ServerName 0 1) = Some 9 \<and> dc (srvs (snd st2) ! 1) = Some (Save ''log'' ''snap'' MakePersister)"
proof -
  have "dc (srvs (snd running3) ! 1) = Some (Save ''log'' ''snap'' MakePersister)"
    by (simp add: running3_def grp3_names_def)
  moreover have "\<forall>e \<in> set [''d0'', ''d1'', ''d2'']. ends (fst running3) e = None"
    by (simp add: running3_def grp3_eq grp3_names_def)
  moreover have "\<forall>a < 3. \<forall>b < 3. ends (fst running3) (edge (snd running3) a b) \<noteq> None"
    unfolding less_3 by (simp add: running3_def grp3_eq grp3_names_def edge_def)
  ultimately show ?thesis
    using crash_restart [OF running3_ok, of 1 "Save ''log'' ''snap'' MakePersister" "[''d0'', ''d1'', ''d2'']" 9]
    by (auto simp: running3_def grp3_eq)
qed

section \<open>Clients\<close>

text \<open>Whether the end that a call to \<open>server\<close> uses is enabled; \<open>name\<close> is the name of a fresh end.\<close>

definition reaches :: "string \<Rightarrow> string \<Rightarrow> Network \<times> Clnt \<Rightarrow> bool option" where
  "reaches name server p = map_option (\<lambda>(e, rn, c). is_enabled rn e) (Clnt_makeEnd name server p)"

lemma reaches_eq:
  assumes "ends rn name = None"
  shows "reaches name server (rn, c) =
    Some (case map_of (clnt_ends c) server of Some e \<Rightarrow> is_enabled rn e | None \<Rightarrow> allowedL c server)"
  using assms
  by (auto simp: reaches_def Clnt_makeEnd_def MakeEnd_def Connect_def Enable_def is_enabled_def Let_def split: option.splits)

lemma inj_ends: "distinct (map snd es) \<Longrightarrow> (s, e) \<in> set es \<Longrightarrow> (s', e) \<in> set es \<Longrightarrow> s = s'"
  by (metis (mono_tags, lifting) distinct_map inj_onD prod.inject snd_conv)

text \<open>Which servers a client reaches: after \<open>ConnectAll\<close> every server, after \<open>DisconnectAll\<close> none,
  whether or not the client already has an end to it; after \<open>ConnectTo ss\<close> every server of \<open>ss\<close>, and of the
  other servers exactly those to which an enabled end existed before, because \<open>ConnectTo\<close> never
  disables an end.\<close>

theorem client_reaches:
  assumes "ends rn name = None" "distinct (map fst (clnt_ends c))" "distinct (map snd (clnt_ends c))"
  shows "reaches name server (Clnt_ConnectAll (rn, c)) = Some True \<and>
    reaches name server (Clnt_DisconnectAll (rn, c)) = Some False \<and>
    reaches name server (Clnt_ConnectTo ss (rn, c)) =
      Some (server \<in> set ss \<or> (case map_of (clnt_ends c) server of Some e \<Rightarrow> is_enabled rn e | None \<Rightarrow> False))"
proof (cases "map_of (clnt_ends c) server")
  case None
  then show ?thesis using assms(1)
    by (simp add: Clnt_ConnectAll_def Clnt_DisconnectAll_def Clnt_ConnectTo_def reaches_eq enable_each_names allowedL_def Let_def)
next
  case (Some e)
  then have e: "(server, e) \<in> set (clnt_ends c)" by (rule map_of_SomeD)
  have "e \<in> set (map snd (filter (\<lambda>(s, e). s \<in> set ss) (clnt_ends c))) \<longleftrightarrow> server \<in> set ss"
  proof
    assume "e \<in> set (map snd (filter (\<lambda>(s, e). s \<in> set ss) (clnt_ends c)))"
    then obtain s where "(s, e) \<in> set (clnt_ends c)" "s \<in> set ss" by auto
    then show "server \<in> set ss" using inj_ends [OF assms(3) e] by simp
  qed (use e in \<open>simp add: image_iff split_beta\<close>, metis fst_conv snd_conv)
  moreover have "e \<in> set (map snd (clnt_ends c))" using e by (metis image_eqI set_map snd_conv)
  ultimately show ?thesis using assms(1) Some
    by (simp add: Clnt_ConnectAll_def Clnt_DisconnectAll_def Clnt_ConnectTo_def reaches_eq enable_each_names allowedL_def
      is_enabled_names Let_def del: set_map)
qed

definition clnt2 :: "Network \<times> Clnt" where
  "clnt2 = (Enable ''e1'' True (Connect ''e1'' ''s1'' MakeNetwork), \<lparr>clnt_ends = [(''s1'', ''e1'')], clnt_srvs = None\<rparr>)"

theorem client_reaches_witness:
  "reaches ''new'' ''s1'' (Clnt_ConnectTo [''s2''] clnt2) = Some True \<and>
   reaches ''new'' ''s2'' (Clnt_ConnectTo [''s2''] clnt2) = Some True \<and>
   reaches ''new'' ''s3'' (Clnt_ConnectTo [''s2''] clnt2) = Some False \<and>
   reaches ''new'' ''s1'' (Clnt_DisconnectAll clnt2) = Some False"
proof -
  have h: "ends (fst clnt2) ''new'' = None" "distinct (map fst (clnt_ends (snd clnt2)))" "distinct (map snd (clnt_ends (snd clnt2)))"
    by (simp_all add: clnt2_def MakeNetwork_def Enable_def Connect_def)
  show ?thesis
    using client_reaches [OF h, of "''s1''" "[''s2'']"] client_reaches [OF h, of "''s2''" "[''s2'']"]
      client_reaches [OF h, of "''s3''" "[''s2'']"]
    by (simp add: clnt2_def is_enabled_def Enable_def)
qed

end
