(* ===== verification/Annotations.thy ===== *)
theory Annotations
  imports Prelude
begin

text \<open>
  The annotations that the test framework attaches to a visualised history
  (\<open>tester1/annotation.go\<close>).  The two global variables \<open>annotation\<close> and \<open>finfo\<close> are a record that is
  passed along; \<open>finfo\<close> is nil until \<open>AnnotateTest\<close> is called, and using it before is a panic (\<open>None\<close>).
  Timestamps are arguments, in nanoseconds; \<open>visit\<close> is the order in which Go ranges over a map.
\<close>

section \<open>State\<close>

record Annotation =
  Tag :: string
  Start :: int
  End :: int
  Description :: string
  Details :: string
  BackgroundColor :: string

record Continuous =
  c_start :: int
  c_desp :: string
  c_details :: string
  c_bgcolor :: string

record AnnotationLog =
  annotations :: "Annotation list"
  continuous :: "(string \<times> Continuous) list"
  finalized :: bool

record CheckerBegin =
  ts :: int
  ck_details :: string

record FrameworkInfo =
  nservers :: nat
  fi_connected :: "bool list"
  crashed :: "bool list"
  ckbegin :: CheckerBegin

record globals =
  annotation :: AnnotationLog
  finfo :: "FrameworkInfo option"

definition COLOR_INFO :: string where "COLOR_INFO = ''#FAFAFA''"
definition COLOR_NEUTRAL :: string where "COLOR_NEUTRAL = ''#FFECB3''"
definition COLOR_SUCCESS :: string where "COLOR_SUCCESS = ''#C8E6C9''"
definition COLOR_FAILURE :: string where "COLOR_FAILURE = ''#FFCDD2''"
definition COLOR_FAULT :: string where "COLOR_FAULT = ''#B3E5FC''"
definition COLOR_USER :: string where "COLOR_USER = ''#FFF176''"
definition TAG_CHECKER :: string where "TAG_CHECKER = ''$ Checker''"
definition TAG_PARTITION :: string where "TAG_PARTITION = ''$ Failure''"
definition TAG_INFO :: string where "TAG_INFO = ''$ Test Info''"

definition mkAnnotation :: AnnotationLog where
  "mkAnnotation = \<lparr>annotations = [], continuous = [], finalized = False\<rparr>"

definition mkFrameworkInfo :: "nat \<Rightarrow> FrameworkInfo" where
  "mkFrameworkInfo n =
     \<lparr>nservers = n, fi_connected = replicate n True, crashed = replicate n False, ckbegin = \<lparr>ts = 0, ck_details = ''''\<rparr>\<rparr>"

section \<open>The log\<close>

text \<open>Updating and deleting a key of a Go map, kept as an association list.\<close>

fun map_put :: "'k \<Rightarrow> 'v \<Rightarrow> ('k \<times> 'v) list \<Rightarrow> ('k \<times> 'v) list" where
  "map_put k v [] = [(k, v)]"
| "map_put k v ((k', v') # m) = (if k' = k then (k, v) # m else (k', v') # map_put k v m)"

definition map_delete :: "'k \<Rightarrow> ('k \<times> 'v) list \<Rightarrow> ('k \<times> 'v) list" where
  "map_delete k m = filter (\<lambda>(k', v). k' \<noteq> k) m"

definition annotatePointColor :: "int \<Rightarrow> string \<Rightarrow> string \<Rightarrow> string \<Rightarrow> string \<Rightarrow> AnnotationLog \<Rightarrow> AnnotationLog" where
  "annotatePointColor t tag desp details bgcolor an =
     an\<lparr>annotations := annotations an @ [\<lparr>Tag = tag, Start = t, End = 0, Description = desp,
                                        Details = details, BackgroundColor = bgcolor\<rparr>]\<rparr>"

definition annotateIntervalColor ::
  "int \<Rightarrow> string \<Rightarrow> int \<Rightarrow> string \<Rightarrow> string \<Rightarrow> string \<Rightarrow> AnnotationLog \<Rightarrow> AnnotationLog" where
  "annotateIntervalColor t tag start desp details bgcolor an =
     an\<lparr>annotations := annotations an @ [\<lparr>Tag = tag, Start = start, End = t, Description = desp,
                                        Details = details, BackgroundColor = bgcolor\<rparr>]\<rparr>"

definition concretize :: "string \<Rightarrow> int \<Rightarrow> Continuous \<Rightarrow> Annotation" where
  "concretize tag t cont =
     \<lparr>Tag = tag, Start = c_start cont, End = t, Description = c_desp cont,
      Details = c_details cont, BackgroundColor = c_bgcolor cont\<rparr>"

definition annotateContinuousColor :: "int \<Rightarrow> string \<Rightarrow> string \<Rightarrow> string \<Rightarrow> string \<Rightarrow> AnnotationLog \<Rightarrow> AnnotationLog" where
  "annotateContinuousColor t tag desp details bgcolor an =
     (let new = \<lparr>c_start = t, c_desp = desp, c_details = details, c_bgcolor = bgcolor\<rparr>
      in (case map_of (continuous an) tag of
            None \<Rightarrow> an\<lparr>continuous := map_put tag new (continuous an)\<rparr>
          | Some cont \<Rightarrow> an\<lparr>annotations := annotations an @ [concretize tag t cont],
                            continuous := map_put tag new (continuous an)\<rparr>))"

text \<open>When there is nothing to end, \<open>cont\<close> is the zero value, and the code goes on.\<close>

definition annotateContinuousEnd :: "int \<Rightarrow> string \<Rightarrow> AnnotationLog \<Rightarrow> AnnotationLog" where
  "annotateContinuousEnd t tag an =
     (let cont = (case map_of (continuous an) tag of
                    Some c \<Rightarrow> c
                  | None \<Rightarrow> \<lparr>c_start = 0, c_desp = '''', c_details = '''', c_bgcolor = ''''\<rparr>)
      in an\<lparr>annotations := annotations an @ [concretize tag t cont],
            continuous := map_delete tag (continuous an)\<rparr>)"

definition finalize :: "(string list \<Rightarrow> string list) \<Rightarrow> int \<Rightarrow> AnnotationLog \<Rightarrow> Annotation list \<times> AnnotationLog" where
  "finalize visit t an =
     (annotations an @ map (\<lambda>tag. concretize tag t (the (map_of (continuous an) tag))) (visit (map fst (continuous an))),
      an\<lparr>finalized := True\<rparr>)"

definition clear :: "AnnotationLog \<Rightarrow> AnnotationLog" where
  "clear an = an\<lparr>annotations := [], continuous := [], finalized := False\<rparr>"

definition isFinalized :: "AnnotationLog \<Rightarrow> bool" where
  "isFinalized an = finalized an"

definition SetAnnotationFinalized :: "AnnotationLog \<Rightarrow> AnnotationLog" where
  "SetAnnotationFinalized an = an\<lparr>finalized := True\<rparr>"

definition end_annotation :: "int \<Rightarrow> string \<Rightarrow> Annotation" where
  "end_annotation t e =
     \<lparr>Tag = TAG_INFO, Start = t, End = 0, Description = e, Details = e, BackgroundColor = COLOR_INFO\<rparr>"

definition FinalizeAnnotations ::
  "(string list \<Rightarrow> string list) \<Rightarrow> int \<Rightarrow> int \<Rightarrow> string \<Rightarrow> globals \<Rightarrow> Annotation list \<times> globals" where
  "FinalizeAnnotations visit t1 t2 e g =
     (let (xs, an) = finalize visit t1 (annotation g) in (xs @ [end_annotation t2 e], g\<lparr>annotation := an\<rparr>))"

text \<open>\<open>cleanup\<close>: the annotations that are written to the visualisation, if any; \<open>enabled\<close> is the
  value of \<open>VIS_ENABLE\<close>.\<close>

definition cleanup ::
  "string \<Rightarrow> (string list \<Rightarrow> string list) \<Rightarrow> int \<Rightarrow> int \<Rightarrow> bool \<Rightarrow> string \<Rightarrow> AnnotationLog \<Rightarrow> Annotation list option \<times> AnnotationLog" where
  "cleanup enabled visit t1 t2 failed e an =
     (if enabled = ''never'' \<or> \<not> failed \<and> enabled \<noteq> ''always'' \<or> isFinalized an then (None, clear an)
      else let (xs, an) = finalize visit t1 an
           in if xs = [] then (None, an) else (Some (xs @ [end_annotation t2 e]), an))"

section \<open>Annotations of the framework\<close>

definition on_log :: "(AnnotationLog \<Rightarrow> AnnotationLog) \<Rightarrow> globals \<Rightarrow> globals" where
  "on_log f g = g\<lparr>annotation := f (annotation g)\<rparr>"

definition AnnotatePointColor :: "int \<Rightarrow> string \<Rightarrow> string \<Rightarrow> string \<Rightarrow> string \<Rightarrow> globals \<Rightarrow> globals" where
  "AnnotatePointColor t tag desp details bgcolor = on_log (annotatePointColor t tag desp details bgcolor)"

definition AnnotateIntervalColor :: "int \<Rightarrow> string \<Rightarrow> int \<Rightarrow> string \<Rightarrow> string \<Rightarrow> string \<Rightarrow> globals \<Rightarrow> globals" where
  "AnnotateIntervalColor t tag start desp details bgcolor = on_log (annotateIntervalColor t tag start desp details bgcolor)"

definition AnnotateContinuousColor :: "int \<Rightarrow> string \<Rightarrow> string \<Rightarrow> string \<Rightarrow> string \<Rightarrow> globals \<Rightarrow> globals" where
  "AnnotateContinuousColor t tag desp details bgcolor = on_log (annotateContinuousColor t tag desp details bgcolor)"

definition AnnotateContinuousEnd :: "int \<Rightarrow> string \<Rightarrow> globals \<Rightarrow> globals" where
  "AnnotateContinuousEnd t tag = on_log (annotateContinuousEnd t tag)"

definition AnnotatePoint :: "int \<Rightarrow> string \<Rightarrow> string \<Rightarrow> string \<Rightarrow> globals \<Rightarrow> globals" where
  "AnnotatePoint t tag desp details = on_log (annotatePointColor t tag desp details COLOR_USER)"

definition AnnotateInterval :: "int \<Rightarrow> string \<Rightarrow> int \<Rightarrow> string \<Rightarrow> string \<Rightarrow> globals \<Rightarrow> globals" where
  "AnnotateInterval t tag start desp details = on_log (annotateIntervalColor t tag start desp details COLOR_USER)"

definition AnnotateContinuous :: "int \<Rightarrow> string \<Rightarrow> string \<Rightarrow> string \<Rightarrow> globals \<Rightarrow> globals" where
  "AnnotateContinuous t tag desp details = on_log (annotateContinuousColor t tag desp details COLOR_USER)"

definition AnnotateInfo :: "int \<Rightarrow> string \<Rightarrow> string \<Rightarrow> globals \<Rightarrow> globals" where
  "AnnotateInfo t desp details = AnnotatePointColor t TAG_INFO desp details COLOR_INFO"

definition AnnotateInfoInterval :: "int \<Rightarrow> int \<Rightarrow> string \<Rightarrow> string \<Rightarrow> globals \<Rightarrow> globals" where
  "AnnotateInfoInterval t start desp details = AnnotateIntervalColor t TAG_INFO start desp details COLOR_INFO"

definition AnnotateTest :: "int \<Rightarrow> string \<Rightarrow> nat \<Rightarrow> globals \<Rightarrow> globals" where
  "AnnotateTest t desp n g =
     (let details = desp @ '' ('' @ itoa n @ '' servers)''
      in AnnotateInfo t details details (on_log clear (g\<lparr>finfo := Some (mkFrameworkInfo n)\<rparr>)))"

definition AnnotateCheckerBegin :: "int \<Rightarrow> string \<Rightarrow> globals \<Rightarrow> globals option" where
  "AnnotateCheckerBegin t details g = do {
     fi \<leftarrow> finfo g;
     Some (g\<lparr>finfo := Some (fi\<lparr>ckbegin := \<lparr>ts = t, ck_details = details\<rparr>\<rparr>)\<rparr>) }"

text \<open>\<open>ckbegin\<close> is a copy of the field: resetting its timestamp does not change the state.\<close>

definition AnnotateCheckerEnd :: "int \<Rightarrow> string \<Rightarrow> string \<Rightarrow> string \<Rightarrow> globals \<Rightarrow> globals option" where
  "AnnotateCheckerEnd t desp details color g = do {
     fi \<leftarrow> finfo g;
     let ck = ckbegin fi;
     (if ts ck = 0 then Some (AnnotatePointColor t TAG_CHECKER desp details color g)
      else let d = ck_details ck @ '': '' @ details
           in Some (AnnotateIntervalColor t TAG_CHECKER (ts ck) desp d color g)) }"

definition AnnotateCheckerSuccess :: "int \<Rightarrow> string \<Rightarrow> string \<Rightarrow> globals \<Rightarrow> globals option" where
  "AnnotateCheckerSuccess t desp details = AnnotateCheckerEnd t desp details COLOR_SUCCESS"

definition AnnotateCheckerFailure :: "int \<Rightarrow> string \<Rightarrow> string \<Rightarrow> globals \<Rightarrow> globals option" where
  "AnnotateCheckerFailure t desp details = AnnotateCheckerEnd t desp details COLOR_FAILURE"

definition AnnotateCheckerNeutral :: "int \<Rightarrow> string \<Rightarrow> string \<Rightarrow> globals \<Rightarrow> globals option" where
  "AnnotateCheckerNeutral t desp details = AnnotateCheckerEnd t desp details COLOR_NEUTRAL"

section \<open>Faults\<close>

text \<open>The verb \<open>%v\<close> on a slice of integers.\<close>

fun spaced :: "string list \<Rightarrow> string" where
  "spaced [] = ''''"
| "spaced [s] = s"
| "spaced (s # t # ss) = s @ '' '' @ spaced (t # ss)"

definition show_ints :: "nat list \<Rightarrow> string" where
  "show_ints is = ''['' @ spaced (map itoa is) @ '']''"

fun fault_loop ::
  "bool list \<Rightarrow> (nat \<times> bool) list \<Rightarrow> nat list \<Rightarrow> nat list \<Rightarrow> string \<Rightarrow> (nat list \<times> nat list \<times> string) option" where
  "fault_loop cr [] conn crashes b = Some (conn, crashes, b)"
| "fault_loop cr ((srv, c) # rest) conn crashes b = do {
     x \<leftarrow> slice_get cr srv;
     (if x then fault_loop cr rest conn (crashes @ [srv]) b
      else if c then fault_loop cr rest (conn @ [srv]) crashes b
      else fault_loop cr rest conn crashes (b @ ''['' @ itoa srv @ ''] '')) }"

definition annotateFault :: "int \<Rightarrow> FrameworkInfo \<Rightarrow> globals \<Rightarrow> globals option" where
  "annotateFault t fi g =
     (if replicate (nservers fi) True = fi_connected fi \<and> replicate (nservers fi) False = crashed fi
      then Some (AnnotateContinuousEnd t TAG_PARTITION g)
      else do {
        (conn, crashes, b) \<leftarrow> fault_loop (crashed fi) (enumerate 0 (fi_connected fi)) [] [] ''partition = '';
        let b = (if conn \<noteq> [] then b @ show_ints conn else b);
        let b = (if crashes \<noteq> [] then b @ '' / crash = '' @ show_ints crashes else b);
        Some (AnnotateContinuousColor t TAG_PARTITION b b COLOR_FAULT g) })"

text \<open>\<open>copy(dst, src)\<close> overwrites the common prefix.\<close>

definition copy_slice :: "'a list \<Rightarrow> 'a list \<Rightarrow> 'a list" where
  "copy_slice dst src = take (length dst) src @ drop (length src) dst"

definition AnnotateConnection :: "int \<Rightarrow> bool list \<Rightarrow> globals \<Rightarrow> globals option" where
  "AnnotateConnection t connection g = do {
     fi \<leftarrow> finfo g;
     (if fi_connected fi = connection then Some g
      else let fi = fi\<lparr>fi_connected := copy_slice (fi_connected fi) connection\<rparr>
           in annotateFault t fi (g\<lparr>finfo := Some fi\<rparr>)) }"

definition AnnotateTwoPartitions :: "int \<Rightarrow> nat list \<Rightarrow> nat list \<Rightarrow> globals \<Rightarrow> globals" where
  "AnnotateTwoPartitions t p1 p2 g =
     (let b = ''partition = '' @ show_ints p1 @ '' '' @ show_ints p2
      in AnnotateContinuousColor t TAG_PARTITION b b COLOR_FAULT g)"

definition AnnotateClearFailure :: "int \<Rightarrow> globals \<Rightarrow> globals option" where
  "AnnotateClearFailure t g = do {
     fi \<leftarrow> finfo g;
     let fi = fi\<lparr>crashed := map (\<lambda>_. False) (crashed fi), fi_connected := map (\<lambda>_. True) (fi_connected fi)\<rparr>;
     Some (AnnotateContinuousEnd t TAG_PARTITION (g\<lparr>finfo := Some fi\<rparr>)) }"

text \<open>The loop of \<open>AnnotateShutdown\<close> (\<open>to\<close> is true) and of \<open>AnnotateRestart\<close>.\<close>

fun crash_loop :: "bool \<Rightarrow> nat list \<Rightarrow> bool list \<Rightarrow> bool \<Rightarrow> (bool list \<times> bool) option" where
  "crash_loop to [] cr changed = Some (cr, changed)"
| "crash_loop to (srv # ids) cr changed = do {
     c \<leftarrow> slice_get cr srv;
     crash_loop to ids (cr[srv := to]) (if c \<noteq> to then True else changed) }"

definition set_crashed :: "bool \<Rightarrow> int \<Rightarrow> nat list \<Rightarrow> globals \<Rightarrow> globals option" where
  "set_crashed to t ids g = do {
     fi \<leftarrow> finfo g;
     (cr, changed) \<leftarrow> crash_loop to ids (crashed fi) False;
     let fi = fi\<lparr>crashed := cr\<rparr>;
     let g = g\<lparr>finfo := Some fi\<rparr>;
     (if \<not> changed then Some g else annotateFault t fi g) }"

definition AnnotateShutdown :: "int \<Rightarrow> nat list \<Rightarrow> globals \<Rightarrow> globals option" where
  "AnnotateShutdown t ids = set_crashed True t ids"

definition AnnotateShutdownAll :: "int \<Rightarrow> globals \<Rightarrow> globals option" where
  "AnnotateShutdownAll t g = do { fi \<leftarrow> finfo g; AnnotateShutdown t [0..<nservers fi] g }"

definition AnnotateRestart :: "int \<Rightarrow> nat list \<Rightarrow> globals \<Rightarrow> globals option" where
  "AnnotateRestart t ids = set_crashed False t ids"

definition AnnotateRestartAll :: "int \<Rightarrow> globals \<Rightarrow> globals option" where
  "AnnotateRestartAll t g = do { fi \<leftarrow> finfo g; AnnotateRestart t [0..<nservers fi] g }"

definition AnnotateCheckerFailureBeforeExit ::
  "string \<Rightarrow> (string list \<Rightarrow> string list) \<Rightarrow> int \<Rightarrow> int \<Rightarrow> int \<Rightarrow> string \<Rightarrow> string \<Rightarrow> globals \<Rightarrow>
   (Annotation list option \<times> globals) option" where
  "AnnotateCheckerFailureBeforeExit enabled visit t t1 t2 desp details g = do {
     g \<leftarrow> AnnotateCheckerFailure t desp details g;
     let (xs, an) = cleanup enabled visit t1 t2 True ''test failed'' (annotation g);
     Some (xs, g\<lparr>annotation := an\<rparr>) }"

end
