(* ===== verification/Annotation_Properties.thy ===== *)
theory Annotation_Properties
  imports Annotations
begin

text \<open>
  The claims about annotations: continuous annotations tile the time line, and the begin of a
  checker is never reset.
\<close>

section \<open>Continuous annotations\<close>

type_synonym event = "int \<times> string \<times> string \<times> string"

text \<open>The intervals that a sequence of continuous annotations of one tag stands for: each lasts until
  the next one begins, the last one until \<open>T\<close>.\<close>

definition interval :: "string \<Rightarrow> event \<Rightarrow> int \<Rightarrow> Annotation" where
  "interval tag = (\<lambda>(t, desp, details, color) u.
     \<lparr>Tag = tag, Start = t, End = u, Description = desp, Details = details, BackgroundColor = color\<rparr>)"

definition timeline :: "string \<Rightarrow> int \<Rightarrow> event list \<Rightarrow> Annotation list" where
  "timeline tag T es = map2 (interval tag) es (tl (map fst es) @ [T])"

definition annotate_events :: "string \<Rightarrow> event list \<Rightarrow> AnnotationLog \<Rightarrow> AnnotationLog" where
  "annotate_events tag es an =
     foldl (\<lambda>an (t, desp, details, color). annotateContinuousColor t tag desp details color an) an es"

lemma timeline_snoc: "es \<noteq> [] \<Longrightarrow> timeline tag T (es @ [x]) = timeline tag (fst x) es @ [interval tag x T]"
proof -
  assume "es \<noteq> []"
  then have "zip (es @ [x]) ((tl (map fst es) @ [fst x]) @ [T]) = zip es (tl (map fst es) @ [fst x]) @ [(x, T)]"
    by (subst zip_append) (simp_all add: Suc_leI)
  then show ?thesis using \<open>es \<noteq> []\<close> by (simp add: timeline_def)
qed

lemma filter_eq_distinct: "distinct ks \<Longrightarrow> k \<in> set ks \<Longrightarrow> filter (\<lambda>x. x = k) ks = [k]"
  by (induction ks) (auto simp: filter_empty_conv)

lemma map_of_put [simp]: "map_of (map_put k v m) = (map_of m)(k \<mapsto> v)"
  by (induction k v m rule: map_put.induct) auto

lemma fst_put: "fst ` set (map_put k v m) = insert k (fst ` set m)"
  by (induction k v m rule: map_put.induct) auto

lemma distinct_put: "distinct (map fst m) \<Longrightarrow> distinct (map fst (map_put k v m))"
  by (induction k v m rule: map_put.induct) (auto simp: fst_put)

lemma annotate_events_log:
  assumes "es \<noteq> []" "map_of (continuous an) tag = None" "distinct (map fst (continuous an))"
  shows "\<exists>cont. map_of (continuous (annotate_events tag es an)) tag = Some cont \<and>
    distinct (map fst (continuous (annotate_events tag es an))) \<and>
    (\<forall>T. annotations (annotate_events tag es an) @ [concretize tag T cont] = annotations an @ timeline tag T es)"
  using assms
proof (induction es rule: rev_nonempty_induct)
  case (single x)
  then show ?case
    by (cases x) (simp add: annotate_events_def annotateContinuousColor_def timeline_def interval_def concretize_def distinct_put)
next
  case (snoc x es)
  let ?an = "annotate_events tag es an"
  obtain cont where c: "map_of (continuous ?an) tag = Some cont" "distinct (map fst (continuous ?an))"
    "\<forall>T. annotations ?an @ [concretize tag T cont] = annotations an @ timeline tag T es" using snoc by blast
  obtain t desp details color where x: "x = (t, desp, details, color)" by (cases x)
  have "annotate_events tag (es @ [x]) an = annotateContinuousColor t tag desp details color ?an"
    by (simp add: annotate_events_def x)
  then show ?case using c timeline_snoc [OF snoc.hyps(1), of tag] by (simp add: annotateContinuousColor_def x interval_def
    concretize_def [of tag _ "\<lparr>c_start = t, c_desp = desp, c_details = details, c_bgcolor = color\<rparr>"] distinct_put Let_def)
qed

lemma finalize_tag:
  assumes "visits visit" "distinct (map fst (continuous an))" "map_of (continuous an) tag = Some cont"
  shows "filter (\<lambda>a. Tag a = tag) (fst (finalize visit T an)) =
    filter (\<lambda>a. Tag a = tag) (annotations an) @ [concretize tag T cont]"
proof -
  let ?ks = "visit (map fst (continuous an))"
  have d: "distinct ?ks" using assms(1,2) by (metis mset_eq_imp_distinct_iff visits_def)
  have "tag \<in> set (map fst (continuous an))" using assms(3) by (force dest: map_of_SomeD)
  then have "tag \<in> set ?ks" using assms(1) by simp
  then have "filter (\<lambda>k. k = tag) ?ks = [tag]" using d by (simp add: filter_eq_distinct)
  then show ?thesis using assms(3) by (simp add: finalize_def filter_map comp_def concretize_def)
qed

section \<open>Claims\<close>

text \<open>C36. Continuous annotations tile the time line: when a tag that has no running annotation receives
  a sequence of continuous annotations, then after finalising at time \<open>T\<close> (or after ending the tag at
  \<open>T\<close>) its annotations are exactly the intervals from each one to the next and from the last one to
  \<open>T\<close>.  But ending a tag that has nothing running, which a comment describes as doing nothing, adds an
  empty annotation that starts at time 0.\<close>

theorem continuous_timeline:
  assumes "es \<noteq> []" "map_of (continuous an) tag = None" "distinct (map fst (continuous an))" "visits visit"
  shows "filter (\<lambda>a. Tag a = tag) (fst (finalize visit T (annotate_events tag es an))) =
      filter (\<lambda>a. Tag a = tag) (annotations an) @ timeline tag T es \<and>
    annotations (annotateContinuousEnd T tag (annotate_events tag es an)) = annotations an @ timeline tag T es \<and>
    annotations (annotateContinuousEnd T tag an) = annotations an @ [interval tag (0, '''', '''', '''') T]"
proof -
  let ?an = "annotate_events tag es an"
  obtain cont where c: "map_of (continuous ?an) tag = Some cont" "distinct (map fst (continuous ?an))"
    "\<forall>T. annotations ?an @ [concretize tag T cont] = annotations an @ timeline tag T es"
    using annotate_events_log [OF assms(1-3)] by blast
  have t: "filter (\<lambda>a. Tag a = tag) (timeline tag T es) = timeline tag T es"
    by (auto simp: timeline_def interval_def filter_id_conv)
  have "filter (\<lambda>a. Tag a = tag) (annotations ?an @ [concretize tag T cont]) =
      filter (\<lambda>a. Tag a = tag) (annotations an) @ timeline tag T es"
    using c(3) t by simp
  then have "filter (\<lambda>a. Tag a = tag) (fst (finalize visit T ?an)) =
      filter (\<lambda>a. Tag a = tag) (annotations an) @ timeline tag T es"
    using finalize_tag [OF assms(4) c(2,1)] by (simp add: concretize_def)
  then show ?thesis using c(1,3) assms(2)
    by (simp add: annotateContinuousEnd_def interval_def concretize_def [of tag T "\<lparr>c_start = 0, c_desp = '''', c_details = '''', c_bgcolor = ''''\<rparr>"] Let_def)
qed

theorem continuous_timeline_witness:
  "annotations (annotateContinuousEnd 9 TAG_PARTITION (annotate_events TAG_PARTITION
      [(3, ''p'', ''p'', COLOR_FAULT), (5, ''q'', ''q'', COLOR_FAULT)] mkAnnotation)) =
     [\<lparr>Tag = TAG_PARTITION, Start = 3, End = 5, Description = ''p'', Details = ''p'', BackgroundColor = COLOR_FAULT\<rparr>,
      \<lparr>Tag = TAG_PARTITION, Start = 5, End = 9, Description = ''q'', Details = ''q'', BackgroundColor = COLOR_FAULT\<rparr>]"
proof -
  have "visits (\<lambda>x :: string list. x)" by (simp add: visits_def)
  then show ?thesis
    using continuous_timeline [of "[(3, ''p'', ''p'', COLOR_FAULT), (5, ''q'', ''q'', COLOR_FAULT)]" mkAnnotation TAG_PARTITION
      "\<lambda>x. x" 9] by (simp add: mkAnnotation_def timeline_def interval_def)
qed

text \<open>The begin of a check is never reset: after a check that began at \<open>t0\<close> has ended, a later end
  without a begin of its own is recorded not as a point, as the code intends, but as an interval that
  starts at \<open>t0\<close> and carries the text of the old begin.\<close>

theorem stale_checker_begin:
  assumes "AnnotateCheckerBegin t0 d g = Some g1" "t0 \<noteq> 0" "AnnotateCheckerEnd t1 desp1 det1 col1 g1 = Some g2"
  shows "\<exists>g3. AnnotateCheckerEnd t2 desp2 det2 col2 g2 = Some g3 \<and>
    annotations (annotation g3) = annotations (annotation g) @
      [interval TAG_CHECKER (t0, desp1, d @ '': '' @ det1, col1) t1, interval TAG_CHECKER (t0, desp2, d @ '': '' @ det2, col2) t2]"
proof -
  obtain fi where "finfo g = Some fi" "g1 = g\<lparr>finfo := Some (fi\<lparr>ckbegin := \<lparr>ts = t0, ck_details = d\<rparr>\<rparr>)\<rparr>"
    using assms(1) by (auto simp: AnnotateCheckerBegin_def bind_eq_Some_conv)
  then show ?thesis using assms(2,3)
    by (auto simp: AnnotateCheckerEnd_def AnnotateIntervalColor_def on_log_def annotateIntervalColor_def interval_def Let_def)
qed

definition fresh_globals :: globals where
  "fresh_globals = AnnotateTest 1 ''basic'' 3 \<lparr>annotation = mkAnnotation, finfo = None\<rparr>"

theorem stale_checker_begin_witness:
  "\<exists>g1 g2 g3. AnnotateCheckerBegin 10 ''a'' fresh_globals = Some g1 \<and> AnnotateCheckerSuccess 20 ''ok'' ''ok'' g1 = Some g2 \<and>
    AnnotateCheckerSuccess 30 ''b'' ''b'' g2 = Some g3 \<and>
    last (annotations (annotation g3)) = interval TAG_CHECKER (10, ''b'', ''a: b'', COLOR_SUCCESS) 30"
proof -
  obtain g1 where g1: "AnnotateCheckerBegin 10 ''a'' fresh_globals = Some g1"
    by (simp add: AnnotateCheckerBegin_def fresh_globals_def AnnotateTest_def AnnotateInfo_def AnnotatePointColor_def on_log_def Let_def)
  obtain g2 where g2: "AnnotateCheckerEnd 20 ''ok'' ''ok'' COLOR_SUCCESS g1 = Some g2"
    using g1 by (auto simp: AnnotateCheckerBegin_def AnnotateCheckerEnd_def bind_eq_Some_conv)
  have "(10 :: int) \<noteq> 0" by simp
  from stale_checker_begin [OF g1 this g2, of 30 "''b''" "''b''" COLOR_SUCCESS] g1 g2 show ?thesis
    by (auto simp: AnnotateCheckerSuccess_def)
qed

end
