(* ===== verification/Raft_Harness.thy ===== *)
theory Raft_Harness
  imports Prelude
begin

text \<open>
  The harness that tests a Raft library (\<open>raft1/server.go\<close>, \<open>raft1/test.go\<close>, \<open>raft1/proxy.go\<close>).  Every
  server reports what Raft applies to the tester, which keeps a copy of each server's committed log
  and checks that the copies agree.  A command is a value of type \<open>'c\<close>; a variable of type \<open>any\<close> is a
  \<open>'c option\<close>, with \<open>None\<close> for nil.  An encoded snapshot is represented by the value it encodes.  Error
  texts are values of a data type; the empty text is \<open>NoErr\<close>.  What the tester observes of the
  servers at a moment (who is connected, the term and leadership it reports) is an argument.
  \<open>None\<close> as the result of an operation is a panic.
\<close>

section \<open>Messages and errors\<close>

type_synonym 'c any = "'c option"

datatype 'c snap = Snap int "'c any list" | Garbage

record 'c ApplyMsg =
  CommandValid :: bool
  Command :: "'c any"
  CommandIndex :: int
  SnapshotValid :: bool
  Snapshot :: "'c snap option"
  SnapshotIndex :: int

datatype 'c err =
  NoErr
| ErrRPC
| Mismatch int nat "'c any" nat "'c any"
| ApplyOutOfOrder nat int
| UnexpectedIndex nat int int
| NilSnapshot
| DecodeFailed
| WrongSnapshotIndex nat

section \<open>The tester\<close>

record 'c raftServer =
  applyErr :: "'c err"
  logs :: "int \<rightharpoonup> 'c any"

record 'c Test =
  srvs :: "'c raftServer list"
  maxIndex :: int

definition newRaftServer :: "'c raftServer" where
  "newRaftServer = \<lparr>applyErr = NoErr, logs = Map.empty\<rparr>"

definition makeTest :: "nat \<Rightarrow> 'c Test" where
  "makeTest n = \<lparr>srvs = replicate n newRaftServer, maxIndex = 0\<rparr>"

definition raftServer_entry :: "'c raftServer \<Rightarrow> int \<Rightarrow> 'c any option" where
  "raftServer_entry rs i = logs rs i"

text \<open>The loop of \<open>CheckLogs\<close>: the last server with a different value determines the text.\<close>

fun mismatch_loop :: "nat \<Rightarrow> int \<Rightarrow> 'c any \<Rightarrow> (nat \<times> 'c raftServer) list \<Rightarrow> 'c err \<Rightarrow> 'c err" where
  "mismatch_loop i idx v [] e = e"
| "mismatch_loop i idx v ((j, rs) # rest) e =
     mismatch_loop i idx v rest
       (case raftServer_entry rs idx of
          Some old \<Rightarrow> if old \<noteq> v then Mismatch idx i v j old else e
        | None \<Rightarrow> e)"

definition CheckLogs :: "nat \<Rightarrow> 'c ApplyMsg \<Rightarrow> 'c Test \<Rightarrow> ('c Test \<times> 'c err \<times> bool) option" where
  "CheckLogs i m t = do {
     me \<leftarrow> slice_get (srvs t) i;
     let v = Command m;
     let e = mismatch_loop i (CommandIndex m) v (enumerate 0 (srvs t)) NoErr;
     let prevok = (raftServer_entry me (CommandIndex m - 1) \<noteq> None);
     let me = me\<lparr>logs := (logs me)(CommandIndex m \<mapsto> v)\<rparr>;
     Some (t\<lparr>srvs := (srvs t)[i := me],
             maxIndex := (if CommandIndex m > maxIndex t then CommandIndex m else maxIndex t)\<rparr>, e, prevok) }"

definition IngestLog :: "nat \<Rightarrow> (int \<rightharpoonup> 'c any) \<Rightarrow> 'c Test \<Rightarrow> 'c Test option" where
  "IngestLog i xlog t = do {
     me \<leftarrow> slice_get (srvs t) i;
     Some (t\<lparr>srvs := (srvs t)[i := me\<lparr>logs := xlog\<rparr>]\<rparr>) }"

definition ApplyErr :: "nat \<Rightarrow> 'c err \<Rightarrow> 'c Test \<Rightarrow> 'c Test option" where
  "ApplyErr i e t = do {
     me \<leftarrow> slice_get (srvs t) i;
     Some (t\<lparr>srvs := (srvs t)[i := me\<lparr>applyErr := e\<rparr>]\<rparr>) }"

text \<open>The remote calls from a server to the tester: the request or the reply may be lost.\<close>

datatype fate = Delivered | LostRequest | LostReply

definition TesterProxy_CheckLogs :: "fate \<Rightarrow> nat \<Rightarrow> 'c ApplyMsg \<Rightarrow> 'c Test \<Rightarrow> ('c Test \<times> 'c err \<times> bool) option" where
  "TesterProxy_CheckLogs f i m t =
     (case f of
        LostRequest \<Rightarrow> Some (t, ErrRPC, False)
      | LostReply \<Rightarrow> map_option (\<lambda>(t', _). (t', ErrRPC, False)) (CheckLogs i m t)
      | Delivered \<Rightarrow> CheckLogs i m t)"

definition TesterProxy_IngestLog :: "fate \<Rightarrow> nat \<Rightarrow> (int \<rightharpoonup> 'c any) \<Rightarrow> 'c Test \<Rightarrow> 'c Test option" where
  "TesterProxy_IngestLog f i xlog t = (if f = LostRequest then Some t else IngestLog i xlog t)"

definition TesterProxy_ApplyErr :: "fate \<Rightarrow> nat \<Rightarrow> 'c err \<Rightarrow> 'c Test \<Rightarrow> 'c Test option" where
  "TesterProxy_ApplyErr f i e t = (if f = LostRequest then Some t else ApplyErr i e t)"

section \<open>A server without snapshots\<close>

text \<open>One message of the loop of \<open>applier\<close> in server \<open>me\<close>; \<open>f\<close>, \<open>f2\<close> are the fates of its calls.\<close>

definition applier :: "fate \<Rightarrow> fate \<Rightarrow> nat \<Rightarrow> 'c ApplyMsg \<Rightarrow> 'c Test \<Rightarrow> 'c Test option" where
  "applier f f2 me m t =
     (if \<not> CommandValid m then Some t
      else do {
        (t, e, prevok) \<leftarrow> TesterProxy_CheckLogs f me m t;
        let e = (if CommandIndex m > 1 \<and> \<not> prevok then ApplyOutOfOrder me (CommandIndex m) else e);
        (if e \<noteq> NoErr then TesterProxy_ApplyErr f2 me e t else Some t) })"

section \<open>A server with snapshots\<close>

definition SnapShotInterval :: int where
  "SnapShotInterval = 10"

text \<open>\<open>taken\<close> are the snapshots handed to the Raft library, with their index.\<close>

record 'c rfsrv =
  me :: nat
  lastApplied :: int
  log :: "int \<rightharpoonup> 'c any"
  taken :: "(int \<times> 'c snap) list"

definition ingestSnap :: "'c snap option \<Rightarrow> int \<Rightarrow> 'c rfsrv \<Rightarrow> 'c rfsrv \<times> 'c err" where
  "ingestSnap s index rs =
     (case s of
        None \<Rightarrow> (rs, NilSnapshot)
      | Some Garbage \<Rightarrow> (rs, DecodeFailed)
      | Some (Snap lastIncludedIndex xlog) \<Rightarrow>
          if index \<noteq> -1 \<and> index \<noteq> lastIncludedIndex then (rs, WrongSnapshotIndex (me rs))
          else (rs\<lparr>log := (\<lambda>j. if 0 \<le> j \<and> nat j < length xlog then Some (xlog ! nat j) else None),
                   lastApplied := lastIncludedIndex\<rparr>, NoErr))"

text \<open>A missing key of a Go map reads as nil.\<close>

definition log_get :: "(int \<rightharpoonup> 'c any) \<Rightarrow> int \<Rightarrow> 'c any" where
  "log_get l j = (case l j of Some v \<Rightarrow> v | None \<Rightarrow> None)"

definition make_snap :: "int \<Rightarrow> (int \<rightharpoonup> 'c any) \<Rightarrow> 'c snap" where
  "make_snap k l = Snap k (map (\<lambda>j. log_get l (int j)) [0..<nat (k + 1)])"

definition applierSnap :: "fate \<Rightarrow> fate \<Rightarrow> 'c ApplyMsg \<Rightarrow> 'c rfsrv \<times> 'c Test \<Rightarrow> ('c rfsrv \<times> 'c Test) option" where
  "applierSnap f f2 m = (\<lambda>(rs, t). do {
     (rs, t, e) \<leftarrow>
       (if SnapshotValid m then do {
          let (rs, e) = ingestSnap (Snapshot m) (SnapshotIndex m) rs;
          t \<leftarrow> TesterProxy_IngestLog f (me rs) (log rs) t;
          Some (rs, t, e) }
        else if CommandValid m then do {
          (t, e) \<leftarrow>
            (if CommandIndex m \<noteq> lastApplied rs + 1
             then Some (t, UnexpectedIndex (me rs) (lastApplied rs + 1) (CommandIndex m))
             else do {
               (t, e, prevok) \<leftarrow> TesterProxy_CheckLogs f (me rs) m t;
               Some (t, if e \<noteq> ErrRPC \<and> CommandIndex m > 1 \<and> \<not> prevok
                        then ApplyOutOfOrder (me rs) (CommandIndex m) else e) });
          let rs = rs\<lparr>log := (log rs)(CommandIndex m \<mapsto> Command m), lastApplied := CommandIndex m\<rparr>;
          let rs = (if (CommandIndex m + 1) mod SnapShotInterval = 0
                    then rs\<lparr>taken := taken rs @ [(CommandIndex m, make_snap (CommandIndex m) (log rs))]\<rparr> else rs);
          Some (rs, t, e) }
        else Some (rs, t, NoErr));
     t \<leftarrow> (if e \<noteq> NoErr then TesterProxy_ApplyErr f2 (me rs) e t else Some t);
     Some (rs, t) })"

text \<open>\<open>newRfsrv\<close>: the server starts from the snapshot it finds, an empty one being no snapshot; a bad
  snapshot ends the process (\<open>None\<close>).\<close>

definition newRfsrv :: "fate \<Rightarrow> nat \<Rightarrow> 'c snap option \<Rightarrow> bool \<Rightarrow> 'c Test \<Rightarrow> ('c rfsrv \<times> 'c Test) option" where
  "newRfsrv f srv sn use_snapshots t =
     (let s = \<lparr>me = srv, lastApplied = 0, log = Map.empty, taken = []\<rparr>
      in if use_snapshots \<and> sn \<noteq> None
         then (let (s, e) = ingestSnap sn (-1) s
               in if e \<noteq> NoErr then None
                  else do { t \<leftarrow> TesterProxy_IngestLog f (me s) (log s) t; Some (s, t) })
         else Some (s, t))"

section \<open>Checks\<close>

text \<open>A failed check (\<open>Fatalf\<close>) stops the test.\<close>

datatype 'c failure =
  ApplyFailed "'c err"
| ValuesDiffer int "'c any" "'c any"
| UnexpectedAgreement nat
| MultipleLeaders int nat
| NoLeader
| UnexpectedLeader nat
| TermsDiffer
| NotDecided nat int nat
| NoAgreement

fun committed_loop :: "int \<Rightarrow> 'c raftServer list \<Rightarrow> nat \<Rightarrow> 'c any \<Rightarrow> 'c failure + (nat \<times> 'c any)" where
  "committed_loop idx [] cnt cmd = Inr (cnt, cmd)"
| "committed_loop idx (rs # rest) cnt cmd =
     (if applyErr rs \<noteq> NoErr then Inl (ApplyFailed (applyErr rs))
      else (case raftServer_entry rs idx of
              Some cmd1 \<Rightarrow>
                if cnt > 0 \<and> cmd \<noteq> cmd1 then Inl (ValuesDiffer idx cmd cmd1)
                else committed_loop idx rest (cnt + 1) cmd1
            | None \<Rightarrow> committed_loop idx rest cnt cmd))"

definition nCommitted :: "int \<Rightarrow> 'c Test \<Rightarrow> 'c failure + (nat \<times> 'c any)" where
  "nCommitted idx t = committed_loop idx (srvs t) 0 None"

definition checkNoAgreement :: "int \<Rightarrow> 'c Test \<Rightarrow> 'c failure + unit" where
  "checkNoAgreement idx t =
     (case nCommitted idx t of
        Inl e \<Rightarrow> Inl e
      | Inr (n, _) \<Rightarrow> if n > 0 then Inl (UnexpectedAgreement n) else Inr ())"

text \<open>An observation of the servers: \<open>None\<close> for a server that is not connected, otherwise the term and
  the leadership it reports.\<close>

type_synonym observation = "(int \<times> bool) option list"

fun leaders_loop :: "(nat \<times> (int \<times> bool) option) list \<Rightarrow> (int \<times> nat list) list \<Rightarrow> (int \<times> nat list) list" where
  "leaders_loop [] ls = ls"
| "leaders_loop ((i, ob) # rest) ls =
     leaders_loop rest (case ob of Some (term, True) \<Rightarrow> assoc_append term i ls | _ \<Rightarrow> ls)"

fun multi_loop :: "(int \<times> nat list) list \<Rightarrow> int \<Rightarrow> 'c failure + int" where
  "multi_loop [] lastTerm = Inr lastTerm"
| "multi_loop ((term, ls) # rest) lastTerm =
     (if length ls > 1 then Inl (MultipleLeaders term (length ls))
      else multi_loop rest (if term > lastTerm then term else lastTerm))"

text \<open>The ten rounds of \<open>checkOneLeader\<close>, with the observation of each; \<open>visit\<close> is the order of the map.\<close>

fun checkOneLeader ::
  "((int \<times> nat list) list \<Rightarrow> (int \<times> nat list) list) \<Rightarrow> observation list \<Rightarrow> 'c failure + nat" where
  "checkOneLeader visit [] = Inl NoLeader"
| "checkOneLeader visit (ob # obs) =
     (let leaders = leaders_loop (enumerate 0 ob) []
      in (case multi_loop (visit leaders) (-1) of
            Inl e \<Rightarrow> Inl e
          | Inr lastTerm \<Rightarrow>
              if leaders \<noteq> [] then Inr (hd (the (map_of leaders lastTerm)))
              else checkOneLeader visit obs))"

fun terms_loop :: "observation \<Rightarrow> int \<Rightarrow> 'c failure + int" where
  "terms_loop [] term = Inr term"
| "terms_loop (None # obs) term = terms_loop obs term"
| "terms_loop (Some (xterm, _) # obs) term =
     (if term = -1 then terms_loop obs xterm
      else if term \<noteq> xterm then Inl TermsDiffer else terms_loop obs term)"

definition checkTerms :: "observation \<Rightarrow> 'c failure + int" where
  "checkTerms obs = terms_loop obs (-1)"

fun noleader_loop :: "(nat \<times> (int \<times> bool) option) list \<Rightarrow> 'c failure + unit" where
  "noleader_loop [] = Inr ()"
| "noleader_loop ((i, ob) # rest) =
     (case ob of Some (_, True) \<Rightarrow> Inl (UnexpectedLeader i) | _ \<Rightarrow> noleader_loop rest)"

definition checkNoLeader :: "observation \<Rightarrow> 'c failure + unit" where
  "checkNoLeader obs = noleader_loop (enumerate 0 obs)"

text \<open>\<open>wait\<close>: the state of the tester and the terms of the servers at each of the at most 30 rounds, and
  the state at the end.  The result \<open>Inr None\<close> stands for -1: a server has moved to a later term.\<close>

fun wait_loop :: "int \<Rightarrow> nat \<Rightarrow> int \<Rightarrow> ('c Test \<times> int list) list \<Rightarrow> 'c failure + bool" where
  "wait_loop idx n startTerm [] = Inr True"
| "wait_loop idx n startTerm ((t, terms) # rounds) =
     (case nCommitted idx t of
        Inl e \<Rightarrow> Inl e
      | Inr (nd, _) \<Rightarrow>
          if nd \<ge> n then Inr True
          else if startTerm > -1 \<and> (\<exists>x \<in> set terms. x > startTerm) then Inr False
          else wait_loop idx n startTerm rounds)"

definition wait :: "int \<Rightarrow> nat \<Rightarrow> int \<Rightarrow> ('c Test \<times> int list) list \<Rightarrow> 'c Test \<Rightarrow> 'c failure + 'c any option" where
  "wait idx n startTerm rounds final =
     (case wait_loop idx n startTerm (take 30 rounds) of
        Inl e \<Rightarrow> Inl e
      | Inr False \<Rightarrow> Inr None
      | Inr True \<Rightarrow>
          (case nCommitted idx final of
             Inl e \<Rightarrow> Inl e
           | Inr (nd, cmd) \<Rightarrow> if nd < n then Inl (NotDecided nd idx n) else Inr (Some cmd)))"

text \<open>\<open>one\<close>: in each round of the outer loop, what \<open>Start\<close> answers at every server (\<open>None\<close> if it is not
  connected or has no Raft instance) and the states of the tester at the polls of the inner loop.
  The rounds end when ten seconds are over; \<open>finished\<close> is \<open>checkFinished\<close> at that moment.\<close>

record 'c round =
  r_start :: "(int \<times> bool) option list"
  r_polls :: "'c Test list"

fun try_servers :: "nat \<Rightarrow> nat \<Rightarrow> (int \<times> bool) option list \<Rightarrow> int \<times> nat" where
  "try_servers 0 starts os = (-1, starts)"
| "try_servers (Suc k) starts os =
     (let starts = (starts + 1) mod length os
      in (case os ! starts of
            Some (index1, True) \<Rightarrow> (index1, starts)
          | _ \<Rightarrow> try_servers k starts os))"

fun poll_loop :: "'c any \<Rightarrow> nat \<Rightarrow> int \<Rightarrow> 'c Test list \<Rightarrow> 'c failure + bool" where
  "poll_loop cmd expected idx [] = Inr False"
| "poll_loop cmd expected idx (t # ts) =
     (case nCommitted idx t of
        Inl e \<Rightarrow> Inl e
      | Inr (nd, cmd1) \<Rightarrow>
          if nd > 0 \<and> nd \<ge> expected \<and> cmd1 = cmd then Inr True else poll_loop cmd expected idx ts)"

fun one :: "'c any \<Rightarrow> nat \<Rightarrow> bool \<Rightarrow> bool \<Rightarrow> nat \<Rightarrow> 'c round list \<Rightarrow> 'c failure + int" where
  "one cmd expected retry finished starts [] = (if \<not> finished then Inl NoAgreement else Inr (-1))"
| "one cmd expected retry finished starts (r # rs) =
     (let (index, starts) = try_servers (length (r_start r)) starts (r_start r)
      in if index \<noteq> -1 then
           (case poll_loop cmd expected index (r_polls r) of
              Inl e \<Rightarrow> Inl e
            | Inr True \<Rightarrow> Inr index
            | Inr False \<Rightarrow> if \<not> retry then Inl NoAgreement else one cmd expected retry finished starts rs)
         else one cmd expected retry finished starts rs)"

end
