(* ===== verification/Raft_Properties.thy ===== *)
theory Raft_Properties
  imports Raft_Harness
begin

text \<open>
  The claims about the Raft harness: a test without a recorded error has seen agreeing logs without
  gaps, what \<open>one\<close> and \<open>nCommitted\<close> establish, the answer of \<open>checkOneLeader\<close>, and snapshots.
\<close>

section \<open>The log check\<close>

lemma check_loop_NoErr:
  "mismatch_loop i idx v xs e = NoErr \<longleftrightarrow>
   e = NoErr \<and> (\<forall>(j, rs) \<in> set xs. raftServer_entry rs idx = None \<or> raftServer_entry rs idx = Some v)"
  by (induction i idx v xs e rule: mismatch_loop.induct) (auto split: option.splits if_splits)

definition no_errors :: "'c Test \<Rightarrow> bool" where
  "no_errors t \<longleftrightarrow> (\<forall>rs \<in> set (srvs t). applyErr rs = NoErr)"

text \<open>All copies agree, and a copy that holds an index above 1 also holds the one before it.\<close>

definition logs_agree :: "'c Test \<Rightarrow> bool" where
  "logs_agree t \<longleftrightarrow>
     (\<forall>a \<in> set (srvs t). \<forall>b \<in> set (srvs t). \<forall>k v w. logs a k = Some v \<longrightarrow> logs b k = Some w \<longrightarrow> v = w) \<and>
     (\<forall>a \<in> set (srvs t). \<forall>k > 1. logs a k \<noteq> None \<longrightarrow> logs a (k - 1) \<noteq> None)"

lemma CheckLogs_result:
  assumes "CheckLogs i m t = Some (t', e, prevok)"
  shows "i < length (srvs t) \<and> srvs t' = (srvs t)[i := (srvs t ! i)\<lparr>logs := (logs (srvs t ! i))(CommandIndex m \<mapsto> Command m)\<rparr>] \<and>
    (e = NoErr \<longleftrightarrow> (\<forall>rs \<in> set (srvs t). logs rs (CommandIndex m) = None \<or> logs rs (CommandIndex m) = Some (Command m))) \<and>
    (prevok \<longleftrightarrow> logs (srvs t ! i) (CommandIndex m - 1) \<noteq> None)"
proof -
  have "set (map snd (enumerate 0 (srvs t))) = set (srvs t)" by (simp only: map_snd_enumerate)
  then have s: "snd ` set (enumerate 0 (srvs t)) = set (srvs t)" by (simp only: list.set_map)
  have "(\<forall>(j, rs) \<in> S. P rs) \<longleftrightarrow> (\<forall>rs \<in> snd ` S. P rs)" for P and S :: "(nat \<times> 'a raftServer) set" by auto
  from this [of "set (enumerate 0 (srvs t))"]
  have "(\<forall>(j, rs) \<in> set (enumerate 0 (srvs t)). P rs) \<longleftrightarrow> (\<forall>rs \<in> set (srvs t). P rs)" for P
    unfolding s by blast
  then show ?thesis using assms
    by (auto simp: CheckLogs_def check_loop_NoErr raftServer_entry_def Let_def bind_eq_Some_conv split: prod.splits)
qed

text \<open>A step of \<open>applier\<close> either records an error or keeps the logs in agreement.\<close>

lemma applier_step:
  assumes "applier Delivered Delivered i m t = Some t'"
  shows "no_errors t' \<longrightarrow> no_errors t \<and> (logs_agree t \<longrightarrow> logs_agree t')"
proof (cases "CommandValid m")
  case True
  then obtain t1 e prevok where c: "CheckLogs i m t = Some (t1, e, prevok)"
    using assms by (auto simp: applier_def TesterProxy_CheckLogs_def bind_eq_Some_conv)
  define e' where "e' = (if CommandIndex m > 1 \<and> \<not> prevok then ApplyOutOfOrder i (CommandIndex m) else e)"
  note r = CheckLogs_result [OF c]
  let ?k = "CommandIndex m" and ?me = "(srvs t ! i)\<lparr>logs := (logs (srvs t ! i))(CommandIndex m \<mapsto> Command m)\<rparr>"
  have t1: "srvs t1 = (srvs t)[i := ?me]" and i: "i < length (srvs t)" using r by auto
  have t': "e' \<noteq> NoErr \<and> ApplyErr i e' t1 = Some t' \<or> e' = NoErr \<and> t' = t1"
    using assms True c unfolding e'_def
    by (auto simp: applier_def TesterProxy_CheckLogs_def TesterProxy_ApplyErr_def Let_def split: if_splits)
  show ?thesis
  proof
    assume ok: "no_errors t'"
    have "\<not> (e' \<noteq> NoErr \<and> ApplyErr i e' t1 = Some t')"
    proof
      assume a: "e' \<noteq> NoErr \<and> ApplyErr i e' t1 = Some t'"
      then have "srvs t' = (srvs t1)[i := (srvs t1 ! i)\<lparr>applyErr := e'\<rparr>]" by (auto simp: ApplyErr_def bind_eq_Some_conv)
      then have "(srvs t1 ! i)\<lparr>applyErr := e'\<rparr> \<in> set (srvs t')" using i t1 by (simp add: set_update_memI)
      then show False using ok a by (auto simp: no_errors_def)
    qed
    then have e: "e' = NoErr" "t' = t1" using t' by auto
    then have new: "\<forall>rs \<in> set (srvs t). logs rs ?k = None \<or> logs rs ?k = Some (Command m)"
      and prev: "?k > 1 \<Longrightarrow> logs (srvs t ! i) (?k - 1) \<noteq> None"
      using r unfolding e'_def by (auto split: if_splits)
    have mem: "srvs t ! i \<in> set (srvs t)" using i by simp
    have s: "set (srvs t') \<subseteq> insert ?me (set (srvs t))" using e(2) t1 set_update_subset_insert by metis
    have "?me \<in> set (srvs t')" using e(2) t1 i by (simp add: set_update_memI)
    then have "applyErr (srvs t ! i) = NoErr" using ok by (auto simp: no_errors_def)
    moreover have "applyErr rs = NoErr" if rs: "rs \<in> set (srvs t)" "rs \<noteq> srvs t ! i" for rs
    proof -
      obtain j where j: "j < length (srvs t)" "rs = srvs t ! j" using rs(1) by (metis in_set_conv_nth)
      then have "rs = srvs t' ! j" using rs(2) e(2) t1 by (metis nth_list_update_neq)
      moreover have "j < length (srvs t')" using j(1) e(2) t1 by simp
      ultimately show ?thesis using ok unfolding no_errors_def by (metis nth_mem)
    qed
    ultimately have "no_errors t" unfolding no_errors_def by blast
    moreover have "logs_agree t'" if agree: "logs_agree t"
    proof -
      have old: "\<exists>a' \<in> set (srvs t). logs a k = logs a' k" if "a \<in> insert ?me (set (srvs t))" "k \<noteq> ?k" for a k
      proof (cases "a = ?me")
        case True
        then show ?thesis using that(2) mem by (intro bexI [of _ "srvs t ! i"]) simp_all
      next
        case False
        then show ?thesis using that(1) by blast
      qed
      have same: "v = Command m" if "a \<in> insert ?me (set (srvs t))" "logs a ?k = Some v" for a v
        using that new by auto
      have "v = w" if ab: "a \<in> insert ?me (set (srvs t))" "b \<in> insert ?me (set (srvs t))" "logs a k = Some v" "logs b k = Some w" for a b k v w
      proof (cases "k = ?k")
        case True
        then show ?thesis using same ab by metis
      next
        case False
        then obtain a' b' where "a' \<in> set (srvs t)" "b' \<in> set (srvs t)" "logs a' k = Some v" "logs b' k = Some w"
          using old [OF ab(1)] old [OF ab(2)] ab(3,4) by metis
        then show ?thesis using agree unfolding logs_agree_def by blast
      qed
      moreover have "logs a (k - 1) \<noteq> None" if a: "a \<in> insert ?me (set (srvs t))" "k > 1" "logs a k \<noteq> None" for a k
      proof (cases "a = ?me")
        case True
        have g: "k > 1 \<Longrightarrow> logs (srvs t ! i) k \<noteq> None \<Longrightarrow> logs (srvs t ! i) (k - 1) \<noteq> None" for k
          using agree mem unfolding logs_agree_def by blast
        show ?thesis using True a(2,3) prev g [of k] by (cases "k = ?k") auto
      next
        case False
        then show ?thesis using a agree unfolding logs_agree_def by blast
      qed
      ultimately show ?thesis using s unfolding logs_agree_def by (meson subsetD)
    qed
    ultimately show "no_errors t \<and> (logs_agree t \<longrightarrow> logs_agree t')" by blast
  qed
qed (use assms in \<open>simp add: applier_def\<close>)

fun applier_run :: "(nat \<times> 'c ApplyMsg) list \<Rightarrow> 'c Test \<Rightarrow> 'c Test option" where
  "applier_run [] t = Some t"
| "applier_run ((i, m) # ms) t = do { t' \<leftarrow> applier Delivered Delivered i m t; applier_run ms t' }"

lemma applier_run_agree:
  "applier_run ms t = Some t' \<Longrightarrow> no_errors t' \<longrightarrow> no_errors t \<and> (logs_agree t \<longrightarrow> logs_agree t')"
proof (induction ms t rule: applier_run.induct)
  case (2 i m ms t)
  then obtain t1 where t1: "applier Delivered Delivered i m t = Some t1" "applier_run ms t1 = Some t'"
    by (auto simp: bind_eq_Some_conv)
  show ?case using applier_step [OF t1(1)] "2.IH" [OF t1] by blast
qed simp

definition cmd_msg :: "int \<Rightarrow> 'c \<Rightarrow> 'c ApplyMsg" where
  "cmd_msg k c = \<lparr>CommandValid = True, Command = Some c, CommandIndex = k, SnapshotValid = False, Snapshot = None, SnapshotIndex = 0\<rparr>"

section \<open>Claims\<close>

text \<open>C7. The tester detects every disagreement: whatever messages the appliers of any number of
  servers report, in any interleaving, if no error is recorded at the end then any two servers
  agree on every index they have both committed, and no server has a gap above index 1.\<close>

theorem no_error_means_agreement:
  assumes "applier_run ms (makeTest n) = Some t" "no_errors t"
  shows "logs_agree t"
proof -
  have "logs_agree (makeTest n)" by (auto simp: logs_agree_def makeTest_def newRaftServer_def)
  then show ?thesis using applier_run_agree [OF assms(1)] assms(2) by blast
qed

theorem no_error_means_agreement_witness:
  "\<exists>t. applier_run [(0, cmd_msg 1 (7::nat)), (1, cmd_msg 1 7), (0, cmd_msg 2 8)] (makeTest 2) = Some t \<and> no_errors t \<and> logs_agree t"
proof -
  obtain t where t: "applier_run [(0, cmd_msg 1 (7::nat)), (1, cmd_msg 1 7), (0, cmd_msg 2 8)] (makeTest 2) = Some t" "no_errors t"
    by (simp add: applier_def TesterProxy_CheckLogs_def CheckLogs_def makeTest_def newRaftServer_def cmd_msg_def no_errors_def
      raftServer_entry_def slice_get_def Let_def numeral_2_eq_2)
  then show ?thesis using no_error_means_agreement [OF t] by blast
qed

section \<open>Agreement on a command\<close>

definition holders :: "int \<Rightarrow> 'c Test \<Rightarrow> 'c raftServer list" where
  "holders idx t = filter (\<lambda>rs. logs rs idx \<noteq> None) (srvs t)"

lemma committed_loop_Inr:
  "committed_loop idx rss cnt cmd = Inr (n, c) \<Longrightarrow>
   (\<forall>rs \<in> set rss. applyErr rs = NoErr) \<and> n = cnt + length (filter (\<lambda>rs. logs rs idx \<noteq> None) rss) \<and>
   (\<forall>rs \<in> set rss. logs rs idx \<noteq> None \<longrightarrow> logs rs idx = Some c) \<and> (0 < cnt \<longrightarrow> c = cmd)"
proof (induction idx rss cnt cmd rule: committed_loop.induct)
  case (2 idx rs rest cnt cmd)
  show ?case
  proof (cases "logs rs idx")
    case None
    then show ?thesis using 2 by (auto simp: raftServer_entry_def split: if_splits)
  next
    case (Some x)
    then show ?thesis using 2 by (auto simp: raftServer_entry_def split: if_splits)
  qed
qed simp

lemma poll_loop_True:
  "poll_loop cmd expected idx ts = Inr True \<Longrightarrow>
   \<exists>t \<in> set ts. no_errors t \<and> expected \<le> length (holders idx t) \<and> holders idx t \<noteq> [] \<and>
     (\<forall>rs \<in> set (holders idx t). logs rs idx = Some cmd)"
proof (induction cmd expected idx ts rule: poll_loop.induct)
  case (2 cmd expected idx t ts)
  obtain nd cmd1 where n: "nCommitted idx t = Inr (nd, cmd1)" using "2.prems" by (cases "nCommitted idx t") auto
  show ?case
  proof (cases "nd > 0 \<and> nd \<ge> expected \<and> cmd1 = cmd")
    case True
    then show ?thesis using committed_loop_Inr [of idx "srvs t" 0 None nd cmd1] n
      by (intro bexI [of _ t]) (auto simp: nCommitted_def holders_def no_errors_def)
  next
    case False
    then have "poll_loop cmd expected idx ts = Inr True" using "2.prems" n by (simp split: if_splits)
    then show ?thesis using "2.IH" [OF n _ False] by auto
  qed
qed simp

text \<open>What a successful \<open>one\<close> establishes: if it returns an index, then at some poll no server had
  an apply error, at least the expected number of servers and at least one had committed that index,
  and every server that had committed it holds exactly the submitted command there.\<close>

theorem one_establishes_agreement:
  assumes "one cmd expected retry finished starts rounds = Inr index" "index \<noteq> -1"
  shows "\<exists>r \<in> set rounds. \<exists>t \<in> set (r_polls r). no_errors t \<and> expected \<le> length (holders index t) \<and> holders index t \<noteq> [] \<and>
    (\<forall>rs \<in> set (holders index t). logs rs index = Some cmd)"
  using assms
proof (induction cmd expected retry finished starts rounds rule: one.induct)
  case (2 cmd expected retry finished starts r rs)
  obtain i st where ts: "try_servers (length (r_start r)) starts (r_start r) = (i, st)" by force
  show ?case
  proof (cases "i \<noteq> -1 \<and> poll_loop cmd expected i (r_polls r) = Inr True")
    case True
    then have "index = i" using "2.prems"(1) ts by simp
    then show ?thesis using poll_loop_True [of cmd expected i "r_polls r"] True by auto
  next
    case False
    then have rec: "one cmd expected retry finished st rs = Inr index"
      using "2.prems"(1) ts by (auto split: if_splits sum.splits bool.splits)
    have "\<exists>r \<in> set rs. \<exists>t \<in> set (r_polls r). no_errors t \<and> expected \<le> length (holders index t) \<and> holders index t \<noteq> [] \<and>
      (\<forall>x \<in> set (holders index t). logs x index = Some cmd)"
    proof (cases "i = -1")
      case True
      then show ?thesis using "2.IH"(2) [OF ts [symmetric] refl] rec "2.prems"(2) by auto
    next
      case i: False
      then have "poll_loop cmd expected i (r_polls r) = Inr False" "retry"
        using "2.prems"(1) ts False by (auto split: if_splits sum.splits bool.splits)
      then show ?thesis using "2.IH"(1) [OF ts [symmetric] refl i] rec "2.prems"(2) by auto
    qed
    then show ?thesis by auto
  qed
qed (simp split: if_splits)

theorem one_establishes_agreement_witness:
  "\<exists>t. one (Some (7::nat)) 1 True False 0 [\<lparr>r_start = [None, Some (1, True)],
      r_polls = [makeTest 2, \<lparr>srvs = [newRaftServer, newRaftServer\<lparr>logs := [1 \<mapsto> Some 7]\<rparr>], maxIndex = 1\<rparr>]\<rparr>] = Inr 1 \<and>
    1 \<le> length (holders 1 t) \<and> (\<forall>rs \<in> set (holders 1 t). logs rs 1 = Some (Some (7::nat)))"
proof -
  let ?r = "\<lparr>r_start = [None, Some (1, True)],
      r_polls = [makeTest 2, \<lparr>srvs = [newRaftServer, newRaftServer\<lparr>logs := [1 \<mapsto> Some (7::nat)]\<rparr>], maxIndex = 1\<rparr>]\<rparr>"
  have o: "one (Some 7) 1 True False 0 [?r] = Inr 1"
    by (simp add: nCommitted_def makeTest_def newRaftServer_def raftServer_entry_def numeral_2_eq_2)
  have "(1::int) \<noteq> -1" by simp
  from one_establishes_agreement [OF o this] o show ?thesis by blast
qed

section \<open>Snapshots\<close>

lemma make_snap_get:
  "0 \<le> k \<Longrightarrow> ingestSnap (Some (make_snap k l)) k rs =
     (rs\<lparr>log := (\<lambda>j. if 0 \<le> j \<and> j \<le> k then Some (log_get l j) else None), lastApplied := k\<rparr>, NoErr)"
  by (auto simp: ingestSnap_def make_snap_def fun_eq_iff)

text \<open>C33. Snapshots: a server that applies the next command stores it, and every time the index plus
  one is a multiple of ten it hands to Raft a snapshot of that index; when any server ingests that
  snapshot, it ends with exactly the entries 0 to that index of the server that took it (a missing
  entry read as nil), the same last applied index and no error; a snapshot announced under another
  index is refused and changes nothing.\<close>

theorem snapshot_roundtrip:
  assumes "CommandValid m" "\<not> SnapshotValid m" "CommandIndex m = lastApplied rs + 1" "0 \<le> lastApplied rs"
    and "applierSnap f f2 m (rs, t) = Some (rs', t')"
  shows "lastApplied rs' = lastApplied rs + 1 \<and> log rs' = (log rs)(lastApplied rs + 1 \<mapsto> Command m) \<and>
    (if (lastApplied rs + 2) mod 10 = 0
     then \<exists>sn. taken rs' = taken rs @ [(lastApplied rs + 1, sn)] \<and>
       (\<forall>other. ingestSnap (Some sn) (lastApplied rs + 1) other =
          (other\<lparr>log := (\<lambda>j. if 0 \<le> j \<and> j \<le> lastApplied rs' then Some (log_get (log rs') j) else None),
                 lastApplied := lastApplied rs'\<rparr>, NoErr)) \<and>
       (\<forall>other index. index \<noteq> -1 \<and> index \<noteq> lastApplied rs + 1 \<longrightarrow>
          ingestSnap (Some sn) index other = (other, WrongSnapshotIndex (me other)))
     else taken rs' = taken rs)"
proof -
  let ?k = "lastApplied rs + 1" and ?l = "(log rs)(lastApplied rs + 1 \<mapsto> Command m)"
  have r: "lastApplied rs' = ?k \<and> log rs' = ?l \<and>
      taken rs' = (if (?k + 1) mod 10 = 0 then taken rs @ [(?k, make_snap ?k ?l)] else taken rs)"
    using assms by (auto simp: applierSnap_def bind_eq_Some_conv SnapShotInterval_def Let_def split: if_splits)
  then have l: "lastApplied rs' = ?k" "log rs' = ?l" by blast+
  have wrong: "ingestSnap (Some (make_snap ?k ?l)) index other = (other, WrongSnapshotIndex (me other))"
    if "index \<noteq> -1 \<and> index \<noteq> ?k" for other :: "'a rfsrv" and index
    using that by (simp add: ingestSnap_def make_snap_def)
  have "?k + 1 = lastApplied rs + 2" by simp
  then have tk: "taken rs' = (if (lastApplied rs + 2) mod 10 = 0 then taken rs @ [(?k, make_snap ?k ?l)] else taken rs)"
    using r by (simp only:)
  show ?thesis unfolding l
  proof (intro conjI refl)
    show "if (lastApplied rs + 2) mod 10 = 0
     then \<exists>sn. taken rs' = taken rs @ [(?k, sn)] \<and>
       (\<forall>other. ingestSnap (Some sn) ?k other =
          (other\<lparr>log := (\<lambda>j. if 0 \<le> j \<and> j \<le> ?k then Some (log_get ?l j) else None), lastApplied := ?k\<rparr>, NoErr)) \<and>
       (\<forall>other index. index \<noteq> -1 \<and> index \<noteq> ?k \<longrightarrow>
          ingestSnap (Some sn) index other = (other, WrongSnapshotIndex (me other)))
     else taken rs' = taken rs"
    proof (cases "(lastApplied rs + 2) mod 10 = 0")
      case True
      then have "taken rs' = taken rs @ [(?k, make_snap ?k ?l)]" using tk by simp
      moreover have "0 \<le> ?k" using assms(4) by simp
      ultimately show ?thesis unfolding if_P [OF True] using make_snap_get [of ?k ?l] wrong
        by (intro exI [of _ "make_snap ?k ?l"] conjI allI impI) (assumption | blast)+
    qed (simp add: tk)
  qed
qed

theorem snapshot_roundtrip_witness:
  "\<exists>rs' t' sn. applierSnap Delivered Delivered (cmd_msg 9 (5::nat)) (\<lparr>me = 0, lastApplied = 8, log = [8 \<mapsto> Some 4], taken = []\<rparr>, makeTest 1) = Some (rs', t') \<and>
    taken rs' = [(9, sn)] \<and> log (fst (ingestSnap (Some sn) 9 \<lparr>me = 1, lastApplied = 0, log = Map.empty, taken = []\<rparr>)) 9 = Some (Some 5)"
proof -
  let ?rs = "\<lparr>me = 0, lastApplied = 8, log = [8 \<mapsto> Some (4::nat)], taken = []\<rparr>"
  obtain rs' t' where r: "applierSnap Delivered Delivered (cmd_msg 9 5) (?rs, makeTest 1) = Some (rs', t')"
    by (simp add: applierSnap_def cmd_msg_def TesterProxy_CheckLogs_def CheckLogs_def TesterProxy_ApplyErr_def ApplyErr_def
      makeTest_def newRaftServer_def raftServer_entry_def slice_get_def SnapShotInterval_def Let_def)
  have "CommandValid (cmd_msg 9 (5::nat))" "\<not> SnapshotValid (cmd_msg 9 (5::nat))"
    "CommandIndex (cmd_msg 9 (5::nat)) = lastApplied ?rs + 1" "0 \<le> lastApplied ?rs" by (simp_all add: cmd_msg_def)
  from snapshot_roundtrip [OF this r] r show ?thesis by (auto simp: cmd_msg_def log_get_def)
qed

end
