(* ===== verification/Labgob.thy ===== *)
theory Labgob
  imports Prelude
begin

text \<open>
  The checks that \<open>labgob/labgob.go\<close> wraps around Go's gob encoder: \<open>checkType\<close> complains about
  lower-case fields of every structure type that a value's type reaches, \<open>checkDefault1\<close> about
  decoding into a variable that does not hold the zero value.

  Of the reflection package the program uses the kind, the fields, the element and the key of a type.
  A type is a tree over the basic types in which a declared type is a name; \<open>decls\<close> gives the
  underlying type of each name, so that types may be recursive through their names, as in Go.  A value
  is a tree too, with pointers into a heap, so that values may be cyclic.  The package variables
  \<open>errorCount\<close> and \<open>checked\<close> and the printed lines are a record; a panic is \<open>None\<close>.  Field names
  are ASCII.
\<close>

section \<open>Types\<close>

datatype basic_kind =
    KBool | KInt | KInt8 | KInt16 | KInt32 | KInt64
  | KUint | KUint8 | KUint16 | KUint32 | KUint64 | KUintptr
  | KFloat32 | KFloat64 | KString

datatype gotype =
    Basic basic_kind
  | Named string
  | Struct "(string \<times> gotype) list"
  | Slice gotype
  | Array nat gotype
  | Ptr gotype
  | MapOf gotype gotype
  | Chan gotype
  | Func
  | Interface

type_synonym decls = "(string \<times> gotype) list"

text \<open>The type whose kind, fields, element and key reflection reports.\<close>

fun underlying :: "decls \<Rightarrow> gotype \<Rightarrow> gotype" where
  "underlying decls (Named n) = (case map_of decls n of Some u \<Rightarrow> u | None \<Rightarrow> Named n)"
| "underlying decls t = t"

text \<open>\<open>reflect.Type.Name\<close>: the name of a declared or a basic type, empty otherwise.\<close>

fun basic_name :: "basic_kind \<Rightarrow> string" where
  "basic_name KBool = ''bool''"
| "basic_name KInt = ''int''"
| "basic_name KInt8 = ''int8''"
| "basic_name KInt16 = ''int16''"
| "basic_name KInt32 = ''int32''"
| "basic_name KInt64 = ''int64''"
| "basic_name KUint = ''uint''"
| "basic_name KUint8 = ''uint8''"
| "basic_name KUint16 = ''uint16''"
| "basic_name KUint32 = ''uint32''"
| "basic_name KUint64 = ''uint64''"
| "basic_name KUintptr = ''uintptr''"
| "basic_name KFloat32 = ''float32''"
| "basic_name KFloat64 = ''float64''"
| "basic_name KString = ''string''"

fun type_name :: "gotype \<Rightarrow> string" where
  "type_name (Basic k) = basic_name k"
| "type_name (Named n) = n"
| "type_name _ = ''''"

text \<open>\<open>utf8.DecodeRuneInString\<close> followed by \<open>unicode.IsUpper\<close>, for ASCII names.\<close>

definition capitalized :: "string \<Rightarrow> bool" where
  "capitalized name = (case name of [] \<Rightarrow> False | c # _ \<Rightarrow> CHR ''A'' \<le> c \<and> c \<le> CHR ''Z'')"

section \<open>The check of types\<close>

record labgob =
  errorCount :: int
  checked :: "gotype set"
  printed :: "string list"

definition initial :: labgob where
  "initial = \<lparr>errorCount = 0, checked = {}, printed = []\<rparr>"

definition complain_field :: "gotype \<Rightarrow> string \<Rightarrow> labgob \<Rightarrow> labgob" where
  "complain_field t name st = st\<lparr>errorCount := errorCount st + 1, printed := printed st @
     [''labgob error: lower-case field '' @ name @ '' of '' @ type_name t @
      '' in RPC or persist/snapshot will break your Raft'']\<rparr>"

function checkType :: "decls \<Rightarrow> gotype \<Rightarrow> labgob \<Rightarrow> labgob"
  and checkFields :: "decls \<Rightarrow> gotype \<Rightarrow> (string \<times> gotype) list \<Rightarrow> labgob \<Rightarrow> labgob" where
  "checkType decls t st =
    (if t \<in> checked st then st
     else
       let st = st\<lparr>checked := insert t (checked st)\<rparr>
       in case underlying decls t of
            Struct fs \<Rightarrow> checkFields decls t fs st
          | Slice u \<Rightarrow> checkType decls u st
          | Array _ u \<Rightarrow> checkType decls u st
          | Ptr u \<Rightarrow> checkType decls u st
          | MapOf k u \<Rightarrow> checkType decls k (checkType decls u st)
          | _ \<Rightarrow> st)"
| "checkFields decls t [] st = st"
| "checkFields decls t (f # fs) st =
     checkFields decls t fs
       (checkType decls (snd f) (if capitalized (fst f) then st else complain_field t (fst f) st))"
  by pat_completeness auto

text \<open>The types that occur in a type, itself included.\<close>

primrec subtypes :: "gotype \<Rightarrow> gotype list" where
  "subtypes (Basic k) = [Basic k]"
| "subtypes (Named n) = [Named n]"
| "subtypes (Struct fs) = Struct fs # concat (map snd (map (map_prod id subtypes) fs))"
| "subtypes (Slice u) = Slice u # subtypes u"
| "subtypes (Array n u) = Array n u # subtypes u"
| "subtypes (Ptr u) = Ptr u # subtypes u"
| "subtypes (MapOf k u) = MapOf k u # subtypes k @ subtypes u"
| "subtypes (Chan u) = Chan u # subtypes u"
| "subtypes Func = [Func]"
| "subtypes Interface = [Interface]"

definition universe :: "decls \<Rightarrow> gotype list \<Rightarrow> gotype set" where
  "universe decls ts = (\<Union>t \<in> set ts \<union> snd ` set decls. set (subtypes t))"

fun parts :: "gotype \<Rightarrow> gotype list" where
  "parts (Struct fs) = map snd fs"
| "parts (Slice u) = [u]"
| "parts (Array _ u) = [u]"
| "parts (Ptr u) = [u]"
| "parts (MapOf k u) = [u, k]"
| "parts _ = []"

text \<open>The types that the check of a type visits next.\<close>

definition children :: "decls \<Rightarrow> gotype \<Rightarrow> gotype list" where
  "children decls t = parts (underlying decls t)"

lemma subtypes_self [simp]: "t \<in> set (subtypes t)"
  by (cases t) auto

lemma finite_universe [simp]: "finite (universe decls ts)"
  by (auto simp: universe_def)

lemma universe_self [simp]: "t \<in> set ts \<Longrightarrow> t \<in> universe decls ts"
  by (auto simp: universe_def intro!: bexI [of _ t])

lemma parts_subtypes: "u \<in> set (parts t) \<Longrightarrow> set (subtypes u) \<subseteq> set (subtypes t)"
  by (cases t) force+

lemma universe_children:
  assumes "set us \<subseteq> set (children decls t)"
  shows "universe decls us \<subseteq> universe decls [t]"
proof
  fix x
  assume "x \<in> universe decls us"
  then consider u where "u \<in> set us" "x \<in> set (subtypes u)"
    | d where "d \<in> snd ` set decls" "x \<in> set (subtypes d)"
    by (auto simp: universe_def)
  then show "x \<in> universe decls [t]"
  proof cases
    case 1
    with assms have "x \<in> set (subtypes (underlying decls t))"
      using parts_subtypes by (fastforce simp: children_def)
    moreover have "underlying decls t = t \<or> underlying decls t \<in> snd ` set decls"
      by (cases t) (force dest: map_of_SomeD split: option.splits)+
    ultimately show ?thesis
      by (fastforce simp: universe_def)
  qed (auto simp: universe_def)
qed

lemma universe_mono: "set us \<subseteq> set ts \<Longrightarrow> universe decls us \<subseteq> universe decls ts"
  by (auto simp: universe_def)

text \<open>The number of types that are still unchecked.\<close>

definition remaining :: "decls \<Rightarrow> gotype list \<Rightarrow> labgob \<Rightarrow> nat" where
  "remaining decls ts st = card (universe decls ts - checked st)"

lemma remaining_child:
  assumes "set us \<subseteq> set (children decls t)" and "t \<notin> checked st"
    and "insert t (checked st) \<subseteq> checked st'"
  shows "remaining decls us st' < remaining decls [t] st"
  unfolding remaining_def
  using assms universe_children [OF assms(1)]
  by (intro psubset_card_mono psubsetI) (auto intro: universe_self)

lemma remaining_mono:
  assumes "set us \<subseteq> set ts" and "checked st \<subseteq> checked st'"
  shows "remaining decls us st' \<le> remaining decls ts st"
  unfolding remaining_def using assms universe_mono [OF assms(1)] by (intro card_mono) auto

lemma complain_field_simps [simp]:
  "checked (complain_field t n st) = checked st"
  "errorCount (complain_field t n st) = errorCount st + 1"
  by (simp_all add: complain_field_def)

text \<open>The check only adds to the set of checked types; proved before termination, which rests on it.\<close>

lemma checked_grows:
  "checkType_checkFields_dom (Inl (decls, t, st)) \<Longrightarrow> checked st \<subseteq> checked (checkType decls t st)"
  "checkType_checkFields_dom (Inr (decls, t, fs, st)) \<Longrightarrow>
     checked st \<subseteq> checked (checkFields decls t fs st)"
proof (induction rule: checkType_checkFields.pinduct)
  case (1 decls t st)
  then show ?case
    by (subst checkType.psimps [OF 1(1)]) (auto simp: Let_def split: gotype.splits; blast)
next
  case (2 decls t st)
  then show ?case by (simp add: checkFields.psimps)
next
  case (3 decls t f fs st)
  then show ?case
    by (subst checkFields.psimps(2) [OF 3(1)]) (auto split: if_splits)
qed

termination checkType
proof (relation "measures
    [\<lambda>x. case x of Inl (decls, t, st) \<Rightarrow> remaining decls [t] st
                 | Inr (decls, t, fs, st) \<Rightarrow> remaining decls (map snd fs) st,
     \<lambda>x. case x of Inl _ \<Rightarrow> 0 | Inr (decls, t, fs, st) \<Rightarrow> Suc (length fs)]", goal_cases)
  case 1
  show ?case by simp
next
  case (2 decls t st st' fs)
  then show ?case by (simp add: remaining_child children_def)
next
  case (3 decls t st st' u)
  then show ?case by (simp add: remaining_child children_def)
next
  case (4 decls t st st' n u)
  then show ?case by (simp add: remaining_child children_def)
next
  case (5 decls t st st' u)
  then show ?case by (simp add: remaining_child children_def)
next
  case (6 decls t st st' k u)
  then show ?case by (simp add: remaining_child children_def)
next
  case (7 decls t st st' k u)
  then show ?case
    using checked_grows(1) [OF 7(4)] by (simp add: remaining_child children_def)
next
  case (8 decls t f fs st)
  let ?st = "if capitalized (fst f) then st else complain_field t (fst f) st"
  have "remaining decls [snd f] ?st \<le> remaining decls (map snd (f # fs)) st"
    by (rule remaining_mono) auto
  then show ?case by (simp add: le_less)
next
  case (9 decls t f fs st)
  let ?st = "if capitalized (fst f) then st else complain_field t (fst f) st"
  have "remaining decls (map snd fs) (checkType decls (snd f) ?st)
      \<le> remaining decls (map snd (f # fs)) st"
    using checked_grows(1) [OF 9] by (intro remaining_mono) (auto split: if_splits)
  then show ?case by (simp add: le_less)
qed

declare checkType.simps [simp del]

section \<open>What the check of types visits and counts\<close>

text \<open>The types that a type reaches, and its lower-case fields.\<close>

inductive type_reaches :: "decls \<Rightarrow> gotype \<Rightarrow> gotype \<Rightarrow> bool" for decls where
  reaches_refl [intro]: "type_reaches decls t t"
| reaches_step: "type_reaches decls t u \<Longrightarrow> v \<in> set (children decls u) \<Longrightarrow> type_reaches decls t v"

fun fields_of :: "gotype \<Rightarrow> (string \<times> gotype) list" where
  "fields_of (Struct fs) = fs"
| "fields_of _ = []"

definition lowers :: "(string \<times> gotype) list \<Rightarrow> nat" where
  "lowers fs = length (filter (\<lambda>f. \<not> capitalized (fst f)) fs)"

definition lower_fields :: "decls \<Rightarrow> gotype \<Rightarrow> nat" where
  "lower_fields decls t = lowers (fields_of (underlying decls t))"

lemma lowers_simps [simp]:
  "lowers [] = 0"
  "lowers (f # fs) = (if capitalized (fst f) then 0 else 1) + lowers fs"
  by (simp_all add: lowers_def)

lemma reaches_trans: "type_reaches decls u v \<Longrightarrow> type_reaches decls t u \<Longrightarrow> type_reaches decls t v"
  by (induction rule: type_reaches.induct) (auto intro: reaches_step)

lemma reaches_child: "v \<in> set (children decls t) \<Longrightarrow> type_reaches decls v x \<Longrightarrow> type_reaches decls t x"
  by (metis reaches_refl reaches_step reaches_trans)

text \<open>A set of types that contains, with a type, everything the type refers to.\<close>

definition closed_types :: "decls \<Rightarrow> gotype set \<Rightarrow> bool" where
  "closed_types decls C \<longleftrightarrow> (\<forall>t \<in> C. set (children decls t) \<subseteq> C)"

lemma closed_types_reaches: "type_reaches decls t u \<Longrightarrow> closed_types decls C \<Longrightarrow> t \<in> C \<Longrightarrow> u \<in> C"
  by (induction rule: type_reaches.induct) (auto simp: closed_types_def)

text \<open>What a run of the check adds, from a set of types that is checked to another.\<close>

definition visits_from :: "decls \<Rightarrow> gotype list \<Rightarrow> nat \<Rightarrow> labgob \<Rightarrow> labgob \<Rightarrow> bool" where
  "visits_from decls ts n st st' \<longleftrightarrow>
     checked st \<subseteq> checked st' \<and> set ts \<subseteq> checked st' \<and> finite (checked st' - checked st) \<and>
     (\<forall>x \<in> checked st' - checked st. \<exists>t \<in> set ts. type_reaches decls t x) \<and>
     (\<forall>x \<in> checked st' - checked st. set (children decls x) \<subseteq> checked st') \<and>
     errorCount st' = errorCount st + int n + int (sum (lower_fields decls) (checked st' - checked st))"

lemma visits_from_refl: "set ts \<subseteq> checked st \<Longrightarrow> visits_from decls ts 0 st st"
  by (simp add: visits_from_def)

lemma visits_from_trans:
  assumes 1: "visits_from decls ts m st st1" and 2: "visits_from decls us n st1 st2"
  shows "visits_from decls (ts @ us) (m + n) st st2"
proof -
  let ?A = "checked st1 - checked st" and ?B = "checked st2 - checked st1"
  have split: "checked st2 - checked st = ?A \<union> ?B" and disj: "?A \<inter> ?B = {}"
    using 1 2 by (auto simp: visits_from_def)
  have "sum (lower_fields decls) (?A \<union> ?B) = sum (lower_fields decls) ?A + sum (lower_fields decls) ?B"
    using 1 2 disj by (intro sum.union_disjoint) (auto simp: visits_from_def)
  then show ?thesis
    using 1 2 unfolding visits_from_def split by (auto; blast)
qed

lemma visits_from_complain:
  "visits_from decls ts n (complain_field t f st) st' \<Longrightarrow> visits_from decls ts (Suc n) st st'"
  by (simp add: visits_from_def)

text \<open>Entering a type: it is marked first, its parts are visited, its own fields counted.\<close>

lemma visits_from_enter:
  assumes "t \<notin> checked st"
    and "visits_from decls (children decls t) (lower_fields decls t)
           (st\<lparr>checked := insert t (checked st)\<rparr>) st'"
  shows "visits_from decls [t] 0 st st'"
proof -
  let ?A = "checked st' - insert t (checked st)"
  have split: "checked st' - checked st = insert t ?A"
    using assms by (auto simp: visits_from_def)
  have "finite ?A"
    using assms(2) by (simp add: visits_from_def)
  then have "sum (lower_fields decls) (insert t ?A) = lower_fields decls t + sum (lower_fields decls) ?A"
    by (intro sum.insert) auto
  then show ?thesis
    using assms unfolding visits_from_def split
    by (auto intro: reaches_child)
qed

lemma checkType_visits:
  "visits_from decls [t] 0 st (checkType decls t st)"
  "visits_from decls (map snd fs) (lowers fs) st (checkFields decls t fs st)"
proof (induction decls t st and decls t fs st rule: checkType_checkFields.induct)
  case (1 decls t st)
  show ?case
  proof (cases "t \<in> checked st")
    case True
    then show ?thesis by (simp add: checkType.simps visits_from_refl)
  next
    case False
    let ?st = "st\<lparr>checked := insert t (checked st)\<rparr>"
    note IH = 1 [OF False refl] and defs = checkType.simps [of decls t st] Let_def children_def lower_fields_def
    have leaf: "visits_from decls [] 0 ?st ?st"
      by (simp add: visits_from_refl)
    have "visits_from decls (children decls t) (lower_fields decls t) ?st (checkType decls t st)"
    proof (cases "underlying decls t")
      case (Struct fs)
      then show ?thesis
        using False IH(1) [OF Struct] by (simp add: defs)
    next
      case (Slice u)
      then show ?thesis
        using False IH(2) [OF Slice] by (simp add: defs)
    next
      case (Array n u)
      then show ?thesis
        using False IH(3) [OF Array] by (simp add: defs)
    next
      case (Ptr u)
      then show ?thesis
        using False IH(4) [OF Ptr] by (simp add: defs)
    next
      case (MapOf k u)
      then show ?thesis
        using False visits_from_trans [OF IH(5,6) [OF MapOf]]
        by (simp add: defs)
    qed (use False leaf in \<open>simp_all add: defs\<close>)
    then show ?thesis by (rule visits_from_enter [OF False])
  qed
next
  case (2 decls t st)
  show ?case by (simp add: visits_from_refl)
next
  case (3 decls t f fs st)
  show ?case
    using visits_from_trans [OF 3(1,2)]
    by (auto split: if_splits dest: visits_from_complain)
qed

lemma checkType_reaches:
  assumes "closed_types decls (checked st)"
  shows "checked (checkType decls t st) = checked st \<union> {u. type_reaches decls t u}" (is "?C = _")
    and "closed_types decls (checked (checkType decls t st))"
    and "finite ({u. type_reaches decls t u} - checked st)"
    and "errorCount (checkType decls t st) =
      errorCount st + int (sum (lower_fields decls) ({u. type_reaches decls t u} - checked st))"
proof -
  have v: "visits_from decls [t] 0 st (checkType decls t st)"
    by (rule checkType_visits)
  show closed: "closed_types decls ?C"
    using v assms unfolding closed_types_def visits_from_def by blast
  show eq: "?C = checked st \<union> {u. type_reaches decls t u}"
    using v closed_types_reaches [OF _ closed, of t] by (auto simp: visits_from_def)
  then have "?C - checked st = {u. type_reaches decls t u} - checked st"
    by blast
  then show "finite ({u. type_reaches decls t u} - checked st)"
    and "errorCount (checkType decls t st) =
      errorCount st + int (sum (lower_fields decls) ({u. type_reaches decls t u} - checked st))"
    using v by (simp_all add: visits_from_def)
qed

text \<open>The types that a sequence of checked types reaches.\<close>

definition reached :: "decls \<Rightarrow> gotype list \<Rightarrow> gotype set" where
  "reached decls ts = {u. \<exists>t. t \<in> set ts \<and> type_reaches decls t u}"

lemma reached_simps [simp]:
  "reached decls [] = {}"
  "reached decls (ts @ [t]) = reached decls ts \<union> {u. type_reaches decls t u}"
  by (auto simp: reached_def)

lemma fold_checkType:
  "checked (fold (checkType decls) ts initial) = reached decls ts \<and>
   closed_types decls (reached decls ts) \<and> finite (reached decls ts) \<and>
   errorCount (fold (checkType decls) ts initial) =
     int (sum (lower_fields decls) (reached decls ts))"
proof (induction ts rule: rev_induct)
  case Nil
  then show ?case by (simp add: initial_def closed_types_def)
next
  case (snoc t ts)
  let ?st = "fold (checkType decls) ts initial" and ?R = "{u. type_reaches decls t u}"
  have closed: "closed_types decls (checked ?st)" and fin: "finite (reached decls ts)"
    using snoc by simp_all
  note step = checkType_reaches [OF closed, of t]
  have "sum (lower_fields decls) (reached decls ts \<union> ?R) =
      sum (lower_fields decls) (reached decls ts) + sum (lower_fields decls) (?R - reached decls ts)"
    using step(3) snoc fin
    by (subst sum.union_disjoint [symmetric]) (auto intro: arg_cong2 [where f = sum])
  moreover have "finite (reached decls ts \<union> ?R)"
    using step(3) snoc fin by (metis Un_Diff_cancel finite_UnI)
  ultimately show ?case
    using step snoc by simp
qed

section \<open>Values and the check for default values\<close>

text \<open>A floating-point number is its bit pattern; \<open>==\<close> of Go identifies the two zeros.\<close>

datatype lit = LBool bool | LInt int | LFloat32 "32 word" | LFloat64 "64 word" | LString string

datatype goval =
    Lit gotype lit
  | StructV gotype "goval list"
  | PtrV gotype "nat option"
  | OtherV gotype

type_synonym goheap = "nat \<Rightarrow> goval"

fun typeOf :: "goval \<Rightarrow> gotype" where
  "typeOf (Lit t _) = t"
| "typeOf (StructV t _) = t"
| "typeOf (PtrV t _) = t"
| "typeOf (OtherV t) = t"

text \<open>\<open>reflect.DeepEqual\<close> with the zero value of the type.\<close>

fun zero_lit :: "lit \<Rightarrow> bool" where
  "zero_lit (LBool b) = (\<not> b)"
| "zero_lit (LInt i) = (i = 0)"
| "zero_lit (LFloat32 w) = (w = 0 \<or> w = 2 ^ 31)"
| "zero_lit (LFloat64 w) = (w = 0 \<or> w = 2 ^ 63)"
| "zero_lit (LString s) = (s = '''')"

definition warn_default :: "string \<Rightarrow> labgob \<Rightarrow> labgob" where
  "warn_default what st = st\<lparr>errorCount := errorCount st + 1,
     printed := printed st @ (if errorCount st < 1
       then [''labgob warning: Decoding into a non-default variable/field '' @ what @ '' may not work'']
       else [])\<rparr>"

text \<open>
  \<open>ro\<close> says that the value was obtained through a field that is not exported; \<open>Interface\<close> of such a
  value panics.  Structures have no embedded fields.
\<close>

function checkDefault1 :: "decls \<Rightarrow> goheap \<Rightarrow> bool \<Rightarrow> goval \<Rightarrow> nat \<Rightarrow> string \<Rightarrow> labgob \<Rightarrow> labgob option"
  and defaultFields :: "decls \<Rightarrow> goheap \<Rightarrow> bool \<Rightarrow> (string \<times> goval) list \<Rightarrow> nat \<Rightarrow> string \<Rightarrow> labgob \<Rightarrow> labgob option"
  where
  "checkDefault1 decls heap ro value depth name st =
    (if depth > 3 then Some st
     else case (underlying decls (typeOf value), value) of
         (Struct fs, StructV _ vs) \<Rightarrow> defaultFields decls heap ro (zip (map fst fs) vs) (depth + 1) name st
       | (Ptr _, PtrV _ p) \<Rightarrow>
           (case p of None \<Rightarrow> Some st
            | Some a \<Rightarrow> checkDefault1 decls heap ro (heap a) (depth + 1) name st)
       | (Basic _, Lit t l) \<Rightarrow>
           if ro then None
           else if zero_lit l then Some st
           else Some (warn_default (if name = '''' then type_name t else name) st)
       | _ \<Rightarrow> Some st)"
| "defaultFields decls heap ro [] depth name st = Some st"
| "defaultFields decls heap ro (f # fs) depth name st =
     do {
       st \<leftarrow> checkDefault1 decls heap (ro \<or> \<not> capitalized (fst f)) (snd f) depth
              (if name \<noteq> '''' then name @ ''.'' @ fst f else fst f) st;
       defaultFields decls heap ro fs depth name st
     }"
  by pat_completeness auto
termination
  by (relation "measures
    [\<lambda>x. case x of Inl (_, _, _, _, depth, _, _) \<Rightarrow> 4 - depth | Inr (_, _, _, _, depth, _, _) \<Rightarrow> 4 - depth,
     \<lambda>x. case x of Inl _ \<Rightarrow> 0 | Inr (_, _, _, fs, _, _, _) \<Rightarrow> Suc (length fs)]") auto

declare checkDefault1.simps [simp del]

section \<open>The entry points\<close>

text \<open>An argument of type \<open>interface{}\<close> is \<open>None\<close> when it is nil; the nil type has no kind.\<close>

definition checkValue :: "decls \<Rightarrow> goval option \<Rightarrow> labgob \<Rightarrow> labgob option" where
  "checkValue decls value st =
     (case value of None \<Rightarrow> None | Some v \<Rightarrow> Some (checkType decls (typeOf v) st))"

definition checkDefault :: "decls \<Rightarrow> goheap \<Rightarrow> goval option \<Rightarrow> labgob \<Rightarrow> labgob option" where
  "checkDefault decls heap value st =
     (case value of None \<Rightarrow> Some st | Some v \<Rightarrow> checkDefault1 decls heap False v 1 '''' st)"

text \<open>The gob package is a function of the value: what its encoder and decoder return, and what its
  registry becomes (\<open>None\<close> when registering panics).\<close>

definition Encode :: "(goval option \<Rightarrow> 'e) \<Rightarrow> decls \<Rightarrow> goval option \<Rightarrow> labgob \<Rightarrow> ('e \<times> labgob) option" where
  "Encode gob decls e st = do { st \<leftarrow> checkValue decls e st; Some (gob e, st) }"

definition EncodeValue :: "(goval option \<Rightarrow> 'e) \<Rightarrow> decls \<Rightarrow> bool \<times> goval option \<Rightarrow> labgob \<Rightarrow> ('e \<times> labgob) option" where
  "EncodeValue gob decls value st =
     (if fst value then None
      else do { st \<leftarrow> checkValue decls (snd value) st; Some (gob (snd value), st) })"

definition Decode :: "(goval option \<Rightarrow> 'e) \<Rightarrow> decls \<Rightarrow> goheap \<Rightarrow> goval option \<Rightarrow> labgob \<Rightarrow> ('e \<times> labgob) option" where
  "Decode gob decls heap e st =
     do { st \<leftarrow> checkValue decls e st; st \<leftarrow> checkDefault decls heap e st; Some (gob e, st) }"

definition Register :: "(goval option \<Rightarrow> 'r \<Rightarrow> 'r option) \<Rightarrow> decls \<Rightarrow> goval option \<Rightarrow> labgob \<times> 'r \<Rightarrow> (labgob \<times> 'r) option" where
  "Register gob decls value s =
     do { st \<leftarrow> checkValue decls value (fst s); r \<leftarrow> gob value (snd s); Some (st, r) }"

definition RegisterName :: "(string \<Rightarrow> goval option \<Rightarrow> 'r \<Rightarrow> 'r option) \<Rightarrow> decls \<Rightarrow> string \<Rightarrow> goval option
    \<Rightarrow> labgob \<times> 'r \<Rightarrow> (labgob \<times> 'r) option" where
  "RegisterName gob decls name value s =
     do { st \<leftarrow> checkValue decls value (fst s); r \<leftarrow> gob name value (snd s); Some (st, r) }"

end
