(* ===== verification/Labgob_Properties.thy ===== *)
theory Labgob_Properties
  imports Labgob
begin

text \<open>
  What the checks of \<open>labgob\<close> guarantee: every lower-case field that the checked types reach is counted
  exactly once, and when there is none, decoding into a well-typed variable does not panic and warns
  about exactly the basic values within depth three that are not zero.
\<close>

section \<open>Well-typed values\<close>

fun fits :: "basic_kind \<Rightarrow> lit \<Rightarrow> bool" where
  "fits k (LBool _) = (k = KBool)"
| "fits k (LFloat32 _) = (k = KFloat32)"
| "fits k (LFloat64 _) = (k = KFloat64)"
| "fits k (LString _) = (k = KString)"
| "fits k (LInt _) = (k \<notin> {KBool, KFloat32, KFloat64, KString})"

text \<open>A pointer refers to a value of its element type; which value that is may change, so the heap is
  typed as a whole.\<close>

fun typed :: "decls \<Rightarrow> goheap \<Rightarrow> goval \<Rightarrow> bool" where
  "typed decls heap (Lit t l) = (case underlying decls t of Basic k \<Rightarrow> fits k l | _ \<Rightarrow> False)"
| "typed decls heap (StructV t vs) =
     (case underlying decls t of
        Struct fs \<Rightarrow> map typeOf vs = map snd fs \<and> (\<forall>v \<in> set vs. typed decls heap v)
      | _ \<Rightarrow> False)"
| "typed decls heap (PtrV t p) =
     (case underlying decls t of
        Ptr u \<Rightarrow> (case p of None \<Rightarrow> True | Some a \<Rightarrow> typeOf (heap a) = u)
      | _ \<Rightarrow> False)"
| "typed decls heap (OtherV t) =
     (case underlying decls t of Basic _ \<Rightarrow> False | Struct _ \<Rightarrow> False | Ptr _ \<Rightarrow> False | _ \<Rightarrow> True)"

definition heap_typed :: "decls \<Rightarrow> goheap \<Rightarrow> bool" where
  "heap_typed decls heap \<longleftrightarrow> (\<forall>a. typed decls heap (heap a))"

section \<open>The basic values within a depth\<close>

text \<open>Each with the information whether a lower-case field lies on the way to it.\<close>

fun leaves :: "decls \<Rightarrow> goheap \<Rightarrow> nat \<Rightarrow> bool \<Rightarrow> goval \<Rightarrow> (bool \<times> lit) list" where
  "leaves decls heap 0 ro v = []"
| "leaves decls heap (Suc d) ro (Lit t l) = [(ro, l)]"
| "leaves decls heap (Suc d) ro (StructV t vs) =
     concat (map (\<lambda>(n, v). leaves decls heap d (ro \<or> \<not> capitalized n) v)
                 (zip (map fst (fields_of (underlying decls t))) vs))"
| "leaves decls heap (Suc d) ro (PtrV t None) = []"
| "leaves decls heap (Suc d) ro (PtrV t (Some a)) = leaves decls heap d ro (heap a)"
| "leaves decls heap (Suc d) ro (OtherV t) = []"

definition nonzero :: "(bool \<times> lit) list \<Rightarrow> nat" where
  "nonzero ls = length (filter (\<lambda>l. \<not> zero_lit (snd l)) ls)"

text \<open>What the check makes of a list of basic values.\<close>

definition judged :: "(bool \<times> lit) list \<Rightarrow> labgob \<Rightarrow> labgob option \<Rightarrow> bool" where
  "judged ls st r \<longleftrightarrow>
     (if \<exists>l. (True, l) \<in> set ls then r = None
      else \<exists>st'. r = Some st' \<and> checked st' = checked st \<and>
             errorCount st' = errorCount st + int (nonzero ls))"

lemma judged_Nil: "judged [] st (Some st)"
  by (simp add: judged_def nonzero_def)

lemma judged_append:
  assumes "judged ls st r" and "\<And>st'. r = Some st' \<Longrightarrow> judged ls' st' (f st')"
  shows "judged (ls @ ls') st (r \<bind> f)"
  using assms by (auto simp: judged_def nonzero_def split: if_splits)

lemma judged_lit:
  "judged [(ro, l)] st
     (if ro then None else if zero_lit l then Some st else Some (warn_default what st))"
  by (simp add: judged_def nonzero_def warn_default_def)

text \<open>The branches of the check on well-typed values.\<close>

lemma checkDefault1_deep: "3 < depth \<Longrightarrow> checkDefault1 decls heap ro v depth name st = Some st"
  by (simp add: checkDefault1.simps)

lemma checkDefault1_Lit:
  "depth \<le> 3 \<Longrightarrow> underlying decls t = Basic k \<Longrightarrow>
   checkDefault1 decls heap ro (Lit t l) depth name st =
     (if ro then None else if zero_lit l then Some st
      else Some (warn_default (if name = '''' then type_name t else name) st))"
  by (simp add: checkDefault1.simps)

lemma checkDefault1_StructV:
  "depth \<le> 3 \<Longrightarrow> underlying decls t = Struct fs \<Longrightarrow>
   checkDefault1 decls heap ro (StructV t vs) depth name st =
     defaultFields decls heap ro (zip (map fst fs) vs) (Suc depth) name st"
  by (simp add: checkDefault1.simps [of decls heap ro "StructV t vs"])

lemma checkDefault1_PtrV:
  "depth \<le> 3 \<Longrightarrow> underlying decls t = Ptr u \<Longrightarrow>
   checkDefault1 decls heap ro (PtrV t p) depth name st =
     (case p of None \<Rightarrow> Some st | Some a \<Rightarrow> checkDefault1 decls heap ro (heap a) (Suc depth) name st)"
  by (simp add: checkDefault1.simps [of decls heap ro "PtrV t p"])

lemma checkDefault1_OtherV: "checkDefault1 decls heap ro (OtherV t) depth name st = Some st"
  by (simp add: checkDefault1.simps split: gotype.splits)

lemmas checkDefault1_branches =
  checkDefault1_deep checkDefault1_Lit checkDefault1_StructV checkDefault1_PtrV checkDefault1_OtherV

lemma defaultFields_judged:
  assumes "\<And>n v st. (n, v) \<in> set fs \<Longrightarrow>
      judged (leaves decls heap d (ro \<or> \<not> capitalized n) v) st
        (checkDefault1 decls heap (ro \<or> \<not> capitalized n) v depth
           (if name \<noteq> '''' then name @ ''.'' @ n else n) st)"
  shows "judged (concat (map (\<lambda>(n, v). leaves decls heap d (ro \<or> \<not> capitalized n) v) fs)) st
       (defaultFields decls heap ro fs depth name st)"
  using assms
  by (induction fs arbitrary: st) (auto simp: case_prod_beta judged_Nil intro!: judged_append)

lemma checkDefault1_judged:
  assumes heap: "heap_typed decls heap"
  shows "typed decls heap v \<Longrightarrow> depth + d = 4 \<Longrightarrow>
     judged (leaves decls heap d ro v) st (checkDefault1 decls heap ro v depth name st)"
proof (induction d arbitrary: depth ro v name st)
  case 0
  then show ?case by (simp add: checkDefault1_branches judged_Nil)
next
  case (Suc d)
  then have shallow: "depth \<le> 3"
    by simp
  show ?case
  proof (cases v)
    case (Lit t l)
    then show ?thesis
      using Suc.prems shallow by (auto simp: checkDefault1_branches judged_lit split: gotype.splits)
  next
    case (StructV t vs)
    then obtain fs where fs: "underlying decls t = Struct fs" and vs: "\<forall>v \<in> set vs. typed decls heap v"
      using Suc.prems by (auto split: gotype.splits)
    show ?thesis
      using Suc.prems vs shallow
      by (auto simp: StructV fs checkDefault1_StructV
          intro!: defaultFields_judged Suc.IH dest: set_zip_rightD)
  next
    case (PtrV t p)
    then show ?thesis
      using Suc heap shallow
      by (auto simp: checkDefault1_branches judged_Nil heap_typed_def split: gotype.splits option.splits)
  next
    case (OtherV t)
    then show ?thesis by (simp add: checkDefault1_branches judged_Nil)
  qed
qed

section \<open>Types without lower-case fields\<close>

definition all_capital :: "decls \<Rightarrow> gotype \<Rightarrow> bool" where
  "all_capital decls t \<longleftrightarrow> (\<forall>u. type_reaches decls t u \<longrightarrow> lower_fields decls u = 0)"

lemma all_capital_child: "all_capital decls t \<Longrightarrow> u \<in> set (children decls t) \<Longrightarrow> all_capital decls u"
  by (auto simp: all_capital_def intro: reaches_child)

lemma all_capital_fields:
  "all_capital decls t \<Longrightarrow> underlying decls t = Struct fs \<Longrightarrow> f \<in> set fs \<Longrightarrow> capitalized (fst f)"
  by (auto simp: all_capital_def lower_fields_def lowers_def filter_empty_conv dest!: spec [of _ t])

lemma all_capital_elem: "all_capital decls t \<Longrightarrow> underlying decls t = Ptr u \<Longrightarrow> all_capital decls u"
  using all_capital_child [of decls t u] by (simp add: children_def)

lemma leaves_capital:
  assumes heap: "heap_typed decls heap"
  shows "typed decls heap v \<Longrightarrow> all_capital decls (typeOf v) \<Longrightarrow> (ro, l) \<in> set (leaves decls heap d False v) \<Longrightarrow> \<not> ro"
proof (induction d arbitrary: v)
  case (Suc d)
  show ?case
  proof (cases v)
    case (StructV t vs)
    then obtain fs where fs: "underlying decls t = Struct fs" and vs: "\<forall>v \<in> set vs. typed decls heap v"
      and ty: "map typeOf vs = map snd fs"
      using Suc.prems by (auto split: gotype.splits)
    then have len: "length vs = length fs"
      by (auto dest: map_eq_imp_length_eq)
    obtain i where i: "i < length vs" "(ro, l) \<in> set (leaves decls heap d (\<not> capitalized (fst (fs ! i))) (vs ! i))"
      using Suc.prems(3) StructV fs len by (auto simp: in_set_zip)
    have "capitalized (fst (fs ! i))"
      using all_capital_fields [OF _ fs] Suc.prems(2) StructV i len by simp
    moreover have "typeOf (vs ! i) = snd (fs ! i)"
      using ty i len by (metis nth_map)
    then have "typeOf (vs ! i) \<in> set (children decls t)"
      using i(1) len by (simp add: children_def fs)
    then have "all_capital decls (typeOf (vs ! i))"
      using Suc.prems(2) by (simp add: StructV all_capital_child)
    moreover have "typed decls heap (vs ! i)"
      using vs i(1) by simp
    ultimately show ?thesis
      using Suc.IH [of "vs ! i"] i(2) by simp
  next
    case (PtrV t p)
    then show ?thesis
      using Suc heap
      by (auto simp: heap_typed_def split: gotype.splits option.splits dest: all_capital_elem)
  qed (use Suc in auto)
qed simp

section \<open>Claims\<close>

text \<open>C11. However often and in whatever order types are checked, the check terminates; the types it has
  visited are exactly those that the checked types reach through fields, elements and keys (recursive
  types included), every lower-case field of each of them is counted exactly once, and the count stays
  zero exactly when every checked type is free of lower-case fields.\<close>

theorem checkType_counts_once:
  "let st = fold (checkType decls) ts initial in
    checked st = {u. \<exists>t. t \<in> set ts \<and> type_reaches decls t u} \<and>
    finite (checked st) \<and>
    errorCount st = int (\<Sum>u \<in> checked st. lower_fields decls u) \<and>
    (errorCount st = 0 \<longleftrightarrow> list_all (all_capital decls) ts) \<and>
    fold (checkType decls) ts st = st"
proof -
  define st where "st = fold (checkType decls) ts initial"
  note f = fold_checkType [of decls ts, folded st_def]
  have same: "fold (checkType decls) us st = st" if "set us \<subseteq> set ts" for us
    using that
  proof (induction us)
    case (Cons u us)
    then have "u \<in> checked st"
      using f by (auto simp: reached_def)
    with Cons show ?case by (simp add: checkType.simps)
  qed simp
  have "errorCount st = 0 \<longleftrightarrow> (\<forall>u \<in> reached decls ts. lower_fields decls u = 0)"
    using f by (simp add: sum_nonneg_eq_0_iff)
  then have "errorCount st = 0 \<longleftrightarrow> list_all (all_capital decls) ts"
    by (auto simp: reached_def all_capital_def list_all_iff)
  then show ?thesis
    using f same [of ts] by (simp add: reached_def Let_def flip: st_def)
qed

text \<open>C37. Decoding into a well-typed variable panics exactly when a basic value within depth three of it
  lies behind a lower-case field (and not only warns, as the package comment says); it never panics
  when the check of the variable's type has nothing to complain about, and then the error count grows
  by the number of basic values within depth three that are not zero.\<close>

theorem Decode_type_safe:
  assumes "heap_typed decls heap" and "typed decls heap v"
    and "closed_types decls (checked st)"
  shows "(Decode gob decls heap (Some v) st = None \<longleftrightarrow> (\<exists>l. (True, l) \<in> set (leaves decls heap 3 False v))) \<and>
    (all_capital decls (typeOf v) \<longrightarrow>
      (\<exists>st'. Decode gob decls heap (Some v) st = Some (gob (Some v), st') \<and>
         checked st' = checked st \<union> {u. type_reaches decls (typeOf v) u} \<and>
         errorCount st' = errorCount st + int (nonzero (leaves decls heap 3 False v))))"
proof -
  let ?st = "checkType decls (typeOf v) st" and ?ls = "leaves decls heap 3 False v"
  have j: "judged ?ls ?st (checkDefault1 decls heap False v 1 '''' ?st)"
    by (rule checkDefault1_judged) (use assms in simp_all)
  have dec: "Decode gob decls heap (Some v) st =
      map_option (\<lambda>st'. (gob (Some v), st')) (checkDefault1 decls heap False v 1 '''' ?st)"
    by (cases "checkDefault1 decls heap False v 1 '''' ?st")
      (simp_all add: Decode_def checkValue_def checkDefault_def)
  note reach = checkType_reaches [OF assms(3), of "typeOf v"]
  have clean: "errorCount ?st = errorCount st" if "all_capital decls (typeOf v)"
    using reach(4) that by (simp add: all_capital_def)
  have no_ro: "\<nexists>l. (True, l) \<in> set ?ls" if "all_capital decls (typeOf v)"
    using leaves_capital [OF assms(1,2) that] by blast
  have "Decode gob decls heap (Some v) st = None \<longleftrightarrow> (\<exists>l. (True, l) \<in> set ?ls)"
    using j by (auto simp: dec judged_def split: if_splits)
  moreover have "\<exists>st'. Decode gob decls heap (Some v) st = Some (gob (Some v), st') \<and>
         checked st' = checked st \<union> {u. type_reaches decls (typeOf v) u} \<and>
         errorCount st' = errorCount st + int (nonzero ?ls)" if "all_capital decls (typeOf v)"
    using j no_ro [OF that] clean [OF that] reach(1) by (auto simp: dec judged_def)
  ultimately show ?thesis by blast
qed

text \<open>A list node with a field \<open>next\<close> and a lower-case counter, decoded into.\<close>

definition sample_decls :: decls where
  "sample_decls = [(''Node'', Struct [(''V'', Basic KInt), (''Next'', Ptr (Named ''Node'')), (''n'', Basic KInt)])]"

definition sample_heap :: goheap where
  "sample_heap = (\<lambda>a. StructV (Named ''Node'')
     [Lit (Basic KInt) (LInt 7), PtrV (Ptr (Named ''Node'')) (Some 0), Lit (Basic KInt) (LInt 0)])"

theorem Decode_type_safe_witness:
  "Decode (\<lambda>_. ()) sample_decls sample_heap (Some (PtrV (Ptr (Named ''Node'')) (Some 0))) initial = None"
proof -
  let ?v = "PtrV (Ptr (Named ''Node'')) (Some 0)"
  have "heap_typed sample_decls sample_heap" and "typed sample_decls sample_heap ?v"
    by (simp_all add: heap_typed_def sample_heap_def sample_decls_def)
  moreover have "closed_types sample_decls (checked initial)"
    by (simp add: closed_types_def initial_def)
  moreover have "(True, LInt 0) \<in> set (leaves sample_decls sample_heap 3 False ?v)"
    by (simp add: sample_heap_def sample_decls_def numeral_3_eq_3 capitalized_def)
  ultimately show ?thesis
    using Decode_type_safe [of sample_decls sample_heap ?v initial "\<lambda>_. ()"] by blast
qed

end
