(* ===== verification/Kvtest.thy ===== *)
theory Kvtest
  imports Prelude "HOL-Library.AList"
begin

text \<open>
  The shared test library of the key/value labs (\<open>kvtest1/kvtest.go\<close>): clients that race to put and to
  append under one key, and the checks of the outcome.

  The clerk and the server that the clients call are left to the student in this repository
  (\<open>kvsrv1/client.go\<close> and \<open>kvsrv1/server.go\<close> are skeletons), so their documented behaviour is what
  the clients run against: the server applies a put exactly when the version matches and answers
  \<open>ErrVersion\<close> otherwise (\<open>ErrNoKey\<close> for a missing key and a version other than 0); the clerk repeats
  a request until a reply arrives and turns an \<open>ErrVersion\<close> that answers a repeated request into
  \<open>ErrMaybe\<close>.  Values are passed as data, without their JSON text; versions are natural numbers
  (\<open>uint64\<close> counters that a test does not exhaust).  \<open>Fatalf\<close> ends the test and is an error value.
\<close>

section \<open>Errors and documented behaviour of clerk and server\<close>

datatype Err = OK | ErrNoKey | ErrVersion | ErrMaybe | ErrWrongLeader | ErrWrongGroup

type_synonym 'v cell = "('v \<times> nat) option"

text \<open>One execution of a put at the server, and the error that the clerk returns for its reply.\<close>

definition server_put :: "'v \<Rightarrow> nat \<Rightarrow> 'v cell \<Rightarrow> Err \<times> 'v cell" where
  "server_put v ver cell =
     (case cell of
        None \<Rightarrow> if ver = 0 then (OK, Some (v, 1)) else (ErrNoKey, None)
      | Some (_, cur) \<Rightarrow> if ver = cur then (OK, Some (v, cur + 1)) else (ErrVersion, cell))"

definition clerk_err :: "bool \<Rightarrow> Err \<Rightarrow> Err" where
  "clerk_err resend err = (if resend \<and> err = ErrVersion then ErrMaybe else err)"

section \<open>Helpers\<close>

datatype test_failure = Fatal string | IndexPanic

definition MakeKeys :: "nat \<Rightarrow> string list" where
  "MakeKeys n = map (\<lambda>i. ''k'' @ itoa i) [0..<n]"

definition letterBytes :: string where
  "letterBytes = ''abcdefghijklmnopqrstuvwxyzABCDEFGHIJKLMNOPQRSTUVWXYZ''"

text \<open>The numbers that \<open>rand.Int63\<close> returns are an argument.\<close>

definition RandValue :: "(nat \<Rightarrow> nat) \<Rightarrow> nat \<Rightarrow> string" where
  "RandValue rand n = map (\<lambda>i. letterBytes ! (rand i mod length letterBytes)) [0..<n]"

text \<open>The two sides that \<open>Partitioner\<close> draws: \<open>a\<close> holds \<open>rand.Int() % 2\<close> for each server.\<close>

definition Partitioner_sides :: "nat list \<Rightarrow> nat list list" where
  "Partitioner_sides a = map (\<lambda>i. filter (\<lambda>j. a ! j = i) [0..<length a]) [0..<2]"

text \<open>\<open>PutAtLeastOnce\<close> over a clerk whose put is \<open>put\<close>, a function of the state of the world.\<close>

partial_function (option) PutAtLeastOnce ::
  "(string \<Rightarrow> string \<Rightarrow> nat \<Rightarrow> 'w \<Rightarrow> Err \<times> 'w) \<Rightarrow> string \<Rightarrow> string \<Rightarrow> nat \<Rightarrow> 'w \<Rightarrow> ((test_failure + nat) \<times> 'w) option"
  where
  "PutAtLeastOnce put key value ver w =
    (case put key value ver w of
       (err, w) \<Rightarrow>
         if err = OK then Some (Inr (ver + 1), w)
         else if err = ErrMaybe \<or> err = ErrVersion then PutAtLeastOnce put key value (ver + 1) w
         else if ver \<noteq> 0 then Some (Inl (Fatal ''Put''), w)
         else PutAtLeastOnce put key value ver w)"

record ClntRes =
  Nok :: int
  Nmaybe :: int

section \<open>Clients that put\<close>

record EntryV =
  v_Id :: int
  v_V :: nat

text \<open>
  Where a client stands: at the top of its loop, waiting for the reply to a put (\<open>resend\<close>: the clerk
  has sent the request before; \<open>applied\<close>: an earlier request of this put was executed, which the
  client does not see), waiting for the reply to the get that follows, ended by \<open>Fatalf\<close>, or done.
\<close>

datatype pphase = PTop | PPut bool bool | PGet Err | PFatal string | PDone

record pclient =
  p_phase :: pphase
  p_ver :: nat
  p_res :: ClntRes

definition newClient :: pclient where
  "newClient = \<lparr>p_phase = PTop, p_ver = 0, p_res = \<lparr>Nok = 0, Nmaybe = 0\<rparr>\<rparr>"

text \<open>\<open>OnePut\<close> up to the reply of its put, and from the reply of its get; the result is counted in
  \<open>OneClientPut\<close>.\<close>

definition OnePut_put_replied :: "Err \<Rightarrow> pclient \<Rightarrow> pclient" where
  "OnePut_put_replied err cl =
     (if \<not> (err = OK \<or> err = ErrVersion \<or> err = ErrMaybe) then cl\<lparr>p_phase := PFatal ''Wrong error''\<rparr>
      else cl\<lparr>p_phase := PGet err\<rparr>)"

definition OneClientPut_count :: "bool \<Rightarrow> pclient \<Rightarrow> pclient" where
  "OneClientPut_count ok cl =
     cl\<lparr>p_phase := PTop,
        p_res := (if ok then (p_res cl)\<lparr>Nok := Nok (p_res cl) + 1\<rparr>
                  else (p_res cl)\<lparr>Nmaybe := Nmaybe (p_res cl) + 1\<rparr>)\<rparr>"

definition OnePut_get_replied :: "int \<Rightarrow> Err \<Rightarrow> EntryV cell \<Rightarrow> pclient \<Rightarrow> pclient" where
  "OnePut_get_replied me err cell cl =
     (case cell of
        None \<Rightarrow> cl\<lparr>p_phase := PFatal ''Get err''\<rparr>
      | Some (e, ver0) \<Rightarrow>
          if err = OK \<and> ver0 = p_ver cl + 1 \<and> (v_Id e \<noteq> me \<and> v_V e \<noteq> p_ver cl)
          then cl\<lparr>p_phase := PFatal ''Wrong value''\<rparr>
          else
            let cl = cl\<lparr>p_ver := ver0\<rparr>
            in if err = OK \<or> err = ErrMaybe then OneClientPut_count (err = OK) cl
               else cl\<lparr>p_phase := PPut False False\<rparr>)"

record psystem =
  p_cell :: "EntryV cell"
  p_clients :: "pclient list"

definition set_client :: "nat \<Rightarrow> pclient \<Rightarrow> psystem \<Rightarrow> psystem" where
  "set_client c cl s = s\<lparr>p_clients := (p_clients s)[c := cl]\<rparr>"

text \<open>The steps of client \<open>c\<close> on key \<open>ka[0]\<close>; requests and replies are lost only when the network is
  not reliable.\<close>

inductive pstep :: "bool \<Rightarrow> psystem \<Rightarrow> psystem \<Rightarrow> bool" for reliable where
  p_done:
    "c < length (p_clients s) \<Longrightarrow> p_phase (p_clients s ! c) = PTop \<Longrightarrow>
     pstep reliable s (set_client c ((p_clients s ! c)\<lparr>p_phase := PDone\<rparr>) s)"
| p_put:
    "c < length (p_clients s) \<Longrightarrow> p_phase (p_clients s ! c) = PTop \<Longrightarrow>
     pstep reliable s (set_client c ((p_clients s ! c)\<lparr>p_phase := PPut False False\<rparr>) s)"
| p_lose_request:
    "\<not> reliable \<Longrightarrow> c < length (p_clients s) \<Longrightarrow> p_phase (p_clients s ! c) = PPut resend applied \<Longrightarrow>
     pstep reliable s (set_client c ((p_clients s ! c)\<lparr>p_phase := PPut True applied\<rparr>) s)"
| p_lose_reply:
    "\<not> reliable \<Longrightarrow> c < length (p_clients s) \<Longrightarrow> cl = p_clients s ! c \<Longrightarrow>
     p_phase cl = PPut resend applied \<Longrightarrow>
     server_put \<lparr>v_Id = int c, v_V = p_ver cl\<rparr> (p_ver cl) (p_cell s) = (err, cell) \<Longrightarrow>
     pstep reliable s (set_client c (cl\<lparr>p_phase := PPut True (applied \<or> err = OK)\<rparr>) (s\<lparr>p_cell := cell\<rparr>))"
| p_put_replied:
    "c < length (p_clients s) \<Longrightarrow> cl = p_clients s ! c \<Longrightarrow> p_phase cl = PPut resend applied \<Longrightarrow>
     server_put \<lparr>v_Id = int c, v_V = p_ver cl\<rparr> (p_ver cl) (p_cell s) = (err, cell) \<Longrightarrow>
     pstep reliable s (set_client c (OnePut_put_replied (clerk_err resend err) cl) (s\<lparr>p_cell := cell\<rparr>))"
| p_get_replied:
    "c < length (p_clients s) \<Longrightarrow> cl = p_clients s ! c \<Longrightarrow> p_phase cl = PGet err \<Longrightarrow>
     pstep reliable s (set_client c (OnePut_get_replied (int c) err (p_cell s) cl) s)"

definition start_puts :: "nat \<Rightarrow> psystem" where
  "start_puts nclnt = \<lparr>p_cell = None, p_clients = replicate nclnt newClient\<rparr>"

text \<open>The clients' results, and the check at the end: \<open>cell\<close> is what the final get finds.\<close>

definition add_res :: "ClntRes \<Rightarrow> ClntRes \<Rightarrow> ClntRes" where
  "add_res res r = \<lparr>Nok = Nok res + Nok r, Nmaybe = Nmaybe res + Nmaybe r\<rparr>"

definition CheckPutConcurrent :: "'v cell \<Rightarrow> ClntRes list \<Rightarrow> ClntRes \<Rightarrow> bool \<Rightarrow> test_failure + ClntRes" where
  "CheckPutConcurrent cell rs res reliable =
     (case cell of
        None \<Rightarrow> Inl (Fatal ''Get err'')
      | Some (_, ver0) \<Rightarrow>
          let res = foldl add_res res rs
          in if reliable then
               (if int ver0 \<noteq> Nok res then Inl (Fatal ''Reliable: Wrong number of puts'') else Inr res)
             else if int ver0 > Nok res + Nmaybe res then Inl (Fatal ''Unreliable: Wrong number of puts'')
             else Inr res)"

section \<open>Clients that append\<close>

record EntryN =
  e_Id :: int
  e_N :: int

datatype aphase = ATop | AGet | APut "EntryN list" nat bool bool | ADone

record aclient =
  a_phase :: aphase
  a_i :: int
  a_res :: ClntRes

text \<open>\<open>OneClientAppend\<close> after the reply to its put: count and go on to the next number, or read again.\<close>

definition OneClientAppend_put_replied :: "Err \<Rightarrow> aclient \<Rightarrow> aclient" where
  "OneClientAppend_put_replied err cl =
     (if err = OK then
        cl\<lparr>a_phase := ATop, a_i := a_i cl + 1, a_res := (a_res cl)\<lparr>Nok := Nok (a_res cl) + 1\<rparr>\<rparr>
      else if err = ErrMaybe then
        cl\<lparr>a_phase := ATop, a_i := a_i cl + 1, a_res := (a_res cl)\<lparr>Nmaybe := Nmaybe (a_res cl) + 1\<rparr>\<rparr>
      else cl\<lparr>a_phase := AGet\<rparr>)"

record asystem =
  a_es :: "EntryN list"
  a_ver :: nat
  a_clients :: "aclient list"

definition set_aclient :: "nat \<Rightarrow> aclient \<Rightarrow> asystem \<Rightarrow> asystem" where
  "set_aclient c cl s = s\<lparr>a_clients := (a_clients s)[c := cl]\<rparr>"

definition set_acell :: "EntryN list cell \<Rightarrow> asystem \<Rightarrow> asystem" where
  "set_acell cell s = (case cell of None \<Rightarrow> s | Some (es, ver) \<Rightarrow> s\<lparr>a_es := es, a_ver := ver\<rparr>)"

text \<open>The key exists from the start, with the empty list.\<close>

inductive astep :: "asystem \<Rightarrow> asystem \<Rightarrow> bool" where
  a_done:
    "c < length (a_clients s) \<Longrightarrow> a_phase (a_clients s ! c) = ATop \<Longrightarrow>
     astep s (set_aclient c ((a_clients s ! c)\<lparr>a_phase := ADone\<rparr>) s)"
| a_begin:
    "c < length (a_clients s) \<Longrightarrow> a_phase (a_clients s ! c) = ATop \<Longrightarrow>
     astep s (set_aclient c ((a_clients s ! c)\<lparr>a_phase := AGet\<rparr>) s)"
| a_get_replied:
    "c < length (a_clients s) \<Longrightarrow> cl = a_clients s ! c \<Longrightarrow> a_phase cl = AGet \<Longrightarrow>
     astep s (set_aclient c
       (cl\<lparr>a_phase := APut (a_es s @ [\<lparr>e_Id = int c, e_N = a_i cl\<rparr>]) (a_ver s) False False\<rparr>) s)"
| a_lose_request:
    "c < length (a_clients s) \<Longrightarrow> cl = a_clients s ! c \<Longrightarrow> a_phase cl = APut es ver resend applied \<Longrightarrow>
     astep s (set_aclient c (cl\<lparr>a_phase := APut es ver True applied\<rparr>) s)"
| a_lose_reply:
    "c < length (a_clients s) \<Longrightarrow> cl = a_clients s ! c \<Longrightarrow> a_phase cl = APut es ver resend applied \<Longrightarrow>
     server_put es ver (Some (a_es s, a_ver s)) = (err, cell) \<Longrightarrow>
     astep s (set_aclient c (cl\<lparr>a_phase := APut es ver True (applied \<or> err = OK)\<rparr>) (set_acell cell s))"
| a_put_replied:
    "c < length (a_clients s) \<Longrightarrow> cl = a_clients s ! c \<Longrightarrow> a_phase cl = APut es ver resend applied \<Longrightarrow>
     server_put es ver (Some (a_es s, a_ver s)) = (err, cell) \<Longrightarrow>
     astep s (set_aclient c (OneClientAppend_put_replied (clerk_err resend err) cl) (set_acell cell s))"

definition start_appends :: "nat \<Rightarrow> asystem" where
  "start_appends nclnt = \<lparr>a_es = [], a_ver = 1,
     a_clients = replicate nclnt \<lparr>a_phase = ATop, a_i = 0, a_res = \<lparr>Nok = 0, Nmaybe = 0\<rparr>\<rparr>\<rparr>"

section \<open>The check of appends\<close>

text \<open>A Go map from ints to ints; a missing key reads as 0.\<close>

type_synonym counts = "(int \<times> int) list"

definition lookup0 :: "counts \<Rightarrow> int \<Rightarrow> int" where
  "lookup0 m k = (case map_of m k of None \<Rightarrow> 0 | Some v \<Rightarrow> v)"

fun append_loop :: "EntryN list \<Rightarrow> counts \<Rightarrow> counts \<Rightarrow> test_failure + counts \<times> counts" where
  "append_loop [] expect skipped = Inr (expect, skipped)"
| "append_loop (e # es) expect skipped =
    (if lookup0 expect (e_Id e) > e_N e then Inl (Fatal ''wrong expecting'')
     else if lookup0 expect (e_Id e) = e_N e then
       append_loop es (AList.update (e_Id e) (lookup0 expect (e_Id e) + 1) expect) skipped
     else
       let s = e_N e - lookup0 expect (e_Id e)
       in append_loop es (AList.update (e_Id e) (e_N e + 1) expect)
            (AList.update (e_Id e) (lookup0 skipped (e_Id e) + s) skipped))"

fun client_loop :: "int list \<Rightarrow> counts \<Rightarrow> counts \<Rightarrow> ClntRes list \<Rightarrow> test_failure + unit" where
  "client_loop [] expect skipped rs = Inr ()"
| "client_loop (c # cs) expect skipped rs =
    (case int_get rs c of
       None \<Rightarrow> Inl IndexPanic
     | Some r \<Rightarrow>
         if lookup0 skipped c > Nmaybe r then Inl (Fatal ''skipped puts on server > maybe'')
         else if lookup0 expect c > Nok r + Nmaybe r then Inl (Fatal ''puts on server > ok+maybe'')
         else client_loop cs expect skipped rs)"

definition CheckAppends :: "(int list \<Rightarrow> int list) \<Rightarrow> EntryN list \<Rightarrow> nat \<Rightarrow> ClntRes list \<Rightarrow> nat \<Rightarrow> test_failure + unit" where
  "CheckAppends visit es nclnt rs ver =
    (let zeros = map (\<lambda>i. (int i, 0)) [0..<nclnt]
     in case append_loop es zeros zeros of
          Inl f \<Rightarrow> Inl f
        | Inr (expect, skipped) \<Rightarrow>
            if int (length es) + 1 \<noteq> int ver then Inl (Fatal ''appends in val != puts on server'')
            else client_loop (visit (map fst expect)) expect skipped rs)"

end
