(* ===== verification/Kvtest_Properties.thy ===== *)
theory Kvtest_Properties
  imports Kvtest
begin

text \<open>
  What the checks of the key/value tests decide, and that clients which run against a server and a clerk
  that behave as documented never fail them, however they interleave and whatever the network loses.
\<close>

section \<open>The check of appends\<close>

text \<open>The numbers that a client has appended, in the order of the value.\<close>

definition Ns :: "int \<Rightarrow> EntryN list \<Rightarrow> int list" where
  "Ns c es = map e_N (filter (\<lambda>e. e_Id e = c) es)"

lemma Ns_simps [simp]:
  "Ns c [] = []"
  "Ns c (e # es) = (if e_Id e = c then e_N e # Ns c es else Ns c es)"
  "Ns c (es @ fs) = Ns c es @ Ns c fs"
  by (simp_all add: Ns_def)

fun chain :: "int \<Rightarrow> int list \<Rightarrow> bool" where
  "chain x [] = True"
| "chain x (n # ns) = (x \<le> n \<and> chain (n + 1) ns)"

fun top :: "int \<Rightarrow> int list \<Rightarrow> int" where
  "top x [] = x"
| "top x (n # ns) = top (n + 1) ns"

lemma chain_sorted: "chain x ns \<longleftrightarrow> sorted_wrt (<) ns \<and> (\<forall>n \<in> set ns. x \<le> n)"
  by (induction ns arbitrary: x) force+

lemma top_last: "top x ns = (if ns = [] then x else last ns + 1)"
  by (induction ns arbitrary: x) auto

lemma lookup0_update [simp]:
  "lookup0 (AList.update k v m) k' = (if k' = k then v else lookup0 m k')"
  by (simp add: lookup0_def update_conv')

text \<open>One pass over the value: it fails exactly when some client's numbers do not increase; otherwise
  the two maps hold the number each client is expected to append next and how many it has skipped.\<close>

lemma append_loop_keys:
  "append_loop es expect skipped = Inr (expect', skipped') \<Longrightarrow>
   fst ` set expect' = fst ` set expect \<union> e_Id ` set es"
  by (induction es expect skipped rule: append_loop.induct)
    (auto simp: Let_def dom_update split: if_splits)

lemma append_loop_counts:
  "append_loop es expect skipped = Inr (expect', skipped') \<Longrightarrow>
   chain (lookup0 expect c) (Ns c es) \<and>
   lookup0 expect' c = top (lookup0 expect c) (Ns c es) \<and>
   lookup0 skipped' c = lookup0 skipped c +
     (top (lookup0 expect c) (Ns c es) - lookup0 expect c - int (length (Ns c es)))"
  by (induction es expect skipped rule: append_loop.induct) (auto simp: Let_def split: if_splits)

lemma append_loop_fails:
  "append_loop es expect skipped = Inl f \<Longrightarrow> \<exists>c. \<not> chain (lookup0 expect c) (Ns c es)"
proof (induction es expect skipped rule: append_loop.induct)
  case (2 e es expect skipped)
  let ?x = "lookup0 expect (e_Id e)"
  show ?case
  proof (cases "?x > e_N e")
    case True
    then show ?thesis by (intro exI [of _ "e_Id e"]) simp
  next
    case False
    then obtain skipped' where "append_loop es (AList.update (e_Id e) (e_N e + 1) expect) skipped' = Inl f"
      and IH: "\<exists>c. \<not> chain (lookup0 (AList.update (e_Id e) (e_N e + 1) expect) c) (Ns c es)"
      using 2 by (auto simp: Let_def split: if_splits)
    from IH obtain c where "\<not> chain (lookup0 (AList.update (e_Id e) (e_N e + 1) expect) c) (Ns c es)"
      by blast
    then show ?thesis by (intro exI [of _ c]) (auto split: if_splits)
  qed
qed simp

lemma client_loop_ok:
  "client_loop cs expect skipped rs = Inr () \<longleftrightarrow>
   (\<forall>c \<in> set cs. 0 \<le> c \<and> c < int (length rs) \<and>
      lookup0 skipped c \<le> Nmaybe (rs ! nat c) \<and> lookup0 expect c \<le> Nok (rs ! nat c) + Nmaybe (rs ! nat c))"
  by (induction cs expect skipped rs rule: client_loop.induct)
    (auto simp: int_get_def slice_get_def split: option.splits if_splits)

text \<open>What a client with result \<open>r\<close> may have left in the value.\<close>

definition admissible :: "ClntRes \<Rightarrow> int list \<Rightarrow> bool" where
  "admissible r ns \<longleftrightarrow> sorted_wrt (<) ns \<and> (\<forall>n \<in> set ns. 0 \<le> n) \<and>
     (let next = if ns = [] then 0 else last ns + 1
      in next - int (length ns) \<le> Nmaybe r \<and> next \<le> Nok r + Nmaybe r)"

lemma lookup0_zeros [simp]: "lookup0 (map (\<lambda>i. (int i, 0)) is) c = 0"
  by (induction "is") (auto simp: lookup0_def)

lemma all_clients:
  "(\<forall>c \<in> int ` {..<n} \<union> A. 0 \<le> c \<and> c < int n \<and> P c (nat c)) \<longleftrightarrow>
   (\<forall>c \<in> A. 0 \<le> c \<and> c < int n) \<and> (\<forall>c < n. P (int c) c)" (is "?L \<longleftrightarrow> ?R")
proof
  assume ?L
  then have "\<forall>c < n. P (int c) (nat (int c))" and "\<forall>c \<in> A. 0 \<le> c \<and> c < int n"
    by blast+
  then show ?R by simp
next
  assume R: ?R
  show ?L
  proof
    fix c
    assume "c \<in> int ` {..<n} \<union> A"
    then have c: "0 \<le> c" "c < int n"
      using R by auto
    then have "P (int (nat c)) (nat c)"
      using R by (intro R [THEN conjunct2, rule_format]) simp
    with c show "0 \<le> c \<and> c < int n \<and> P c (nat c)" by simp
  qed
qed

lemma CheckAppends_iff:
  assumes "visits visit" and "length rs = nclnt"
  shows "CheckAppends visit es nclnt rs ver = Inr () \<longleftrightarrow>
    int ver = int (length es) + 1 \<and>
    (\<forall>e \<in> set es. 0 \<le> e_Id e \<and> e_Id e < int nclnt) \<and>
    (\<forall>c < nclnt. admissible (rs ! c) (Ns (int c) es))"
proof (cases "append_loop es (map (\<lambda>i. (int i, 0)) [0..<nclnt]) (map (\<lambda>i. (int i, 0)) [0..<nclnt])")
  case (Inl f)
  from append_loop_fails [OF this] obtain c where c: "\<not> chain 0 (Ns c es)"
    by auto
  have "\<not> ((\<forall>e \<in> set es. 0 \<le> e_Id e \<and> e_Id e < int nclnt) \<and> (\<forall>c < nclnt. admissible (rs ! c) (Ns (int c) es)))"
  proof
    assume ok: "(\<forall>e \<in> set es. 0 \<le> e_Id e \<and> e_Id e < int nclnt) \<and> (\<forall>c < nclnt. admissible (rs ! c) (Ns (int c) es))"
    from c have "Ns c es \<noteq> []"
      by auto
    then have "0 \<le> c" "c < int nclnt"
      using ok by (auto simp: Ns_def filter_empty_conv)
    then have "chain 0 (Ns c es)"
      using ok [THEN conjunct2, rule_format, of "nat c"] by (simp add: admissible_def chain_sorted)
    with c show False by simp
  qed
  then show ?thesis
    using Inl by (simp add: CheckAppends_def Let_def)
next
  case (Inr r)
  obtain expect skipped where r: "r = (expect, skipped)"
    by (cases r)
  note counts = append_loop_counts [OF Inr [unfolded r]] and keys = append_loop_keys [OF Inr [unfolded r]]
  have keys': "set (visit (map fst expect)) = int ` {..<nclnt} \<union> e_Id ` set es"
    using assms(1) keys by (auto simp: image_image)
  have adm: "lookup0 skipped c \<le> Nmaybe r \<and> lookup0 expect c \<le> Nok r + Nmaybe r \<longleftrightarrow> admissible r (Ns c es)"
    for c r
    using counts [of c] by (auto simp: admissible_def chain_sorted top_last Let_def)
  have "CheckAppends visit es nclnt rs ver = Inr () \<longleftrightarrow>
     int ver = int (length es) + 1 \<and> client_loop (visit (map fst expect)) expect skipped rs = Inr ()"
    using Inr by (auto simp: CheckAppends_def Let_def r)
  moreover have "client_loop (visit (map fst expect)) expect skipped rs = Inr () \<longleftrightarrow>
     (\<forall>e \<in> set es. 0 \<le> e_Id e \<and> e_Id e < int nclnt) \<and> (\<forall>c < nclnt. admissible (rs ! c) (Ns (int c) es))"
    unfolding client_loop_ok keys' adm assms(2)
    using all_clients [of nclnt "e_Id ` set es" "\<lambda>c i. admissible (rs ! i) (Ns c es)"] by simp
  ultimately show ?thesis by blast
qed

section \<open>The clients that append pass the check\<close>

text \<open>What holds of client \<open>c\<close> while the value is \<open>es\<close> at version \<open>ver\<close>.\<close>

definition appended :: "EntryN list \<Rightarrow> nat \<Rightarrow> nat \<Rightarrow> aclient \<Rightarrow> bool" where
  "appended es ver c cl \<longleftrightarrow>
     0 \<le> Nok (a_res cl) \<and> 0 \<le> Nmaybe (a_res cl) \<and> a_i cl = Nok (a_res cl) + Nmaybe (a_res cl) \<and>
     chain 0 (Ns (int c) es) \<and>
     (case a_phase cl of
        APut es' ver' resend True \<Rightarrow>
          (\<forall>n \<in> set (Ns (int c) es). n < a_i cl + 1) \<and>
          a_i cl + 1 - int (length (Ns (int c) es)) \<le> Nmaybe (a_res cl) \<and> ver' < ver \<and> resend
      | APut es' ver' resend False \<Rightarrow>
          (\<forall>n \<in> set (Ns (int c) es). n < a_i cl) \<and>
          a_i cl - int (length (Ns (int c) es)) \<le> Nmaybe (a_res cl) \<and> ver' \<le> ver \<and>
          (ver' = ver \<longrightarrow> es' = es @ [\<lparr>e_Id = int c, e_N = a_i cl\<rparr>])
      | _ \<Rightarrow>
          (\<forall>n \<in> set (Ns (int c) es). n < a_i cl) \<and>
          a_i cl - int (length (Ns (int c) es)) \<le> Nmaybe (a_res cl))"

definition ainv :: "nat \<Rightarrow> asystem \<Rightarrow> bool" where
  "ainv n s \<longleftrightarrow> length (a_clients s) = n \<and> a_ver s = length (a_es s) + 1 \<and>
     (\<forall>e \<in> set (a_es s). 0 \<le> e_Id e \<and> e_Id e < int n) \<and>
     (\<forall>c < n. appended (a_es s) (a_ver s) c (a_clients s ! c))"

lemma chain_snoc: "chain x ns \<Longrightarrow> \<forall>n \<in> set ns. n < m \<Longrightarrow> x \<le> m \<Longrightarrow> chain x (ns @ [m])"
  by (auto simp: chain_sorted sorted_wrt_append)

lemma appended_other:
  assumes "appended es ver c cl" and "c' \<noteq> c"
  shows "appended (es @ [\<lparr>e_Id = int c', e_N = i\<rparr>]) (Suc ver) c cl"
  using assms by (auto simp: appended_def split: aphase.splits bool.splits)

text \<open>An execution of a client's put at the server: nothing happens, or the client's entry is added,
  for the first and only time.\<close>

lemma append_exec:
  assumes "appended es ver c cl" and "a_phase cl = APut es' ver' resend applied"
    and "server_put es' ver' (Some (es, ver)) = (err, cell)"
  obtains "err = OK" "\<not> applied" "cell = Some (es @ [\<lparr>e_Id = int c, e_N = a_i cl\<rparr>], Suc ver)"
    | "err = ErrVersion" "cell = Some (es, ver)"
  using assms by (auto simp: appended_def server_put_def split: if_splits bool.splits)

lemma ainv_client:
  "ainv n s \<Longrightarrow> c < length (a_clients s) \<Longrightarrow> c < n \<and> appended (a_es s) (a_ver s) c (a_clients s ! c)"
  by (auto simp: ainv_def)

lemma ainv_step_client:
  assumes "ainv n s" and "c < n" and "appended (a_es s) (a_ver s) c cl"
  shows "ainv n (set_aclient c cl s)"
  using assms by (auto simp: ainv_def set_aclient_def nth_list_update)

lemma ainv_step_append:
  assumes "ainv n s" and "c < n"
    and "appended (a_es s @ [\<lparr>e_Id = int c, e_N = i\<rparr>]) (Suc (a_ver s)) c cl"
  shows "ainv n (set_aclient c cl (set_acell (Some (a_es s @ [\<lparr>e_Id = int c, e_N = i\<rparr>], Suc (a_ver s))) s))"
  using assms by (auto simp: ainv_def set_aclient_def set_acell_def nth_list_update intro: appended_other)

lemma set_acell_same [simp]: "set_acell (Some (a_es s, a_ver s)) s = s"
  by (simp add: set_acell_def)

text \<open>The effect of the client's own put, applied with the reply lost or delivered, or refused.\<close>

lemma appended_applied:
  assumes "appended es ver c cl" and "a_phase cl = APut es' ver' resend False" and "ver' = ver"
  shows "appended (es @ [\<lparr>e_Id = int c, e_N = a_i cl\<rparr>]) (Suc ver) c (cl\<lparr>a_phase := APut es' ver' True True\<rparr>)"
    and "appended (es @ [\<lparr>e_Id = int c, e_N = a_i cl\<rparr>]) (Suc ver) c (OneClientAppend_put_replied OK cl)"
  using assms by (auto simp: appended_def OneClientAppend_put_replied_def intro!: chain_snoc)

lemma appended_refused:
  assumes "appended es ver c cl" and "a_phase cl = APut es' ver' resend applied"
  shows "appended es ver c (cl\<lparr>a_phase := APut es' ver' True applied\<rparr>)"
    and "appended es ver c (OneClientAppend_put_replied (clerk_err resend ErrVersion) cl)"
  using assms
  by (auto simp: appended_def OneClientAppend_put_replied_def clerk_err_def split: bool.splits)

lemma ainv_step: "astep s s' \<Longrightarrow> ainv n s \<Longrightarrow> ainv n s'"
proof (induction rule: astep.induct)
  case (a_lose_reply c s cl es ver resend applied err cell)
  then have c: "c < n" and cl: "appended (a_es s) (a_ver s) c cl"
    by (auto dest: ainv_client)
  from cl a_lose_reply(3,4) show ?case
  proof (cases rule: append_exec)
    case 1
    then have "ver = a_ver s"
      using a_lose_reply(4) by (auto simp: server_put_def split: if_splits)
    with 1 show ?thesis
      using a_lose_reply c cl appended_applied(1) by (auto intro!: ainv_step_append)
  next
    case 2
    then show ?thesis
      using a_lose_reply c appended_refused(1) [OF cl a_lose_reply(3)] by (auto intro!: ainv_step_client)
  qed
next
  case (a_put_replied c s cl es ver resend applied err cell)
  then have c: "c < n" and cl: "appended (a_es s) (a_ver s) c cl"
    by (auto dest: ainv_client)
  from cl a_put_replied(3,4) show ?case
  proof (cases rule: append_exec)
    case 1
    then have "ver = a_ver s"
      using a_put_replied(4) by (auto simp: server_put_def split: if_splits)
    with 1 show ?thesis
      using a_put_replied c cl appended_applied(2)
      by (auto simp: clerk_err_def intro!: ainv_step_append)
  next
    case 2
    then show ?thesis
      using a_put_replied c appended_refused(2) [OF cl a_put_replied(3)] by (auto intro!: ainv_step_client)
  qed
next
  case (a_get_replied c s cl)
  then have c: "c < n" and cl: "appended (a_es s) (a_ver s) c cl"
    by (auto dest: ainv_client)
  with a_get_replied show ?case
    by (intro ainv_step_client) (auto simp: appended_def)
next
  case (a_lose_request c s cl es ver resend applied)
  then have c: "c < n" and cl: "appended (a_es s) (a_ver s) c cl"
    by (auto dest: ainv_client)
  with a_lose_request show ?case
    by (intro ainv_step_client appended_refused(1)) auto
next
  case (a_done c s)
  then have "appended (a_es s) (a_ver s) c (a_clients s ! c)" "c < n"
    by (auto dest: ainv_client)
  with a_done show ?case
    by (intro ainv_step_client) (auto simp: appended_def)
next
  case (a_begin c s)
  then have "appended (a_es s) (a_ver s) c (a_clients s ! c)" "c < n"
    by (auto dest: ainv_client)
  with a_begin show ?case
    by (intro ainv_step_client) (auto simp: appended_def)
qed

lemma ainv_reachable:
  assumes "astep\<^sup>*\<^sup>* (start_appends n) s"
  shows "ainv n s"
  using assms
proof (induction rule: rtranclp_induct)
  case base
  then show ?case by (simp add: ainv_def start_appends_def appended_def)
qed (rule ainv_step)

lemma appended_admissible:
  assumes "appended es ver c cl" and "a_phase cl = ADone"
  shows "admissible (a_res cl) (Ns (int c) es)"
proof (cases "Ns (int c) es = []")
  case True
  then show ?thesis
    using assms by (auto simp: appended_def admissible_def)
next
  case False
  then have "last (Ns (int c) es) < a_i cl"
    using assms last_in_set [OF False] by (auto simp: appended_def)
  then show ?thesis
    using assms False by (auto simp: appended_def admissible_def chain_sorted Let_def)
qed

text \<open>C8. However the clients that append interleave and however many requests and replies are lost, once
  all of them are done the value on the server passes \<open>CheckAppends\<close>: no client's entries are out of
  order or duplicated, and none is missing without an \<open>ErrMaybe\<close> to account for it.\<close>

theorem append_clients_pass:
  assumes "visits visit" and "astep\<^sup>*\<^sup>* (start_appends nclnt) s"
    and "list_all (\<lambda>cl. a_phase cl = ADone) (a_clients s)"
  shows "CheckAppends visit (a_es s) nclnt (map a_res (a_clients s)) (a_ver s) = Inr ()"
proof -
  have inv: "ainv nclnt s"
    using assms(2) by (rule ainv_reachable)
  then have len: "length (a_clients s) = nclnt"
    by (simp add: ainv_def)
  have "admissible (map a_res (a_clients s) ! c) (Ns (int c) (a_es s))" if "c < nclnt" for c
    using that inv assms(3) appended_admissible by (auto simp: ainv_def list_all_length)
  then show ?thesis
    using inv len by (subst CheckAppends_iff) (use assms(1) in \<open>auto simp: ainv_def\<close>)
qed

lemma append_run:
  "astep\<^sup>*\<^sup>* (start_appends 1)
     \<lparr>a_es = [\<lparr>e_Id = 0, e_N = 0\<rparr>], a_ver = 2,
      a_clients = [\<lparr>a_phase = ADone, a_i = 1, a_res = \<lparr>Nok = 1, Nmaybe = 0\<rparr>\<rparr>]\<rparr>"
proof -
  define st where "st es ver ph i nok =
     \<lparr>a_es = es, a_ver = ver, a_clients = [\<lparr>a_phase = ph, a_i = i, a_res = \<lparr>Nok = nok, Nmaybe = 0\<rparr>\<rparr>]\<rparr>"
    for es ver ph i nok
  let ?e = "[\<lparr>e_Id = 0, e_N = 0\<rparr>]"
  have "astep (st [] 1 ATop 0 0) (st [] 1 AGet 0 0)"
    using a_begin [of 0 "st [] 1 ATop 0 0"] by (simp add: st_def set_aclient_def)
  moreover have "astep (st [] 1 AGet 0 0) (st [] 1 (APut ?e 1 False False) 0 0)"
    using a_get_replied [of 0 "st [] 1 AGet 0 0"] by (simp add: st_def set_aclient_def)
  moreover have "astep (st [] 1 (APut ?e 1 False False) 0 0) (st ?e 2 ATop 1 1)"
    using a_put_replied [of 0 "st [] 1 (APut ?e 1 False False) 0 0", OF _ refl, of ?e 1 False False OK]
    by (simp add: numeral_2_eq_2 st_def set_aclient_def set_acell_def server_put_def clerk_err_def
        OneClientAppend_put_replied_def)
  moreover have "astep (st ?e 2 ATop 1 1) (st ?e 2 ADone 1 1)"
    using a_done [of 0 "st ?e 2 ATop 1 1"] by (simp add: st_def set_aclient_def)
  ultimately have "astep\<^sup>*\<^sup>* (st [] 1 ATop 0 0) (st ?e 2 ADone 1 1)"
    by (meson converse_rtranclp_into_rtranclp rtranclp.rtrancl_refl)
  then show ?thesis
    by (simp add: st_def start_appends_def)
qed

theorem append_clients_pass_witness:
  "CheckAppends id [\<lparr>e_Id = 0, e_N = 0\<rparr>] 1 [\<lparr>Nok = 1, Nmaybe = 0\<rparr>] 2 = Inr ()"
  using append_clients_pass [OF _ append_run, of id] by (simp add: visits_def)

section \<open>The clients that put pass the check\<close>

text \<open>How many puts a client has certainly made, and how many it may have made.\<close>

definition sure :: "pclient \<Rightarrow> int" where
  "sure cl = Nok (p_res cl) + (if p_phase cl = PGet OK then 1 else 0)"

definition possible :: "pclient \<Rightarrow> int" where
  "possible cl = Nok (p_res cl) + Nmaybe (p_res cl) +
     (case p_phase cl of
        PGet err \<Rightarrow> if err = OK \<or> err = ErrMaybe then 1 else 0
      | PPut _ applied \<Rightarrow> if applied then 1 else 0
      | _ \<Rightarrow> 0)"

definition version :: "'v cell \<Rightarrow> nat" where
  "version cell = (case cell of None \<Rightarrow> 0 | Some (_, ver) \<Rightarrow> ver)"

text \<open>What holds of one client while the key is \<open>cell\<close>.\<close>

definition putting :: "bool \<Rightarrow> EntryV cell \<Rightarrow> nat \<Rightarrow> pclient \<Rightarrow> bool" where
  "putting reliable cell c cl \<longleftrightarrow>
     p_ver cl \<le> version cell \<and> (reliable \<longrightarrow> Nmaybe (p_res cl) = 0) \<and>
     (case p_phase cl of
        PPut resend applied \<Rightarrow> (applied \<longrightarrow> resend \<and> p_ver cl < version cell) \<and> (reliable \<longrightarrow> \<not> resend)
      | PGet err \<Rightarrow> cell \<noteq> None \<and> err \<in> {OK, ErrVersion, ErrMaybe} \<and> (reliable \<longrightarrow> err \<noteq> ErrMaybe) \<and>
          (err = OK \<longrightarrow> p_ver cl < version cell \<and>
             (version cell = Suc (p_ver cl) \<longrightarrow> cell = Some (\<lparr>v_Id = int c, v_V = p_ver cl\<rparr>, Suc (p_ver cl))))
      | PFatal _ \<Rightarrow> False
      | _ \<Rightarrow> True)"

definition pinv :: "bool \<Rightarrow> nat \<Rightarrow> psystem \<Rightarrow> bool" where
  "pinv reliable n s \<longleftrightarrow> length (p_clients s) = n \<and>
     (p_cell s \<noteq> None \<longrightarrow> 0 < version (p_cell s)) \<and>
     (\<Sum>cl \<leftarrow> p_clients s. sure cl) \<le> int (version (p_cell s)) \<and>
     int (version (p_cell s)) \<le> (\<Sum>cl \<leftarrow> p_clients s. possible cl) \<and>
     (\<forall>c < n. putting reliable (p_cell s) c (p_clients s ! c))"

lemma version_simps [simp]: "version None = 0" "version (Some (v, ver)) = ver"
  by (simp_all add: version_def)

lemma server_put_cases:
  assumes "server_put v ver cell = (err, cell')" and "ver \<le> version cell"
    and "cell \<noteq> None \<longrightarrow> 0 < version cell"
  obtains "err = OK" "ver = version cell" "cell' = Some (v, Suc ver)"
    | "err = ErrVersion" "ver < version cell" "cell' = cell" "cell \<noteq> None"
  using assms by (cases cell) (auto simp: server_put_def split: if_splits)

lemma sum_list_map_update:
  fixes f :: "'a \<Rightarrow> int"
  assumes "c < length xs"
  shows "(\<Sum>x \<leftarrow> xs[c := y]. f x) = (\<Sum>x \<leftarrow> xs. f x) + f y - f (xs ! c)"
  using assms by (induction xs arbitrary: c) (auto split: nat.splits)

text \<open>A step of client \<open>c\<close> that leaves the key alone, and one that puts.\<close>

lemma pinv_step_client:
  assumes "pinv reliable n s" and "c < n" and "putting reliable (p_cell s) c cl"
    and "sure cl \<le> sure (p_clients s ! c)" and "possible (p_clients s ! c) \<le> possible cl"
  shows "pinv reliable n (set_client c cl s)"
  using assms by (auto simp: pinv_def set_client_def nth_list_update sum_list_map_update)

lemma putting_other:
  assumes "putting reliable cell c cl" and "ver = version cell"
  shows "putting reliable (Some (v, Suc ver)) c cl"
  using assms by (auto simp: putting_def split: pphase.splits)

lemma pinv_step_put:
  assumes "pinv reliable n s" and "c < n" and "ver = version (p_cell s)"
    and "putting reliable (Some (v, Suc ver)) c cl"
    and "sure cl \<le> sure (p_clients s ! c) + 1" and "possible (p_clients s ! c) + 1 \<le> possible cl"
  shows "pinv reliable n (set_client c cl (s\<lparr>p_cell := Some (v, Suc ver)\<rparr>))"
  using assms
  by (auto simp: pinv_def set_client_def nth_list_update sum_list_map_update intro: putting_other)

lemma pinv_client:
  "pinv reliable n s \<Longrightarrow> c < length (p_clients s) \<Longrightarrow>
   c < n \<and> putting reliable (p_cell s) c (p_clients s ! c) \<and> (p_cell s \<noteq> None \<longrightarrow> 0 < version (p_cell s))"
  by (auto simp: pinv_def)

lemmas client_defs = putting_def sure_def possible_def OnePut_put_replied_def OnePut_get_replied_def
  OneClientPut_count_def clerk_err_def

lemma pinv_step: "pstep reliable s s' \<Longrightarrow> pinv reliable n s \<Longrightarrow> pinv reliable n s'"
proof (induction rule: pstep.induct)
  case (p_done c s)
  then show ?case
    using pinv_client [OF p_done(3,1)] by (intro pinv_step_client) (auto simp: client_defs)
next
  case (p_put c s)
  then show ?case
    using pinv_client [OF p_put(3,1)] by (intro pinv_step_client) (auto simp: client_defs)
next
  case (p_lose_request c s resend applied)
  then show ?case
    using pinv_client [OF p_lose_request(4,2)] by (intro pinv_step_client) (auto simp: client_defs)
next
  case (p_lose_reply c s cl resend applied err cell)
  then have cl: "c < n" "putting reliable (p_cell s) c cl" "p_cell s \<noteq> None \<longrightarrow> 0 < version (p_cell s)"
    using pinv_client [OF p_lose_reply(6,2)] by auto
  then have "p_ver cl \<le> version (p_cell s)"
    by (simp add: putting_def)
  from p_lose_reply(5) this cl(3) show ?case
  proof (cases rule: server_put_cases)
    case 1
    with p_lose_reply cl show ?thesis
      by (auto simp: client_defs intro!: pinv_step_put)
  next
    case 2
    with p_lose_reply cl show ?thesis
      by (auto simp: client_defs intro!: pinv_step_client)
  qed
next
  case (p_put_replied c s cl resend applied err cell)
  then have cl: "c < n" "putting reliable (p_cell s) c cl" "p_cell s \<noteq> None \<longrightarrow> 0 < version (p_cell s)"
    using pinv_client [OF p_put_replied(5,1)] by auto
  then have "p_ver cl \<le> version (p_cell s)"
    by (simp add: putting_def)
  from p_put_replied(4) this cl(3) show ?case
  proof (cases rule: server_put_cases)
    case 1
    with p_put_replied cl show ?thesis
      by (auto simp: client_defs intro!: pinv_step_put)
  next
    case 2
    with p_put_replied cl show ?thesis
      by (auto simp: client_defs intro!: pinv_step_client)
  qed
next
  case (p_get_replied c s cl err)
  then have cl: "c < n" "putting reliable (p_cell s) c cl"
    using pinv_client [OF p_get_replied(4,1)] by auto
  then obtain e ver0 where "p_cell s = Some (e, ver0)"
    using p_get_replied by (auto simp: putting_def)
  with p_get_replied cl show ?case
    by (intro pinv_step_client) (auto simp: client_defs Let_def)
qed

lemma pinv_reachable:
  assumes "(pstep reliable)\<^sup>*\<^sup>* (start_puts n) s"
  shows "pinv reliable n s"
  using assms
proof (induction rule: rtranclp_induct)
  case base
  then show ?case
    by (simp add: pinv_def start_puts_def newClient_def client_defs sum_list_replicate)
qed (rule pinv_step)

lemma foldl_add_res:
  "foldl add_res res rs =
     \<lparr>Nok = Nok res + (\<Sum>r \<leftarrow> rs. Nok r), Nmaybe = Nmaybe res + (\<Sum>r \<leftarrow> rs. Nmaybe r)\<rparr>"
  by (induction rs arbitrary: res) (auto simp: add_res_def)

lemma done_counts:
  assumes "p_phase cl = PDone"
  shows "sure cl = Nok (p_res cl)" and "possible cl = Nok (p_res cl) + Nmaybe (p_res cl)"
  using assms by (simp_all add: sure_def possible_def)

text \<open>C9. However the clients that put interleave, no client ends in a fatal error; and once all are
  done and the key exists, its version is at least the number of puts that returned OK and at most
  that number plus the number of \<open>ErrMaybe\<close>, so the final check passes; on a reliable network there
  is no \<open>ErrMaybe\<close> and the version is exactly the number of puts.\<close>

theorem put_clients_pass:
  assumes "(pstep reliable)\<^sup>*\<^sup>* (start_puts nclnt) s"
  shows "list_all (\<lambda>cl. \<forall>msg. p_phase cl \<noteq> PFatal msg) (p_clients s) \<and>
    (p_cell s = Some (e, ver0) \<longrightarrow> list_all (\<lambda>cl. p_phase cl = PDone) (p_clients s) \<longrightarrow>
       (\<exists>res. CheckPutConcurrent (p_cell s) (map p_res (p_clients s)) \<lparr>Nok = 0, Nmaybe = 0\<rparr> reliable = Inr res \<and>
          Nok res \<le> int ver0 \<and> int ver0 \<le> Nok res + Nmaybe res \<and> (reliable \<longrightarrow> Nmaybe res = 0)))"
proof -
  have inv: "pinv reliable nclnt s"
    using assms by (rule pinv_reachable)
  then have "list_all (\<lambda>cl. \<forall>msg. p_phase cl \<noteq> PFatal msg) (p_clients s)"
    by (auto simp: pinv_def list_all_length putting_def split: pphase.splits)
  moreover have "\<exists>res. CheckPutConcurrent (p_cell s) (map p_res (p_clients s)) \<lparr>Nok = 0, Nmaybe = 0\<rparr> reliable = Inr res \<and>
          Nok res \<le> int ver0 \<and> int ver0 \<le> Nok res + Nmaybe res \<and> (reliable \<longrightarrow> Nmaybe res = 0)"
    if cell: "p_cell s = Some (e, ver0)" and fin: "list_all (\<lambda>cl. p_phase cl = PDone) (p_clients s)"
  proof -
    let ?nok = "\<Sum>cl \<leftarrow> p_clients s. Nok (p_res cl)" and ?may = "\<Sum>cl \<leftarrow> p_clients s. Nmaybe (p_res cl)"
    have "(\<Sum>cl \<leftarrow> p_clients s. sure cl) = ?nok"
      using fin by (intro arg_cong [where f = sum_list] map_cong) (auto simp: list_all_iff done_counts)
    moreover have "(\<Sum>cl \<leftarrow> p_clients s. possible cl) = (\<Sum>cl \<leftarrow> p_clients s. Nok (p_res cl) + Nmaybe (p_res cl))"
      using fin by (intro arg_cong [where f = sum_list] map_cong) (auto simp: list_all_iff done_counts)
    ultimately have bounds: "?nok \<le> int ver0" "int ver0 \<le> ?nok + ?may"
      using inv cell by (simp_all add: pinv_def sum_list_addf)
    have "?may = 0" if reliable
    proof -
      have "?may = (\<Sum>_ \<leftarrow> p_clients s. 0)"
        using inv that
        by (intro arg_cong [where f = sum_list] map_cong) (auto simp: pinv_def putting_def in_set_conv_nth)
      then show ?thesis by simp
    qed
    with bounds show ?thesis
      by (auto simp: CheckPutConcurrent_def cell foldl_add_res comp_def Let_def)
  qed
  ultimately show ?thesis by blast
qed

lemma put_run:
  "(pstep True)\<^sup>*\<^sup>* (start_puts 1)
     \<lparr>p_cell = Some (\<lparr>v_Id = 0, v_V = 0\<rparr>, 1),
      p_clients = [\<lparr>p_phase = PDone, p_ver = 1, p_res = \<lparr>Nok = 1, Nmaybe = 0\<rparr>\<rparr>]\<rparr>"
proof -
  define st where "st cell ph ver nok =
     \<lparr>p_cell = cell, p_clients = [\<lparr>p_phase = ph, p_ver = ver, p_res = \<lparr>Nok = nok, Nmaybe = 0\<rparr>\<rparr>]\<rparr>"
    for cell ph ver nok
  let ?e = "Some (\<lparr>v_Id = 0, v_V = 0\<rparr>, 1)"
  have "pstep True (st None PTop 0 0) (st None (PPut False False) 0 0)"
    using p_put [of 0 "st None PTop 0 0"] by (simp add: st_def set_client_def)
  moreover have "pstep True (st None (PPut False False) 0 0) (st ?e (PGet OK) 0 0)"
    using p_put_replied [of 0 "st None (PPut False False) 0 0", OF _ refl, of False False OK]
    by (simp add: st_def set_client_def server_put_def clerk_err_def OnePut_put_replied_def)
  moreover have "pstep True (st ?e (PGet OK) 0 0) (st ?e PTop 1 1)"
    using p_get_replied [of 0 "st ?e (PGet OK) 0 0", OF _ refl, of OK]
    by (simp add: st_def set_client_def OnePut_get_replied_def OneClientPut_count_def Let_def)
  moreover have "pstep True (st ?e PTop 1 1) (st ?e PDone 1 1)"
    using p_done [of 0 "st ?e PTop 1 1"] by (simp add: st_def set_client_def)
  ultimately have "(pstep True)\<^sup>*\<^sup>* (st None PTop 0 0) (st ?e PDone 1 1)"
    by (meson converse_rtranclp_into_rtranclp rtranclp.rtrancl_refl)
  then show ?thesis
    by (simp add: st_def start_puts_def newClient_def)
qed

theorem put_clients_pass_witness:
  "\<exists>res. CheckPutConcurrent (Some (\<lparr>v_Id = 0, v_V = 0\<rparr>, 1)) [\<lparr>Nok = 1, Nmaybe = 0\<rparr>]
     \<lparr>Nok = 0, Nmaybe = 0\<rparr> True = Inr res \<and> Nok res \<le> 1"
  using put_clients_pass [OF put_run, of "\<lparr>v_Id = 0, v_V = 0\<rparr>" 1] by auto

section \<open>Helpers\<close>

text \<open>\<open>PutAtLeastOnce\<close> against a server that behaves as documented: it returns, with the value put
  and the version that the key then has.\<close>

definition cell_put :: "string \<Rightarrow> string \<Rightarrow> nat \<Rightarrow> string cell \<Rightarrow> Err \<times> string cell" where
  "cell_put key value ver cell = server_put value ver cell"

lemma PutAtLeastOnce_returns:
  assumes "ver \<le> version cell" and "cell \<noteq> None \<longrightarrow> 0 < version cell"
  shows "PutAtLeastOnce cell_put key value ver cell =
    Some (Inr (version cell + 1), Some (value, version cell + 1))"
  using assms
proof (induction "version cell - ver" arbitrary: ver)
  case 0
  then show ?case
    by (subst PutAtLeastOnce.simps) (cases cell; auto simp: cell_put_def server_put_def)
next
  case (Suc d)
  then have "PutAtLeastOnce cell_put key value (ver + 1) cell =
    Some (Inr (version cell + 1), Some (value, version cell + 1))"
    by (intro Suc(1)) auto
  with Suc show ?case
    by (subst PutAtLeastOnce.simps) (cases cell; auto simp: cell_put_def server_put_def)
qed

lemma MakeKeys_distinct: "length (MakeKeys n) = n \<and> distinct (MakeKeys n)"
  by (auto simp: MakeKeys_def distinct_map inj_on_def)

lemma RandValue_letters: "length (RandValue rand n) = n \<and> set (RandValue rand n) \<subseteq> set letterBytes"
proof -
  have "0 < length letterBytes"
    by (simp add: letterBytes_def)
  then show ?thesis
    by (auto simp del: length_greater_0_conv simp: RandValue_def intro!: nth_mem mod_less_divisor)
qed

text \<open>Every server is on exactly one side.\<close>

lemma Partitioner_sides_split:
  assumes "\<forall>x \<in> set a. x < 2"
  shows "\<exists>p q. Partitioner_sides a = [p, q] \<and> set p \<union> set q = {..<length a} \<and> set p \<inter> set q = {}"
proof -
  have "[0..<2] = [0, 1 :: nat]"
    by (simp add: upt_rec)
  then show ?thesis
    using assms by (auto simp: Partitioner_sides_def less_2_cases_iff)
qed

end
