(* ===== verification/Demux.thy ===== *)
theory Demux
  imports Prelude
begin

text \<open>
  The package \<open>tester1/demux\<close>, which multiplexes the calls of many goroutines over one connection and
  matches replies with calls by a tag, and the RPC client \<open>tester1/sockrpc\<close> on top of it.

  The first part is the transport: messages as frames, a little-endian length and the gob encoding of the
  message.  The second part is the protocol: the tags, the table of outstanding calls and the reader of
  \<open>dmxclnt.go\<close>, the reader and the goroutine per request of \<open>dmxsrv.go\<close>, as a step relation in which
  callers, the two readers, the serving goroutines and failures of the connection interleave freely.
  A critical section is one step.  The encoding of a message (\<open>labrpc.Marshall\<close>) and what the server
  answers to a request are arguments.
\<close>

section \<open>Frames\<close>

type_synonym bytes = "char list"
type_synonym Ttag = "32 word"

record msg =
  m_Tag :: Ttag
  m_Data :: bytes
  m_Ok :: bool

datatype read_error = EOF | UnexpectedEOF

text \<open>\<open>binary.Write\<close> and \<open>binary.Read\<close> of a \<open>uint32\<close> in little-endian order.\<close>

definition le32 :: "32 word \<Rightarrow> bytes" where
  "le32 w = map (\<lambda>i. char_of (unat w div 256 ^ i mod 256)) [0..<4]"

definition of_le32 :: "bytes \<Rightarrow> 32 word" where
  "of_le32 b = word_of_nat (\<Sum>i = 0..<4. of_char (b ! i) * 256 ^ i)"

text \<open>\<open>io.ReadFull\<close>: exactly \<open>n\<close> bytes of the input, or an error.\<close>

definition ReadFull :: "nat \<Rightarrow> bytes \<Rightarrow> read_error + bytes \<times> bytes" where
  "ReadFull n inp =
     (if n \<le> length inp then Inr (take n inp, drop n inp)
      else if inp = [] then Inl EOF else Inl UnexpectedEOF)"

definition WriteCall :: "(msg \<Rightarrow> bytes) \<Rightarrow> Ttag \<Rightarrow> bytes \<Rightarrow> bool \<Rightarrow> bytes \<Rightarrow> bytes" where
  "WriteCall marshal tag d ok out =
     (let b = marshal \<lparr>m_Tag = tag, m_Data = d, m_Ok = ok\<rparr>
      in out @ le32 (word_of_nat (length b)) @ b)"

definition ReadCall :: "(bytes \<Rightarrow> msg) \<Rightarrow> bytes \<Rightarrow> read_error + (Ttag \<times> bytes \<times> bool) \<times> bytes" where
  "ReadCall unmarshal inp =
     (case ReadFull 4 inp of
        Inl err \<Rightarrow> Inl err
      | Inr (h, rest) \<Rightarrow>
          (case ReadFull (unat (of_le32 h)) rest of
             Inl err \<Rightarrow> Inl err
           | Inr (b, rest) \<Rightarrow>
               let m = unmarshal b in Inr ((m_Tag m, m_Data m, m_Ok m), rest)))"

text \<open>The loop of a reader: it takes messages until a read fails.\<close>

function read_calls :: "(bytes \<Rightarrow> msg) \<Rightarrow> bytes \<Rightarrow> (Ttag \<times> bytes \<times> bool) list \<times> read_error" where
  "read_calls unmarshal inp =
     (case ReadCall unmarshal inp of
        Inl err \<Rightarrow> ([], err)
      | Inr (m, rest) \<Rightarrow> (case read_calls unmarshal rest of (ms, err) \<Rightarrow> (m # ms, err)))"
  by pat_completeness auto
termination
  by (relation "measure (\<lambda>(_, inp). length inp)")
    (auto simp: ReadCall_def ReadFull_def Let_def split: if_splits sum.splits)

section \<open>The table of outstanding calls\<close>

text \<open>A channel is the number of the call that waits on it.\<close>

record callMap =
  cm_closed :: bool
  calls :: "Ttag \<rightharpoonup> nat"

definition newCallMap :: callMap where
  "newCallMap = \<lparr>cm_closed = False, calls = Map.empty\<rparr>"

definition cm_close :: "callMap \<Rightarrow> callMap" where
  "cm_close cm = cm\<lparr>cm_closed := True\<rparr>"

definition cm_put :: "Ttag \<Rightarrow> nat \<Rightarrow> callMap \<Rightarrow> callMap option" where
  "cm_put tag ch cm = (if cm_closed cm then None else Some (cm\<lparr>calls := (calls cm)(tag \<mapsto> ch)\<rparr>))"

definition cm_remove :: "Ttag \<Rightarrow> callMap \<Rightarrow> (nat \<times> callMap) option" where
  "cm_remove tag cm =
     (case calls cm tag of None \<Rightarrow> None | Some ch \<Rightarrow> Some (ch, cm\<lparr>calls := (calls cm)(tag := None)\<rparr>))"

text \<open>The tags of all outstanding calls, in any order.\<close>

definition outstanding :: "callMap \<Rightarrow> Ttag list \<Rightarrow> bool" where
  "outstanding cm ts \<longleftrightarrow> distinct ts \<and> set ts = dom (calls cm)"

section \<open>Calls, readers and the connection\<close>

datatype call_result = CallErr | Reply bytes bool

text \<open>A call of \<open>SendReceive\<close> with its request: not begun, tagged, in the table, sent and waiting on
  its channel, returned.\<close>

datatype call =
    Fresh bytes
  | Tagged bytes Ttag
  | Enqueued bytes Ttag
  | Waiting bytes Ttag
  | Returned bytes call_result

datatype reader_state = Reading | Closing | Draining "Ttag list" | Stopped

record dmx =
  nextTag :: Ttag
  callmap :: callMap
  callers :: "call list"
  rd :: reader_state
  to_srv :: "(Ttag \<times> bytes) list"
  serving :: "(Ttag \<times> bytes) list"
  to_clnt :: "(Ttag \<times> bytes \<times> bool) list"
  broken :: bool
  fatal :: bool

text \<open>\<open>NewDemuxClnt\<close> has sent the initial message with tag 0, and \<open>NewDemuxSrv\<close> has read it.\<close>

definition NewDemuxClnt :: dmx where
  "NewDemuxClnt = \<lparr>nextTag = 1, callmap = newCallMap, callers = [], rd = Reading, to_srv = [],
     serving = [], to_clnt = [], broken = False, fatal = False\<rparr>"

definition set_call :: "nat \<Rightarrow> call \<Rightarrow> dmx \<Rightarrow> dmx" where
  "set_call i c s = s\<lparr>callers := (callers s)[i := c]\<rparr>"

text \<open>\<open>reply\<close>: deliver on the channel of the tag (which blocks until its call waits: \<open>None\<close>), or end
  the process when the tag is unknown.\<close>

definition dmx_reply :: "Ttag \<Rightarrow> call_result \<Rightarrow> dmx \<Rightarrow> dmx option" where
  "dmx_reply tag r s =
     (case cm_remove tag (callmap s) of
        None \<Rightarrow> Some (s\<lparr>fatal := True\<rparr>)
      | Some (i, cm) \<Rightarrow>
          (case callers s ! i of
             Waiting b _ \<Rightarrow> Some (set_call i (Returned b r) (s\<lparr>callmap := cm\<rparr>))
           | _ \<Rightarrow> None))"

definition dmx_tag :: "dmx \<Rightarrow> Ttag \<times> dmx" where
  "dmx_tag s = (nextTag s, s\<lparr>nextTag := nextTag s + 1\<rparr>)"

text \<open>The goroutine of the server that answers request \<open>j\<close> of those being served.\<close>

definition serve_goroutine :: "nat \<Rightarrow> Ttag \<Rightarrow> bytes \<Rightarrow> bool \<Rightarrow> dmx \<Rightarrow> dmx" where
  "serve_goroutine j t rep ok s =
     s\<lparr>serving := take j (serving s) @ drop (Suc j) (serving s),
       to_clnt := to_clnt s @ (if broken s then [] else [(t, rep, ok)])\<rparr>"

text \<open>The steps: callers (\<open>SendReceive\<close>), the client's reader and \<open>Close\<close> of \<open>dmxclnt.go\<close>, the reader
  and the serving goroutines of \<open>dmxsrv.go\<close>, and the failure of the connection.\<close>

inductive dstep :: "(bytes \<Rightarrow> bytes \<times> bool \<Rightarrow> bool) \<Rightarrow> dmx \<Rightarrow> dmx \<Rightarrow> bool" for serve where
  d_call: "dstep serve s (s\<lparr>callers := callers s @ [Fresh b]\<rparr>)"
| d_tag:
    "i < length (callers s) \<Longrightarrow> callers s ! i = Fresh b \<Longrightarrow> dmx_tag s = (t, s') \<Longrightarrow>
     dstep serve s (set_call i (Tagged b t) s')"
| d_put:
    "i < length (callers s) \<Longrightarrow> callers s ! i = Tagged b t \<Longrightarrow> cm_put t i (callmap s) = Some cm \<Longrightarrow>
     dstep serve s (set_call i (Enqueued b t) (s\<lparr>callmap := cm\<rparr>))"
| d_put_closed:
    "i < length (callers s) \<Longrightarrow> callers s ! i = Tagged b t \<Longrightarrow> cm_put t i (callmap s) = None \<Longrightarrow>
     dstep serve s (set_call i (Returned b CallErr) s)"
| d_write:
    "i < length (callers s) \<Longrightarrow> callers s ! i = Enqueued b t \<Longrightarrow> \<not> broken s \<Longrightarrow>
     dstep serve s (set_call i (Waiting b t) (s\<lparr>to_srv := to_srv s @ [(t, b)]\<rparr>))"
| d_write_error:
    "i < length (callers s) \<Longrightarrow> callers s ! i = Enqueued b t \<Longrightarrow> broken s \<Longrightarrow>
     dstep serve s (set_call i (Waiting b t) s)"
| d_srv_read:
    "to_srv s = m # ms \<Longrightarrow> dstep serve s (s\<lparr>to_srv := ms, serving := serving s @ [m]\<rparr>)"
| d_serve:
    "j < length (serving s) \<Longrightarrow> serving s ! j = (t, b) \<Longrightarrow> serve b (rep, ok) \<Longrightarrow>
     dstep serve s (serve_goroutine j t rep ok s)"
| d_break:
    "dstep serve s (s\<lparr>broken := True, to_srv := take m (to_srv s), to_clnt := take n (to_clnt s)\<rparr>)"
| d_close: "broken s \<Longrightarrow> dstep serve s (s\<lparr>callmap := cm_close (callmap s)\<rparr>)"
| d_read:
    "rd s = Reading \<Longrightarrow> to_clnt s = (t, rep, ok) # ms \<Longrightarrow>
     dmx_reply t (Reply rep ok) (s\<lparr>to_clnt := ms\<rparr>) = Some s' \<Longrightarrow> dstep serve s s'"
| d_read_error:
    "rd s = Reading \<Longrightarrow> broken s \<Longrightarrow>
     dstep serve s (s\<lparr>callmap := cm_close (callmap s), rd := Closing\<rparr>)"
| d_outstanding:
    "rd s = Closing \<Longrightarrow> outstanding (callmap s) ts \<Longrightarrow> dstep serve s (s\<lparr>rd := Draining ts\<rparr>)"
| d_drain:
    "rd s = Draining (t # ts) \<Longrightarrow> dmx_reply t CallErr (s\<lparr>rd := Draining ts\<rparr>) = Some s' \<Longrightarrow>
     dstep serve s s'"
| d_stop: "rd s = Draining [] \<Longrightarrow> dstep serve s (s\<lparr>rd := Stopped\<rparr>)"

section \<open>Calls over a socket\<close>

text \<open>\<open>RPCClnt.RPC\<close>: an error of the connection becomes a failed call.\<close>

definition RPC :: "call_result \<Rightarrow> bytes \<times> bool" where
  "RPC r = (case r of CallErr \<Rightarrow> ([], False) | Reply rep ok \<Rightarrow> (rep, ok))"

text \<open>\<open>dial\<close>: the outcomes of the attempts to connect are an argument.\<close>

fun dial_loop :: "nat \<Rightarrow> (nat \<Rightarrow> 'e + 'c) \<Rightarrow> 'e option \<Rightarrow> nat \<Rightarrow> 'e option + 'c" where
  "dial_loop 0 attempt r i = Inl r"
| "dial_loop (Suc n) attempt r i =
     (case attempt i of Inr c \<Rightarrow> Inr c | Inl err \<Rightarrow> dial_loop n attempt (Some err) (i + 1))"

definition dial :: "(nat \<Rightarrow> 'e + 'c) \<Rightarrow> 'e option + 'c" where
  "dial attempt = dial_loop 100 attempt None 0"

end
