(* ===== verification/Demux_Properties.thy ===== *)
theory Demux_Properties
  imports Demux
begin

text \<open>
  The transport delivers the messages that were written, also when the stream is cut off; the protocol
  returns to every call the reply to its own request, never meets an unknown tag, and leaves no call
  waiting when the connection fails.
\<close>

section \<open>Frames\<close>

lemma digits_sum: "(\<Sum>i = 0..<k. n div b ^ i mod b * b ^ i) = n mod b ^ k" for n b :: nat
  by (induction k) (simp_all add: power_Suc2 mod_mult2_eq [of n "b ^ _" b] del: power_Suc)

lemma length_le32 [simp]: "length (le32 w) = 4"
  by (simp add: le32_def)

lemma of_le32_le32 [simp]: "of_le32 (le32 w) = w"
proof -
  have "(\<Sum>i = 0..<4. of_char (le32 w ! i) * 256 ^ i) = (\<Sum>i = 0..<4. unat w div 256 ^ i mod 256 * 256 ^ i)"
    by (intro sum.cong) (simp_all add: le32_def)
  also have "\<dots> = unat w mod 2 ^ 32"
    by (simp add: digits_sum)
  also have "\<dots> = unat w"
  proof (rule mod_less)
    have "unat w < 2 ^ LENGTH(32)"
      by (rule unsigned_less)
    then show "unat w < 2 ^ 32" by simp
  qed
  finally show ?thesis by (simp add: of_le32_def)
qed

definition frame :: "(msg \<Rightarrow> bytes) \<Rightarrow> msg \<Rightarrow> bytes" where
  "frame marshal m = le32 (word_of_nat (length (marshal m))) @ marshal m"

definition triple :: "msg \<Rightarrow> Ttag \<times> bytes \<times> bool" where
  "triple m = (m_Tag m, m_Data m, m_Ok m)"

definition write_all :: "(msg \<Rightarrow> bytes) \<Rightarrow> msg list \<Rightarrow> bytes" where
  "write_all marshal ms = foldl (\<lambda>out m. WriteCall marshal (m_Tag m) (m_Data m) (m_Ok m) out) [] ms"

lemma msg_eta [simp]: "\<lparr>m_Tag = m_Tag m, m_Data = m_Data m, m_Ok = m_Ok m\<rparr> = m"
  by (cases m) simp

lemma write_all_frames: "write_all marshal ms = concat (map (frame marshal) ms)"
  unfolding write_all_def
  by (induction ms rule: rev_induct) (simp_all add: WriteCall_def frame_def Let_def)

lemma ReadCall_frame:
  assumes "unmarshal (marshal m) = m" and "length (marshal m) < 2 ^ 32"
  shows "ReadCall unmarshal (frame marshal m @ rest) = Inr (triple m, rest)"
  using assms
  by (simp add: ReadCall_def ReadFull_def frame_def triple_def Let_def unat_of_nat take_bit_nat_eq_self)

lemma ReadCall_cut:
  assumes "length (marshal m) < 2 ^ 32" and "k < length (frame marshal m)"
  shows "\<exists>err. ReadCall unmarshal (take k (frame marshal m)) = Inl err"
  using assms
  by (auto simp: ReadCall_def ReadFull_def frame_def Let_def unat_of_nat take_bit_nat_eq_self)

lemma ReadCall_Nil: "ReadCall unmarshal [] = Inl EOF"
  by (simp add: ReadCall_def ReadFull_def)

declare read_calls.simps [simp del]

lemma read_calls_cut:
  assumes "\<And>m. unmarshal (marshal m) = m"
  shows "\<forall>m \<in> set ms. length (marshal m) < 2 ^ 32 \<Longrightarrow>
    \<exists>j err. read_calls unmarshal (take k (concat (map (frame marshal) ms))) = (map triple (take j ms), err) \<and>
      j \<le> length ms \<and> (j = length ms \<longrightarrow> err = EOF) \<and>
      length (concat (map (frame marshal) (take j ms))) \<le> k \<and>
      (j < length ms \<longrightarrow> k < length (concat (map (frame marshal) (take (Suc j) ms))))"
proof (induction ms arbitrary: k)
  case Nil
  then show ?case by (simp add: read_calls.simps ReadCall_Nil)
next
  case (Cons m ms)
  let ?f = "frame marshal m" and ?rest = "concat (map (frame marshal) ms)"
  show ?case
  proof (cases "k < length ?f")
    case True
    then obtain err where "ReadCall unmarshal (take k ?f) = Inl err"
      using ReadCall_cut Cons.prems by (metis list.set_intros(1))
    with True show ?thesis
      by (intro exI [of _ 0] exI [of _ err]) (simp add: read_calls.simps)
  next
    case False
    from Cons obtain j err where j:
      "read_calls unmarshal (take (k - length ?f) ?rest) = (map triple (take j ms), err)"
      "j \<le> length ms" "j = length ms \<longrightarrow> err = EOF"
      "length (concat (map (frame marshal) (take j ms))) \<le> k - length ?f"
      "j < length ms \<longrightarrow> k - length ?f < length (concat (map (frame marshal) (take (Suc j) ms)))"
      by (metis list.set_intros(2))
    have "ReadCall unmarshal (?f @ take (k - length ?f) ?rest) = Inr (triple m, take (k - length ?f) ?rest)"
      using assms Cons.prems by (intro ReadCall_frame) simp_all
    then have "read_calls unmarshal (take k (?f @ ?rest)) = (triple m # map triple (take j ms), err)"
      using False j(1) by (simp add: read_calls.simps [of unmarshal "?f @ _"])
    then show ?thesis
      using False j(2-) by (intro exI [of _ "Suc j"] exI [of _ err]) auto
  qed
qed

text \<open>C14. A reader receives exactly the messages that were written, in order, and then the end of the
  stream; when the stream is cut off after any number of bytes, it receives exactly the messages that
  arrived completely and then an error, never a wrong message.  The encoding is assumed to be
  reversible and to stay below the four gigabytes that the length field can express.\<close>

theorem transport_roundtrip:
  assumes "\<And>m. unmarshal (marshal m) = m"
    and "list_all (\<lambda>m. length (marshal m) < 2 ^ 32) ms"
  shows "read_calls unmarshal (write_all marshal ms) = (map triple ms, EOF) \<and>
    (\<exists>j err. read_calls unmarshal (take k (write_all marshal ms)) = (map triple (take j ms), err) \<and>
       length (write_all marshal (take j ms)) \<le> k \<and>
       (j < length ms \<longrightarrow> k < length (write_all marshal (take (Suc j) ms))))"
proof -
  note cut = read_calls_cut [of unmarshal marshal ms, OF assms(1)]
  have small: "\<forall>m \<in> set ms. length (marshal m) < 2 ^ 32"
    using assms(2) by (simp add: list_all_iff)
  let ?n = "length (concat (map (frame marshal) ms))"
  from cut [OF small, of ?n] obtain j err where j:
    "read_calls unmarshal (concat (map (frame marshal) ms)) = (map triple (take j ms), err)"
    "j \<le> length ms" "j = length ms \<longrightarrow> err = EOF"
    "j < length ms \<longrightarrow> ?n < length (concat (map (frame marshal) (take (Suc j) ms)))"
    by auto
  have "length (concat (map (frame marshal) (take i ms))) \<le> ?n" for i
    by (metis append_take_drop_id concat_append le_add1 length_append map_append)
  then have "j = length ms"
    using j(2,4) by (metis leD le_neq_implies_less)
  then have "read_calls unmarshal (write_all marshal ms) = (map triple ms, EOF)"
    using j by (simp add: write_all_frames)
  then show ?thesis
    using cut [OF small, of k] unfolding write_all_frames by blast
qed

text \<open>A concrete encoding: the tag, the flag and the data.\<close>

definition plain_marshal :: "msg \<Rightarrow> bytes" where
  "plain_marshal m = le32 (m_Tag m) @ (if m_Ok m then CHR ''1'' else CHR ''0'') # m_Data m"

definition plain_unmarshal :: "bytes \<Rightarrow> msg" where
  "plain_unmarshal b = \<lparr>m_Tag = of_le32 (take 4 b), m_Data = drop 5 b, m_Ok = (b ! 4 = CHR ''1'')\<rparr>"

lemma plain_roundtrip: "plain_unmarshal (plain_marshal m) = m"
  by (cases m) (simp add: plain_unmarshal_def plain_marshal_def nth_append numeral_eq_Suc)

theorem transport_roundtrip_witness:
  "read_calls plain_unmarshal
     (write_all plain_marshal [\<lparr>m_Tag = 1, m_Data = ''req'', m_Ok = True\<rparr>, \<lparr>m_Tag = 2, m_Data = '''', m_Ok = False\<rparr>])
   = ([(1, ''req'', True), (2, '''', False)], EOF)"
  using transport_roundtrip [of plain_unmarshal plain_marshal
      "[\<lparr>m_Tag = 1, m_Data = ''req'', m_Ok = True\<rparr>, \<lparr>m_Tag = 2, m_Data = '''', m_Ok = False\<rparr>]" 0,
      OF plain_roundtrip]
  by (simp add: triple_def plain_marshal_def)

section \<open>The invariant of the protocol\<close>

fun tag_of :: "call \<Rightarrow> Ttag option" where
  "tag_of (Fresh b) = None"
| "tag_of (Tagged b t) = Some t"
| "tag_of (Enqueued b t) = Some t"
| "tag_of (Waiting b t) = Some t"
| "tag_of (Returned b r) = None"

fun entered :: "call \<Rightarrow> Ttag option" where
  "entered (Enqueued b t) = Some t"
| "entered (Waiting b t) = Some t"
| "entered _ = None"

fun fresh :: "call \<Rightarrow> bool" where
  "fresh (Fresh b) = True"
| "fresh _ = False"

definition issued :: "call list \<Rightarrow> nat" where
  "issued cs = length (filter (\<lambda>c. \<not> fresh c) cs)"

definition tags_ok :: "Ttag \<Rightarrow> call list \<Rightarrow> bool" where
  "tags_ok nt cs \<longleftrightarrow> unat nt = Suc (issued cs) \<and>
     (\<forall>i < length cs. \<forall>t. tag_of (cs ! i) = Some t \<longrightarrow> unat t < unat nt) \<and>
     (\<forall>i < length cs. \<forall>j < length cs. \<forall>t. tag_of (cs ! i) = Some t \<longrightarrow> tag_of (cs ! j) = Some t \<longrightarrow> i = j)"

definition calls_ok :: "(Ttag \<rightharpoonup> nat) \<Rightarrow> call list \<Rightarrow> bool" where
  "calls_ok m cs \<longleftrightarrow> (\<forall>t i. m t = Some i \<longleftrightarrow> i < length cs \<and> entered (cs ! i) = Some t)"

definition flight_ok ::
  "(bytes \<Rightarrow> bytes \<times> bool \<Rightarrow> bool) \<Rightarrow> call list \<Rightarrow> (Ttag \<times> bytes) list \<Rightarrow> (Ttag \<times> bytes \<times> bool) list \<Rightarrow> bool" where
  "flight_ok serve cs reqs reps \<longleftrightarrow>
     distinct (map fst reqs @ map fst reps) \<and>
     (\<forall>t b. (t, b) \<in> set reqs \<longrightarrow> Waiting b t \<in> set cs) \<and>
     (\<forall>t r. (t, r) \<in> set reps \<longrightarrow> (\<exists>b. Waiting b t \<in> set cs \<and> serve b r))"

definition reader_ok :: "reader_state \<Rightarrow> callMap \<Rightarrow> bool \<Rightarrow> bool" where
  "reader_ok r cm brk \<longleftrightarrow> (cm_closed cm \<longrightarrow> brk) \<and>
     (case r of
        Reading \<Rightarrow> True
      | Closing \<Rightarrow> cm_closed cm
      | Draining ts \<Rightarrow> cm_closed cm \<and> outstanding cm ts
      | Stopped \<Rightarrow> cm_closed cm \<and> calls cm = Map.empty)"

definition results_ok :: "(bytes \<Rightarrow> bytes \<times> bool \<Rightarrow> bool) \<Rightarrow> bool \<Rightarrow> call list \<Rightarrow> bool" where
  "results_ok serve closed cs \<longleftrightarrow>
     (\<forall>b rep ok. Returned b (Reply rep ok) \<in> set cs \<longrightarrow> serve b (rep, ok)) \<and>
     (\<forall>b. Returned b CallErr \<in> set cs \<longrightarrow> closed)"

definition dinv :: "(bytes \<Rightarrow> bytes \<times> bool \<Rightarrow> bool) \<Rightarrow> dmx \<Rightarrow> bool" where
  "dinv serve s \<longleftrightarrow> tags_ok (nextTag s) (callers s) \<and> calls_ok (calls (callmap s)) (callers s) \<and>
     (rd s = Reading \<longrightarrow> flight_ok serve (callers s) (to_srv s @ serving s) (to_clnt s)) \<and>
     reader_ok (rd s) (callmap s) (broken s) \<and> results_ok serve (cm_closed (callmap s)) (callers s) \<and> \<not> fatal s"

text \<open>A call that moves on, keeping or giving up its tag.\<close>

lemma tags_ok_update:
  assumes "tags_ok nt cs" and "i < length cs" and "\<not> fresh (cs ! i)" and "\<not> fresh c"
    and "tag_of c = None \<or> tag_of c = tag_of (cs ! i)"
  shows "tags_ok nt (cs[i := c])"
proof -
  have "issued (cs[i := c]) = issued cs"
    using assms(2-4) by (induction cs arbitrary: i) (auto simp: issued_def nth_Cons split: nat.splits)
  then show ?thesis
    using assms by (auto simp: tags_ok_def nth_list_update split: if_splits; metis)
qed

lemma issued_tag:
  assumes "i < length cs" and "fresh (cs ! i)" and "\<not> fresh c"
  shows "issued (cs[i := c]) = Suc (issued cs)"
  using assms by (induction cs arbitrary: i) (auto simp: issued_def nth_Cons split: nat.splits)

lemma issued_le: "issued cs \<le> length cs"
  by (simp add: issued_def)

lemma tags_ok_new:
  assumes "tags_ok nt cs" and "i < length cs" and "cs ! i = Fresh b" and "Suc (length cs) < 2 ^ 32"
  shows "tags_ok (nt + 1) (cs[i := Tagged b nt])"
proof -
  have nt: "unat nt = Suc (issued cs)"
    using assms(1) by (simp add: tags_ok_def)
  have "Suc (unat nt) < 2 ^ LENGTH(32)"
    using nt assms(4) issued_le [of "cs[i := Tagged b nt]"] issued_tag [of i cs "Tagged b nt"] assms(2,3)
    by simp
  then have "unat (nt + 1) = Suc (unat nt)"
    by (simp add: unat_word_ariths)
  then show ?thesis
    using assms nt issued_tag [of i cs "Tagged b nt"]
    by (auto simp: tags_ok_def nth_list_update split: if_splits)
qed

lemma tags_ok_unique:
  "tags_ok nt cs \<Longrightarrow> i < length cs \<Longrightarrow> j < length cs \<Longrightarrow> tag_of (cs ! i) = Some t \<Longrightarrow>
   tag_of (cs ! j) = Some t \<Longrightarrow> i = j"
  by (auto simp: tags_ok_def)

lemma entered_tag: "entered c = Some t \<Longrightarrow> tag_of c = Some t"
  by (cases c) auto

lemma calls_ok_keep:
  "calls_ok m cs \<Longrightarrow> i < length cs \<Longrightarrow> entered c = entered (cs ! i) \<Longrightarrow> calls_ok m (cs[i := c])"
  by (auto simp: calls_ok_def nth_list_update)

lemma calls_ok_put:
  assumes "calls_ok m cs" and "tags_ok nt cs" and "i < length cs" and "cs ! i = Tagged b t"
  shows "calls_ok (m(t \<mapsto> i)) (cs[i := Enqueued b t])"
  using assms tags_ok_unique [OF assms(2)] entered_tag
  by (fastforce simp: calls_ok_def nth_list_update split: if_splits)

lemma calls_ok_remove:
  assumes "calls_ok m cs" and "i < length cs" and "cs ! i = Waiting b t"
  shows "calls_ok (m(t := None)) (cs[i := Returned b r])"
proof -
  have "m t = Some i"
    using assms by (simp add: calls_ok_def)
  then show ?thesis
    using assms(1,2) by (auto simp: calls_ok_def nth_list_update split: if_splits) (metis option.inject)+
qed

lemma in_set_update: "x \<in> set cs \<Longrightarrow> i < length cs \<Longrightarrow> x \<noteq> cs ! i \<Longrightarrow> x \<in> set (cs[i := c])"
  by (metis in_set_conv_nth length_list_update nth_list_update_neq)

lemma flight_ok_req: "flight_ok serve cs reqs reps \<Longrightarrow> (t, b) \<in> set reqs \<Longrightarrow> Waiting b t \<in> set cs"
  unfolding flight_ok_def by blast

lemma flight_ok_rep:
  "flight_ok serve cs reqs reps \<Longrightarrow> (t, r) \<in> set reps \<Longrightarrow> \<exists>b. Waiting b t \<in> set cs \<and> serve b r"
  unfolding flight_ok_def by blast

lemma flight_ok_keep:
  assumes "flight_ok serve cs reqs reps" and "i < length cs" and "\<And>b t. cs ! i \<noteq> Waiting b t"
  shows "flight_ok serve (cs[i := c]) reqs reps"
  using assms by (auto simp: flight_ok_def) (metis in_set_update)+

lemma flight_ok_subset:
  assumes "flight_ok serve cs reqs reps" and "distinct (map fst reqs' @ map fst reps')"
    and "set reqs' \<subseteq> set reqs" and "set reps' \<subseteq> set reps"
  shows "flight_ok serve cs reqs' reps'"
  using assms by (auto simp: flight_ok_def; blast)

lemma waiting_unique:
  assumes "tags_ok nt cs" and "Waiting b t \<in> set cs" and "i < length cs" and "tag_of (cs ! i) = Some t"
  shows "cs ! i = Waiting b t"
  using assms by (auto simp: in_set_conv_nth) (metis tag_of.simps(4) tags_ok_unique)

lemma flight_ok_send:
  assumes "flight_ok serve cs (reqs @ served) reps" and "tags_ok nt cs" and "i < length cs"
    and "cs ! i = Enqueued b t"
  shows "flight_ok serve (cs[i := Waiting b t]) ((reqs @ [(t, b)]) @ served) reps"
proof -
  have new: "Waiting b' t \<notin> set cs" for b'
    using waiting_unique [OF assms(2) _ assms(3)] assms(4) by fastforce
  have "t \<notin> fst ` set (reqs @ served)"
  proof
    assume "t \<in> fst ` set (reqs @ served)"
    then obtain b' where "(t, b') \<in> set (reqs @ served)"
      by fastforce
    from flight_ok_req [OF assms(1) this] new show False by blast
  qed
  moreover have "t \<notin> fst ` set reps"
  proof
    assume "t \<in> fst ` set reps"
    then obtain r where "(t, r) \<in> set reps"
      by fastforce
    from flight_ok_rep [OF assms(1) this] new show False by blast
  qed
  moreover have "flight_ok serve (cs[i := Waiting b t]) (reqs @ served) reps"
    using assms by (intro flight_ok_keep) auto
  ultimately show ?thesis
    using assms(3) by (auto simp: flight_ok_def set_update_memI)
qed

lemma flight_ok_serve:
  assumes "flight_ok serve cs (reqs @ served) reps" and "j < length served"
    and "served ! j = (t, b)" and "serve b r"
  shows "flight_ok serve cs (reqs @ take j served @ drop (Suc j) served) (reps @ (if lost then [] else [(t, r)]))"
proof -
  have split: "served = take j served @ (t, b) # drop (Suc j) served"
    using assms(2,3) by (metis id_take_nth_drop)
  have "flight_ok serve cs (reqs @ take j served @ (t, b) # drop (Suc j) served) reps"
    using assms(1) split by simp
  then show ?thesis
    using assms(4) by (auto simp: flight_ok_def)
qed

lemma flight_ok_read:
  assumes "flight_ok serve cs reqs ((t, r) # reps)" and "tags_ok nt cs" and "i < length cs"
    and "cs ! i = Waiting b t"
  shows "flight_ok serve (cs[i := c]) reqs reps \<and> serve b r"
proof -
  have other: "Waiting b' t' \<in> set (cs[i := c])" if "Waiting b' t' \<in> set cs" "t' \<noteq> t" for b' t'
    using that assms(3,4) by (intro in_set_update) auto
  obtain b' where "Waiting b' t \<in> set cs" "serve b' r"
    using flight_ok_rep [OF assms(1), of t r] by auto
  then have "serve b r"
    using waiting_unique [OF assms(2) _ assms(3)] assms(4) by fastforce
  moreover have "flight_ok serve (cs[i := c]) reqs reps"
    using assms(1) other by (auto simp: flight_ok_def) (metis fst_conv image_eqI)+
  ultimately show ?thesis by simp
qed

lemma results_ok_update:
  assumes "results_ok serve closed cs" and "\<And>b rep ok. c = Returned b (Reply rep ok) \<Longrightarrow> serve b (rep, ok)"
    and "\<And>b. c = Returned b CallErr \<Longrightarrow> closed"
  shows "results_ok serve closed (cs[i := c])"
  using assms set_update_subset_insert [of cs i c] by (auto simp: results_ok_def; blast)

lemma dmx_reply_known:
  assumes "calls_ok (calls (callmap s)) (callers s)" and "t \<in> dom (calls (callmap s))"
    and "dmx_reply t r s = Some s'"
  obtains i b where "i < length (callers s)" "callers s ! i = Waiting b t"
    "s' = set_call i (Returned b r) (s\<lparr>callmap := (callmap s)\<lparr>calls := (calls (callmap s))(t := None)\<rparr>\<rparr>)"
proof -
  obtain i where i: "calls (callmap s) t = Some i"
    using assms(2) by blast
  then have "i < length (callers s)" and "entered (callers s ! i) = Some t"
    using assms(1) by (auto simp: calls_ok_def)
  with i assms(3) that show ?thesis
    by (cases "callers s ! i") (auto simp: dmx_reply_def cm_remove_def)
qed

lemma outstanding_remove:
  "outstanding cm (t # ts) \<Longrightarrow> outstanding (cm\<lparr>calls := (calls cm)(t := None)\<rparr>) ts"
  by (auto simp: outstanding_def)

lemma entered_Nil: "calls_ok m cs \<Longrightarrow> calls_ok m (cs @ [Fresh b])"
  by (auto simp: calls_ok_def nth_append less_Suc_eq)

lemma tags_ok_call: "tags_ok nt cs \<Longrightarrow> tags_ok nt (cs @ [Fresh b])"
  by (auto simp: tags_ok_def issued_def nth_append less_Suc_eq)

lemma dinv_read:
  assumes inv: "dinv serve s" and "rd s = Reading" and msg: "to_clnt s = (t, rep, ok) # ms"
    and step: "dmx_reply t (Reply rep ok) (s\<lparr>to_clnt := ms\<rparr>) = Some s'"
  shows "dinv serve s'"
proof -
  have fl: "flight_ok serve (callers s) (to_srv s @ serving s) ((t, rep, ok) # ms)"
    and tb: "calls_ok (calls (callmap s)) (callers s)" and tags: "tags_ok (nextTag s) (callers s)"
    using inv assms(2) msg by (simp_all add: dinv_def)
  have "t \<in> dom (calls (callmap s))"
    using flight_ok_rep [OF fl, of t "(rep, ok)"] tb
    by (auto simp: calls_ok_def in_set_conv_nth dom_def)
  then obtain i b where i: "i < length (callers s)" "callers s ! i = Waiting b t"
    and s': "s' = set_call i (Returned b (Reply rep ok))
        (s\<lparr>to_clnt := ms, callmap := (callmap s)\<lparr>calls := (calls (callmap s))(t := None)\<rparr>\<rparr>)"
    using dmx_reply_known [OF _ _ step] tb by auto
  note read = flight_ok_read [OF fl tags i, of "Returned b (Reply rep ok)"]
  show ?thesis
    using inv assms(2) i tb tags read calls_ok_remove [OF tb i] unfolding s'
    by (auto simp: dinv_def set_call_def reader_ok_def intro!: tags_ok_update results_ok_update)
qed

lemma dinv_drain:
  assumes inv: "dinv serve s" and dr: "rd s = Draining (t # ts)"
    and step: "dmx_reply t CallErr (s\<lparr>rd := Draining ts\<rparr>) = Some s'"
  shows "dinv serve s'"
proof -
  have tb: "calls_ok (calls (callmap s)) (callers s)" and tags: "tags_ok (nextTag s) (callers s)"
    and out: "outstanding (callmap s) (t # ts)" and closed: "cm_closed (callmap s)"
    using inv dr by (simp_all add: dinv_def reader_ok_def)
  then have "t \<in> dom (calls (callmap s))"
    by (auto simp: outstanding_def)
  then obtain i b where i: "i < length (callers s)" "callers s ! i = Waiting b t"
    and s': "s' = set_call i (Returned b CallErr)
        (s\<lparr>rd := Draining ts, callmap := (callmap s)\<lparr>calls := (calls (callmap s))(t := None)\<rparr>\<rparr>)"
    using dmx_reply_known [OF _ _ step] tb by auto
  show ?thesis
    using inv dr i tb tags closed outstanding_remove [OF out] calls_ok_remove [OF tb i] unfolding s'
    by (auto simp: dinv_def set_call_def reader_ok_def intro!: tags_ok_update results_ok_update)
qed

text \<open>A call that moves on by itself.\<close>

lemma dinv_set_call:
  assumes "dinv serve s" and "i < length (callers s)" and "\<not> fresh (callers s ! i)" and "\<not> fresh c"
    and "tag_of c = None \<or> tag_of c = tag_of (callers s ! i)" and "entered c = entered (callers s ! i)"
    and "\<And>b t. callers s ! i \<noteq> Waiting b t"
    and "\<forall>b r. c = Returned b r \<longrightarrow> r = CallErr \<and> cm_closed (callmap s)"
  shows "dinv serve (set_call i c s)"
proof -
  have "results_ok serve (cm_closed (callmap s)) ((callers s)[i := c])"
    by (rule results_ok_update) (use assms(1,8) in \<open>auto simp: dinv_def\<close>)
  then show ?thesis
    using assms(1) tags_ok_update [OF _ assms(2-5)] calls_ok_keep [OF _ assms(2,6)]
      flight_ok_keep [OF _ assms(2,7)]
    by (simp add: dinv_def set_call_def)
qed

lemma distinct_cut: "distinct (xs @ ys @ zs) \<Longrightarrow> distinct (take m xs @ ys @ take n zs)"
  by (auto dest: in_set_takeD)

lemma dinv_step:
  "dstep serve s s' \<Longrightarrow> dinv serve s \<Longrightarrow> Suc (length (callers s')) < 2 ^ 32 \<Longrightarrow> dinv serve s'"
proof (induction rule: dstep.induct)
  case (d_call s b)
  then have "flight_ok serve (callers s @ [Fresh b]) reqs reps" if "flight_ok serve (callers s) reqs reps" for reqs reps
    using that by (auto simp: flight_ok_def)
  with d_call show ?case
    by (auto simp: dinv_def results_ok_def intro!: tags_ok_call entered_Nil)
next
  case (d_tag i s b t s')
  then show ?case
    by (auto simp: dmx_tag_def dinv_def set_call_def
        intro!: tags_ok_new calls_ok_keep flight_ok_keep results_ok_update)
next
  case (d_put i s b t cm)
  then show ?case
    by (auto simp: dinv_def set_call_def reader_ok_def cm_put_def split: if_splits reader_state.splits
        intro!: tags_ok_update calls_ok_put flight_ok_keep results_ok_update)
next
  case (d_put_closed i s b t)
  then show ?case
    by (intro dinv_set_call) (auto simp: cm_put_def split: if_splits)
next
  case (d_write i s b t)
  then show ?case
    using flight_ok_send [of serve "callers s" "to_srv s" "serving s" "to_clnt s" "nextTag s" i b t]
    by (auto simp: dinv_def set_call_def reader_ok_def
        intro!: tags_ok_update calls_ok_keep results_ok_update)
next
  case (d_write_error i s b t)
  then show ?case
    by (intro dinv_set_call) auto
next
  case (d_srv_read s m ms)
  have "flight_ok serve (callers s) (ms @ serving s @ [m]) (to_clnt s)"
    if "flight_ok serve (callers s) (to_srv s @ serving s) (to_clnt s)"
    using that d_srv_read(1) by (intro flight_ok_subset [OF that]) (auto simp: flight_ok_def)
  with d_srv_read show ?case
    by (simp add: dinv_def)
next
  case (d_serve j s t b rep ok)
  then show ?case
    using flight_ok_serve [of serve "callers s" "to_srv s" "serving s" "to_clnt s" j t b "(rep, ok)" "broken s"]
    by (simp add: serve_goroutine_def dinv_def reader_ok_def)
next
  case (d_break s m n)
  have "flight_ok serve (callers s) (take m (to_srv s) @ serving s) (take n (to_clnt s))"
    if "flight_ok serve (callers s) (to_srv s @ serving s) (to_clnt s)" for m n
  proof (rule flight_ok_subset [OF that])
    show "distinct (map fst (take m (to_srv s) @ serving s) @ map fst (take n (to_clnt s)))"
      using that distinct_cut [of "map fst (to_srv s)" "map fst (serving s)" "map fst (to_clnt s)" m n]
      by (simp add: flight_ok_def take_map)
  qed (auto dest: in_set_takeD)
  with d_break show ?case
    by (simp add: dinv_def reader_ok_def)
next
  case (d_close s)
  then show ?case
    by (auto simp: dinv_def reader_ok_def cm_close_def results_ok_def outstanding_def
        split: reader_state.splits)
next
  case (d_read s t rep ok ms s')
  show ?case by (rule dinv_read [OF d_read(4,1-3)])
next
  case (d_read_error s)
  then show ?case
    by (auto simp: dinv_def reader_ok_def cm_close_def results_ok_def)
next
  case (d_outstanding s ts)
  then show ?case
    by (auto simp: dinv_def reader_ok_def)
next
  case (d_drain s t ts s')
  show ?case by (rule dinv_drain [OF d_drain(3,1,2)])
next
  case (d_stop s)
  then show ?case
    by (auto simp: dinv_def reader_ok_def outstanding_def eq_commute [of "{}"])
qed

lemma callers_grow: "dstep serve s s' \<Longrightarrow> length (callers s) \<le> length (callers s')"
  by (induction rule: dstep.induct)
    (auto simp: set_call_def dmx_reply_def dmx_tag_def serve_goroutine_def split: option.splits call.splits)

lemma dinv_reachable:
  assumes "(dstep serve)\<^sup>*\<^sup>* NewDemuxClnt s" and "Suc (length (callers s)) < 2 ^ 32"
  shows "dinv serve s"
  using assms
proof (induction rule: rtranclp_induct)
  case base
  show ?case
    by (simp add: dinv_def NewDemuxClnt_def newCallMap_def tags_ok_def issued_def calls_ok_def
        flight_ok_def reader_ok_def results_ok_def)
next
  case (step s s')
  then have "Suc (length (callers s)) < 2 ^ 32"
    using callers_grow [OF step(2)] by simp
  with step show ?case
    by (intro dinv_step [OF step(2)]) simp_all
qed

section \<open>The reader empties the table\<close>

text \<open>A call in the table can always be made to wait, so the reader's reply does not block for good.\<close>

lemma drain_one:
  assumes inv: "dinv serve s" and "Suc (length (callers s)) < 2 ^ 32" and dr: "rd s = Draining (t # ts)"
  shows "\<exists>s'. (dstep serve)\<^sup>*\<^sup>* s s' \<and> dinv serve s' \<and> rd s' = Draining ts \<and>
    length (callers s') = length (callers s)"
proof -
  have tb: "calls_ok (calls (callmap s)) (callers s)" and brk: "broken s"
    and "t \<in> dom (calls (callmap s))"
    using inv dr by (auto simp: dinv_def reader_ok_def outstanding_def)
  then obtain i where i: "calls (callmap s) t = Some i"
    by blast
  then have len: "i < length (callers s)" and "entered (callers s ! i) = Some t"
    using tb by (auto simp: calls_ok_def)
  then obtain b where b: "callers s ! i = Enqueued b t \<or> callers s ! i = Waiting b t"
    by (cases "callers s ! i") auto
  define s1 where "s1 = (if callers s ! i = Waiting b t then s else set_call i (Waiting b t) s)"
  have step1: "(dstep serve)\<^sup>*\<^sup>* s s1"
    using b len brk d_write_error [of i s b t serve] by (auto simp: s1_def)
  have s1: "rd s1 = Draining (t # ts)" "callmap s1 = callmap s" "callers s1 ! i = Waiting b t"
    "length (callers s1) = length (callers s)"
    using dr len by (auto simp: s1_def set_call_def)
  have inv1: "dinv serve s1"
  proof (cases "callers s ! i = Waiting b t")
    case False
    then show ?thesis
      using inv len b unfolding s1_def by (auto intro!: dinv_set_call)
  qed (simp add: s1_def inv)
  obtain s2 where s2: "dmx_reply t CallErr (s1\<lparr>rd := Draining ts\<rparr>) = Some s2"
    and "rd s2 = Draining ts" "length (callers s2) = length (callers s1)"
    using s1 i by (simp add: dmx_reply_def cm_remove_def set_call_def)
  moreover have "dstep serve s1 s2"
    by (rule d_drain [OF s1(1) s2])
  moreover have "dinv serve s2"
    by (rule dinv_drain [OF inv1 s1(1) s2])
  ultimately show ?thesis
    using step1 s1(4) by (metis rtranclp.rtrancl_into_rtrancl)
qed

lemma drain_all:
  "dinv serve s \<Longrightarrow> Suc (length (callers s)) < 2 ^ 32 \<Longrightarrow> rd s = Draining ts \<Longrightarrow>
   \<exists>s'. (dstep serve)\<^sup>*\<^sup>* s s' \<and> dinv serve s' \<and> rd s' = Stopped"
proof (induction ts arbitrary: s)
  case Nil
  then have "dstep serve s (s\<lparr>rd := Stopped\<rparr>)"
    by (intro d_stop)
  moreover have "dinv serve (s\<lparr>rd := Stopped\<rparr>)"
    using dinv_step [OF calculation Nil(1)] Nil(2) by simp
  ultimately show ?case by auto
next
  case (Cons t ts)
  from drain_one [OF Cons.prems] obtain s1 where "(dstep serve)\<^sup>*\<^sup>* s s1" "dinv serve s1"
    "rd s1 = Draining ts" "length (callers s1) = length (callers s)"
    by blast
  with Cons.IH [of s1] Cons.prems(2) show ?case
    by (metis rtranclp_trans)
qed

lemma reader_stops:
  assumes "dinv serve s" and "Suc (length (callers s)) < 2 ^ 32" and "broken s"
  shows "\<exists>s'. (dstep serve)\<^sup>*\<^sup>* s s' \<and> dinv serve s' \<and> rd s' = Stopped"
proof -
  have closing: "\<exists>s'. (dstep serve)\<^sup>*\<^sup>* s s' \<and> dinv serve s' \<and> rd s' = Stopped"
    if "dinv serve s" "Suc (length (callers s)) < 2 ^ 32" "rd s = Closing" for s
  proof -
    have "dom (calls (callmap s)) \<subseteq> set (map (\<lambda>c. the (entered c)) (callers s))"
      using that(1) by (force simp: dinv_def calls_ok_def in_set_conv_nth dom_def)
    then have "finite (dom (calls (callmap s)))"
      by (rule finite_subset) simp
    then obtain ts where "outstanding (callmap s) ts"
      unfolding outstanding_def by (metis finite_distinct_list)
    then have step: "dstep serve s (s\<lparr>rd := Draining ts\<rparr>)"
      by (rule d_outstanding [OF that(3)])
    have "dinv serve (s\<lparr>rd := Draining ts\<rparr>)"
      using dinv_step [OF step that(1)] that(2) by simp
    from drain_all [OF this, of ts] that(2) step show ?thesis
      by (auto intro: converse_rtranclp_into_rtranclp)
  qed
  show ?thesis
  proof (cases "rd s")
    case Reading
    let ?s = "s\<lparr>callmap := cm_close (callmap s), rd := Closing\<rparr>"
    have step: "dstep serve s ?s"
      by (rule d_read_error [OF Reading assms(3)])
    have "dinv serve ?s"
      using dinv_step [OF step assms(1)] assms(2) by simp
    from closing [OF this] assms(2) step show ?thesis
      by (auto intro: converse_rtranclp_into_rtranclp)
  next
    case Closing
    then show ?thesis by (rule closing [OF assms(1,2)])
  next
    case (Draining ts)
    then show ?thesis by (rule drain_all [OF assms(1,2)])
  next
    case Stopped
    then show ?thesis using assms(1) by auto
  qed
qed

text \<open>C12. In every run with fewer than 2^32 - 1 calls, however callers, readers, serving goroutines and
  a failing connection interleave: the client never meets a reply without a matching call; a call
  that returns a reply returns what the server answered to its own request; a call returns an error
  only when the connection is closed; once the reader has ended no call is left waiting; and when the
  connection is broken the reader can always run to its end, whatever the other goroutines have done.\<close>

theorem demux_correct:
  assumes "(dstep serve)\<^sup>*\<^sup>* NewDemuxClnt s" and "Suc (length (callers s)) < 2 ^ 32"
  shows "\<not> fatal s \<and>
    (\<forall>b rep ok. Returned b (Reply rep ok) \<in> set (callers s) \<longrightarrow> serve b (rep, ok)) \<and>
    (\<forall>b. Returned b CallErr \<in> set (callers s) \<longrightarrow> cm_closed (callmap s) \<and> broken s) \<and>
    (rd s = Stopped \<longrightarrow> (\<forall>b t. Enqueued b t \<notin> set (callers s) \<and> Waiting b t \<notin> set (callers s))) \<and>
    (broken s \<longrightarrow> (\<exists>s'. (dstep serve)\<^sup>*\<^sup>* s s' \<and> rd s' = Stopped \<and>
       (\<forall>b t. Enqueued b t \<notin> set (callers s') \<and> Waiting b t \<notin> set (callers s'))))"
proof -
  have inv: "dinv serve s"
    using assms by (rule dinv_reachable)
  have none: "Enqueued b t \<notin> set (callers s) \<and> Waiting b t \<notin> set (callers s)"
    if "dinv serve s" "rd s = Stopped" for s b t
  proof -
    have "i < length (callers s) \<Longrightarrow> entered (callers s ! i) = None" for i
      using that by (cases "entered (callers s ! i)") (auto simp: dinv_def reader_ok_def calls_ok_def)
    then show ?thesis by (force simp: in_set_conv_nth)
  qed
  have "broken s \<Longrightarrow> \<exists>s'. (dstep serve)\<^sup>*\<^sup>* s s' \<and> rd s' = Stopped \<and>
       (\<forall>b t. Enqueued b t \<notin> set (callers s') \<and> Waiting b t \<notin> set (callers s'))"
    using reader_stops [OF inv assms(2)] none by meson
  then show ?thesis
    using inv none [OF inv] by (auto simp: dinv_def results_ok_def reader_ok_def)
qed

text \<open>A run: one call is answered, the connection breaks, and a second call fails.\<close>

definition echo :: "bytes \<Rightarrow> bytes \<times> bool \<Rightarrow> bool" where
  "echo b r \<longleftrightarrow> r = (b, True)"

definition run_state :: "call list \<Rightarrow> (Ttag \<rightharpoonup> nat) \<Rightarrow> (Ttag \<times> bytes) list \<Rightarrow> (Ttag \<times> bytes) list \<Rightarrow> (Ttag \<times> bytes \<times> bool) list \<Rightarrow> Ttag \<Rightarrow> bool \<Rightarrow> dmx" where
  "run_state cs m ts sv tc nt br = \<lparr>nextTag = nt, callmap = \<lparr>cm_closed = br, calls = m\<rparr>, callers = cs, rd = Reading,
     to_srv = ts, serving = sv, to_clnt = tc, broken = br, fatal = False\<rparr>"

lemmas run_defs = run_state_def set_call_def cm_put_def cm_close_def cm_remove_def dmx_reply_def dmx_tag_def
  serve_goroutine_def echo_def

lemma demux_run:
  "(dstep echo)\<^sup>*\<^sup>* NewDemuxClnt (run_state [Returned ''a'' (Reply ''a'' True)] Map.empty [] [] [] 2 False)"
proof -
  have start: "NewDemuxClnt = run_state [] Map.empty [] [] [] 1 False"
    by (simp add: NewDemuxClnt_def newCallMap_def run_state_def)
  have step1: "dstep echo (run_state [] Map.empty [] [] [] 1 False)
      (run_state [Fresh ''a''] Map.empty [] [] [] 1 False)"
    using d_call [of echo "run_state [] Map.empty [] [] [] 1 False" "''a''"] by (simp add: run_defs)
  have step2: "dstep echo (run_state [Fresh ''a''] Map.empty [] [] [] 1 False)
      (run_state [Tagged ''a'' 1] Map.empty [] [] [] 2 False)"
    using d_tag [of 0 "run_state [Fresh ''a''] Map.empty [] [] [] 1 False" "''a''" 1 _ echo] by (simp add: run_defs)
  have step3: "dstep echo (run_state [Tagged ''a'' 1] Map.empty [] [] [] 2 False)
      (run_state [Enqueued ''a'' 1] [1 \<mapsto> 0] [] [] [] 2 False)"
    using d_put [of 0 "run_state [Tagged ''a'' 1] Map.empty [] [] [] 2 False" "''a''" 1
        "\<lparr>cm_closed = False, calls = [1 \<mapsto> 0]\<rparr>" echo] by (simp add: run_defs)
  have step4: "dstep echo (run_state [Enqueued ''a'' 1] [1 \<mapsto> 0] [] [] [] 2 False)
      (run_state [Waiting ''a'' 1] [1 \<mapsto> 0] [(1, ''a'')] [] [] 2 False)"
    using d_write [of 0 "run_state [Enqueued ''a'' 1] [1 \<mapsto> 0] [] [] [] 2 False" "''a''" 1 echo]
    by (simp add: run_defs)
  have step5: "dstep echo (run_state [Waiting ''a'' 1] [1 \<mapsto> 0] [(1, ''a'')] [] [] 2 False)
      (run_state [Waiting ''a'' 1] [1 \<mapsto> 0] [] [(1, ''a'')] [] 2 False)"
    using d_srv_read [of "run_state [Waiting ''a'' 1] [1 \<mapsto> 0] [(1, ''a'')] [] [] 2 False" "(1, ''a'')" "[]" echo]
    by (simp add: run_defs)
  have step6: "dstep echo (run_state [Waiting ''a'' 1] [1 \<mapsto> 0] [] [(1, ''a'')] [] 2 False)
      (run_state [Waiting ''a'' 1] [1 \<mapsto> 0] [] [] [(1, ''a'', True)] 2 False)"
    using d_serve [of 0 "run_state [Waiting ''a'' 1] [1 \<mapsto> 0] [] [(1, ''a'')] [] 2 False" 1 "''a''" echo "''a''" True]
    by (simp add: run_defs)
  have step7: "dstep echo (run_state [Waiting ''a'' 1] [1 \<mapsto> 0] [] [] [(1, ''a'', True)] 2 False)
      (run_state [Returned ''a'' (Reply ''a'' True)] Map.empty [] [] [] 2 False)"
    by (rule d_read [of _ 1 "''a''" True "[]"]) (auto simp: run_defs)
  have after: "dstep echo s s' \<Longrightarrow> (dstep echo)\<^sup>*\<^sup>* s' t \<Longrightarrow> (dstep echo)\<^sup>*\<^sup>* s t" for s s' t
    by (rule converse_rtranclp_into_rtranclp)
  show ?thesis
    unfolding start
    by (intro rtranclp.rtrancl_refl after [OF step1] after [OF step2]
        after [OF step3] after [OF step4]
        after [OF step5] after [OF step6]
        after [OF step7])
qed

theorem demux_correct_witness:
  "\<not> fatal (run_state [Returned ''a'' (Reply ''a'' True)] Map.empty [] [] [] 2 False) \<and> echo ''a'' (''a'', True)"
  using demux_correct [OF demux_run] by (simp add: run_state_def ex_bool_eq)

end
