(* ===== verification/Rsm.thy ===== *)
theory Rsm
  imports Kvtest
begin

text \<open>
  The test of the replicated-state-machine lab (\<open>kvraft1/rsm/server.go\<close>, \<open>kvraft1/rsm/test.go\<close>): the
  counter that is replicated, the search for a server that accepts a request, and the check of the
  counters.  The package under test (\<open>rsm.go\<close>) is a skeleton, so what a server answers to \<open>Submit\<close> is
  an argument.  The interface \<open>StateMachine\<close> between the two is the locale \<open>state_machine\<close>: what
  replication relies on is that operations and snapshots depend on nothing but the replicated state.

  The counter is an \<open>int\<close> without bound, where Go's wraps after \<open>2 ^ 63\<close> increments, and the reply to an
  increment carries the value that the increment gave: \<open>DoOp\<close> of the code reads the counter again after
  it released the lock, which is the same if the package under test executes one operation at a time, as
  is assumed here.  The search
  for a server shares its state with other goroutines, so it is written as a sequence of accesses with
  arbitrary changes in between.
\<close>

section \<open>The state-machine interface\<close>

locale state_machine =
  fixes doOp :: "'s \<Rightarrow> 'q \<Rightarrow> ('s \<times> 'r) option"
    and snapshot :: "'s \<Rightarrow> 'b"
    and restore :: "'b \<Rightarrow> 's \<Rightarrow> 's option"
    and view :: "'s \<Rightarrow> 'v"
  assumes doOp_view: "view s = view s' \<Longrightarrow>
      (case doOp s q of
         None \<Rightarrow> doOp s' q = None
       | Some (t, r) \<Rightarrow> \<exists>t'. doOp s' q = Some (t', r) \<and> view t' = view t)"
    and restore_snapshot: "\<exists>s1. restore (snapshot s) s0 = Some s1 \<and> view s1 = view s"
begin

text \<open>Executing a log of operations, with the replies.\<close>

fun run :: "'s \<Rightarrow> 'q list \<Rightarrow> ('s \<times> 'r list) option" where
  "run s [] = Some (s, [])"
| "run s (q # qs) =
     (case doOp s q of
        None \<Rightarrow> None
      | Some (t, r) \<Rightarrow> (case run t qs of None \<Rightarrow> None | Some (u, rs) \<Rightarrow> Some (u, r # rs)))"

lemma run_append:
  "run s (ps @ qs) =
     (case run s ps of
        None \<Rightarrow> None
      | Some (t, rs) \<Rightarrow> (case run t qs of None \<Rightarrow> None | Some (u, rs') \<Rightarrow> Some (u, rs @ rs')))"
  by (induction ps arbitrary: s) (auto split: option.splits)

text \<open>Replicas with the same replicated state answer the same and stay the same.\<close>

lemma run_view:
  "view s = view s' \<Longrightarrow> run s qs = Some (t, rs) \<Longrightarrow> \<exists>t'. run s' qs = Some (t', rs) \<and> view t' = view t"
proof (induction qs arbitrary: s s' t rs)
  case (Cons q qs)
  then obtain t1 r1 rs1 where 1: "doOp s q = Some (t1, r1)" "run t1 qs = Some (t, rs1)" "rs = r1 # rs1"
    by (auto split: option.splits)
  with doOp_view [OF Cons.prems(1), of q] obtain t1' where 2: "doOp s' q = Some (t1', r1)" "view t1' = view t1"
    by auto
  from Cons.IH [OF 2(2) [symmetric] 1(2)] 1 2 show ?case by auto
qed simp

text \<open>Restoring a snapshot and executing the rest of the log is as good as executing all of it.\<close>

lemma snapshot_run:
  assumes "run s (ps @ qs) = Some (t, rs)"
  obtains m rs1 rs2 s1 t1 where "run s ps = Some (m, rs1)" "restore (snapshot m) s0 = Some s1"
    "run s1 qs = Some (t1, rs2)" "rs = rs1 @ rs2" "view t1 = view t"
proof -
  from assms obtain m rs1 rs2 where 1: "run s ps = Some (m, rs1)" "run m qs = Some (t, rs2)" "rs = rs1 @ rs2"
    by (auto simp: run_append split: option.splits)
  obtain s1 where 2: "restore (snapshot m) s0 = Some s1" "view s1 = view m"
    using restore_snapshot by blast
  from run_view [OF 2(2) [symmetric] 1(2)] 1 2 that show ?thesis by blast
qed

end

section \<open>The replicated counter\<close>

datatype rsm_request = Inc | Null | Dec
datatype reply = IncRep int | NullRep

record rsmSrv =
  rs_me :: nat
  counter :: int

text \<open>The encoding of a snapshot: a counter, or bytes that do not decode to one.\<close>

datatype snapshot_bytes = GobInt int | OtherBytes

definition newRSMSrv :: "nat \<Rightarrow> rsmSrv" where
  "newRSMSrv srv = \<lparr>rs_me = srv, counter = 0\<rparr>"

definition GetCounter :: "rsmSrv \<Rightarrow> int" where
  "GetCounter rs = counter rs"

text \<open>\<open>None\<close> is \<open>log.Fatalf\<close>.\<close>

definition DoOp :: "rsmSrv \<Rightarrow> rsm_request \<Rightarrow> (rsmSrv \<times> reply) option" where
  "DoOp rs req =
     (case req of
        Inc \<Rightarrow> let rs = rs\<lparr>counter := counter rs + 1\<rparr> in Some (rs, IncRep (counter rs))
      | Null \<Rightarrow> Some (rs, NullRep)
      | Dec \<Rightarrow> None)"

definition Snapshot :: "rsmSrv \<Rightarrow> snapshot_bytes" where
  "Snapshot rs = GobInt (counter rs)"

definition Restore :: "snapshot_bytes \<Rightarrow> rsmSrv \<Rightarrow> rsmSrv option" where
  "Restore data rs = (case data of GobInt n \<Rightarrow> Some (rs\<lparr>counter := n\<rparr>) | OtherBytes \<Rightarrow> None)"

interpretation ctr: state_machine DoOp Snapshot Restore counter
  by unfold_locales
    (auto simp: DoOp_def Snapshot_def Restore_def Let_def split: rsm_request.splits)

section \<open>Finding a server\<close>

definition NSRV :: nat where "NSRV = 3"

text \<open>The state that the goroutines of a test share: the last known leader, the operation counter of
  \<open>Config\<close>, which servers are connected in the group, the handle of every server (\<open>None\<close> once it was
  killed), and everything outside the test.  The length of \<open>srvs\<close> is \<open>NSRV\<close> from \<open>makeTest\<close> on.\<close>

record ('h, 'w) rsmTest =
  leader :: int
  ops :: "32 word"
  g_connected :: "bool list"
  srvs :: "'h option list"
  outside :: 'w

text \<open>A search runs beside other goroutines, which may change the shared state between any two of its
  accesses: \<open>others n\<close> is what they do before the access number \<open>n\<close>.  What a server answers to
  \<open>Submit\<close>, and what happens to the shared state in the meantime, is an argument too.\<close>

type_synonym ('h, 'w) others = "nat \<Rightarrow> ('h, 'w) rsmTest \<Rightarrow> ('h, 'w) rsmTest"
type_synonym ('h, 'w) searching = "nat \<times> ('h, 'w) rsmTest"
type_synonym ('h, 'q, 'r, 'w) submit = "'h \<Rightarrow> 'q \<Rightarrow> ('h, 'w) rsmTest \<Rightarrow> (Err \<times> 'r) \<times> ('h, 'w) rsmTest"

definition pause :: "('h, 'w) others \<Rightarrow> ('h, 'w) searching \<Rightarrow> ('h, 'w) searching" where
  "pause others x = (Suc (fst x), others (fst x) (snd x))"

definition inPartition :: "nat \<Rightarrow> nat list option \<Rightarrow> bool" where
  "inPartition s p = (case p of None \<Rightarrow> True | Some is \<Rightarrow> list_ex (\<lambda>i. s = i) is)"

text \<open>The two tests before a server is asked, each on the state at its own moment; the result is the
  handle to submit to, and the outer \<open>None\<close> an index out of range.\<close>

definition look :: "('h, 'w) others \<Rightarrow> nat list option \<Rightarrow> nat \<Rightarrow> ('h, 'w) searching \<Rightarrow> ('h option \<times> ('h, 'w) searching) option" where
  "look others p index x =
     (let x = pause others x in
      do { con \<leftarrow> slice_get (g_connected (snd x)) index;
           if \<not> con then Some (None, x)
           else let x = pause others x in
             do { rsm \<leftarrow> slice_get (srvs (snd x)) index;
                  Some (if rsm \<noteq> None \<and> inPartition index p then rsm else None, x) } })"

text \<open>A server accepted: \<open>OpInc\<close>, then the leader is recorded.\<close>

definition record_leader :: "('h, 'w) others \<Rightarrow> nat \<Rightarrow> ('h, 'w) searching \<Rightarrow> ('h, 'w) searching" where
  "record_leader others index x =
     (let (n, ts) = pause others x;
          (n, ts) = pause others (n, ts\<lparr>ops := ops ts + 1\<rparr>)
      in (n, ts\<lparr>leader := int index\<rparr>))"

datatype 'r search_outcome = Found nat 'r | NotFound | BadIndex

fun round_loop :: "('h, 'w) others \<Rightarrow> ('h, 'q, 'r, 'w) submit \<Rightarrow> nat list option \<Rightarrow> 'q \<Rightarrow> nat \<Rightarrow> int
    \<Rightarrow> ('h, 'w) searching \<Rightarrow> 'r search_outcome \<times> ('h, 'w) searching" where
  "round_loop others submit p req 0 index x = (NotFound, x)"
| "round_loop others submit p req (Suc k) index x =
    (if index \<ge> int NSRV then (BadIndex, x)
     else if index = -1 then round_loop others submit p req k ((index + 1) mod int NSRV) x
     else if index < 0 then (BadIndex, x)
     else case look others p (nat index) x of
            None \<Rightarrow> (BadIndex, x)
          | Some (None, x) \<Rightarrow> round_loop others submit p req k ((index + 1) mod int NSRV) x
          | Some (Some rsm, x) \<Rightarrow>
              (let (n, ts) = pause others x in
               case submit rsm req ts of
                 ((err, rep), ts) \<Rightarrow>
                   if err = OK then (Found (nat index) rep, record_leader others (nat index) (n, ts))
                   else round_loop others submit p req k ((index + 1) mod int NSRV) (n, ts)))"

text \<open>\<open>in_time\<close> holds what \<open>time.Since(t0).Seconds() < NSEC\<close> says at each turn of the loop, which reads
  the leader anew.\<close>

fun onePartition :: "('h, 'w) others \<Rightarrow> ('h, 'q, 'r, 'w) submit \<Rightarrow> nat list option \<Rightarrow> 'q \<Rightarrow> bool list
    \<Rightarrow> ('h, 'w) searching \<Rightarrow> ('r option \<times> ('h, 'w) searching) option" where
  "onePartition others submit p req [] x = Some (None, x)"
| "onePartition others submit p req (in_time # rest) x =
    (if \<not> in_time then Some (None, x)
     else let x = pause others x in
          case round_loop others submit p req NSRV (leader (snd x)) x of
            (BadIndex, x) \<Rightarrow> None
          | (Found i rep, x) \<Rightarrow> Some (Some rep, x)
          | (NotFound, x) \<Rightarrow> onePartition others submit p req rest x)"

section \<open>The check of the counters\<close>

definition countValue :: "int list \<Rightarrow> int \<Rightarrow> nat" where
  "countValue counters v = foldl (\<lambda>i c. if c = v then i + 1 else i) 0 counters"

text \<open>\<open>counters i\<close> is what the servers report at iteration \<open>i\<close>; the result is the time slept in
  milliseconds, or the failure with the number found last.\<close>

fun counter_loop :: "nat \<Rightarrow> (nat \<Rightarrow> int list) \<Rightarrow> int \<Rightarrow> nat \<Rightarrow> nat \<Rightarrow> nat \<Rightarrow> nat \<Rightarrow> nat \<Rightarrow> nat + nat" where
  "counter_loop 0 counters v nsrv i to slept n = Inl n"
| "counter_loop (Suc k) counters v nsrv i to slept n =
    (let n = countValue (counters i) v
     in if n \<ge> nsrv then Inr slept
        else counter_loop k counters v nsrv (i + 1) (if to < 1000 then to * 2 else to) (slept + to) n)"

definition checkCounter :: "(nat \<Rightarrow> int list) \<Rightarrow> int \<Rightarrow> nat \<Rightarrow> nat + nat" where
  "checkCounter counters v nsrv = counter_loop 30 counters v nsrv 0 10 0 0"

end
