(* ===== verification/Rsm_Properties.thy ===== *)
theory Rsm_Properties
  imports Rsm
begin

text \<open>
  The replicated counter meets the state-machine interface, so replicas agree and a snapshot stands for
  the log before it; the search for a server tries every server that is eligible, each once, from the
  last known leader on; the check of the counters.
\<close>

section \<open>The replicated counter\<close>

fun apply_log :: "rsmSrv \<Rightarrow> rsm_request list \<Rightarrow> (rsmSrv \<times> reply list) option" where
  "apply_log rs [] = Some (rs, [])"
| "apply_log rs (q # qs) =
     (case DoOp rs q of
        None \<Rightarrow> None
      | Some (t, r) \<Rightarrow> (case apply_log t qs of None \<Rightarrow> None | Some (u, reps) \<Rightarrow> Some (u, r # reps)))"

lemma apply_log_run: "apply_log rs qs = ctr.run rs qs"
  by (induction qs arbitrary: rs) (auto split: option.splits)

fun inc_replies :: "reply list \<Rightarrow> int list" where
  "inc_replies [] = []"
| "inc_replies (IncRep n # rs) = n # inc_replies rs"
| "inc_replies (NullRep # rs) = inc_replies rs"

lemma apply_log_None: "apply_log rs qs = None \<longleftrightarrow> Dec \<in> set qs"
proof (induction qs arbitrary: rs)
  case (Cons q qs)
  then show ?case
    by (cases q) (auto simp: DoOp_def Let_def split: option.splits)
qed simp

lemma apply_log_counts:
  "apply_log rs qs = Some (t, reps) \<Longrightarrow>
   counter t = counter rs + int (count_list qs Inc) \<and> inc_replies reps = [counter rs + 1..counter t]"
proof (induction qs arbitrary: rs reps)
  case (Cons q qs)
  then obtain t1 r1 reps1 where 1: "DoOp rs q = Some (t1, r1)" "apply_log t1 qs = Some (t, reps1)" "reps = r1 # reps1"
    by (auto split: option.splits)
  note IH = Cons.IH [OF 1(2)]
  show ?case
  proof (cases q)
    case Inc
    with 1 have "counter t1 = counter rs + 1" "r1 = IncRep (counter rs + 1)"
      by (auto simp: DoOp_def Let_def)
    with IH Inc 1(3) show ?thesis
      by (simp add: upto_rec1)
  qed (use IH 1 in \<open>auto simp: DoOp_def\<close>)
qed simp

text \<open>C38. Executing a log fails only on an operation that is not supported; otherwise the replies to
  the increments are consecutive and end with the value of the counter; and a replica that restores a
  snapshot taken after any prefix of the log and executes the rest gives the same replies and ends with
  the same counter as one that executes all of it.\<close>

theorem counter_replicas_agree:
  "(apply_log rs (ps @ qs) = None \<longleftrightarrow> Dec \<in> set (ps @ qs)) \<and>
   (\<forall>t reps. apply_log rs (ps @ qs) = Some (t, reps) \<longrightarrow>
      counter t = counter rs + int (count_list (ps @ qs) Inc) \<and>
      inc_replies reps = [counter rs + 1..counter t] \<and>
      (\<exists>m reps1 s1 t1 reps2. apply_log rs ps = Some (m, reps1) \<and>
         Restore (Snapshot m) other = Some s1 \<and> rs_me s1 = rs_me other \<and>
         apply_log s1 qs = Some (t1, reps2) \<and> reps = reps1 @ reps2 \<and> counter t1 = counter t))"
proof -
  have "\<exists>m reps1 s1 t1 reps2. apply_log rs ps = Some (m, reps1) \<and>
         Restore (Snapshot m) other = Some s1 \<and> rs_me s1 = rs_me other \<and>
         apply_log s1 qs = Some (t1, reps2) \<and> reps = reps1 @ reps2 \<and> counter t1 = counter t"
    if log: "apply_log rs (ps @ qs) = Some (t, reps)" for t reps
  proof -
    from ctr.snapshot_run [OF log [unfolded apply_log_run], of other]
    obtain m reps1 reps2 s1 t1 where "ctr.run rs ps = Some (m, reps1)"
      "Restore (Snapshot m) other = Some s1" "ctr.run s1 qs = Some (t1, reps2)" "reps = reps1 @ reps2"
      "counter t1 = counter t" .
    then show ?thesis
      by (auto simp: apply_log_run Restore_def Snapshot_def)
  qed
  then show ?thesis
    using apply_log_None [of rs "ps @ qs"] apply_log_counts [of rs "ps @ qs"] by blast
qed

theorem counter_replicas_agree_witness:
  "\<exists>t1 reps2. apply_log \<lparr>rs_me = 1, counter = 1\<rparr> [Inc] = Some (t1, reps2) \<and> counter t1 = 2"
  using counter_replicas_agree [of "newRSMSrv 0" "[Inc]" "[Inc]" "newRSMSrv 1"]
  by (simp add: DoOp_def newRSMSrv_def Let_def Snapshot_def Restore_def)

section \<open>Finding a server\<close>

text \<open>What a round may do with the servers it still has to visit, in order.  A server is passed over when
  it is not connected at the moment it is looked at, or when it then turns out to be dead or is outside the
  partition; it is asked otherwise, and the round ends with the first that accepts.\<close>

inductive asks :: "('h, 'w) others \<Rightarrow> ('h, 'q, 'r, 'w) submit \<Rightarrow> nat list option \<Rightarrow> 'q \<Rightarrow> nat list
    \<Rightarrow> ('h, 'w) searching \<Rightarrow> 'r search_outcome \<Rightarrow> ('h, 'w) searching \<Rightarrow> bool"
  for others :: "('h, 'w) others" and submit :: "('h, 'q, 'r, 'w) submit" and p :: "nat list option" and req :: 'q
  where
  nobody: "asks others submit p req [] x NotFound x"
| disconnected: "x1 = pause others x \<Longrightarrow> \<not> g_connected (snd x1) ! i \<Longrightarrow>
    asks others submit p req is x1 out y \<Longrightarrow> asks others submit p req (i # is) x out y"
| unavailable: "x1 = pause others x \<Longrightarrow> g_connected (snd x1) ! i \<Longrightarrow> x2 = pause others x1 \<Longrightarrow>
    srvs (snd x2) ! i = None \<or> (\<exists>part. p = Some part \<and> i \<notin> set part) \<Longrightarrow>
    asks others submit p req is x2 out y \<Longrightarrow> asks others submit p req (i # is) x out y"
| refused: "x1 = pause others x \<Longrightarrow> g_connected (snd x1) ! i \<Longrightarrow> x2 = pause others x1 \<Longrightarrow>
    srvs (snd x2) ! i = Some rsm \<Longrightarrow> \<forall>part. p = Some part \<longrightarrow> i \<in> set part \<Longrightarrow> pause others x2 = (n, ts) \<Longrightarrow>
    submit rsm req ts = ((err, rep), ts') \<Longrightarrow> err \<noteq> OK \<Longrightarrow>
    asks others submit p req is (n, ts') out y \<Longrightarrow> asks others submit p req (i # is) x out y"
| accepted: "x1 = pause others x \<Longrightarrow> g_connected (snd x1) ! i \<Longrightarrow> x2 = pause others x1 \<Longrightarrow>
    srvs (snd x2) ! i = Some rsm \<Longrightarrow> \<forall>part. p = Some part \<longrightarrow> i \<in> set part \<Longrightarrow> pause others x2 = (n, ts) \<Longrightarrow>
    submit rsm req ts = ((OK, rep), ts') \<Longrightarrow> pause others (n, ts') = (n1, ts1) \<Longrightarrow>
    pause others (n1, ts1\<lparr>ops := ops ts1 + 1\<rparr>) = (n2, ts2) \<Longrightarrow>
    asks others submit p req (i # is) x (Found i rep) (n2, ts2\<lparr>leader := int i\<rparr>)"

text \<open>The shape of the shared state, and what the search relies on: every step of the other goroutines,
  and whatever happens while a server is asked, is in \<open>R\<close>, which keeps the shape.\<close>

definition shape :: "('h, 'w) rsmTest \<Rightarrow> bool" where
  "shape ts \<longleftrightarrow> 0 \<le> leader ts \<and> leader ts < int NSRV \<and> length (g_connected ts) = NSRV \<and> length (srvs ts) = NSRV"

definition rely :: "(('h, 'w) rsmTest \<Rightarrow> ('h, 'w) rsmTest \<Rightarrow> bool) \<Rightarrow> ('h, 'w) others \<Rightarrow> ('h, 'q, 'r, 'w) submit \<Rightarrow> bool" where
  "rely R others submit \<longleftrightarrow> reflp R \<and> transp R \<and> (\<forall>ts ts'. R ts ts' \<longrightarrow> shape ts \<longrightarrow> shape ts') \<and>
     (\<forall>n ts. R ts (others n ts)) \<and> (\<forall>rsm req ts. R ts (snd (submit rsm req ts)))"

lemma rely_pause: "rely R others submit \<Longrightarrow> R (snd x) (snd (pause others x))"
  by (simp add: rely_def pause_def)

lemma rely_pause_eq: "rely R others submit \<Longrightarrow> pause others (n, ts) = (n', ts') \<Longrightarrow> R ts ts'"
  using rely_pause [of R others submit "(n, ts)"] by simp

lemma rely_submit: "rely R others submit \<Longrightarrow> submit rsm req ts = (r, ts') \<Longrightarrow> R ts ts'"
  unfolding rely_def by (metis snd_conv)

lemma rely_shape: "rely R others submit \<Longrightarrow> R ts ts' \<Longrightarrow> shape ts \<Longrightarrow> shape ts'"
  by (simp add: rely_def)

lemma rely_trans: "rely R others submit \<Longrightarrow> R ts ts' \<Longrightarrow> R ts' ts'' \<Longrightarrow> R ts ts''"
  unfolding rely_def by (metis transpD)

lemma rely_refl: "rely R others submit \<Longrightarrow> R ts ts"
  unfolding rely_def by (metis reflpD)

lemma inPartition_iff: "inPartition i p \<longleftrightarrow> (\<forall>part. p = Some part \<longrightarrow> i \<in> set part)"
  by (auto simp: inPartition_def list_ex_iff split: option.splits)

lemma next_index: "(int i + 1) mod int NSRV = int (Suc i mod NSRV)"
  by (simp add: zmod_int add.commute)

lemma upto_rotation:
  assumes "i < NSRV"
  shows "map (\<lambda>j. (i + j) mod NSRV) [0..<Suc k] = i # map (\<lambda>j. (Suc i mod NSRV + j) mod NSRV) [0..<k]"
  using assms by (simp add: upt_conv_Cons map_Suc_upt [symmetric] comp_def mod_simps del: upt_Suc)

lemma rotation: "map (\<lambda>j. (i + j) mod n) [0..<n] = rotate i [0..<n]"
  by (rule nth_equalityI) (simp_all add: nth_rotate)

text \<open>The result of looking at a server, in the terms of the specification.\<close>

lemma look_cases:
  assumes R: "rely R others submit" and "shape (snd x)" and i: "i < NSRV"
  obtains (Disconnected) x1 where "look others p i x = Some (None, x1)" "x1 = pause others x"
      "\<not> g_connected (snd x1) ! i" "shape (snd x1)"
  | (Unavailable) x1 x2 where "look others p i x = Some (None, x2)" "x1 = pause others x"
      "g_connected (snd x1) ! i" "x2 = pause others x1" "srvs (snd x2) ! i = None \<or> \<not> inPartition i p" "shape (snd x2)"
  | (Ask) x1 x2 rsm where "look others p i x = Some (Some rsm, x2)" "x1 = pause others x"
      "g_connected (snd x1) ! i" "x2 = pause others x1" "srvs (snd x2) ! i = Some rsm" "inPartition i p" "shape (snd x2)"
proof -
  let ?x1 = "pause others x" and ?x2 = "pause others (pause others x)"
  have s: "shape (snd ?x1)" "shape (snd ?x2)"
    using rely_shape [OF R rely_pause [OF R]] assms(2) by blast+
  have g: "slice_get (g_connected (snd ?x1)) i = Some (g_connected (snd ?x1) ! i)"
    "slice_get (srvs (snd ?x2)) i = Some (srvs (snd ?x2) ! i)"
    using s i by (simp_all add: slice_get_def shape_def)
  show ?thesis
  proof (cases "g_connected (snd ?x1) ! i")
    case True
    show ?thesis
    proof (cases "srvs (snd ?x2) ! i = None \<or> \<not> inPartition i p")
      case False
      then obtain rsm where "srvs (snd ?x2) ! i = Some rsm" by auto
      with True False Ask [of rsm ?x2 ?x1] s g show ?thesis by (simp add: look_def)
    qed (use True Unavailable [of ?x2 ?x1] s g in \<open>auto simp: look_def\<close>)
  qed (use Disconnected [of ?x1] s g in \<open>auto simp: look_def\<close>)
qed

lemma round_loop_asks:
  assumes R: "rely R others submit" and "shape (snd x)" and "i < NSRV"
    and "round_loop others submit p req k (int i) x = (out, y)"
  shows "asks others submit p req (map (\<lambda>j. (i + j) mod NSRV) [0..<k]) x out y"
  using assms(2-)
proof (induction k arbitrary: i x)
  case 0
  then show ?case by (simp add: asks.nobody)
next
  case (Suc k)
  note upto = upto_rotation [OF Suc.prems(2), of k]
  have nxt: "Suc i mod NSRV < NSRV" by (simp add: NSRV_def)
  note IH = Suc.IH [OF _ nxt]
  from R Suc.prems(1,2) show ?case
  proof (cases rule: look_cases [where p = p])
    case (Disconnected x1)
    have "asks others submit p req (map (\<lambda>j. (Suc i mod NSRV + j) mod NSRV) [0..<k]) x1 out y"
      by (rule IH) (use Disconnected Suc.prems in \<open>simp_all add: next_index\<close>)
    then show ?thesis
      unfolding upto by (rule asks.disconnected [OF Disconnected(2,3)])
  next
    case (Unavailable x1 x2)
    then have "srvs (snd x2) ! i = None \<or> (\<exists>part. p = Some part \<and> i \<notin> set part)"
      by (simp add: inPartition_iff)
    moreover have "asks others submit p req (map (\<lambda>j. (Suc i mod NSRV + j) mod NSRV) [0..<k]) x2 out y"
      by (rule IH) (use Unavailable Suc.prems in \<open>simp_all add: next_index\<close>)
    ultimately show ?thesis
      unfolding upto by (rule asks.unavailable [OF Unavailable(2-4)])
  next
    case (Ask x1 x2 rsm)
    obtain n ts err rep ts' where q: "pause others x2 = (n, ts)" "submit rsm req ts = ((err, rep), ts')"
      by (metis prod.exhaust)
    have part: "\<forall>part. p = Some part \<longrightarrow> i \<in> set part" using Ask by (simp add: inPartition_iff)
    have s: "shape ts'"
      using rely_shape [OF R rely_submit [OF R q(2)]] rely_shape [OF R rely_pause [OF R, of x2]] Ask q by simp
    show ?thesis
    proof (cases "err = OK")
      case True
      obtain n1 ts1 n2 ts2 where a: "pause others (n, ts') = (n1, ts1)"
        "pause others (n1, ts1\<lparr>ops := ops ts1 + 1\<rparr>) = (n2, ts2)" by (metis prod.exhaust)
      with True Ask q Suc.prems have "out = Found i rep" "y = (n2, ts2\<lparr>leader := int i\<rparr>)"
        by (auto simp: record_leader_def)
      with True show ?thesis
        unfolding upto using asks.accepted [where submit = submit and req = req, OF Ask(2-5) part q(1) _ a] q by simp
    next
      case False
      have "asks others submit p req (map (\<lambda>j. (Suc i mod NSRV + j) mod NSRV) [0..<k]) (n, ts') out y"
        by (rule IH) (use s False Ask q Suc.prems in \<open>simp_all add: next_index\<close>)
      then show ?thesis
        unfolding upto by (rule asks.refused [where submit = submit and req = req, OF Ask(2-5) part q False])
    qed
  qed
qed

text \<open>What a search that ends may have done to the shared state: nothing but what the other goroutines
  did, unless it returns a reply.  A reply was given by a server that was connected and alive when the
  search looked at it and that is in the partition, and then the operation was counted and the server
  recorded as the leader.\<close>

definition search_result :: "(('h, 'w) rsmTest \<Rightarrow> ('h, 'w) rsmTest \<Rightarrow> bool) \<Rightarrow> ('h, 'q, 'r, 'w) submit
    \<Rightarrow> nat list option \<Rightarrow> 'q \<Rightarrow> ('h, 'w) rsmTest \<Rightarrow> 'r option \<Rightarrow> ('h, 'w) rsmTest \<Rightarrow> bool" where
  "search_result R submit p req ts res ts' \<longleftrightarrow>
     (case res of
        None \<Rightarrow> R ts ts'
      | Some rep \<Rightarrow> \<exists>i rsm t1 t2 t3 t4 t5 t6. i < NSRV \<and> (\<forall>part. p = Some part \<longrightarrow> i \<in> set part) \<and>
           R ts t1 \<and> g_connected t1 ! i \<and> R t1 t2 \<and> srvs t2 ! i = Some rsm \<and> R t2 t3 \<and>
           submit rsm req t3 = ((OK, rep), t4) \<and> R t4 t5 \<and> R (t5\<lparr>ops := ops t5 + 1\<rparr>) t6 \<and>
           ts' = t6\<lparr>leader := int i\<rparr>)"

lemma search_result_shape:
  assumes R: "rely R others submit" and "search_result R submit p req ts res ts'" and "shape ts"
  shows "shape ts'"
proof (cases res)
  case None
  with assms show ?thesis by (auto simp: search_result_def rely_shape [OF R])
next
  case (Some rep)
  with assms(2) obtain i rsm t1 t2 t3 t4 t5 t6 where i: "i < NSRV" and r: "R ts t1" "R t1 t2" "R t2 t3"
    "submit rsm req t3 = ((OK, rep), t4)" "R t4 t5" "R (t5\<lparr>ops := ops t5 + 1\<rparr>) t6" "ts' = t6\<lparr>leader := int i\<rparr>"
    by (auto simp: search_result_def)
  have "shape t5" using r(1,2,3,5) rely_submit [OF R r(4)] assms(3) rely_shape [OF R] by metis
  then have "shape (t5\<lparr>ops := ops t5 + 1\<rparr>)" by (simp add: shape_def)
  then have "shape t6" by (rule rely_shape [OF R r(6)])
  with i r(7) show ?thesis by (simp add: shape_def)
qed

lemma search_result_later:
  assumes "rely R others submit" and "R ts0 ts" and "search_result R submit p req ts res ts'"
  shows "search_result R submit p req ts0 res ts'"
  using assms(3) rely_trans [OF assms(1,2)] unfolding search_result_def by (cases res) (simp, simp, blast)

lemma asks_result:
  assumes R: "rely R others submit" and "asks others submit p req is x out y" and "set is \<subseteq> {..<NSRV}"
  shows "case out of
      Found i rep \<Rightarrow> search_result R submit p req (snd x) (Some rep) (snd y)
    | NotFound \<Rightarrow> R (snd x) (snd y)
    | BadIndex \<Rightarrow> False"
  using assms(2,3)
proof (induction rule: asks.induct)
  case (nobody x)
  show ?case using rely_refl [OF R] by simp
next
  case (disconnected x1 x i "is" out y)
  then show ?case
    using search_result_later [OF R rely_pause [OF R]] rely_trans [OF R rely_pause [OF R]]
    by (auto split: search_outcome.splits)
next
  case (unavailable x1 x i x2 "is" out y)
  have "R (snd x) (snd x2)" using unavailable(1,3) rely_trans [OF R rely_pause [OF R] rely_pause [OF R]] by blast
  then show ?case
    using unavailable search_result_later [OF R] rely_trans [OF R] by (auto split: search_outcome.splits)
next
  case (refused x1 x i x2 rsm n ts err rep ts' "is" out y)
  have "R (snd x2) ts" using rely_pause [OF R, of x2] refused by simp
  then have "R (snd x) ts'"
    using refused(1,3,7) rely_trans [OF R] rely_pause [OF R] rely_submit [OF R refused(7)] by metis
  then show ?case
    using refused search_result_later [OF R] rely_trans [OF R] by (auto split: search_outcome.splits)
next
  case (accepted x1 x i x2 rsm n ts rep ts' n1 ts1 n2 ts2 "is")
  have "R (snd x) (snd x1)" "R (snd x1) (snd x2)" "R (snd x2) ts" "R ts' ts1" "R (ts1\<lparr>ops := ops ts1 + 1\<rparr>) ts2"
    using rely_pause [OF R, of x] rely_pause [OF R, of x1] rely_pause [OF R, of x2]
      rely_pause_eq [OF R] accepted by auto
  with accepted show ?case
    unfolding search_result_def by auto blast
qed

text \<open>A server that stays connected and alive and accepts is found if it is in the list.\<close>

definition stays_leader :: "(('h, 'w) rsmTest \<Rightarrow> ('h, 'w) rsmTest \<Rightarrow> bool) \<Rightarrow> ('h, 'q, 'r, 'w) submit
    \<Rightarrow> nat list option \<Rightarrow> 'q \<Rightarrow> nat \<Rightarrow> ('h, 'w) rsmTest \<Rightarrow> bool" where
  "stays_leader R submit p req i ts \<longleftrightarrow> i < NSRV \<and> (\<forall>part. p = Some part \<longrightarrow> i \<in> set part) \<and>
     (\<forall>t. R ts t \<longrightarrow> g_connected t ! i \<and>
        (\<exists>rsm. srvs t ! i = Some rsm \<and> (\<forall>t'. R t t' \<longrightarrow> (\<exists>rep t''. submit rsm req t' = ((OK, rep), t'')))))"

lemma stays_leader_later:
  "rely R others submit \<Longrightarrow> R ts t \<Longrightarrow> stays_leader R submit p req i ts \<Longrightarrow> stays_leader R submit p req i t"
  unfolding stays_leader_def using rely_trans [of R others submit ts t] by blast

lemma asks_finds:
  assumes R: "rely R others submit" and "asks others submit p req is x out y" and "i \<in> set is"
    and "stays_leader R submit p req i (snd x)"
  shows "out \<noteq> NotFound"
  using assms(2-)
proof (induction rule: asks.induct)
  case (disconnected x1 x j "is" out y)
  have r: "R (snd x) (snd x1)" using rely_pause [OF R] disconnected(1) by simp
  have "j \<noteq> i" using r disconnected(2,6) unfolding stays_leader_def by blast
  with disconnected stays_leader_later [OF R r] show ?case by auto
next
  case (unavailable x1 x j x2 "is" out y)
  have r: "R (snd x) (snd x2)" using unavailable(1,3) rely_trans [OF R rely_pause [OF R] rely_pause [OF R]] by blast
  have "j \<noteq> i" using r unavailable(4,8) unfolding stays_leader_def by (metis option.distinct(1))
  with unavailable stays_leader_later [OF R r] show ?case by auto
next
  case (refused x1 x j x2 rsm n ts err rep ts' "is" out y)
  have r: "R (snd x) (snd x2)" "R (snd x2) ts" "R ts ts'"
    using refused(1,3) rely_trans [OF R rely_pause [OF R] rely_pause [OF R]] rely_pause [OF R, of x2] refused(6)
      rely_submit [OF R refused(7)] by auto
  then have r': "R (snd x) ts'" using rely_trans [OF R] by blast
  have "j \<noteq> i"
  proof
    assume "j = i"
    then obtain rep' t'' where "submit rsm req ts = ((OK, rep'), t'')"
      using refused(4,12) r(1,2) unfolding stays_leader_def by (metis option.inject)
    with refused(7,8) show False by simp
  qed
  with refused stays_leader_later [OF R r'] show ?case by auto
qed simp_all

lemma round_loop_rotation:
  assumes R: "rely R others submit" and s: "shape (snd x)"
    and "round_loop others submit p req NSRV (leader (snd x)) x = (out, y)"
  shows "asks others submit p req (rotate (nat (leader (snd x))) [0..<NSRV]) x out y"
proof -
  have lead: "nat (leader (snd x)) < NSRV" "leader (snd x) = int (nat (leader (snd x)))"
    using s by (auto simp: shape_def)
  have run: "round_loop others submit p req NSRV (int (nat (leader (snd x)))) x = (out, y)"
    using assms(3) lead(2) by simp
  show ?thesis
    using round_loop_asks [OF R s lead(1) run] unfolding rotation .
qed

lemma set_rotate_upt: "set (rotate n [0..<m]) = {..<m}"
  by (simp add: lessThan_atLeast0)

lemma onePartition_result:
  assumes R: "rely R others submit" and "shape (snd x)"
  shows "\<exists>res y. onePartition others submit p req clk x = Some (res, y) \<and>
    search_result R submit p req (snd x) res (snd y)"
  using assms(2)
proof (induction clk arbitrary: x)
  case Nil
  then show ?case using rely_refl [OF R] by (simp add: search_result_def)
next
  case (Cons in_time rest)
  let ?x = "pause others x"
  have s: "shape (snd ?x)" using rely_shape [OF R rely_pause [OF R] Cons.prems] .
  obtain out y where r: "round_loop others submit p req NSRV (leader (snd ?x)) ?x = (out, y)"
    by (metis prod.exhaust)
  note res = asks_result [OF R round_loop_rotation [OF R s r], unfolded set_rotate_upt]
  note later = search_result_later [OF R rely_pause [OF R, of x]]
  show ?case
  proof (cases in_time)
    case True
    show ?thesis
    proof (cases out)
      case (Found i rep)
      with res True r later show ?thesis by (auto simp: Let_def)
    next
      case NotFound
      with res have m: "R (snd ?x) (snd y)" by simp
      with Cons.IH [OF rely_shape [OF R m s]] obtain out' z where
        z: "onePartition others submit p req rest y = Some (out', z)" "search_result R submit p req (snd y) out' (snd z)"
        by blast
      from later [OF search_result_later [OF R m z(2)]] z(1) True NotFound r show ?thesis
        by (simp add: Let_def)
    qed (use res in simp)
  qed (use rely_refl [OF R] in \<open>simp add: search_result_def\<close>)
qed

lemma onePartition_finds:
  assumes R: "rely R others submit" and "shape (snd x)" and i: "stays_leader R submit p req i (snd x)"
  shows "\<exists>rep y. onePartition others submit p req (True # rest) x = Some (Some rep, y)"
proof -
  let ?x = "pause others x"
  have s: "shape (snd ?x)" using rely_shape [OF R rely_pause [OF R] assms(2)] .
  obtain out y where r: "round_loop others submit p req NSRV (leader (snd ?x)) ?x = (out, y)"
    by (metis prod.exhaust)
  note a = round_loop_rotation [OF R s r]
  have "i < NSRV" using i by (simp add: stays_leader_def)
  then have "out \<noteq> NotFound"
    using asks_finds [OF R a, of i] stays_leader_later [OF R rely_pause [OF R] i] by (simp add: set_rotate_upt)
  moreover have "out \<noteq> BadIndex"
    using asks_result [OF R a, unfolded set_rotate_upt] by auto
  ultimately show ?thesis using r by (cases out) (auto simp: Let_def)
qed

text \<open>C39. The search for a server, while other goroutines connect, disconnect, kill and restart servers
  and record leaders between any two of its accesses.  They are only relied on to keep the recorded leader
  in range and the number of servers.  Then one round visits the three servers in cyclic order from the
  leader that it read, each at most once, asks exactly those that are connected and alive at the moment
  they are looked at and in the partition, and ends with the first that accepts; the search never stops
  with a bad index; when it returns a reply, a server in the partition that was connected and alive when
  looked at gave it, the operation was counted and that server recorded, and otherwise the search changed
  nothing; it leaves the leader in range, which is what other searches rely on; and it does return a reply
  if there is time for a round and some server in the partition stays connected and alive and accepts.\<close>

theorem onePartition_correct:
  assumes "rely R others submit" and "shape (snd x)"
  shows "(\<exists>out y. round_loop others submit p req NSRV (leader (snd x)) x = (out, y) \<and> out \<noteq> BadIndex \<and>
      asks others submit p req (rotate (nat (leader (snd x))) [0..<NSRV]) x out y) \<and>
    (\<exists>res y. onePartition others submit p req clk x = Some (res, y) \<and> shape (snd y) \<and>
      search_result R submit p req (snd x) res (snd y)) \<and>
    (stays_leader R submit p req i (snd x) \<longrightarrow>
      (\<exists>rep y. onePartition others submit p req (True # rest) x = Some (Some rep, y)))"
proof -
  obtain out y where r: "round_loop others submit p req NSRV (leader (snd x)) x = (out, y)"
    by (metis prod.exhaust)
  note a = round_loop_rotation [OF assms r]
  have "out \<noteq> BadIndex" using asks_result [OF assms(1) a, unfolded set_rotate_upt] by auto
  then show ?thesis
    using r a onePartition_result [OF assms, of p req clk] search_result_shape [OF assms(1) _ assms(2)]
      onePartition_finds [OF assms, of p req i rest] by blast
qed

text \<open>Server 0 refuses, server 1 is disconnected before the search comes to it, server 2 accepts.\<close>

definition third :: "(nat, rsm_request, reply, unit) submit" where
  "third rsm req ts = ((if rsm = 2 then OK else ErrWrongLeader, NullRep), ts)"

definition cut_server1 :: "(nat, unit) others" where
  "cut_server1 n ts = (if n = 3 then ts\<lparr>g_connected := (g_connected ts)[1 := False]\<rparr> else ts)"

definition three_up :: "(nat, unit) rsmTest" where
  "three_up = \<lparr>leader = 0, ops = 0, g_connected = [True, True, True], srvs = [Some 0, Some 1, Some 2], outside = ()\<rparr>"

definition cut_or_same :: "(nat, unit) rsmTest \<Rightarrow> (nat, unit) rsmTest \<Rightarrow> bool" where
  "cut_or_same ts ts' \<longleftrightarrow> ts' = ts \<or> ts' = ts\<lparr>g_connected := (g_connected ts)[1 := False]\<rparr>"

lemma cut_server1_rely: "rely cut_or_same cut_server1 third"
proof -
  have "reflp cut_or_same" "transp cut_or_same"
    by (auto simp: cut_or_same_def intro!: reflpI transpI)
  then show ?thesis
    by (auto simp: rely_def cut_server1_def third_def) (auto simp: cut_or_same_def shape_def)
qed

theorem onePartition_correct_witness:
  "(\<exists>rep y. onePartition cut_server1 third None Null [True] (0, three_up) = Some (Some rep, y) \<and>
      leader (snd y) = 2 \<and> ops (snd y) = 1) \<and>
   (\<exists>out y. asks cut_server1 third None Null [0, 1, 2] (0, three_up) out y \<and> out = Found 2 NullRep)"
proof -
  have s: "shape (snd (0, three_up))" by (simp add: shape_def three_up_def NSRV_def)
  have l: "rotate (nat (leader three_up)) [0..<NSRV] = [0, 1, 2]" by code_simp
  have r: "round_loop cut_server1 third None Null NSRV (leader three_up) (0, three_up) =
      (Found 2 NullRep, 9, three_up\<lparr>leader := 2, ops := 1, g_connected := [True, False, True]\<rparr>)" by code_simp
  have o: "onePartition cut_server1 third None Null [True] (0, three_up) =
      Some (Some NullRep, 10, three_up\<lparr>leader := 2, ops := 1, g_connected := [True, False, True]\<rparr>)" by code_simp
  show ?thesis
    using onePartition_correct [OF cut_server1_rely s, of None Null "[True]" 2 "[]"] r o by (auto simp: l)
qed

section \<open>The check of the counters\<close>

lemma countValue_count: "countValue counters v = count_list counters v"
proof -
  have "foldl (\<lambda>i c. if c = v then i + 1 else i) n counters = n + count_list counters v" for n :: nat
    by (induction counters arbitrary: n) auto
  then show ?thesis by (simp add: countValue_def)
qed

lemma counter_loop_passes:
  "(\<exists>t. counter_loop k counters v nsrv i to slept n = Inr t) \<longleftrightarrow>
   (\<exists>j < k. nsrv \<le> count_list (counters (i + j)) v)"
proof (induction k arbitrary: i to slept n)
  case (Suc k)
  have "(\<exists>j < Suc k. nsrv \<le> count_list (counters (i + j)) v) \<longleftrightarrow>
      nsrv \<le> count_list (counters i) v \<or> (\<exists>j < k. nsrv \<le> count_list (counters (Suc i + j)) v)"
    by (auto simp: less_Suc_eq_0_disj)
  then show ?case
    using Suc [of "Suc i"] by (auto simp: Let_def countValue_count)
qed simp

text \<open>The check passes exactly when at one of its thirty looks enough servers have the value.\<close>

lemma checkCounter_passes:
  "(\<exists>t. checkCounter counters v nsrv = Inr t) \<longleftrightarrow> (\<exists>j < 30. nsrv \<le> count_list (counters j) v)"
  using counter_loop_passes [of 30 counters v nsrv 0 10 0 0] by (simp add: checkCounter_def)

end
