(* ===== verification/Oplog.thy ===== *)
theory Oplog
  imports Kvtest Kvsrv Annotations
begin

text \<open>
  The logged clients of the key/value tests and the check of their log (\<open>kvtest1/porcupine.go\<close>): every
  get and put of a test client is timed and appended to the operation log, which the test hands to a
  linearizability checker together with the versioned model of \<open>models1/kv.go\<close>.

  The checker is a package outside this repository and an argument of \<open>checkPorcupine\<close>; so is the
  visualiser.  The clerk and the server behave as their comments document (see \<open>Kvtest\<close>): a request
  or its reply may be lost, the clerk repeats it, and other clients act in between.  \<open>None\<close> is a panic,
  the use of a log that the test has not made; \<open>t.Fatal\<close> is a flag of the result.
\<close>

section \<open>The operation log\<close>

record OpLog =
  operations :: "kv_value1 Operation list"

definition OpLog_Len :: "OpLog \<Rightarrow> nat" where
  "OpLog_Len log = length (operations log)"

definition OpLog_Append :: "kv_value1 Operation \<Rightarrow> OpLog \<Rightarrow> OpLog" where
  "OpLog_Append op log = log\<lparr>operations := operations log @ [op]\<rparr>"

definition OpLog_Read :: "OpLog \<Rightarrow> kv_value1 Operation list" where
  "OpLog_Read log = operations log"

text \<open>The string constants of type \<open>Err\<close>.\<close>

fun err_string :: "Err \<Rightarrow> string" where
  "err_string OK = ''OK''"
| "err_string ErrNoKey = ''ErrNoKey''"
| "err_string ErrVersion = ''ErrVersion''"
| "err_string ErrMaybe = ''ErrMaybe''"
| "err_string ErrWrongLeader = ''ErrWrongLeader''"
| "err_string ErrWrongGroup = ''ErrWrongGroup''"

definition get_operation :: "string \<Rightarrow> int \<Rightarrow> int \<Rightarrow> int \<Rightarrow> string \<times> 64 word \<times> Err \<Rightarrow> kv_value1 Operation" where
  "get_operation key cli start fin = (\<lambda>(val, ver, err).
     \<lparr>ClientId = cli, Input = InV1 \<lparr>Op1 = 0, Key1 = key, Value1 = '''', Version1 = 0\<rparr>, Call = start,
      Output = OutV1 \<lparr>out_Value1 = val, out_Version1 = ver, out_Err1 = err_string err\<rparr>, Return = fin\<rparr>)"

definition put_operation ::
  "string \<Rightarrow> string \<Rightarrow> 64 word \<Rightarrow> int \<Rightarrow> int \<Rightarrow> int \<Rightarrow> Err \<Rightarrow> kv_value1 Operation" where
  "put_operation key value version cli start fin err =
     \<lparr>ClientId = cli, Input = InV1 \<lparr>Op1 = 1, Key1 = key, Value1 = value, Version1 = version\<rparr>, Call = start,
      Output = OutV1 \<lparr>out_Value1 = '''', out_Version1 = 0, out_Err1 = err_string err\<rparr>, Return = fin\<rparr>"

text \<open>What the four wrappers do once the clerk has returned: \<open>ops\<close> is the counter of the
  configuration, \<open>log\<close> may be nil.  The method \<open>Put\<close> of a test does not count the operation.\<close>

definition Get_returned ::
  "string \<Rightarrow> int \<Rightarrow> int \<Rightarrow> int \<Rightarrow> string \<times> 64 word \<times> Err \<Rightarrow> 32 word \<times> OpLog option \<Rightarrow> 32 word \<times> OpLog option" where
  "Get_returned key cli start fin r = (\<lambda>(ops, log).
     (ops + 1, map_option (OpLog_Append (get_operation key cli start fin r)) log))"

definition Put_returned ::
  "string \<Rightarrow> string \<Rightarrow> 64 word \<Rightarrow> int \<Rightarrow> int \<Rightarrow> int \<Rightarrow> Err \<Rightarrow> 32 word \<times> OpLog option \<Rightarrow> 32 word \<times> OpLog option" where
  "Put_returned key value version cli start fin err = (\<lambda>(ops, log).
     (ops + 1, map_option (OpLog_Append (put_operation key value version cli start fin err)) log))"

definition Test_Get_returned ::
  "string \<Rightarrow> int \<Rightarrow> int \<Rightarrow> int \<Rightarrow> string \<times> 64 word \<times> Err \<Rightarrow> 32 word \<times> OpLog option \<Rightarrow> 32 word \<times> OpLog option" where
  "Test_Get_returned key cli start fin r = (\<lambda>(ops, log).
     (ops + 1, map_option (OpLog_Append (get_operation key cli start fin r)) log))"

definition Test_Put_returned ::
  "string \<Rightarrow> string \<Rightarrow> 64 word \<Rightarrow> int \<Rightarrow> int \<Rightarrow> int \<Rightarrow> Err \<Rightarrow> 32 word \<times> OpLog option \<Rightarrow> 32 word \<times> OpLog option" where
  "Test_Put_returned key value version cli start fin err = (\<lambda>(ops, log).
     (ops, map_option (OpLog_Append (put_operation key value version cli start fin err)) log))"

section \<open>Clients of one test\<close>

datatype l_request = LGet string | is_put: LPut string string "64 word"

text \<open>A call in progress: when it started, whether its clerk has sent the request before, and whether
  an earlier request was executed, which the client does not see.\<close>

record l_pending =
  l_req :: l_request
  l_start :: int
  l_resend :: bool
  l_applied :: bool

record l_test =
  l_store :: "string \<Rightarrow> string cell"
  l_clock :: int
  l_ops :: "32 word"
  l_oplog :: "OpLog option"
  l_busy :: "nat \<rightharpoonup> l_pending"

text \<open>One execution of a request at the server.\<close>

fun l_serve :: "l_request \<Rightarrow> (string \<Rightarrow> string cell) \<Rightarrow> (string \<times> 64 word \<times> Err) \<times> (string \<Rightarrow> string cell)" where
  "l_serve (LGet k) S =
     ((case S k of None \<Rightarrow> ('''', 0, ErrNoKey) | Some (v, n) \<Rightarrow> (v, of_nat n, OK)), S)"
| "l_serve (LPut k v ver) S =
     (case server_put v (unat ver) (S k) of (err, cell) \<Rightarrow> (('''', 0, err), S(k := cell)))"

fun l_return :: "nat \<Rightarrow> l_pending \<Rightarrow> int \<Rightarrow> string \<times> 64 word \<times> Err \<Rightarrow> 32 word \<times> OpLog option \<Rightarrow> 32 word \<times> OpLog option" where
  "l_return c p fin (val, ver, err) =
     (case l_req p of
        LGet k \<Rightarrow> Test_Get_returned k (int c) (l_start p) fin (val, ver, err)
      | LPut k v n \<Rightarrow> Test_Put_returned k v n (int c) (l_start p) fin (clerk_err (l_resend p) err))"

datatype l_label = LTick nat | LInvoke nat l_request | LAttempt nat call_outcome

text \<open>The monotonic clock advances between the steps by any amount, also none.\<close>

fun l_step :: "l_label \<Rightarrow> l_test \<Rightarrow> l_test option" where
  "l_step (LTick d) s = Some (s\<lparr>l_clock := l_clock s + int d\<rparr>)"
| "l_step (LInvoke c req) s =
     (case l_busy s c of
        Some _ \<Rightarrow> None
      | None \<Rightarrow> Some (s\<lparr>l_busy := (l_busy s)(c \<mapsto>
          \<lparr>l_req = req, l_start = l_clock s, l_resend = False, l_applied = False\<rparr>)\<rparr>))"
| "l_step (LAttempt c out) s =
     (case l_busy s c of
        None \<Rightarrow> None
      | Some p \<Rightarrow>
          (case out of
             RequestLost \<Rightarrow> Some (s\<lparr>l_busy := (l_busy s)(c \<mapsto> p\<lparr>l_resend := True\<rparr>)\<rparr>)
           | ReplyLost \<Rightarrow>
               (case l_serve (l_req p) (l_store s) of
                  ((_, _, err), S) \<Rightarrow>
                    Some (s\<lparr>l_store := S, l_busy := (l_busy s)(c \<mapsto> p\<lparr>l_resend := True,
                      l_applied := l_applied p \<or> is_put (l_req p) \<and> err = OK\<rparr>)\<rparr>))
           | Delivered \<Rightarrow>
               (case l_serve (l_req p) (l_store s) of
                  (r, S) \<Rightarrow>
                    case l_return c p (l_clock s) r (l_ops s, l_oplog s) of
                      (ops, log) \<Rightarrow>
                        Some (s\<lparr>l_store := S, l_ops := ops, l_oplog := log, l_busy := (l_busy s)(c := None)\<rparr>))))"

fun l_run :: "l_label list \<Rightarrow> l_test \<Rightarrow> l_test option" where
  "l_run [] s = Some s"
| "l_run (l # ls) s = do { s' \<leftarrow> l_step l s; l_run ls s' }"

definition l_init :: "int \<Rightarrow> l_test" where
  "l_init t = \<lparr>l_store = (\<lambda>_. None), l_clock = t, l_ops = 0, l_oplog = Some \<lparr>operations = []\<rparr>, l_busy = Map.empty\<rparr>"

section \<open>The check of the log\<close>

datatype vis_info = OpenFailed | WriteFailed | Wrote "Annotation list" | AssumedOk

text \<open>\<open>enabled\<close> is the value of \<open>VIS_ENABLE\<close>, \<open>opened\<close> whether the visualisation file can be opened,
  \<open>fin\<close> finalises the annotations of the test; the first component of the result is \<open>t.Fatal\<close>.\<close>

definition write_vis :: "('i \<Rightarrow> Annotation list \<Rightarrow> bool) \<Rightarrow> 'i \<Rightarrow> Annotation list \<Rightarrow> vis_info" where
  "write_vis visualize info as = (if visualize info as then Wrote as else WriteFailed)"

definition checkPorcupine ::
  "(kv_value1 Operation list \<Rightarrow> CheckResult \<times> 'i) \<Rightarrow> ('i \<Rightarrow> Annotation list \<Rightarrow> bool) \<Rightarrow> string \<Rightarrow> bool \<Rightarrow>
   (string \<Rightarrow> globals \<Rightarrow> Annotation list \<times> globals) \<Rightarrow> OpLog option \<Rightarrow> globals \<Rightarrow>
   (bool \<times> vis_info list \<times> globals) option" where
  "checkPorcupine check visualize enabled opened fin opLog g = do {
     log \<leftarrow> opLog;
     Some (case check (OpLog_Read log) of (res, info) \<Rightarrow>
       if res = Illegal then
         (if \<not> opened then (True, [OpenFailed], g)
          else if enabled \<noteq> ''never'' then
            (case fin ''test failed'' g of (as, g) \<Rightarrow> (True, [write_vis visualize info as], g))
          else (True, [], g))
       else
         let out = (if res = Unknown then [AssumedOk] else [])
         in if enabled = ''always'' \<and> isFinalized (annotation g) then
              (if \<not> opened then (False, out @ [OpenFailed], g)
               else (case fin ''test passed'' g of (as, g) \<Rightarrow> (False, out @ [write_vis visualize info as], g)))
            else (False, out, g)) }"

end
