(* ===== verification/Oplog_Properties.thy ===== *)
theory Oplog_Properties
  imports Oplog Effect_Order Kvtest_Properties Checker_Properties
begin

text \<open>
  What the check of the operation log means: the log that clients leave when clerk and server behave as
  documented is linearizable for the versioned model, with one exception, and the test fails exactly
  when its checker finds that the log is not.
\<close>

section \<open>The store as the versioned model sees it\<close>

abbreviation whole_store1 :: "(kv_value1, string \<Rightarrow> kv_state1) Model" where
  "whole_store1 \<equiv> store_model (\<lambda>v. Key1 (in_of1 v)) (KvModel1 (\<lambda>ks. ks))"

definition cell_state :: "string cell \<Rightarrow> kv_state1" where
  "cell_state cell =
     (case cell of
        None \<Rightarrow> StV1 \<lparr>st_Value = '''', st_Version = 0\<rparr>
      | Some (v, n) \<Rightarrow> StV1 \<lparr>st_Value = v, st_Version = of_nat n\<rparr>)"

definition abs_store1 :: "l_test \<Rightarrow> string \<Rightarrow> kv_state1" where
  "abs_store1 s = (\<lambda>k. cell_state (l_store s k))"

definition log_of :: "l_test \<Rightarrow> kv_value1 Operation list" where
  "log_of s = (case l_oplog s of None \<Rightarrow> [] | Some log \<Rightarrow> operations log)"

lemma get_step:
  "Step whole_store1 S (Input (get_operation k c t t' (v, n, err))) (Output (get_operation k c t t' (v, n, err))) =
     (v = st_Value (st_of1 (S k)), S)"
  by (auto simp: get_operation_def KvModel1_Step_def)

lemma put_step:
  "Step whole_store1 S (Input (put_operation k v ver c t t' err)) (Output (put_operation k v ver c t t' err)) =
     (if st_Version (st_of1 (S k)) = ver
      then (err = OK \<or> err = ErrMaybe, S(k := StV1 \<lparr>st_Value = v, st_Version = ver + 1\<rparr>))
      else (err = ErrVersion \<or> err = ErrMaybe, S(k := StV1 (st_of1 (S k)))))"
  by (cases err) (auto simp: put_operation_def KvModel1_Step_def Let_def)

text \<open>A put that the model never accepts.\<close>

definition refused_put :: "kv_value1 Operation \<Rightarrow> bool" where
  "refused_put x \<longleftrightarrow> Op1 (in_of1 (Input x)) = 1 \<and> out_Err1 (out_of1 (Output x)) = ''ErrNoKey''"

lemma refused_put_operations [simp]:
  "refused_put (put_operation k v ver c t t' err) \<longleftrightarrow> err = ErrNoKey"
  "\<not> refused_put (get_operation k c t t' r)"
  by (cases err; simp add: refused_put_def put_operation_def)
     (cases r; simp add: refused_put_def get_operation_def)

lemma run_member:
  "run_operations m s xs \<Longrightarrow> x \<in> set xs \<Longrightarrow> \<exists>s. fst (Step m s (Input x) (Output x))"
proof (induction xs arbitrary: s)
  case (Cons y ys)
  then show ?case by (cases "Step m s (Input y) (Output y)") (metis fst_conv prod.case run_operations.simps(2) set_ConsD)
qed simp

lemma refused_not_linearizable:
  assumes "x \<in> set ops" "refused_put x"
  shows "\<not> linearizable_ops whole_store1 ops"
proof
  assume "linearizable_ops whole_store1 ops"
  then obtain xs where "mset xs = mset ops" "run_operations whole_store1 (Init whole_store1 ()) xs"
    by (auto simp: linearizable_ops_def)
  moreover from this(1) assms(1) have "x \<in> set xs" by (metis set_mset_mset)
  ultimately have "\<exists>S. fst (Step whole_store1 S (Input x) (Output x))" by (intro run_member)
  then show False using assms(2)
    by (auto simp: refused_put_def KvModel1_Step_def Let_def split: if_splits)
qed

section \<open>The invariant of the clients\<close>

definition l_effected :: "l_test \<Rightarrow> nat \<Rightarrow> bool" where
  "l_effected s c \<longleftrightarrow> (\<exists>p. l_busy s c = Some p \<and> l_applied p)"

text \<open>The operation that an executed put whose reply was lost will be logged as.\<close>

definition l_pend :: "l_test \<Rightarrow> nat \<Rightarrow> kv_value1 Operation" where
  "l_pend s c =
     (case l_req (the (l_busy s c)) of
        LPut k v ver \<Rightarrow> put_operation k v ver (int c) (l_start (the (l_busy s c))) (l_clock s) ErrMaybe
      | LGet k \<Rightarrow> undefined)"

definition pending_ok :: "l_test \<Rightarrow> l_pending \<Rightarrow> bool" where
  "pending_ok s p \<longleftrightarrow> l_start p \<le> l_clock s \<and>
     (l_applied p \<longrightarrow> (\<exists>k v ver. l_req p = LPut k v ver \<and> l_resend p \<and> unat ver < version (l_store s k)))"

definition clients_ok :: "l_test \<Rightarrow> bool" where
  "clients_ok s \<longleftrightarrow>
     l_oplog s \<noteq> None \<and> (\<forall>x \<in> set (log_of s). Call x \<le> Return x \<and> Return x \<le> l_clock s) \<and>
     (\<forall>k. l_store s k \<noteq> None \<longrightarrow> 0 < version (l_store s k)) \<and>
     (\<forall>c p. l_busy s c = Some p \<longrightarrow> pending_ok s p)"

interpretation ol: effect_log whole_store1 log_of l_clock l_effected l_pend abs_store1 clients_ok
proof unfold_locales
  fix s x assume "clients_ok s" "x \<in> set (log_of s)"
  then show "Call x \<le> l_clock s" by (fastforce simp: clients_ok_def)
next
  fix s c assume "clients_ok s" "l_effected s c"
  then obtain p k v ver where p: "l_busy s c = Some p" "l_req p = LPut k v ver" "l_start p \<le> l_clock s"
    unfolding l_effected_def clients_ok_def pending_ok_def by blast
  then show "Call (l_pend s c) \<le> l_clock s" by (simp add: l_pend_def put_operation_def)
qed

text \<open>No version has reached \<open>2^64\<close>.\<close>

definition in_range :: "l_test \<Rightarrow> bool" where
  "in_range s \<longleftrightarrow> (\<forall>k. version (l_store s k) < 2 ^ 64)"

definition l_inv :: "l_test \<Rightarrow> bool" where
  "l_inv s \<longleftrightarrow> clients_ok s \<and>
     (in_range s \<longrightarrow> list_all (\<lambda>x. \<not> refused_put x) (log_of s) \<longrightarrow> ol.has_order s)"

lemma inv_keep:
  assumes "l_inv s" "clients_ok s'" "log_of s' = log_of s" "l_store s' = l_store s"
    and "\<And>c. l_effected s' c \<longleftrightarrow> l_effected s c"
    and "\<And>c. l_effected s c \<Longrightarrow> later_op (l_pend s c) (l_pend s' c)"
  shows "l_inv s'"
  unfolding l_inv_def
proof (intro conjI impI)
  assume a: "in_range s'" "list_all (\<lambda>x. \<not> refused_put x) (log_of s')"
  show "ol.has_order s'"
    by (rule ol.order_keep)
       (use assms a in \<open>auto simp: l_inv_def in_range_def ol.undisturbed_def abs_store1_def\<close>)
qed (rule assms(2))

section \<open>Executions at the server\<close>

lemma cell_state_version: "st_Version (st_of1 (cell_state cell)) = of_nat (version cell)"
  by (auto simp: cell_state_def split: option.splits)

lemma cell_state_again [simp]: "StV1 (st_of1 (cell_state cell)) = cell_state cell"
  by (auto simp: cell_state_def split: option.splits)

lemma version_matches:
  assumes "n < 2 ^ 64"
  shows "of_nat n = (ver :: 64 word) \<longleftrightarrow> n = unat ver"
proof -
  have "take_bit 64 n = n" using assms by (rule take_bit_nat_eq_self)
  then show ?thesis by (simp add: word_unat_eq_iff unsigned_of_nat)
qed

lemma server_put_effect:
  assumes "server_put v ver cell = (err, cell')"
  obtains "err = OK" "ver = version cell" "cell' = Some (v, Suc ver)"
    | "err = ErrVersion" "ver \<noteq> version cell" "cell' = cell"
    | "err = ErrNoKey" "ver \<noteq> version cell" "cell' = cell" "version cell = 0"
  using assms by (cases cell) (auto simp: server_put_def split: if_splits)

lemma clients_ok_busy: "clients_ok s \<Longrightarrow> l_busy s c = Some p \<Longrightarrow> pending_ok s p"
  by (simp add: clients_ok_def)

lemma l_pend_other:
  "l_busy s' c = l_busy s c \<Longrightarrow> l_effected s c \<Longrightarrow> clients_ok s \<Longrightarrow> l_clock s \<le> l_clock s' \<Longrightarrow>
   later_op (l_pend s c) (l_pend s' c)"
  by (auto simp: l_effected_def l_pend_def later_op_def put_operation_def pending_ok_def
      split: l_request.splits dest: clients_ok_busy)

section \<open>Every step keeps the invariant\<close>

text \<open>Client \<open>c\<close> returns, with its operation \<open>x\<close> logged.\<close>

definition l_logged :: "nat \<Rightarrow> kv_value1 Operation \<Rightarrow> 32 word \<Rightarrow> l_test \<Rightarrow> l_test" where
  "l_logged c x ops s =
     s\<lparr>l_ops := ops, l_oplog := map_option (OpLog_Append x) (l_oplog s), l_busy := (l_busy s)(c := None)\<rparr>"

lemma l_logged_simps [simp]:
  "l_store (l_logged c x ops s) = l_store s" "l_clock (l_logged c x ops s) = l_clock s"
  "l_busy (l_logged c x ops s) = (l_busy s)(c := None)" "abs_store1 (l_logged c x ops s) = abs_store1 s"
  "in_range (l_logged c x ops s) \<longleftrightarrow> in_range s" "pending_ok (l_logged c x ops s) = pending_ok s"
  by (simp_all add: l_logged_def abs_store1_def in_range_def pending_ok_def fun_eq_iff)

lemma log_of_logged: "clients_ok s \<Longrightarrow> log_of (l_logged c x ops s) = log_of s @ [x]"
  by (auto simp: clients_ok_def log_of_def l_logged_def OpLog_Append_def)

lemma clients_ok_logged:
  assumes "clients_ok s" "Call x \<le> Return x" "Return x \<le> l_clock s"
  shows "clients_ok (l_logged c x ops s)"
  using assms log_of_logged [OF assms(1), of c x ops]
  by (auto simp: clients_ok_def) (auto simp: l_logged_def)

lemma clients_ok_set: "clients_ok s \<Longrightarrow> pending_ok s p \<Longrightarrow> clients_ok (s\<lparr>l_busy := (l_busy s)(c \<mapsto> p)\<rparr>)"
  by (auto simp: clients_ok_def log_of_def pending_ok_def)

lemma pending_ok_mono:
  assumes "pending_ok s p" "l_clock s \<le> l_clock s'" "\<And>k. version (l_store s k) \<le> version (l_store s' k)"
  shows "pending_ok s' p"
  using assms unfolding pending_ok_def by (meson order_less_le_trans order_trans)

lemma in_range_mono: "in_range s' \<Longrightarrow> (\<And>k. version (l_store s k) \<le> version (l_store s' k)) \<Longrightarrow> in_range s"
  unfolding in_range_def by (meson order_le_less_trans)

lemma version_put:
  "version (l_store s k) \<le> version (((l_store s)(k' := Some (v, Suc (version (l_store s k'))))) k)"
  by simp

lemma clients_ok_put:
  assumes "clients_ok s"
  shows "clients_ok (s\<lparr>l_store := (l_store s)(k := Some (v, Suc (version (l_store s k))))\<rparr>)" (is "clients_ok ?s")
proof -
  have "pending_ok ?s p" if "pending_ok s p" for p
    by (rule pending_ok_mono [OF that]) (simp_all add: version_put)
  then show ?thesis using assms by (auto simp: clients_ok_def log_of_def)
qed

lemma in_range_put:
  "in_range (s\<lparr>l_store := (l_store s)(k := Some (v, Suc (version (l_store s k))))\<rparr>) \<Longrightarrow> in_range s"
  by (erule in_range_mono) (simp add: version_put)

text \<open>The operation of client \<open>c\<close> takes effect and is logged in one step.\<close>

lemma inv_log:
  assumes "l_inv s" "l_busy s c = Some p" "\<not> l_applied p" "Call x = l_start p" "Return x = l_clock s"
    and s1: "s1 = s\<lparr>l_store := S\<rparr>" "clients_ok s1" "in_range s1 \<Longrightarrow> in_range s"
    and step: "in_range s1 \<Longrightarrow> \<not> refused_put x \<Longrightarrow>
      Step whole_store1 (abs_store1 s) (Input x) (Output x) = (True, abs_store1 s1)"
  shows "l_inv (l_logged c x ops s1)"
proof -
  have ok: "clients_ok s" using assms(1) by (simp add: l_inv_def)
  have t: "Call x \<le> Return x" "Return x \<le> l_clock s1"
    using clients_ok_busy [OF ok assms(2)] assms(4,5) by (simp_all add: pending_ok_def s1)
  have e: "l_effected (l_logged c x ops s1) d \<longleftrightarrow> l_effected s d" for d
    using assms(2,3) by (cases "d = c") (auto simp: l_effected_def s1(1))
  have l: "log_of (l_logged c x ops s1) = log_of s @ [x]"
    using log_of_logged [OF s1(2)] by (simp add: s1(1) log_of_def)
  have "ol.has_order (l_logged c x ops s1)"
    if a: "in_range s1" "list_all (\<lambda>x. \<not> refused_put x) (log_of s @ [x])"
  proof (rule ol.order_log [OF _ ok])
    show "ol.has_order s" using assms(1) s1(3) a by (simp add: l_inv_def)
    show "Step whole_store1 (abs_store1 s) (Input x) (Output x) = (True, abs_store1 (l_logged c x ops s1))"
      using step a by simp
    show "ol.undisturbed s (l_logged c x ops s1) {c. l_effected s c}"
      unfolding ol.undisturbed_def
      using assms(2,3) ok by (auto intro!: l_pend_other simp: s1(1)) (auto simp: l_effected_def)
  qed (use assms(5) l e in auto)
  then show ?thesis using clients_ok_logged [OF s1(2) t] l by (simp add: l_inv_def)
qed

text \<open>Its put takes effect and the reply is lost.\<close>

lemma inv_pend:
  assumes "l_inv s" "l_busy s c = Some p" "\<not> l_applied p" "l_req p = LPut k v ver"
    and "unat ver = version (l_store s k)"
  shows "l_inv (s\<lparr>l_store := (l_store s)(k := Some (v, Suc (version (l_store s k)))),
    l_busy := (l_busy s)(c \<mapsto> p\<lparr>l_resend := True, l_applied := True\<rparr>)\<rparr>)" (is "l_inv ?s")
proof -
  let ?s1 = "s\<lparr>l_store := (l_store s)(k := Some (v, Suc (version (l_store s k))))\<rparr>"
  have ok: "clients_ok s" using assms(1) by (simp add: l_inv_def)
  have "pending_ok ?s1 (p\<lparr>l_resend := True, l_applied := True\<rparr>)"
    using clients_ok_busy [OF ok assms(2)] assms(4,5) by (simp add: pending_ok_def)
  from clients_ok_set [OF clients_ok_put [OF ok] this, of c] have ok': "clients_ok ?s" by simp
  have e: "l_effected ?s d \<longleftrightarrow> d = c \<or> l_effected s d" for d
    by (cases "d = c") (auto simp: l_effected_def)
  have pd: "l_pend ?s c = put_operation k v ver (int c) (l_start p) (l_clock s) ErrMaybe"
    using assms(4) by (simp add: l_pend_def)
  have "ol.has_order ?s" if a: "in_range ?s" "list_all (\<lambda>x. \<not> refused_put x) (log_of ?s)"
  proof (rule ol.order_pend [OF _ ok, of _ c])
    have r: "in_range s" by (rule in_range_put [of s k v]) (use a(1) in \<open>simp add: in_range_def\<close>)
    then show "ol.has_order s" using assms(1) a(2) by (simp add: l_inv_def log_of_def)
    have "of_nat (version (l_store s k)) = ver" using r assms(5) by (simp add: version_matches in_range_def)
    then show "Step whole_store1 (abs_store1 s) (Input (l_pend ?s c)) (Output (l_pend ?s c)) = (True, abs_store1 ?s)"
      unfolding pd put_step
      by (auto simp: abs_store1_def cell_state_version fun_eq_iff) (auto simp: cell_state_def)
    show "ol.undisturbed s ?s {c. l_effected s c}"
      unfolding ol.undisturbed_def
      using assms(2,3) ok by (auto intro!: l_pend_other) (auto simp: l_effected_def)
  qed (use assms(2,3) e pd in \<open>auto simp: log_of_def put_operation_def, auto simp: l_effected_def\<close>)
  then show ?thesis using ok' by (simp add: l_inv_def)
qed

text \<open>A put that has taken effect returns, with \<open>ErrMaybe\<close>.\<close>

lemma inv_settle:
  assumes "l_inv s" "l_busy s c = Some p" "l_applied p" "l_req p = LPut k v ver"
  shows "l_inv (l_logged c (put_operation k v ver (int c) (l_start p) (l_clock s) ErrMaybe) ops s)" (is "l_inv ?s")
proof -
  let ?x = "put_operation k v ver (int c) (l_start p) (l_clock s) ErrMaybe"
  have ok: "clients_ok s" using assms(1) by (simp add: l_inv_def)
  have t: "Call ?x \<le> Return ?x" "Return ?x \<le> l_clock s"
    using clients_ok_busy [OF ok assms(2)] by (simp_all add: pending_ok_def put_operation_def)
  have e: "l_effected ?s d \<longleftrightarrow> l_effected s d \<and> d \<noteq> c" for d by (auto simp: l_effected_def)
  have "ol.has_order ?s" if "in_range s" "list_all (\<lambda>x. \<not> refused_put x) (log_of s)"
  proof (rule ol.order_settle [of s _ c ?x])
    show "ol.has_order s" using assms(1) that by (simp add: l_inv_def)
    show "later_op (l_pend s c) ?x" using assms(2,4) by (simp add: l_pend_def)
    show "ol.undisturbed s ?s ({c. l_effected s c} - {c})"
      unfolding ol.undisturbed_def using ok by (auto intro!: l_pend_other)
  qed (use assms(2,3) e log_of_logged [OF ok] in \<open>auto simp: l_effected_def\<close>)
  then show ?thesis using clients_ok_logged [OF ok t] log_of_logged [OF ok] by (simp add: l_inv_def)
qed

lemma inv_tick:
  assumes "l_inv s"
  shows "l_inv (s\<lparr>l_clock := l_clock s + int d\<rparr>)" (is "l_inv ?s")
proof (rule inv_keep [OF assms])
  have ok: "clients_ok s" using assms by (simp add: l_inv_def)
  have "pending_ok ?s p" if "pending_ok s p" for p by (rule pending_ok_mono [OF that]) simp_all
  then show "clients_ok ?s" using ok by (fastforce simp: clients_ok_def log_of_def)
  show "later_op (l_pend s c) (l_pend ?s c)" if "l_effected s c" for c
    by (rule l_pend_other [OF _ that ok]) simp_all
qed (auto simp: log_of_def l_effected_def)

text \<open>A client starts a call, or has sent its request again without effect.\<close>

lemma inv_busy:
  assumes "l_inv s" "pending_ok s q" "l_applied q \<longleftrightarrow> l_effected s c"
    and "\<And>p. l_busy s c = Some p \<Longrightarrow> l_req q = l_req p \<and> l_start q = l_start p"
  shows "l_inv (s\<lparr>l_busy := (l_busy s)(c \<mapsto> q)\<rparr>)" (is "l_inv ?s")
proof (rule inv_keep [OF assms(1)])
  have ok: "clients_ok s" using assms(1) by (simp add: l_inv_def)
  show "clients_ok ?s" by (rule clients_ok_set [OF ok assms(2)])
  show "l_effected ?s d \<longleftrightarrow> l_effected s d" for d using assms(3) by (auto simp: l_effected_def)
  show "later_op (l_pend s d) (l_pend ?s d)" if "l_effected s d" for d
  proof (cases "d = c")
    case True
    then have "l_pend ?s d = l_pend s d" using that assms(4)
      by (auto simp: l_effected_def l_pend_def split: l_request.splits)
    then show ?thesis by simp
  next
    case False
    then show ?thesis by (intro l_pend_other [OF _ that ok]) simp_all
  qed
qed (simp_all add: log_of_def)

lemma pending_resend: "pending_ok s p \<Longrightarrow> pending_ok s (p\<lparr>l_resend := True\<rparr>)"
  by (auto simp: pending_ok_def)

lemma inv_resend:
  assumes "l_inv s" "l_busy s c = Some p"
  shows "l_inv (s\<lparr>l_busy := (l_busy s)(c \<mapsto> p\<lparr>l_resend := True\<rparr>)\<rparr>)"
  using assms pending_resend [OF clients_ok_busy, of s c p]
  by (intro inv_busy) (auto simp: l_inv_def l_effected_def)

text \<open>The request reaches the server and the reply is lost.\<close>

lemma inv_reply_lost:
  assumes "l_inv s" "l_busy s c = Some p" "l_step (LAttempt c ReplyLost) s = Some s'"
  shows "l_inv s'"
proof (cases "l_req p")
  case (LGet k)
  then have "s' = s\<lparr>l_busy := (l_busy s)(c \<mapsto> p\<lparr>l_resend := True\<rparr>)\<rparr>"
    using assms(2,3) by (auto split: option.splits)
  then show ?thesis using inv_resend [OF assms(1,2)] by simp
next
  case (LPut k v ver)
  have po: "pending_ok s p" using assms(1,2) by (auto simp: l_inv_def dest: clients_ok_busy)
  obtain err cell where e: "server_put v (unat ver) (l_store s k) = (err, cell)" by fastforce
  have s': "s' = s\<lparr>l_store := (l_store s)(k := cell),
      l_busy := (l_busy s)(c \<mapsto> p\<lparr>l_resend := True, l_applied := l_applied p \<or> err = OK\<rparr>)\<rparr>"
    using assms(2,3) e by (simp add: LPut)
  show ?thesis
  proof (cases "err = OK")
    case True
    with e have ex: "unat ver = version (l_store s k)" "cell = Some (v, Suc (unat ver))"
      by (auto elim: server_put_effect)
    then have "\<not> l_applied p" using po LPut by (auto simp: pending_ok_def)
    from inv_pend [OF assms(1,2) this LPut ex(1)] show ?thesis using s' ex True by simp
  next
    case False
    with e have "cell = l_store s k" by (auto elim: server_put_effect)
    then have "s' = s\<lparr>l_busy := (l_busy s)(c \<mapsto> p\<lparr>l_resend := True\<rparr>)\<rparr>" using s' False by simp
    then show ?thesis using inv_resend [OF assms(1,2)] by simp
  qed
qed

text \<open>The reply arrives.\<close>

lemma inv_get_delivered:
  assumes "l_inv s" "l_busy s c = Some p" "l_req p = LGet k"
    and r: "r = fst (l_serve (LGet k) (l_store s))"
  shows "l_inv (l_logged c (get_operation k (int c) (l_start p) (l_clock s) r) ops s)"
proof (rule inv_log [OF assms(1,2), of _ s])
  have ok: "clients_ok s" using assms(1) by (simp add: l_inv_def)
  then show "clients_ok s" .
  show "\<not> l_applied p" using clients_ok_busy [OF ok assms(2)] assms(3) by (auto simp: pending_ok_def)
  obtain val ver err where v: "r = (val, ver, err)" by (cases r)
  have "val = st_Value (st_of1 (abs_store1 s k))"
    using r v by (auto simp: abs_store1_def cell_state_def split: option.splits)
  then show "Step whole_store1 (abs_store1 s) (Input (get_operation k (int c) (l_start p) (l_clock s) r))
      (Output (get_operation k (int c) (l_start p) (l_clock s) r)) = (True, abs_store1 s)"
    unfolding v get_step by simp
  show "s = s\<lparr>l_store := l_store s\<rparr>" by simp
qed (auto simp: get_operation_def split: prod.splits)

lemma inv_put_delivered:
  assumes "l_inv s" "l_busy s c = Some p" "l_req p = LPut k v ver"
    and e: "server_put v (unat ver) (l_store s k) = (err, cell)"
  shows "l_inv (l_logged c (put_operation k v ver (int c) (l_start p) (l_clock s) (clerk_err (l_resend p) err)) ops
    (s\<lparr>l_store := (l_store s)(k := cell)\<rparr>))" (is "l_inv (l_logged c ?x ops ?s)")
proof (cases "l_applied p")
  case True
  have ok: "clients_ok s" using assms(1) by (simp add: l_inv_def)
  then have l: "l_resend p" "unat ver < version (l_store s k)" using clients_ok_busy [OF ok assms(2)] True assms(3)
    by (auto simp: pending_ok_def)
  then have "err = ErrVersion" "cell = l_store s k" using e by (auto elim!: server_put_effect)
  with l(1) inv_settle [OF assms(1,2) True assms(3)] show ?thesis by (simp add: clerk_err_def)
next
  case False
  have ok: "clients_ok s" using assms(1) by (simp add: l_inv_def)
  show ?thesis
  proof (rule inv_log [OF assms(1,2) False])
    show "clients_ok ?s" using e ok clients_ok_put [OF ok, of k v] by (auto elim!: server_put_effect)
    show r: "in_range s" if "in_range ?s" using e that in_range_put [of s k v] by (auto elim!: server_put_effect)
    show "Step whole_store1 (abs_store1 s) (Input ?x) (Output ?x) = (True, abs_store1 ?s)"
      if "in_range ?s" "\<not> refused_put ?x"
    proof -
      have m: "of_nat (version (l_store s k)) = ver \<longleftrightarrow> version (l_store s k) = unat ver"
        using r [OF that(1)] by (simp add: version_matches in_range_def)
      have "err \<noteq> ErrNoKey" using that(2) by (auto simp: clerk_err_def)
      from e show ?thesis
      proof (cases rule: server_put_effect)
        case 1
        with m have "st_Version (st_of1 (abs_store1 s k)) = ver"
          by (simp add: abs_store1_def cell_state_version)
        moreover have "of_nat (Suc (unat ver)) = ver + 1" by simp
        ultimately show ?thesis unfolding put_step using 1
          by (auto simp: clerk_err_def abs_store1_def cell_state_def fun_eq_iff)
      next
        case 2
        with m have "st_Version (st_of1 (abs_store1 s k)) \<noteq> ver"
          by (simp add: abs_store1_def cell_state_version)
        then show ?thesis unfolding put_step using 2 by (auto simp: clerk_err_def abs_store1_def fun_eq_iff)
      qed (use \<open>err \<noteq> ErrNoKey\<close> in simp)
    qed
  qed (simp_all add: put_operation_def)
qed

lemma l_step_inv:
  assumes "l_inv s" "l_step l s = Some s'"
  shows "l_inv s'"
proof (cases l)
  case (LTick d)
  then show ?thesis using assms inv_tick by auto
next
  case (LInvoke c req)
  then have b: "l_busy s c = None" using assms(2) by (auto split: option.splits)
  show ?thesis using inv_busy [OF assms(1), of _ c] assms(2) LInvoke b
    by (auto simp: pending_ok_def l_effected_def)
next
  case (LAttempt c out)
  then obtain p where p: "l_busy s c = Some p" using assms(2) by (auto split: option.splits)
  show ?thesis
  proof (cases out)
    case RequestLost
    then show ?thesis using inv_resend [OF assms(1) p] assms(2) LAttempt p by auto
  next
    case ReplyLost
    then show ?thesis using inv_reply_lost [OF assms(1) p] assms(2) LAttempt by simp
  next
    case Delivered
    show ?thesis
    proof (cases "l_req p")
      case (LGet k)
      obtain r where r: "l_serve (LGet k) (l_store s) = (r, l_store s)" by simp
      then have "s' = l_logged c (get_operation k (int c) (l_start p) (l_clock s) r) (l_ops s + 1) s"
        using assms(2) LAttempt p Delivered LGet
        by (cases r) (auto simp: l_logged_def Test_Get_returned_def simp del: l_serve.simps)
      then show ?thesis using inv_get_delivered [OF assms(1) p LGet, of r] r by simp
    next
      case (LPut k v ver)
      obtain err cell where e: "server_put v (unat ver) (l_store s k) = (err, cell)" by fastforce
      then show ?thesis using inv_put_delivered [OF assms(1) p LPut e, of "l_ops s"] assms(2) LAttempt p Delivered LPut
        by (auto simp: l_logged_def Test_Put_returned_def)
    qed
  qed
qed

lemma l_run_inv: "l_inv s \<Longrightarrow> l_run ls s = Some s' \<Longrightarrow> l_inv s'"
  by (induction ls s rule: l_run.induct) (auto split: bind_splits intro: l_step_inv)

lemma l_inv_init: "l_inv (l_init t)"
proof -
  have "ol.has_order (l_init t)"
    by (rule ol.has_order_start)
       (auto simp: l_init_def log_of_def l_effected_def abs_store1_def cell_state_def store_model_def)
  then show ?thesis by (auto simp: l_inv_def clients_ok_def l_init_def log_of_def)
qed

text \<open>The log of clients that have all returned.\<close>

lemma oplog_linearizable:
  assumes "l_run ls (l_init t) = Some s" "l_busy s = Map.empty" "in_range s"
  shows "linearizable_ops whole_store1 (log_of s) \<longleftrightarrow> \<not> list_ex refused_put (log_of s)"
proof -
  have inv: "l_inv s" by (rule l_run_inv [OF l_inv_init assms(1)])
  have "linearizable_ops whole_store1 (log_of s)" if "list_all (\<lambda>x. \<not> refused_put x) (log_of s)"
    by (rule ol.quiescent_linearizable) (use inv assms(2,3) that in \<open>auto simp: l_inv_def l_effected_def\<close>)
  then show ?thesis using refused_not_linearizable by (auto simp: list_ex_iff list_all_iff)
qed

lemma oplog_timed:
  assumes "l_run ls (l_init t) = Some s"
  shows "l_oplog s = Some \<lparr>operations = log_of s\<rparr> \<and> (\<forall>x \<in> set (log_of s). Call x \<le> Return x)"
proof -
  have "clients_ok s" using l_run_inv [OF l_inv_init assms] by (simp add: l_inv_def)
  then show ?thesis by (auto simp: clients_ok_def log_of_def)
qed

section \<open>The operation counter\<close>

text \<open>The counter that a test prints as the number of operations counts the gets only.\<close>

definition is_get :: "kv_value1 Operation \<Rightarrow> bool" where
  "is_get x \<longleftrightarrow> Op1 (in_of1 (Input x)) = 0"

lemma is_get_operations [simp]:
  "is_get (get_operation k c t t' r)" "\<not> is_get (put_operation k v ver c t t' err)"
  by (cases r; simp add: is_get_def get_operation_def) (simp add: is_get_def put_operation_def)

lemma l_step_counts:
  assumes "l_oplog s \<noteq> None" "l_ops s = of_nat (length (filter is_get (log_of s)))" "l_step l s = Some s'"
  shows "l_oplog s' \<noteq> None \<and> l_ops s' = of_nat (length (filter is_get (log_of s')))"
  using assms
  by (cases l)
     (auto simp: log_of_def Test_Get_returned_def Test_Put_returned_def OpLog_Append_def
       split: option.splits call_outcome.splits l_request.splits prod.splits)

lemma l_run_counts:
  "l_run ls s = Some s' \<Longrightarrow> l_oplog s \<noteq> None \<Longrightarrow> l_ops s = of_nat (length (filter is_get (log_of s))) \<Longrightarrow>
   l_ops s' = of_nat (length (filter is_get (log_of s')))"
proof (induction ls s rule: l_run.induct)
  case (2 l ls s)
  then obtain s1 where "l_step l s = Some s1" "l_run ls s1 = Some s'" by (auto split: bind_splits)
  then show ?case using 2 l_step_counts [of s l s1] by auto
qed simp

section \<open>The contract of the checker\<close>

text \<open>What the tests rely on: a verdict is right; the checker may also answer \<open>Unknown\<close>.\<close>

locale linearizability_checker =
  fixes check :: "kv_value1 Operation list \<Rightarrow> CheckResult \<times> 'i"
    and m :: "(kv_value1, 's) Model"
  assumes Ok_sound: "\<forall>x \<in> set ops. Call x \<le> Return x \<Longrightarrow> fst (check ops) = Ok \<Longrightarrow> linearizable_ops m ops"
    and Illegal_sound:
      "\<forall>x \<in> set ops. Call x \<le> Return x \<Longrightarrow> fst (check ops) = Illegal \<Longrightarrow> \<not> linearizable_ops m ops"
begin

lemma fatal_iff:
  "checkPorcupine check vis enabled opened fin (Some log) g = Some (fatal, out, g') \<Longrightarrow>
   fatal \<longleftrightarrow> fst (check (operations log)) = Illegal"
  by (auto simp: checkPorcupine_def OpLog_Read_def Let_def split: prod.splits if_splits)

lemma passes:
  assumes "\<forall>x \<in> set (operations log). Call x \<le> Return x" "linearizable_ops m (operations log)"
  shows "\<exists>out g'. checkPorcupine check vis enabled opened fin (Some log) g = Some (False, out, g')"
proof -
  obtain fatal out g' where r: "checkPorcupine check vis enabled opened fin (Some log) g = Some (fatal, out, g')"
    by (cases "the (checkPorcupine check vis enabled opened fin (Some log) g)") (auto simp: checkPorcupine_def)
  then show ?thesis using fatal_iff [OF r] Illegal_sound [OF assms(1)] assms(2) by auto
qed

lemma fails:
  assumes "\<forall>x \<in> set (operations log). Call x \<le> Return x" "\<not> linearizable_ops m (operations log)"
    and "fst (check (operations log)) \<noteq> Unknown"
  shows "\<exists>out g'. checkPorcupine check vis enabled opened fin (Some log) g = Some (True, out, g')"
proof -
  obtain fatal out g' where r: "checkPorcupine check vis enabled opened fin (Some log) g = Some (fatal, out, g')"
    by (cases "the (checkPorcupine check vis enabled opened fin (Some log) g)") (auto simp: checkPorcupine_def)
  moreover have "fst (check (operations log)) = Illegal"
    using Ok_sound [OF assms(1)] assms(2,3) by (cases "fst (check (operations log))") auto
  ultimately show ?thesis using fatal_iff [OF r] by auto
qed

end

text \<open>The checker that this repository holds a copy of (\<open>Porcupine\<close>), under a schedule in which every
  search delivers, meets the contract.\<close>

definition repo_schedule :: "kv_value1 Operation list \<Rightarrow> par_event list" where
  "repo_schedule ops =
     (if ops = [] then [Timeout] else map Result [0..<length (partitions_of (KvModel1 (\<lambda>ks. ks)) ops)])"

definition repo_check :: "kv_value1 Operation list \<Rightarrow> CheckResult \<times> kv_value1 linearizationInfo" where
  "repo_check ops =
     the (CheckOperationsVerbose time_sort (\<lambda>_. ''v'') (\<lambda>_. ''s'') (KvModel1 (\<lambda>ks. ks)) ops (\<lambda>_ _. False)
       (\<lambda>qs. qs) (repo_schedule ops))"

lemma KvModel1_partition:
  "Partition (KvModel1 (\<lambda>ks. ks)) = Some (partition_by (\<lambda>v. Key1 (in_of1 (Input v))) (\<lambda>ks. ks))"
  by (simp add: KvModel1_Partition_def fun_eq_iff)

lemma visits_id: "visits (\<lambda>ks. ks)"
  by (simp add: visits_def)

lemmas kv1_partitions = partitions_by_key [OF KvModel1_partition visits_id]

lemma repo_check_runs:
  assumes "\<forall>x \<in> set ops. Call x \<le> Return x"
  shows "checkOperations time_sort (\<lambda>_. ''v'') (\<lambda>_. ''s'') (KvModel1 (\<lambda>ks. ks)) ops True (\<lambda>_ _. False)
    (\<lambda>qs. qs) (repo_schedule ops) = Some (repo_check ops)"
proof (cases "ops = []")
  case True
  have p: "partitions_of (KvModel1 (\<lambda>ks. ks)) [] = []"
    by (simp add: partitions_of_def KvModel1_Partition_def partition_by_eq [OF visits_id])
  show ?thesis
    by (simp add: repo_check_def True repo_schedule_def CheckOperationsVerbose_def checkOperations_def
        checkParallel_def p Let_def)
next
  case False
  let ?l = "map (makeEntries time_sort) (partitions_of (KvModel1 (\<lambda>ks. ks)) ops)"
  note k = kv1_partitions [OF assms]
  have "?l \<noteq> []" using False k(2) by (auto simp flip: length_greater_0_conv simp: card_gt_0_iff)
  moreover have "full_schedule (length ?l) (repo_schedule ops)"
    using False by (simp add: full_schedule_def repo_schedule_def)
  ultimately have "checkParallel (fillDefault (\<lambda>_. ''v'') (\<lambda>_. ''s'') (KvModel1 (\<lambda>ks. ks))) ?l True
      (\<lambda>_ _. False) (\<lambda>qs. qs) (repo_schedule ops) \<noteq> None"
    using checkParallel_returns [OF wf_partitions [OF time_sort_sorts k(1)]
        state_equality_fillDefault [OF kv1.state_equality_axioms] fillDefault_simps(3)] by force
  then show ?thesis
    by (auto simp: repo_check_def CheckOperationsVerbose_def checkOperations_def Let_def)
qed

lemma repo_check_verdict:
  assumes "\<forall>x \<in> set ops. Call x \<le> Return x"
  shows "(fst (repo_check ops) = Ok \<longrightarrow> linearizable_ops whole_store1 ops) \<and>
    (fst (repo_check ops) = Illegal \<longrightarrow> \<not> linearizable_ops whole_store1 ops) \<and>
    (fst (repo_check ops) = Unknown \<longrightarrow> ops = [])"
proof -
  let ?m = "KvModel1 (\<lambda>ks. ks)"
  note k = kv1_partitions [OF assms]
  obtain res info where r: "repo_check ops = (res, info)" by (cases "repo_check ops")
  have s: "some_schedule (length (partitions_of ?m ops)) (repo_schedule ops)"
    by (auto simp: some_schedule_def repo_schedule_def distinct_map inj_on_def)
  have "Timeout \<in> set (repo_schedule ops) \<longleftrightarrow> ops = []" by (auto simp: repo_schedule_def)
  with checkOperations_verdict [OF time_sort_sorts kv1.state_equality_axioms k(1) s
      repo_check_runs [OF assms, unfolded r]] show ?thesis
    unfolding r fst_conv k(3) [symmetric] by blast
qed

interpretation repo: linearizability_checker repo_check whole_store1
  by unfold_locales (use repo_check_verdict in blast)+

section \<open>The verdict of the tests\<close>

text \<open>C10. For clients whose clerks and server behave as documented, however they interleave and whatever
  the network loses: once all calls have returned, the check of their log passes as long as no put was
  answered \<open>ErrNoKey\<close>; if one was, the test fails whenever the checker reaches a verdict.\<close>

theorem oplog_verdict:
  assumes "linearizability_checker check whole_store1"
    and "l_run ls (l_init t) = Some s" "l_busy s = Map.empty" "\<forall>k. version (l_store s k) < 2 ^ 64"
  shows "(\<not> list_ex refused_put (log_of s) \<longrightarrow>
      (\<exists>out g'. checkPorcupine check vis enabled opened fin (l_oplog s) g = Some (False, out, g'))) \<and>
    (list_ex refused_put (log_of s) \<and> fst (check (log_of s)) \<noteq> Unknown \<longrightarrow>
      (\<exists>out g'. checkPorcupine check vis enabled opened fin (l_oplog s) g = Some (True, out, g')))"
proof -
  note lin = oplog_linearizable [OF assms(2,3)] and log = oplog_timed [OF assms(2)]
  have "in_range s" using assms(4) by (simp add: in_range_def)
  note lin = lin [OF this]
  show ?thesis
    using linearizability_checker.passes [OF assms(1), of "\<lparr>operations = log_of s\<rparr>"]
      linearizability_checker.fails [OF assms(1), of "\<lparr>operations = log_of s\<rparr>"] lin log by simp
qed

text \<open>Client 0 puts and loses the reply, client 1 reads the value and puts over it, client 0 then gets
  \<open>ErrMaybe\<close>; the second run adds a put of a version that a missing key does not have.\<close>

definition maybe_run :: "l_label list" where
  "maybe_run =
     [LInvoke 0 (LPut ''x'' ''a'' 0), LTick 1, LAttempt 0 ReplyLost, LInvoke 1 (LGet ''x''), LTick 1,
      LAttempt 1 Delivered, LInvoke 1 (LPut ''x'' ''b'' 1), LTick 2, LAttempt 1 Delivered,
      LAttempt 0 RequestLost, LTick 1, LAttempt 0 Delivered]"

definition nokey_run :: "l_label list" where
  "nokey_run = maybe_run @ [LInvoke 2 (LPut ''y'' ''c'' 7), LAttempt 2 Delivered]"

definition l_end :: "l_label list \<Rightarrow> l_test" where
  "l_end ls = the (l_run ls (l_init 0))"

lemma l_end_run: "l_run maybe_run (l_init 0) = Some (l_end maybe_run)" "l_run nokey_run (l_init 0) = Some (l_end nokey_run)"
proof -
  have "l_run maybe_run (l_init 0) \<noteq> None" "l_run nokey_run (l_init 0) \<noteq> None" by code_simp+
  then show "l_run maybe_run (l_init 0) = Some (l_end maybe_run)" "l_run nokey_run (l_init 0) = Some (l_end nokey_run)"
    by (auto simp: l_end_def)
qed

definition start_globals :: globals where
  "start_globals = \<lparr>annotation = mkAnnotation, finfo = None\<rparr>"

lemmas run_simps = l_end_def maybe_run_def nokey_run_def l_init_def server_put_def Test_Get_returned_def
  Test_Put_returned_def clerk_err_def fun_eq_iff

lemma l_end_ok:
  "l_busy (l_end maybe_run) = Map.empty" "\<forall>k. version (l_store (l_end maybe_run) k) < 2 ^ 64"
  "l_busy (l_end nokey_run) = Map.empty" "\<forall>k. version (l_store (l_end nokey_run) k) < 2 ^ 64"
  by (simp_all add: run_simps)

theorem oplog_verdict_witness:
  "map (\<lambda>x. out_Err1 (out_of1 (Output x))) (log_of (l_end nokey_run)) = [''OK'', ''OK'', ''ErrMaybe'', ''ErrNoKey''] \<and>
   (\<exists>out g'. checkPorcupine repo_check (\<lambda>_ _. True) ''never'' True (\<lambda>_ g. ([], g)) (l_oplog (l_end maybe_run)) start_globals =
      Some (False, out, g')) \<and>
   (\<exists>out g'. checkPorcupine repo_check (\<lambda>_ _. True) ''never'' True (\<lambda>_ g. ([], g)) (l_oplog (l_end nokey_run)) start_globals =
      Some (True, out, g'))"
proof (intro conjI)
  show log: "map (\<lambda>x. out_Err1 (out_of1 (Output x))) (log_of (l_end nokey_run)) = [''OK'', ''OK'', ''ErrMaybe'', ''ErrNoKey'']"
    by code_simp
  have "\<not> list_ex refused_put (log_of (l_end maybe_run))" by code_simp
  then show "\<exists>out g'. checkPorcupine repo_check (\<lambda>_ _. True) ''never'' True (\<lambda>_ g. ([], g)) (l_oplog (l_end maybe_run)) start_globals =
      Some (False, out, g')"
    using oplog_verdict [OF repo.linearizability_checker_axioms l_end_run(1) l_end_ok(1,2)] by simp
  have "list_ex refused_put (log_of (l_end nokey_run))" by code_simp
  moreover have "log_of (l_end nokey_run) \<noteq> []" using log by auto
  then have "fst (repo_check (log_of (l_end nokey_run))) \<noteq> Unknown"
    using repo_check_verdict oplog_timed [OF l_end_run(2)] by blast
  ultimately show "\<exists>out g'. checkPorcupine repo_check (\<lambda>_ _. True) ''never'' True (\<lambda>_ g. ([], g)) (l_oplog (l_end nokey_run)) start_globals =
      Some (True, out, g')"
    using oplog_verdict [OF repo.linearizability_checker_axioms l_end_run(2) l_end_ok(3,4)] by simp
qed

end
