(* ===== verification/Test_Config.thy ===== *)
theory Test_Config
  imports Tester Annotations
begin

text \<open>
  The configuration of a test (\<open>tester1/config.go\<close>) and the registry of server groups and of clients that it
  embeds (\<open>Groups\<close> of \<open>tester1/group.go\<close>, \<open>Clnts\<close> of \<open>tester1/clnts.go\<close>).

  The registry maps group numbers to groups; calling a method of a group that is not registered is a nil
  dereference, \<open>None\<close>.  The random names of the ends and the addresses of the server objects that a new
  group draws are an argument, as are times, in nanoseconds; \<open>t.Failed\<close> and \<open>t.Fatal\<close> are a flag and an
  error value.  The program, its arguments and its process are not part of a group's state.
\<close>

section \<open>State\<close>

record tconfig =
  t_net :: Network
  t_grps :: "nat \<rightharpoonup> ServerGrp"
  t_clnts :: "nat \<rightharpoonup> Clnt"
  t_start :: int
  t_t0 :: int
  t_rpcs0 :: int
  t_ops :: "32 word"
  t_failed :: bool

definition GRP0 :: nat where
  "GRP0 = 0"

text \<open>What a new group of servers draws: the names of the ends made for each server, and for each
  server the names and the object that its start makes.\<close>

record fresh_grp =
  f_make :: "string list list"
  f_start :: "(string list \<times> nat) list"

section \<open>The registry of groups\<close>

definition MakeGroup :: "nat \<Rightarrow> fresh_grp \<Rightarrow> tconfig \<Rightarrow> tconfig option" where
  "MakeGroup g fr c = do {
     (rn, sg) \<leftarrow> makeSrvGrp g (f_make fr) (t_net c);
     Some (c\<lparr>t_net := rn, t_grps := (t_grps c)(g \<mapsto> sg)\<rparr>) }"

definition lookupGroup :: "nat \<Rightarrow> tconfig \<Rightarrow> ServerGrp option" where
  "lookupGroup g c = t_grps c g"

definition delete_group :: "nat \<Rightarrow> tconfig \<Rightarrow> tconfig" where
  "delete_group g c = c\<lparr>t_grps := (t_grps c)(g := None)\<rparr>"

text \<open>A method call on a registered group; the group is updated in place.\<close>

definition on_group ::
  "nat \<Rightarrow> (Network \<times> ServerGrp \<Rightarrow> (Network \<times> ServerGrp) option) \<Rightarrow> tconfig \<Rightarrow> tconfig option" where
  "on_group g f c = do {
     sg \<leftarrow> lookupGroup g c;
     (rn, sg) \<leftarrow> f (t_net c, sg);
     Some (c\<lparr>t_net := rn, t_grps := (t_grps c)(g \<mapsto> sg)\<rparr>) }"

text \<open>\<open>gs\<close> is the order in which Go visits the groups.\<close>

definition Groups_cleanup :: "nat list \<Rightarrow> tconfig \<Rightarrow> tconfig option" where
  "Groups_cleanup gs c = each (\<lambda>g. on_group g Shutdown) gs c"

fun remove_clients :: "nat list \<Rightarrow> Network \<times> (nat \<rightharpoonup> Clnt) \<Rightarrow> Network option" where
  "remove_clients [] (rn, clerks) = Some rn"
| "remove_clients (a # as) (rn, clerks) =
     (case clerks a of
        Some cl \<Rightarrow> do { rn \<leftarrow> Clnt_remove (rn, cl); remove_clients as (rn, clerks) }
      | None \<Rightarrow> remove_clients as (rn, clerks))"

definition Clnts_cleanup :: "nat list \<Rightarrow> tconfig \<Rightarrow> tconfig option" where
  "Clnts_cleanup as c = do {
     rn \<leftarrow> remove_clients as (t_net c, t_clnts c);
     Some (c\<lparr>t_net := rn, t_clnts := Map.empty\<rparr>) }"

section \<open>Operations of the configuration\<close>

definition SetReliable :: "bool \<Rightarrow> tconfig \<Rightarrow> tconfig" where
  "SetReliable b c = c\<lparr>t_net := Reliable b (t_net c)\<rparr>"

definition Config_IsReliable :: "tconfig \<Rightarrow> bool" where
  "Config_IsReliable c = IsReliable (t_net c)"

definition SetLongReordering :: "bool \<Rightarrow> tconfig \<Rightarrow> tconfig" where
  "SetLongReordering b c = c\<lparr>t_net := LongReordering b (t_net c)\<rparr>"

definition SetLongDelays :: "bool \<Rightarrow> tconfig \<Rightarrow> tconfig" where
  "SetLongDelays b c = c\<lparr>t_net := LongDelays b (t_net c)\<rparr>"

definition Group :: "nat \<Rightarrow> tconfig \<Rightarrow> ServerGrp option" where
  "Group g c = lookupGroup g c"

definition MakeGroupStart :: "nat \<Rightarrow> fresh_grp \<Rightarrow> tconfig \<Rightarrow> tconfig option" where
  "MakeGroupStart g fr c = do {
     c \<leftarrow> MakeGroup g fr c;
     on_group g (StartServers (enumerate 0 (f_start fr))) c }"

definition ExitGroup :: "nat \<Rightarrow> tconfig \<Rightarrow> tconfig option" where
  "ExitGroup g c = do {
     c \<leftarrow> on_group g Shutdown c;
     Some (delete_group g c) }"

definition MakeConfig :: "fresh_grp \<Rightarrow> bool \<Rightarrow> int \<Rightarrow> tconfig option" where
  "MakeConfig fr rel now = do {
     c \<leftarrow> MakeGroupStart GRP0 fr
       \<lparr>t_net = MakeNetwork, t_grps = Map.empty, t_clnts = Map.empty, t_start = 0, t_t0 = 0, t_rpcs0 = 0,
        t_ops = 0, t_failed = False\<rparr>;
     Some (SetReliable rel (c\<lparr>t_clnts := Map.empty, t_start := now\<rparr>)) }"

definition Config_Cleanup ::
  "nat list \<Rightarrow> nat list \<Rightarrow> (bool \<Rightarrow> string \<Rightarrow> AnnotationLog \<Rightarrow> Annotation list option \<times> AnnotationLog) \<Rightarrow>
   AnnotationLog \<Rightarrow> tconfig \<Rightarrow> (Annotation list option \<times> AnnotationLog \<times> tconfig) option" where
  "Config_Cleanup as gs cleanup_log an c = do {
     c \<leftarrow> Clnts_cleanup as c;
     c \<leftarrow> Groups_cleanup gs c;
     rn \<leftarrow> Cleanup (t_net c);
     Some (case (if t_failed c then cleanup_log True ''test failed'' an else cleanup_log False ''test passed'' an) of
             (vis, an) \<Rightarrow> (vis, an, c\<lparr>t_net := rn\<rparr>)) }"

definition RpcTotal :: "tconfig \<Rightarrow> int" where
  "RpcTotal c = GetTotalCount (t_net c)"

definition BytesTotal :: "tconfig \<Rightarrow> int" where
  "BytesTotal c = GetTotalBytes (t_net c)"

definition Begin :: "string \<Rightarrow> int \<Rightarrow> tconfig \<Rightarrow> string \<times> tconfig" where
  "Begin description now c =
     (let rel = (if \<not> IsReliable (t_net c) then ''unreliable'' else ''reliable'')
      in (description @ '' ('' @ rel @ '' network)...'',
          c\<lparr>t_t0 := now, t_rpcs0 := RpcTotal c, t_ops := 0\<rparr>))"

definition OpInc :: "tconfig \<Rightarrow> tconfig" where
  "OpInc c = c\<lparr>t_ops := t_ops c + 1\<rparr>"

datatype test_end = TimedOut | NilGroup | NoReport | Passed int nat int int

definition CheckTimeout :: "int \<Rightarrow> tconfig \<Rightarrow> bool" where
  "CheckTimeout now c \<longleftrightarrow> \<not> t_failed c \<and> now - t_start c > 120 * 10 ^ 9"

text \<open>\<open>End\<close>: the test fails for its time, or reports time, peers, RPCs and operations.\<close>

definition Config_End :: "int \<Rightarrow> tconfig \<Rightarrow> test_end" where
  "Config_End now c =
     (if CheckTimeout now c then TimedOut
      else if \<not> t_failed c then
        (case Group GRP0 c of
           None \<Rightarrow> NilGroup
         | Some sg \<Rightarrow> Passed (now - t_t0 c) (N sg) (RpcTotal c - t_rpcs0 c) (sint (t_ops c)))
      else NoReport)"

text \<open>The shuffle of \<open>random_handles\<close>; \<open>r i\<close> is \<open>rand.Intn(i + 1)\<close>.\<close>

fun shuffle_loop :: "(nat \<Rightarrow> nat) \<Rightarrow> nat list \<Rightarrow> 'a list \<Rightarrow> 'a list" where
  "shuffle_loop r [] sa = sa"
| "shuffle_loop r (i # is) sa = shuffle_loop r is (sa[i := sa ! r i, r i := sa ! i])"

definition random_handles :: "(nat \<Rightarrow> nat) \<Rightarrow> 'a list \<Rightarrow> 'a list" where
  "random_handles r kvh = shuffle_loop r [0..<length kvh] kvh"

end
