(* ===== verification/Test_Config_Properties.thy ===== *)
theory Test_Config_Properties
  imports Test_Config Tester_Correct
begin

text \<open>
  The life of a server group in the registry: starting a group with fresh names gives running servers
  that are all connected to each other, and leaving removes exactly its servers; the groups and ends of
  others are untouched.  The shuffle of a client's handles is a permutation.
\<close>

section \<open>Making a group\<close>

lemma make_servers_fresh:
  "distinct (concat nss) \<Longrightarrow> \<forall>e \<in> set (concat nss). ends rn e = None \<Longrightarrow>
   \<exists>rn'. make_servers g nss rn = Some (rn', map (\<lambda>ns. \<lparr>saved = None, endNames = ns, dc = None\<rparr>) nss) \<and>
     servers rn' = servers rn \<and> (\<forall>e. is_enabled rn' e = (e \<notin> set (concat nss) \<and> is_enabled rn e)) \<and>
     (\<forall>e. ends rn' e \<noteq> None \<longleftrightarrow> e \<in> set (concat nss) \<or> ends rn e \<noteq> None)"
proof (induction nss arbitrary: rn)
  case (Cons ns nss)
  obtain q where q: "make_ends g 0 ns rn = Some q" "servers q = servers rn"
    "\<forall>e. is_enabled q e = (e \<notin> set ns \<and> is_enabled rn e)" "\<forall>e. ends q e \<noteq> None \<longleftrightarrow> e \<in> set ns \<or> ends rn e \<noteq> None"
    using make_ends_fresh [of ns rn g 0] Cons.prems by auto
  have "\<forall>e \<in> set (concat nss). ends q e = None"
  proof
    fix e
    assume "e \<in> set (concat nss)"
    then have "e \<notin> set ns" "ends rn e = None" using Cons.prems by auto
    then show "ends q e = None" using q(4) by blast
  qed
  then obtain r where "make_servers g nss q = Some (r, map (\<lambda>ns. \<lparr>saved = None, endNames = ns, dc = None\<rparr>) nss)"
    "servers r = servers q" "\<forall>e. is_enabled r e = (e \<notin> set (concat nss) \<and> is_enabled q e)"
    "\<forall>e. ends r e \<noteq> None \<longleftrightarrow> e \<in> set (concat nss) \<or> ends q e \<noteq> None"
    using Cons.IH [of q] Cons.prems(1) by auto
  then show ?case using q by (auto simp: makeTServer_def)
qed simp

definition square :: "nat \<Rightarrow> string list list \<Rightarrow> bool" where
  "square n nss \<longleftrightarrow> length nss = n \<and> (\<forall>ns \<in> set nss. length ns = n)"

lemma square_nth: "square n nss \<Longrightarrow> i < n \<Longrightarrow> j < n \<Longrightarrow> nss ! i ! j \<in> set (concat nss)"
  unfolding square_def set_concat by (metis UN_I nth_mem)

lemma rows_disjoint:
  "distinct (concat nss) \<Longrightarrow> i < k \<Longrightarrow> k < length nss \<Longrightarrow> set (nss ! i) \<inter> set (nss ! k) = {}"
proof (induction nss arbitrary: i k)
  case (Cons ns nss)
  then obtain m where k: "k = Suc m" by (cases k) auto
  then show ?case
  proof (cases i)
    case 0
    have "nss ! m \<in> set nss" using Cons.prems(3) k by simp
    then have "set (nss ! m) \<subseteq> set (concat nss)" by auto
    then show ?thesis using Cons.prems(1) 0 k by auto
  qed (use Cons k in auto)
qed simp

lemma square_distinct:
  assumes "square n nss" "distinct (concat nss)" "i < n" "j < n" "i' < n" "j' < n" "nss ! i ! j = nss ! i' ! j'"
  shows "i = i' \<and> j = j'"
proof -
  have l: "nss ! i \<in> set nss" "length (nss ! i) = n" "length (nss ! i') = n" "length nss = n"
    using assms(1,3,5) by (auto simp: square_def)
  have "nss ! i ! j \<in> set (nss ! i)" "nss ! i' ! j' \<in> set (nss ! i')" using assms(4,6) l(2,3) by auto
  then have "i = i'"
    using rows_disjoint [OF assms(2), of i i'] rows_disjoint [OF assms(2), of i' i] assms(3,5,7) l(4)
    by (cases i i' rule: linorder_cases) auto
  moreover have "distinct (nss ! i)" using assms(2) l(1) by (auto simp: distinct_concat_iff)
  ultimately show ?thesis using assms(4,6,7) l(2) by (simp add: nth_eq_iff_index_eq)
qed

lemma makeSrvGrp_fresh:
  assumes "square n nss" "distinct (concat nss)" "\<forall>e \<in> set (concat nss). ends rn e = None"
  shows "\<exists>p. makeSrvGrp g nss rn = Some p \<and> group_ok n (snd p) \<and> gid (snd p) = g \<and>
    servernames (snd p) = map (ServerName g) [0..<n] \<and> connected (snd p) = replicate n False \<and>
    map endNames (srvs (snd p)) = nss \<and> (\<forall>i < n. saved (srvs (snd p) ! i) = None) \<and>
    servers (fst p) = servers rn \<and> (\<forall>e. is_enabled (fst p) e = (e \<notin> set (concat nss) \<and> is_enabled rn e)) \<and>
    (\<forall>e. ends (fst p) e \<noteq> None \<longleftrightarrow> e \<in> set (concat nss) \<or> ends rn e \<noteq> None)"
proof -
  obtain rn' where r: "make_servers g nss rn = Some (rn', map (\<lambda>ns. \<lparr>saved = None, endNames = ns, dc = None\<rparr>) nss)"
     "servers rn' = servers rn" "\<forall>e. is_enabled rn' e = (e \<notin> set (concat nss) \<and> is_enabled rn e)"
     "\<forall>e. ends rn' e \<noteq> None \<longleftrightarrow> e \<in> set (concat nss) \<or> ends rn e \<noteq> None"
    using make_servers_fresh [OF assms(2,3)] by blast
  let ?sg = "\<lparr>srvs = map (\<lambda>ns. \<lparr>saved = None, endNames = ns, dc = None\<rparr>) nss,
    servernames = map (ServerName g) [0..<n], gid = g, connected = replicate n False\<rparr>"
  have n: "length nss = n" "\<And>i. i < n \<Longrightarrow> length (nss ! i) = n" using assms(1) by (auto simp: square_def)
  have "makeSrvGrp g nss rn = Some (rn', ?sg)" by (simp add: makeSrvGrp_def r(1) n(1))
  moreover have "group_ok n ?sg"
    using n square_distinct [OF assms(1,2)] by (auto simp: group_ok_def edge_def)
  ultimately show ?thesis using r(2-4) n(1) by (intro exI [of _ "(rn', ?sg)"]) (simp add: comp_def)
qed

section \<open>Starting and connecting the servers\<close>

definition ends_exist :: "nat \<Rightarrow> Network \<times> ServerGrp \<Rightarrow> bool" where
  "ends_exist n p \<longleftrightarrow> (\<forall>a < n. \<forall>b < n. ends (fst p) (edge (snd p) a b) \<noteq> None)"

lemma start_one:
  assumes g: "group_ok n (snd p)" "ends_exist n p" and i: "i < n" and ns: "length ns = n" "distinct ns"
    "\<forall>e \<in> set ns. ends (fst p) e = None" and sv: "saved (srvs (snd p) ! i) = None"
  shows "\<exists>p'. StartServer (i, ns, a) p = Some p' \<and> group_ok n (snd p') \<and> ends_exist n p' \<and> gid (snd p') = gid (snd p) \<and>
    servernames (snd p') = servernames (snd p) \<and>
    servers (fst p') = (servers (fst p))(ServerName (gid (snd p)) i \<mapsto> a) \<and>
    (\<forall>e. ends (fst p') e \<noteq> None \<longleftrightarrow> e \<in> set ns \<or> ends (fst p) e \<noteq> None) \<and>
    (\<forall>e. is_enabled (fst p') e = (e \<notin> set ns \<and> is_enabled (fst p) e)) \<and>
    (\<forall>j. j \<noteq> i \<longrightarrow> srvs (snd p') ! j = srvs (snd p) ! j) \<and>
    endNames (srvs (snd p') ! i) = ns \<and> dc (srvs (snd p') ! i) = Some MakePersister"
proof -
  have e: "\<forall>a < n. \<forall>b < n. ends (fst p) (edge (snd p) a b) \<noteq> None" using g(2) by (simp add: ends_exist_def)
  obtain q where q: "StartServer (i, ns, a) p = Some q" "group_ok n (snd q)" "gid (snd q) = gid (snd p)"
    "servernames (snd q) = servernames (snd p)" "servers (fst q) = (servers (fst p))(ServerName (gid (snd p)) i \<mapsto> a)"
    "map endNames (srvs (snd q)) = (map endNames (srvs (snd p)))[i := ns]"
    "\<forall>e. ends (fst q) e \<noteq> None \<longleftrightarrow> e \<in> set ns \<or> ends (fst p) e \<noteq> None"
    "\<forall>e. is_enabled (fst q) e = (e \<notin> set ns \<and> is_enabled (fst p) e)"
    "\<forall>j. j \<noteq> i \<longrightarrow> srvs (snd q) ! j = srvs (snd p) ! j" "dc (srvs (snd q) ! i) = Some MakePersister"
    using start_matrix [OF g(1) i ns e, of a] sv by (auto simp del: not_None_eq)
  have len: "length (srvs (snd p)) = n" "length (srvs (snd q)) = n" using g(1) q(2) by (auto simp: group_ok_def)
  have en: "endNames (srvs (snd q) ! i) = ns"
    using arg_cong [OF q(6), of "\<lambda>xs. xs ! i"] len i by simp
  have "edge (snd q) x y = (if x = i then ns ! y else edge (snd p) x y)" for x y
    using en q(9) by (simp add: edge_def)
  then have "ends_exist n q" using e q(7) ns(1) i unfolding ends_exist_def by simp
  then show ?thesis using q en by blast
qed

lemma start_loop:
  assumes "group_ok n (snd p)" "ends_exist n p" "k + length fs \<le> n" "\<forall>f \<in> set fs. length (fst f) = n"
    "distinct (concat (map fst fs))" "\<forall>e \<in> set (concat (map fst fs)). ends (fst p) e = None"
    "\<forall>i. k \<le> i \<longrightarrow> i < n \<longrightarrow> saved (srvs (snd p) ! i) = None"
  shows "\<exists>p'. StartSrvs (enumerate k fs) p = Some p' \<and> group_ok n (snd p') \<and> gid (snd p') = gid (snd p) \<and>
    servernames (snd p') = servernames (snd p) \<and>
    servers (fst p') = (servers (fst p))(map (ServerName (gid (snd p))) [k..<k + length fs] [\<mapsto>] map snd fs) \<and>
    (\<forall>e. ends (fst p') e \<noteq> None \<longleftrightarrow> e \<in> set (concat (map fst fs)) \<or> ends (fst p) e \<noteq> None) \<and>
    (\<forall>e. is_enabled (fst p') e = (e \<notin> set (concat (map fst fs)) \<and> is_enabled (fst p) e)) \<and>
    (\<forall>i < k. srvs (snd p') ! i = srvs (snd p) ! i) \<and>
    (\<forall>i < length fs. endNames (srvs (snd p') ! (k + i)) = fst (fs ! i) \<and> dc (srvs (snd p') ! (k + i)) = Some MakePersister)"
  using assms
proof (induction fs arbitrary: k p)
  case (Cons f fs)
  obtain ns a where f: "f = (ns, a)" by force
  obtain q where q: "StartServer (k, ns, a) p = Some q" "group_ok n (snd q)" "ends_exist n q" "gid (snd q) = gid (snd p)"
    "servernames (snd q) = servernames (snd p)" "servers (fst q) = (servers (fst p))(ServerName (gid (snd p)) k \<mapsto> a)"
    "\<forall>e. ends (fst q) e \<noteq> None \<longleftrightarrow> e \<in> set ns \<or> ends (fst p) e \<noteq> None"
    "\<forall>e. is_enabled (fst q) e = (e \<notin> set ns \<and> is_enabled (fst p) e)"
    "\<forall>j. j \<noteq> k \<longrightarrow> srvs (snd q) ! j = srvs (snd p) ! j"
    "endNames (srvs (snd q) ! k) = ns" "dc (srvs (snd q) ! k) = Some MakePersister"
    using start_one [OF Cons.prems(1,2), of k ns a] Cons.prems(3-7) f by (auto simp del: not_None_eq)
  have fresh: "\<forall>e \<in> set (concat (map fst fs)). ends (fst q) e = None"
  proof
    fix e
    assume "e \<in> set (concat (map fst fs))"
    then have "e \<notin> set ns" "ends (fst p) e = None" using Cons.prems(5,6) f by auto
    then show "ends (fst q) e = None" using q(7) by blast
  qed
  have sv: "\<forall>i. Suc k \<le> i \<longrightarrow> i < n \<longrightarrow> saved (srvs (snd q) ! i) = None" using Cons.prems(7) q(9) by auto
  have pre: "Suc k + length fs \<le> n" "\<forall>f \<in> set fs. length (fst f) = n" "distinct (concat (map fst fs))"
    using Cons.prems(3-5) by auto
  obtain r where r: "StartSrvs (enumerate (Suc k) fs) q = Some r" "group_ok n (snd r)" "gid (snd r) = gid (snd q)"
    "servernames (snd r) = servernames (snd q)"
    "servers (fst r) = (servers (fst q))(map (ServerName (gid (snd q))) [Suc k..<Suc k + length fs] [\<mapsto>] map snd fs)"
    "\<forall>e. ends (fst r) e \<noteq> None \<longleftrightarrow> e \<in> set (concat (map fst fs)) \<or> ends (fst q) e \<noteq> None"
    "\<forall>e. is_enabled (fst r) e = (e \<notin> set (concat (map fst fs)) \<and> is_enabled (fst q) e)"
    "\<forall>i < Suc k. srvs (snd r) ! i = srvs (snd q) ! i"
    "\<forall>i < length fs. endNames (srvs (snd r) ! (Suc k + i)) = fst (fs ! i) \<and> dc (srvs (snd r) ! (Suc k + i)) = Some MakePersister"
    using Cons.IH [OF q(2,3) pre fresh sv] by blast
  have up: "[k..<k + length (f # fs)] = k # [Suc k..<Suc k + length fs]" by (simp add: upt_rec del: upt_Suc)
  have first: "endNames (srvs (snd r) ! k) = ns" "dc (srvs (snd r) ! k) = Some MakePersister"
    using r(8) q(10,11) by auto
  have each: "\<forall>i < length (f # fs). endNames (srvs (snd r) ! (k + i)) = fst ((f # fs) ! i) \<and>
      dc (srvs (snd r) ! (k + i)) = Some MakePersister"
    using r(9) first f by (auto simp: nth_Cons split: nat.split)
  have "StartSrvs (enumerate k (f # fs)) p = Some r" using q(1) r(1) f by (simp add: StartSrvs_def)
  then show ?case using r(2-8) q(4-9) each f unfolding up by (intro exI [of _ r]) auto
qed (simp add: StartSrvs_def)

lemma connect_loop:
  assumes "group_ok n (snd p)" "set xs \<subseteq> {..<n}" "D \<subseteq> {..<n}"
    and "\<forall>i \<in> D. online p i" "\<forall>i \<in> D. \<forall>j \<in> D. linked p i j"
  shows "\<exists>p'. each ConnectOne xs p = Some p' \<and> group_ok n (snd p') \<and> srvs (snd p') = srvs (snd p) \<and>
    group_frame n p p' \<and> servers (fst p') = servers (fst p) \<and>
    (\<forall>i \<in> set xs \<union> D. online p' i) \<and> (\<forall>i \<in> set xs \<union> D. \<forall>j \<in> set xs \<union> D. linked p' i j)"
  using assms
proof (induction xs arbitrary: p D)
  case (Cons x xs)
  have x: "x < n" "x \<in> set (all (snd p))" "set (all (snd p)) = {..<n}"
    using Cons.prems(1,2) by (auto simp: all_def group_ok_def)
  obtain q where q: "connect x (all (snd p)) p = Some q" "group_ok n (snd q)" "srvs (snd q) = srvs (snd p)"
    "group_frame n p q" "servers (fst q) = servers (fst p)" "\<forall>a < n. online q a = (a = x \<or> online p a)"
    "\<forall>a < n. \<forall>b < n. linked q a b =
       (linked p a b \<or> a = x \<and> b \<in> set (all (snd p)) \<and> online q b \<or> b = x \<and> a \<in> set (all (snd p)) \<and> online q a)"
    using connect_matrix [OF Cons.prems(1) x(1), of "all (snd p)"] x(3) by auto
  have on: "\<forall>i \<in> insert x D. online q i" using q(6) x(1) Cons.prems(3,4) by auto
  have ln: "\<forall>i \<in> insert x D. \<forall>j \<in> insert x D. linked q i j"
  proof (intro ballI)
    fix i j
    assume ij: "i \<in> insert x D" "j \<in> insert x D"
    then have "i < n" "j < n" using x(1) Cons.prems(3) by auto
    then show "linked q i j" using q(7) ij x on Cons.prems(5) by blast
  qed
  have sub: "set xs \<subseteq> {..<n}" "insert x D \<subseteq> {..<n}" using Cons.prems(2,3) x(1) by auto
  obtain r where r: "each ConnectOne xs q = Some r" "group_ok n (snd r)" "srvs (snd r) = srvs (snd q)"
    "group_frame n q r" "servers (fst r) = servers (fst q)" "\<forall>i \<in> set xs \<union> insert x D. online r i"
    "\<forall>i \<in> set xs \<union> insert x D. \<forall>j \<in> set xs \<union> insert x D. linked r i j"
    using Cons.IH [OF q(2) sub on ln] by blast
  have "each ConnectOne (x # xs) p = Some r" using q(1) r(1) by (cases p) (simp add: ConnectOne_def)
  then show ?case using r(2-7) q(3,5) group_frame_trans [OF q(4) r(4)] by (intro exI [of _ r]) auto
qed (simp add: group_frame_refl)

lemma shutdown_loop:
  assumes "group_ok n (snd p)" "set xs \<subseteq> {..<n}"
  shows "\<exists>p'. each ShutdownServer xs p = Some p' \<and> group_ok n (snd p') \<and> group_frame n p p' \<and>
    (\<forall>s. servers (fst p') s = (if s \<in> ServerName (gid (snd p)) ` set xs then None else servers (fst p) s)) \<and>
    (\<forall>a < n. \<forall>b < n. linked p' a b \<longleftrightarrow> linked p a b \<and> a \<notin> set xs \<and> b \<notin> set xs)"
  using assms
proof (induction xs arbitrary: p)
  case (Cons x xs)
  then have x: "x < n" "set xs \<subseteq> {..<n}" by auto
  obtain q where q: "ShutdownServer x p = Some q" "group_ok n (snd q)" "gid (snd q) = gid (snd p)"
    "servers (fst q) = (servers (fst p))(ServerName (gid (snd p)) x := None)" "group_frame n p q"
    "\<forall>a < n. \<forall>b < n. linked q a b \<longleftrightarrow> linked p a b \<and> a \<noteq> x \<and> b \<noteq> x"
    using shutdown_matrix [OF Cons.prems(1) x(1)] by blast
  obtain r where "each ShutdownServer xs q = Some r" "group_ok n (snd r)" "group_frame n q r"
    "\<forall>s. servers (fst r) s = (if s \<in> ServerName (gid (snd q)) ` set xs then None else servers (fst q) s)"
    "\<forall>a < n. \<forall>b < n. linked r a b \<longleftrightarrow> linked q a b \<and> a \<notin> set xs \<and> b \<notin> set xs"
    using Cons.IH [OF q(2) x(2)] by blast
  then show ?case using q group_frame_trans [OF q(5)] by (intro exI [of _ r]) auto
qed (simp add: group_frame_refl)

section \<open>Starting and leaving a group\<close>

text \<open>The names drawn for a group of \<open>n\<close> servers are as many as needed, distinct and new to the network.\<close>

definition fresh_for :: "nat \<Rightarrow> fresh_grp \<Rightarrow> Network \<Rightarrow> bool" where
  "fresh_for n fr rn \<longleftrightarrow> square n (f_make fr) \<and> square n (map fst (f_start fr)) \<and>
     distinct (concat (f_make fr @ map fst (f_start fr))) \<and>
     (\<forall>e \<in> set (concat (f_make fr @ map fst (f_start fr))). ends rn e = None)"

lemma map_upds_nth:
  "length xs = length ys \<Longrightarrow> distinct xs \<Longrightarrow> i < length xs \<Longrightarrow> (m(xs [\<mapsto>] ys)) (xs ! i) = Some (ys ! i)"
proof (induction xs ys arbitrary: m i rule: list_induct2)
  case (Cons x xs y ys)
  then show ?case by (cases i) auto
qed simp

lemma ServerName_inj [simp]: "ServerName g i = ServerName h j \<longleftrightarrow> g = h \<and> i = j"
proof
  have d: "CHR ''-'' \<notin> set (itoa k)" for k
    using itoa_digits [of "CHR ''-''" k] by auto
  assume "ServerName g i = ServerName h j"
  then have "itoa g @ CHR ''-'' # itoa i = itoa h @ CHR ''-'' # itoa j" by (simp add: ServerName_def)
  then show "g = h \<and> i = j" by (simp add: append_Cons_eq_iff [OF d d])
qed simp

lemma MakeGroupStart_running:
  assumes fr: "fresh_for n fr (t_net c)"
  shows "\<exists>c' sg. MakeGroupStart g fr c = Some c' \<and> t_grps c' = (t_grps c)(g \<mapsto> sg) \<and> group_ok n sg \<and> gid sg = g \<and>
    SrvNames sg = map (ServerName g) [0..<n] \<and> t_clnts c' = t_clnts c \<and>
    (\<forall>i < n. online (t_net c', sg) i \<and> dc (srvs sg ! i) = Some MakePersister) \<and>
    (\<forall>i < n. \<forall>j < n. linked (t_net c', sg) i j) \<and>
    servers (t_net c') = (servers (t_net c))(SrvNames sg [\<mapsto>] map snd (f_start fr)) \<and>
    (\<forall>e. own_end n sg e \<longrightarrow> ends (t_net c) e = None \<and> e \<in> set (concat (map fst (f_start fr)))) \<and>
    (\<forall>e. ends (t_net c) e \<noteq> None \<longrightarrow> is_enabled (t_net c') e = is_enabled (t_net c) e) \<and>
    (\<forall>e. ends (t_net c') e \<noteq> None \<longleftrightarrow> e \<in> set (concat (f_make fr @ map fst (f_start fr))) \<or> ends (t_net c) e \<noteq> None)"
proof -
  let ?mk = "concat (f_make fr)" and ?st = "concat (map fst (f_start fr))"
  have sq: "square n (f_make fr)" "square n (map fst (f_start fr))" "distinct ?mk" "distinct ?st" "set ?mk \<inter> set ?st = {}"
    and new: "\<forall>e \<in> set ?mk. ends (t_net c) e = None" "\<forall>e \<in> set ?st. ends (t_net c) e = None"
    using fr by (auto simp: fresh_for_def)
  have len: "length (f_start fr) = n" "\<forall>f \<in> set (f_start fr). length (fst f) = n"
    using sq(2) by (auto simp: square_def)
  obtain p where p: "makeSrvGrp g (f_make fr) (t_net c) = Some p" "group_ok n (snd p)" "gid (snd p) = g"
    "servernames (snd p) = map (ServerName g) [0..<n]" "map endNames (srvs (snd p)) = f_make fr"
    "\<forall>i < n. saved (srvs (snd p) ! i) = None" "servers (fst p) = servers (t_net c)"
    "\<forall>e. is_enabled (fst p) e = (e \<notin> set ?mk \<and> is_enabled (t_net c) e)"
    "\<forall>e. ends (fst p) e \<noteq> None \<longleftrightarrow> e \<in> set ?mk \<or> ends (t_net c) e \<noteq> None"
    using makeSrvGrp_fresh [OF sq(1,3) new(1), of g] by blast
  have "edge (snd p) a b = f_make fr ! a ! b" if "a < n" for a b
    using p(2) that by (simp add: edge_def p(5) [symmetric] group_ok_def)
  then have ex: "ends_exist n p" using p(9) square_nth [OF sq(1)] unfolding ends_exist_def by simp
  have new2: "\<forall>e \<in> set ?st. ends (fst p) e = None" using new(2) sq(5) p(9) by blast
  obtain q where q: "StartSrvs (enumerate 0 (f_start fr)) p = Some q" "group_ok n (snd q)" "gid (snd q) = g"
    "servernames (snd q) = servernames (snd p)"
    "servers (fst q) = (servers (fst p))(map (ServerName g) [0..<n] [\<mapsto>] map snd (f_start fr))"
    "\<forall>e. ends (fst q) e \<noteq> None \<longleftrightarrow> e \<in> set ?st \<or> ends (fst p) e \<noteq> None"
    "\<forall>e. is_enabled (fst q) e = (e \<notin> set ?st \<and> is_enabled (fst p) e)"
    "\<forall>i < n. endNames (srvs (snd q) ! i) = fst (f_start fr ! i) \<and> dc (srvs (snd q) ! i) = Some MakePersister"
    using start_loop [OF p(2) ex _ len(2) sq(4) new2, of 0] len(1) p(3,6) by auto
  have own: "e \<in> set ?st" if "own_end n (snd q) e" for e
    using that q(8) square_nth [OF sq(2)] len(1) by (force simp: own_end_def edge_def)
  have all: "set (all (snd q)) = {..<n}" using q(2) by (auto simp: all_def group_ok_def)
  obtain r where r: "each ConnectOne (all (snd q)) q = Some r" "group_ok n (snd r)" "srvs (snd r) = srvs (snd q)"
    "group_frame n q r" "servers (fst r) = servers (fst q)" "\<forall>i < n. online r i" "\<forall>i < n. \<forall>j < n. linked r i j"
    using connect_loop [OF q(2), of "all (snd q)" "{}"] all by auto
  have fr': "gid (snd r) = g" "servernames (snd r) = map (ServerName g) [0..<n]" "ends (fst r) = ends (fst q)"
    "\<And>e. own_end n (snd r) e \<Longrightarrow> e \<in> set ?st" "\<And>e. e \<notin> set ?st \<Longrightarrow> is_enabled (fst r) e = is_enabled (fst q) e"
    using r(4) q(3,4) p(4) own unfolding group_frame_def by metis+
  let ?c = "c\<lparr>t_net := fst r, t_grps := (t_grps c)(g \<mapsto> snd r)\<rparr>"
  have "MakeGroupStart g fr c = Some ?c"
    using p(1) q(1) r(1)
    by (cases p; cases q; cases r) (simp add: MakeGroupStart_def MakeGroup_def on_group_def lookupGroup_def StartServers_def ConnectAll_def)
  moreover have "is_enabled (fst r) e = is_enabled (t_net c) e" if "ends (t_net c) e \<noteq> None" for e
    using that new fr'(5) q(7) p(8) by metis
  moreover have "ends (fst r) e \<noteq> None \<longleftrightarrow> e \<in> set (concat (f_make fr @ map fst (f_start fr))) \<or> ends (t_net c) e \<noteq> None" for e
    unfolding fr'(3) q(6) [rule_format] p(9) [rule_format] by auto
  moreover have "ends (t_net c) e = None" if "own_end n (snd r) e" for e using fr'(4) [OF that] new(2) by blast
  ultimately show ?thesis
    using r(2,3,5-7) q(5,8) p(7) fr'(1,2,4)
    by (intro exI [of _ ?c] exI [of _ "snd r"]) (simp add: SrvNames_def)
qed

lemma ExitGroup_leaves:
  assumes g: "t_grps c g = Some sg" "group_ok n sg"
  shows "\<exists>c'. ExitGroup g c = Some c' \<and> t_grps c' = (t_grps c)(g := None) \<and> t_clnts c' = t_clnts c \<and>
    (\<forall>s. servers (t_net c') s = (if s \<in> ServerName (gid sg) ` {..<n} then None else servers (t_net c) s)) \<and>
    (\<forall>i < n. \<forall>j < n. \<not> is_enabled (t_net c') (edge sg i j)) \<and> ends (t_net c') = ends (t_net c) \<and>
    (\<forall>e. \<not> own_end n sg e \<longrightarrow> is_enabled (t_net c') e = is_enabled (t_net c) e)"
proof -
  have all: "set (all sg) = {..<n}" using g(2) by (auto simp: all_def group_ok_def)
  obtain p where p: "each ShutdownServer (all sg) (t_net c, sg) = Some p" "group_frame n (t_net c, sg) p"
    "\<forall>s. servers (fst p) s = (if s \<in> ServerName (gid sg) ` {..<n} then None else servers (t_net c) s)"
    "\<forall>a < n. \<forall>b < n. \<not> linked p a b"
    using shutdown_loop [of n "(t_net c, sg)" "all sg"] g(2) all by auto
  let ?c = "c\<lparr>t_net := fst p, t_grps := (t_grps c)(g := None)\<rparr>"
  have "ExitGroup g c = Some ?c"
    using p(1) g(1) by (cases p) (simp add: ExitGroup_def on_group_def lookupGroup_def delete_group_def Shutdown_def Kill_def)
  moreover have "\<not> is_enabled (fst p) (edge sg i j)" if "i < n" "j < n" for i j
  proof -
    have "own_end n (snd p) (edge sg i j)" using p(2) that by (auto simp: group_frame_def own_end_def)
    then show ?thesis using p(4) by (auto simp: own_end_def linked_def)
  qed
  ultimately show ?thesis using p(2,3) by (intro exI [of _ ?c]) (simp add: group_frame_def)
qed

section \<open>The life of a group\<close>

definition net_names :: "nat \<Rightarrow> string \<Rightarrow> string list" where
  "net_names n p = map (\<lambda>j. p @ ''-'' @ itoa j) [0..<n]"

definition fresh3 :: fresh_grp where
  "fresh3 = \<lparr>f_make = map (net_names 3) [''a'', ''b'', ''c''],
     f_start = [(net_names 3 ''d'', 10), (net_names 3 ''e'', 11), (net_names 3 ''f'', 12)]\<rparr>"

definition empty_config :: tconfig where
  "empty_config = \<lparr>t_net = MakeNetwork, t_grps = Map.empty, t_clnts = Map.empty, t_start = 0, t_t0 = 0, t_rpcs0 = 0,
     t_ops = 0, t_failed = False\<rparr>"

lemma fresh3_ok: "fresh_for 3 fresh3 (t_net empty_config)"
proof -
  have "square 3 (f_make fresh3)" "square 3 (map fst (f_start fresh3))" by (simp_all add: square_def fresh3_def net_names_def)
  moreover have "distinct (concat (f_make fresh3 @ map fst (f_start fresh3)))" by code_simp
  ultimately show ?thesis by (simp add: fresh_for_def empty_config_def MakeNetwork_def)
qed

text \<open>C16. A group that is started with fresh names is registered with its \<open>n\<close> servers running from an empty state,
  every server on the network under its own name and every end between two of them enabled; when the
  group exits, it is gone from the registry, none of its servers is on the network and none of its ends
  is enabled.  All the while the other groups, the servers with other names and the ends that existed before are as
  they were.\<close>

theorem group_lifecycle:
  assumes "fresh_for n fr (t_net c)"
  shows "\<exists>c1 sg c2. MakeGroupStart g fr c = Some c1 \<and> ExitGroup g c1 = Some c2 \<and>
    Group g c1 = Some sg \<and> SrvNames sg = map (ServerName g) [0..<n] \<and>
    (\<forall>i < n. dc (srvs sg ! i) = Some MakePersister \<and> servers (t_net c1) (ServerName g i) = Some (snd (f_start fr ! i))) \<and>
    (\<forall>i < n. \<forall>j < n. is_enabled (t_net c1) (endNames (srvs sg ! i) ! j)) \<and>
    Group g c2 = None \<and> (\<forall>i < n. servers (t_net c2) (ServerName g i) = None) \<and>
    (\<forall>i < n. \<forall>j < n. \<not> is_enabled (t_net c2) (endNames (srvs sg ! i) ! j)) \<and>
    (\<forall>d \<in> {c1, c2}. (\<forall>h. h \<noteq> g \<longrightarrow> Group h d = Group h c) \<and>
       (\<forall>s. s \<notin> set (SrvNames sg) \<longrightarrow> servers (t_net d) s = servers (t_net c) s) \<and>
       (\<forall>e. ends (t_net c) e \<noteq> None \<longrightarrow> is_enabled (t_net d) e = is_enabled (t_net c) e))"
proof -
  obtain c1 sg where c1: "MakeGroupStart g fr c = Some c1" "t_grps c1 = (t_grps c)(g \<mapsto> sg)" "group_ok n sg" "gid sg = g"
    "SrvNames sg = map (ServerName g) [0..<n]" "\<forall>i < n. dc (srvs sg ! i) = Some MakePersister"
    "\<forall>i < n. \<forall>j < n. linked (t_net c1, sg) i j"
    "servers (t_net c1) = (servers (t_net c))(SrvNames sg [\<mapsto>] map snd (f_start fr))"
    "\<forall>e. own_end n sg e \<longrightarrow> ends (t_net c) e = None"
    "\<forall>e. ends (t_net c) e \<noteq> None \<longrightarrow> is_enabled (t_net c1) e = is_enabled (t_net c) e"
    using MakeGroupStart_running [OF assms, of g] by blast
  have grp: "t_grps c1 g = Some sg" using c1(2) by simp
  obtain c2 where c2: "ExitGroup g c1 = Some c2" "t_grps c2 = (t_grps c1)(g := None)"
    "\<forall>s. servers (t_net c2) s = (if s \<in> ServerName g ` {..<n} then None else servers (t_net c1) s)"
    "\<forall>i < n. \<forall>j < n. \<not> is_enabled (t_net c2) (edge sg i j)"
    "\<forall>e. \<not> own_end n sg e \<longrightarrow> is_enabled (t_net c2) e = is_enabled (t_net c1) e"
    using ExitGroup_leaves [OF grp c1(3)] c1(4) by blast
  have len: "length (f_start fr) = n" using assms by (auto simp: fresh_for_def square_def)
  have names: "set (SrvNames sg) = ServerName g ` {..<n}" using c1(5) by (simp add: atLeast0LessThan)
  have run: "servers (t_net c1) (ServerName g i) = Some (snd (f_start fr ! i))" if "i < n" for i
    using that len c1(5) map_upds_nth [of "SrvNames sg" "map snd (f_start fr)" i "servers (t_net c)"]
    by (simp add: c1(8) distinct_map inj_on_def)
  have other: "servers (t_net c1) s = servers (t_net c) s" if "s \<notin> set (SrvNames sg)" for s
    using that by (simp add: c1(8))
  have gone: "servers (t_net c2) (ServerName g i) = None" if "i < n" for i using that c2(3) by simp
  have other2: "servers (t_net c2) s = servers (t_net c) s" if "s \<notin> set (SrvNames sg)" for s
    using that c2(3) other names by simp
  have keep: "is_enabled (t_net c2) e = is_enabled (t_net c) e" if "ends (t_net c) e \<noteq> None" for e
    using that c1(9,10) c2(5) by metis
  show ?thesis
    using c1(1,2,5,6,7,10) c2(1,2,4) run other gone other2 keep
    by (intro exI [of _ c1] exI [of _ sg] exI [of _ c2]) (simp add: Group_def lookupGroup_def linked_def edge_def)
qed

theorem group_lifecycle_witness:
  "\<exists>c1 sg. MakeGroupStart 7 fresh3 empty_config = Some c1 \<and> Group 7 c1 = Some sg \<and>
     SrvNames sg = [''server-7-0'', ''server-7-1'', ''server-7-2''] \<and>
     servers (t_net c1) ''server-7-2'' = Some 12 \<and> is_enabled (t_net c1) (endNames (srvs sg ! 0) ! 2)"
proof -
  have n: "map (ServerName 7) [0..<3] = [''server-7-0'', ''server-7-1'', ''server-7-2'']" by code_simp
  have n2: "ServerName 7 2 = ''server-7-2''" by code_simp
  have l: "(2 :: nat) < 3" "(0 :: nat) < 3" by simp_all
  have a: "snd (f_start fresh3 ! 2) = 12" by (simp add: fresh3_def)
  show ?thesis using group_lifecycle [OF fresh3_ok, of 7] l n n2 a by metis
qed

section \<open>The shuffle\<close>

lemma mset_swap_at:
  assumes "i < length xs" "j < length xs"
  shows "mset (xs[i := xs ! j, j := xs ! i]) = mset xs"
  using mset_swap [OF assms(2,1)] assms by (cases "i = j") (simp_all add: list_update_swap)

lemma shuffle_mset:
  "\<forall>i \<in> set is. i < length sa \<and> r i < length sa \<Longrightarrow> mset (shuffle_loop r is sa) = mset sa"
  by (induction "is" arbitrary: sa) (auto simp: mset_swap_at)

lemma random_handles_permutes: "(\<And>i. r i \<le> i) \<Longrightarrow> mset (random_handles r kvh) = mset kvh"
  unfolding random_handles_def by (rule shuffle_mset) (auto intro: le_less_trans [rotated])

end
