(* ===== verification/Shard_Driver.thy ===== *)
theory Shard_Driver
  imports Shardcfg Test_Config
begin

text \<open>
  The test driver of the sharded service (\<open>shardkv1/test.go\<close>): group numbers, setting the service up, groups
  that join and leave, and the checks on a group that is shut down and on recovery.

  The shard controller is a skeleton in the repository; it is a parameter, a state with the two functions
  \<open>query\<close> (the current configuration) and \<open>change\<close> (\<open>ChangeConfigTo\<close>).  The comment of \<open>ChangeConfigTo\<close> lets
  a controller be superseded by another one while it changes the configuration; \<open>join\<close> and \<open>leave\<close> are
  translated for any \<open>change\<close>, but the properties are about a controller that is not superseded
  (\<open>obeys\<close>), as in the tests that run a single one.  \<open>visit\<close> and \<open>order\<close> are the orders in which Go
  visits maps, and \<open>fr g\<close> is what the start of group \<open>g\<close> draws.  \<open>Panics\<close> is \<open>log.Fatalf\<close> or a nil
  dereference, \<open>None\<close> a call that does not return.
\<close>

section \<open>State\<close>

definition NSRV :: nat where
  "NSRV = 3"

definition Gid1 :: nat where
  "Gid1 = 1"

record 'k shard_test =
  s_cfg :: tconfig
  s_sck :: 'k
  s_ngid :: nat

definition newGid :: "'k shard_test \<Rightarrow> nat \<times> 'k shard_test" where
  "newGid t = (s_ngid t, t\<lparr>s_ngid := s_ngid t + 1\<rparr>)"

fun groups :: "nat \<Rightarrow> 'k shard_test \<Rightarrow> nat list \<times> 'k shard_test" where
  "groups 0 t = ([], t)"
| "groups (Suc n) t =
     (case newGid t of (g, t) \<Rightarrow> case groups n t of (gs, t) \<Rightarrow> (g # gs, t))"

text \<open>Starting a group and reading its server names.\<close>

definition start_group :: "nat \<Rightarrow> fresh_grp \<Rightarrow> tconfig \<Rightarrow> (tconfig \<times> string list) option" where
  "start_group g fr c = do {
     c \<leftarrow> MakeGroupStart g fr c;
     sg \<leftarrow> Group g c;
     Some (c, SrvNames sg) }"

text \<open>Every controller and every clerk comes with a client of its own; \<open>as\<close> are the addresses of new clients.\<close>

definition add_clients :: "nat list \<Rightarrow> tconfig \<Rightarrow> tconfig" where
  "add_clients as c = c\<lparr>t_clnts := fold MakeClient as (t_clnts c)\<rparr>"

definition setupKVService ::
  "(int list \<Rightarrow> int list) \<Rightarrow> (ShardConfig \<Rightarrow> 'k) \<Rightarrow> nat \<Rightarrow> fresh_grp \<Rightarrow> 'k shard_test \<Rightarrow> ('k shard_test \<times> nat) outcome option" where
  "setupKVService visit initConfig a fr t =
     (case start_group Gid1 fr (add_clients [a] (s_cfg t)) of
        None \<Rightarrow> Some Panics
      | Some (c, names) \<Rightarrow> do {
          r \<leftarrow> JoinBalance visit [(int Gid1, names)] MakeShardConfig;
          Some (case r of
                  Panics \<Rightarrow> Panics
                | Returns (scfg, _) \<Rightarrow> Returns (t\<lparr>s_cfg := c, s_sck := initConfig scfg\<rparr>, Gid1)) })"

section \<open>Joining and leaving\<close>

definition checkMember :: "('k \<Rightarrow> ShardConfig) \<Rightarrow> 'k \<Rightarrow> nat \<Rightarrow> bool" where
  "checkMember query sck g = IsMember (query sck) (int g)"

text \<open>Changing the configuration to one that a balanced join or leave has produced.\<close>

definition change_to ::
  "(ShardConfig \<Rightarrow> 'k \<Rightarrow> 'k) \<Rightarrow> 'k \<Rightarrow> (ShardConfig \<times> bool) outcome \<Rightarrow> 'k outcome" where
  "change_to change sck r =
     (case r of
        Panics \<Rightarrow> Panics
      | Returns (newcfg, b) \<Rightarrow> if \<not> b then Panics else Returns (change newcfg sck))"

definition join_sck ::
  "('k \<Rightarrow> ShardConfig) \<Rightarrow> (ShardConfig \<Rightarrow> 'k \<Rightarrow> 'k) \<Rightarrow> ((int \<times> string list) list \<Rightarrow> (int \<times> string list) list) \<Rightarrow>
   (int list \<Rightarrow> int list) \<Rightarrow> nat \<Rightarrow> string list \<Rightarrow> 'k \<Rightarrow> 'k outcome option" where
  "join_sck query change order visit g names sck = do {
     r \<leftarrow> JoinBalance visit [(int g, names)] (Copy order (query sck));
     Some (change_to change sck r) }"

fun joinGroups ::
  "('k \<Rightarrow> ShardConfig) \<Rightarrow> (ShardConfig \<Rightarrow> 'k \<Rightarrow> 'k) \<Rightarrow> ((int \<times> string list) list \<Rightarrow> (int \<times> string list) list) \<Rightarrow>
   (int list \<Rightarrow> int list) \<Rightarrow> (nat \<Rightarrow> fresh_grp) \<Rightarrow> nat list \<Rightarrow> 'k shard_test \<Rightarrow>
   ('k shard_test \<times> bool) outcome option" where
  "joinGroups query change order visit fr [] t = Some (Returns (t, True))"
| "joinGroups query change order visit fr (g # gs) t =
     (case start_group g (fr g) (s_cfg t) of
        None \<Rightarrow> Some Panics
      | Some (c, names) \<Rightarrow> do {
          r \<leftarrow> join_sck query change order visit g names (s_sck t);
          (case r of
             Panics \<Rightarrow> Some Panics
           | Returns sck \<Rightarrow>
               let t = t\<lparr>s_cfg := c, s_sck := sck\<rparr>
               in if \<not> checkMember query sck g then Some (Returns (t, False))
                  else joinGroups query change order visit fr gs t) })"

definition leave_sck ::
  "('k \<Rightarrow> ShardConfig) \<Rightarrow> (ShardConfig \<Rightarrow> 'k \<Rightarrow> 'k) \<Rightarrow> ((int \<times> string list) list \<Rightarrow> (int \<times> string list) list) \<Rightarrow>
   (int list \<Rightarrow> int list) \<Rightarrow> nat \<Rightarrow> 'k \<Rightarrow> 'k outcome option" where
  "leave_sck query change order visit g sck = do {
     r \<leftarrow> LeaveBalance visit [int g] (Copy order (query sck));
     Some (change_to change sck r) }"

fun leaveGroups ::
  "('k \<Rightarrow> ShardConfig) \<Rightarrow> (ShardConfig \<Rightarrow> 'k \<Rightarrow> 'k) \<Rightarrow> ((int \<times> string list) list \<Rightarrow> (int \<times> string list) list) \<Rightarrow>
   (int list \<Rightarrow> int list) \<Rightarrow> nat list \<Rightarrow> 'k shard_test \<Rightarrow> ('k shard_test \<times> bool) outcome option" where
  "leaveGroups query change order visit [] t = Some (Returns (t, True))"
| "leaveGroups query change order visit (g # gs) t = do {
     r \<leftarrow> leave_sck query change order visit g (s_sck t);
     (case r of
        Panics \<Rightarrow> Some Panics
      | Returns sck \<Rightarrow>
          if checkMember query sck g then Some (Returns (t\<lparr>s_sck := sck\<rparr>, False))
          else (case ExitGroup g (s_cfg t) of
                  None \<Rightarrow> Some Panics
                | Some c \<Rightarrow> leaveGroups query change order visit gs (t\<lparr>s_cfg := c, s_sck := sck\<rparr>))) }"

section \<open>Checks\<close>

datatype shard_verdict =
  Fine | WrongGet string string string | TooManyCompletions nat nat | NotRecovered int int | WrongRecovery nat | NoGroup

text \<open>\<open>gets\<close> are the gets that come back before two seconds pass without one, as the index of the key and
  the value; \<open>as\<close> are the clients of the new clerks, two for each key.\<close>

fun completions_loop :: "string list \<Rightarrow> string list \<Rightarrow> nat \<Rightarrow> (nat \<times> string) list \<Rightarrow> shard_verdict + nat" where
  "completions_loop ka va ndone [] = Inr ndone"
| "completions_loop ka va ndone ((i, v) # gets) =
     (if v \<noteq> va ! i then Inl (WrongGet (ka ! i) (va ! i) v)
      else completions_loop ka va (ndone + 1) gets)"

definition checkShutdownSharding ::
  "nat \<Rightarrow> string list \<Rightarrow> string list \<Rightarrow> nat list \<Rightarrow> (string list \<times> nat) list \<Rightarrow> (nat \<times> string) list \<Rightarrow> tconfig \<Rightarrow>
   shard_verdict \<times> tconfig" where
  "checkShutdownSharding down ka va as names gets c =
     (case map_option (add_clients as) (on_group down Shutdown c) of
        None \<Rightarrow> (NoGroup, c)
      | Some c \<Rightarrow>
          (case completions_loop ka va 0 gets of
             Inl e \<Rightarrow> (e, c)
           | Inr ndone \<Rightarrow>
               if ndone \<ge> length ka then (TooManyCompletions (length ka) down, c)
               else (case on_group down (StartServers (enumerate 0 names)) c of
                       None \<Rightarrow> (NoGroup, c)
                     | Some c \<Rightarrow> (Fine, c))))"

datatype ctrler_state = Idle | JOIN | LEAVE

text \<open>The check on the configuration that the second controller has recovered.\<close>

definition recovery_check :: "int \<Rightarrow> ctrler_state \<Rightarrow> nat \<Rightarrow> ShardConfig \<Rightarrow> shard_verdict" where
  "recovery_check num state ngid cfg =
     (if Num cfg \<le> num then NotRecovered num (Num cfg)
      else let present = IsMember cfg (int ngid)
           in if state = JOIN \<and> \<not> present \<or> state = LEAVE \<and> present then WrongRecovery ngid else Fine)"

end
