(* ===== verification/Shard_Driver_Properties.thy ===== *)
theory Shard_Driver_Properties
  imports Shard_Driver Shardcfg_Properties Test_Config_Properties
begin

text \<open>
  What the driver of the sharded tests observes of a controller that does what it is asked: groups that
  join become members as long as there are shards for them, groups that leave are gone, and the
  configuration passes the check of the tests all the while.
\<close>

section \<open>Configurations of the driver\<close>

text \<open>The servers of a group carry its number, which keeps the servers of different groups apart.\<close>

definition named :: "ShardConfig \<Rightarrow> bool" where
  "named c \<longleftrightarrow> (\<forall>(k, ss) \<in> set (Groups c). \<exists>h. k = int h \<and> set ss \<subseteq> range (ServerName h))"

definition config_ok :: "ShardConfig \<Rightarrow> bool" where
  "config_ok c \<longleftrightarrow> wf_config c \<and> named c \<and> balanced c \<and> (Groups c \<noteq> [] \<longrightarrow> all_assigned c)"

lemma Copy_simps:
  "Num (Copy order c) = Num c" "Shards (Copy order c) = Shards c" "Groups (Copy order c) = order (Groups c)"
proof -
  have "copy_groups acc gs = acc @ gs" for acc gs by (induction acc gs rule: copy_groups.induct) auto
  then show "Groups (Copy order c) = order (Groups c)" by (simp add: Copy_def)
qed (simp_all add: Copy_def)

lemma Copy_ok:
  assumes "visits order"
  shows "config_ok (Copy order c) = config_ok c" "length (Groups (Copy order c)) = length (Groups c)"
    "has_group (Copy order c) g = has_group c g"
proof -
  have m: "mset (order (Groups c)) = mset (Groups c)" using assms by (simp add: visits_def)
  have s: "set (order (Groups c)) = set (Groups c)" using assms by simp
  have d: "distinct (map fst (order (Groups c))) = distinct (map fst (Groups c))"
    using m by (metis mset_eq_imp_distinct_iff mset_map)
  have e: "order (Groups c) = [] \<longleftrightarrow> Groups c = []" using s by (metis set_empty)
  show "config_ok (Copy order c) = config_ok c"
    by (simp add: config_ok_def wf_config_def named_def balanced_def all_assigned_def load_def Copy_simps s d e)
  show "length (Groups (Copy order c)) = length (Groups c)" using m by (metis Copy_simps(3) size_mset)
  show "has_group (Copy order c) g = has_group c g" by (simp add: Copy_simps s)
qed

lemma config_ok_check:
  assumes "visits visit" "config_ok c"
  shows "CheckConfig visit c (map fst (Groups c)) = None"
  using assms by (auto simp: config_ok_def CheckConfig_None)

section \<open>One group\<close>

lemma join_one:
  assumes v: "visits visit" and c: "config_ok c" and g: "\<not> has_group c (int g)"
    and names: "names = map (ServerName g) [0..<n]"
  shows "\<exists>c'. JoinBalance visit [(int g, names)] c = Some (Returns (c', True)) \<and> config_ok c' \<and> Num c' = Num c + 1 \<and>
    Groups c' = Groups c @ [(int g, names)] \<and> (IsMember c' (int g) \<longleftrightarrow> length (Groups c) < NShards)"
proof -
  let ?d = "c\<lparr>Groups := Groups c @ [(int g, names)], Num := Num c + 1\<rparr>"
  have k: "wf_config c" "named c" "balanced c" "Groups c \<noteq> [] \<longrightarrow> all_assigned c" using c by (auto simp: config_ok_def)
  have "s \<notin> set names" if s: "(h, ss) \<in> set (Groups c)" "s \<in> set ss" for h ss s
  proof -
    obtain h' where "h = int h'" "set ss \<subseteq> range (ServerName h')" using k(2) s(1) by (auto simp: named_def)
    moreover have "h \<noteq> int g" using g s(1) by force
    ultimately show ?thesis using s(2) by (auto simp: names)
  qed
  then have "\<not> shares_server c names" by (auto simp: shares_server_def list_ex_iff)
  then have j: "Join [(int g, names)] c = Returns (?d, True)" using g by (simp add: Join_def)
  have d: "wf_config ?d" "Groups ?d \<noteq> []" "named ?d"
    using k(1,2) g by (auto simp: wf_config_def named_def names)
  obtain c' where c': "Rebalance visit ?d = Some c'" "Groups c' = Groups ?d" "Num c' = Num ?d" "wf_config c'" "all_assigned c'" "balanced c'"
    using Rebalance_groups [OF v d(2,1)] by blast
  have ok: "config_ok c'" using c' d(3) by (simp add: config_ok_def named_def)
  have "IsMember c' (int g) \<longleftrightarrow> length (Groups c) < NShards"
  proof (cases "length (Groups c) < NShards")
    case True
    then show ?thesis using balanced_members [OF c'(4-6), of "int g"] c'(2) by simp
  next
    case False
    then have a: "all_assigned c" using k(4) by (auto simp: NShards_def)
    have z: "load c (int g) = 0" using a g by (auto simp: load_def count_list_0_iff all_assigned_def)
    have "load ?d h \<le> 1" if "has_group ?d h" for h
      using that balanced_loads [OF k(1) a k(3), of h] False z by (auto simp: load_def)
    then have "balanced ?d" unfolding balanced_def by (meson le_add2 le_trans)
    moreover have "all_assigned ?d" using a by (auto simp: all_assigned_def)
    ultimately have "c' = ?d" using Rebalance_balanced [OF v d(1,2)] c'(1) by simp
    then show ?thesis using False z by (simp add: IsMember_iff load_def count_list_0_iff)
  qed
  then show ?thesis using j c' ok by (intro exI [of _ c']) (simp add: JoinBalance_def rebalanced_def)
qed

lemma leave_one:
  assumes v: "visits visit" and c: "config_ok c" and g: "has_group c (int g)" "g \<noteq> 0"
  shows "\<exists>c'. LeaveBalance visit [int g] c = Some (Returns (c', True)) \<and> config_ok c' \<and> Num c' = Num c + 1 \<and>
    Groups c' = filter (\<lambda>(k, _). k \<noteq> int g) (Groups c) \<and> \<not> IsMember c' (int g)"
proof -
  let ?d = "c\<lparr>Groups := filter (\<lambda>(k, _). k \<noteq> int g) (Groups c), Num := Num c + 1\<rparr>"
  have l: "Shardcfg.Leave [int g] c = Returns (?d, True)" using g(1) by (simp add: Shardcfg.Leave_def)
  have d: "wf_config ?d" "named ?d" using c by (auto simp: config_ok_def wf_config_def named_def distinct_map_filter)
  have "\<exists>c'. Rebalance visit ?d = Some c' \<and> config_ok c' \<and> Num c' = Num ?d \<and> Groups c' = Groups ?d \<and> \<not> IsMember c' (int g)"
  proof (cases "Groups ?d = []")
    case True
    let ?e = "?d\<lparr>Shards := replicate (length (Shards ?d)) 0\<rparr>"
    have "Rebalance visit ?d = Some ?e" using Rebalance_empty [OF True] .
    moreover have "config_ok ?e" using True d(1) by (simp add: config_ok_def wf_config_def named_def balanced_def)
    moreover have "\<not> IsMember ?e (int g)" using g(2) by (simp add: IsMember_iff)
    ultimately show ?thesis by auto
  next
    case False
    obtain c' where c': "Rebalance visit ?d = Some c'" "Groups c' = Groups ?d" "Num c' = Num ?d" "wf_config c'" "all_assigned c'" "balanced c'"
      using Rebalance_groups [OF v False d(1)] by blast
    then have "\<not> IsMember c' (int g)" by (auto simp: IsMember_iff all_assigned_def)
    then show ?thesis using c' d(2) by (auto simp: config_ok_def named_def)
  qed
  then show ?thesis using l by (auto simp: LeaveBalance_def rebalanced_def)
qed

section \<open>Several groups\<close>

definition drawn :: "fresh_grp \<Rightarrow> string set" where
  "drawn fr = set (concat (f_make fr @ map fst (f_start fr)))"

text \<open>The names that are drawn for a list of groups are new, and different for different groups.\<close>

definition draws_ok :: "nat \<Rightarrow> (nat \<Rightarrow> fresh_grp) \<Rightarrow> nat list \<Rightarrow> tconfig \<Rightarrow> bool" where
  "draws_ok n fr gs c \<longleftrightarrow> distinct gs \<and> (\<forall>g \<in> set gs. fresh_for n (fr g) (t_net c)) \<and>
     (\<forall>g \<in> set gs. \<forall>h \<in> set gs. g \<noteq> h \<longrightarrow> drawn (fr g) \<inter> drawn (fr h) = {})"

lemma start_group_ok:
  assumes "draws_ok n fr (g # gs) c"
  shows "\<exists>c' sg. start_group g (fr g) c = Some (c', map (ServerName g) [0..<n]) \<and> t_grps c' = (t_grps c)(g \<mapsto> sg) \<and>
    group_ok n sg \<and> gid sg = g \<and> draws_ok n fr gs c'"
proof -
  have f: "fresh_for n (fr g) (t_net c)" using assms by (simp add: draws_ok_def)
  obtain c' sg where c': "MakeGroupStart g (fr g) c = Some c'" "t_grps c' = (t_grps c)(g \<mapsto> sg)" "group_ok n sg" "gid sg = g"
    "SrvNames sg = map (ServerName g) [0..<n]"
    "\<forall>e. ends (t_net c') e \<noteq> None \<longleftrightarrow> e \<in> drawn (fr g) \<or> ends (t_net c) e \<noteq> None"
    using MakeGroupStart_running [OF f, of g] unfolding drawn_def by blast
  have "fresh_for n (fr h) (t_net c')" if h: "h \<in> set gs" for h
  proof -
    have "fresh_for n (fr h) (t_net c)" "drawn (fr g) \<inter> drawn (fr h) = {}" using h assms by (auto simp: draws_ok_def)
    then show ?thesis using c'(6) unfolding fresh_for_def drawn_def [symmetric] by blast
  qed
  then have "draws_ok n fr gs c'" using assms by (simp add: draws_ok_def)
  then show ?thesis using c' by (intro exI [of _ c'] exI [of _ sg]) (simp add: start_group_def Group_def lookupGroup_def)
qed

text \<open>The promise of a controller that no other one supersedes: after a change it reports the new
  configuration.\<close>

definition obeys :: "('k \<Rightarrow> ShardConfig) \<Rightarrow> (ShardConfig \<Rightarrow> 'k \<Rightarrow> 'k) \<Rightarrow> bool" where
  "obeys query change \<longleftrightarrow> (\<forall>cfg sck. Num cfg = Num (query sck) + 1 \<longrightarrow> query (change cfg sck) = cfg)"

text \<open>The groups \<open>gs\<close> have joined, each with one new configuration, and run.\<close>

definition joined :: "('k \<Rightarrow> ShardConfig) \<Rightarrow> nat \<Rightarrow> nat list \<Rightarrow> 'k shard_test \<Rightarrow> 'k shard_test \<Rightarrow> bool" where
  "joined query n gs t t' \<longleftrightarrow>
     Num (query (s_sck t')) = Num (query (s_sck t)) + int (length gs) \<and>
     length (Groups (query (s_sck t'))) = length (Groups (query (s_sck t))) + length gs \<and>
     (\<forall>k. has_group (query (s_sck t')) k \<longleftrightarrow> k \<in> int ` set gs \<or> has_group (query (s_sck t)) k) \<and>
     (\<forall>g \<in> set gs. \<exists>sg. Group g (s_cfg t') = Some sg \<and> group_ok n sg \<and> gid sg = g) \<and>
     (\<forall>h. h \<notin> set gs \<longrightarrow> Group h (s_cfg t') = Group h (s_cfg t))"

lemma joined_Nil: "joined query n [] t t"
  by (simp add: joined_def)

lemma joined_Cons:
  assumes "joined query n gs u t'" "joined query n [g] t u" "g \<notin> set gs"
  shows "joined query n (g # gs) t t'"
proof -
  have "Group g (s_cfg t') = Group g (s_cfg u)" using assms(1,3) by (simp add: joined_def)
  then have "\<exists>sg. Group g (s_cfg t') = Some sg \<and> group_ok n sg \<and> gid sg = g" using assms(2) by (simp add: joined_def)
  moreover have "Group h (s_cfg t') = Group h (s_cfg t)" if "h \<noteq> g" "h \<notin> set gs" for h
    using assms(1,2) that by (simp add: joined_def)
  ultimately show ?thesis using assms(1,2) by (auto simp: joined_def)
qed

lemma join_step:
  assumes v: "visits order" "visits visit" and q: "obeys query change"
    and t: "config_ok (query (s_sck t))" "\<not> has_group (query (s_sck t)) (int g)" "draws_ok n fr (g # gs) (s_cfg t)"
  shows "\<exists>u. joinGroups query change order visit fr (g # gs) t =
      (if checkMember query (s_sck u) g then joinGroups query change order visit fr gs u else Some (Returns (u, False))) \<and>
    config_ok (query (s_sck u)) \<and> draws_ok n fr gs (s_cfg u) \<and> joined query n [g] t u \<and>
    (checkMember query (s_sck u) g \<longleftrightarrow> length (Groups (query (s_sck t))) < NShards)"
proof -
  let ?c = "query (s_sck t)" and ?names = "map (ServerName g) [0..<n]"
  obtain c sg where c: "start_group g (fr g) (s_cfg t) = Some (c, ?names)" "t_grps c = (t_grps (s_cfg t))(g \<mapsto> sg)"
    "group_ok n sg" "gid sg = g" "draws_ok n fr gs c"
    using start_group_ok [OF t(3)] by blast
  have ok: "config_ok (Copy order ?c)" "\<not> has_group (Copy order ?c) (int g)"
    using t(1,2) by (simp_all only: Copy_ok [OF v(1)]) simp
  obtain d where d: "JoinBalance visit [(int g, ?names)] (Copy order ?c) = Some (Returns (d, True))" "config_ok d"
    "Num d = Num ?c + 1" "Groups d = order (Groups ?c) @ [(int g, ?names)]"
    "IsMember d (int g) \<longleftrightarrow> length (Groups ?c) < NShards"
    using join_one [OF v(2) ok refl, of n] by (auto simp: Copy_simps Copy_ok(2) [OF v(1), unfolded Copy_simps])
  let ?u = "t\<lparr>s_cfg := c, s_sck := change d (s_sck t)\<rparr>"
  have qd: "query (change d (s_sck t)) = d" using q d(3) by (simp add: obeys_def)
  have keys: "has_group d k \<longleftrightarrow> k = int g \<or> has_group ?c k" for k using d(4) v(1) by auto
  have len: "length (Groups d) = Suc (length (Groups ?c))"
    using d(4) Copy_ok(2) [OF v(1), of ?c] by (simp add: Copy_simps)
  have "joined query n [g] t ?u"
    unfolding joined_def using d(3) len keys c(2-4) by (simp add: qd Group_def lookupGroup_def)
  then show ?thesis
    using c(1,5) d by (intro exI [of _ ?u]) (simp add: join_sck_def change_to_def checkMember_def qd)
qed

lemma joinGroups_loop:
  assumes v: "visits order" "visits visit" and q: "obeys query change"
  shows "config_ok (query (s_sck t)) \<Longrightarrow> \<forall>g \<in> set gs. \<not> has_group (query (s_sck t)) (int g) \<Longrightarrow>
    draws_ok n fr gs (s_cfg t) \<Longrightarrow>
    \<exists>t' b. joinGroups query change order visit fr gs t = Some (Returns (t', b)) \<and> config_ok (query (s_sck t')) \<and>
      (b \<longleftrightarrow> gs = [] \<or> length (Groups (query (s_sck t))) + length gs \<le> NShards) \<and> (b \<longrightarrow> joined query n gs t t') \<and>
      (\<not> b \<longrightarrow> (\<exists>g \<in> set gs. has_group (query (s_sck t')) (int g) \<and> \<not> checkMember query (s_sck t') g))"
proof (induction gs arbitrary: t)
  case (Cons g gs)
  have g: "\<not> has_group (query (s_sck t)) (int g)" "g \<notin> set gs" using Cons.prems(2,3) by (auto simp: draws_ok_def)
  obtain u where u: "joinGroups query change order visit fr (g # gs) t =
      (if checkMember query (s_sck u) g then joinGroups query change order visit fr gs u else Some (Returns (u, False)))"
    "config_ok (query (s_sck u))" "draws_ok n fr gs (s_cfg u)" "joined query n [g] t u"
    "checkMember query (s_sck u) g \<longleftrightarrow> length (Groups (query (s_sck t))) < NShards"
    using join_step [OF v q Cons.prems(1) g(1) Cons.prems(3)] by blast
  have keys: "has_group (query (s_sck u)) k \<longleftrightarrow> k = int g \<or> has_group (query (s_sck t)) k"
    and len: "length (Groups (query (s_sck u))) = Suc (length (Groups (query (s_sck t))))" for k
    using u(4) by (simp_all add: joined_def)
  show ?case
  proof (cases "checkMember query (s_sck u) g")
    case False
    have "has_group (query (s_sck u)) (int g)" using keys by simp
    then show ?thesis using False u(1,2,5) by (intro exI [of _ u] exI [of _ False]) auto
  next
    case True
    have "\<forall>h \<in> set gs. \<not> has_group (query (s_sck u)) (int h)" using Cons.prems(2) g(2) keys by auto
    then obtain t' b where t': "joinGroups query change order visit fr gs u = Some (Returns (t', b))" "config_ok (query (s_sck t'))"
      "b \<longleftrightarrow> gs = [] \<or> length (Groups (query (s_sck u))) + length gs \<le> NShards" "b \<longrightarrow> joined query n gs u t'"
      "\<not> b \<longrightarrow> (\<exists>g \<in> set gs. has_group (query (s_sck t')) (int g) \<and> \<not> checkMember query (s_sck t') g)"
      using Cons.IH [OF u(2) _ u(3)] by blast
    have "b \<longrightarrow> joined query n (g # gs) t t'" using t'(4) joined_Cons [OF _ u(4) g(2)] by blast
    moreover have "b \<longleftrightarrow> g # gs = [] \<or> length (Groups (query (s_sck t))) + length (g # gs) \<le> NShards"
      using t'(3) True u(5) len by auto
    ultimately show ?thesis using True u(1) t'(1,2,5) by (intro exI [of _ t'] exI [of _ b]) auto
  qed
qed (auto simp: joined_Nil)

lemma leaveGroups_loop:
  assumes v: "visits order" "visits visit" and q: "obeys query change"
  shows "config_ok (query (s_sck t)) \<Longrightarrow> distinct gs \<Longrightarrow>
    \<forall>g \<in> set gs. g \<noteq> 0 \<and> has_group (query (s_sck t)) (int g) \<and> (\<exists>sg. Group g (s_cfg t) = Some sg \<and> group_ok n sg) \<Longrightarrow>
    \<exists>t'. leaveGroups query change order visit gs t = Some (Returns (t', True)) \<and> config_ok (query (s_sck t')) \<and>
      Num (query (s_sck t')) = Num (query (s_sck t)) + int (length gs) \<and>
      (\<forall>k. has_group (query (s_sck t')) k \<longleftrightarrow> has_group (query (s_sck t)) k \<and> k \<notin> int ` set gs) \<and>
      (\<forall>h. Group h (s_cfg t') = (if h \<in> set gs then None else Group h (s_cfg t)))"
proof (induction gs arbitrary: t)
  case (Cons g gs)
  let ?c = "query (s_sck t)"
  obtain sg where sg: "g \<noteq> 0" "has_group ?c (int g)" "Group g (s_cfg t) = Some sg" "group_ok n sg" "g \<notin> set gs"
    using Cons.prems(2,3) by auto
  obtain c where c: "ExitGroup g (s_cfg t) = Some c" "t_grps c = (t_grps (s_cfg t))(g := None)"
    using ExitGroup_leaves [OF _ sg(4), of "s_cfg t" g] sg(3) by (auto simp: Group_def lookupGroup_def)
  have ok: "config_ok (Copy order ?c)" "has_group (Copy order ?c) (int g)"
    using Cons.prems(1) sg(2) by (simp_all only: Copy_ok [OF v(1)])
  obtain d where d: "LeaveBalance visit [int g] (Copy order ?c) = Some (Returns (d, True))" "config_ok d" "Num d = Num ?c + 1"
    "Groups d = filter (\<lambda>(k, _). k \<noteq> int g) (order (Groups ?c))" "\<not> IsMember d (int g)"
    using leave_one [OF v(2) ok sg(1)] by (auto simp: Copy_simps)
  let ?u = "t\<lparr>s_cfg := c, s_sck := change d (s_sck t)\<rparr>"
  have qd: "query (change d (s_sck t)) = d" using q d(3) by (simp add: obeys_def)
  have keys: "has_group d k \<longleftrightarrow> has_group ?c k \<and> k \<noteq> int g" for k using d(4) v(1) by force
  have grp: "Group h c = (if h = g then None else Group h (s_cfg t))" for h using c(2) by (simp add: Group_def lookupGroup_def)
  have step: "leaveGroups query change order visit (g # gs) t = leaveGroups query change order visit gs ?u"
    by (simp add: leave_sck_def d(1) change_to_def checkMember_def qd d(5) c(1))
  have "\<forall>h \<in> set gs. h \<noteq> 0 \<and> has_group d (int h) \<and> (\<exists>sg. Group h c = Some sg \<and> group_ok n sg)"
    using Cons.prems(3) sg(5) keys grp by auto
  then obtain t' where t': "leaveGroups query change order visit gs ?u = Some (Returns (t', True))" "config_ok (query (s_sck t'))"
    "Num (query (s_sck t')) = Num d + int (length gs)"
    "\<forall>k. has_group (query (s_sck t')) k \<longleftrightarrow> has_group d k \<and> k \<notin> int ` set gs"
    "\<forall>h. Group h (s_cfg t') = (if h \<in> set gs then None else Group h c)"
    using Cons.IH [of ?u] Cons.prems(2) d(2) by (auto simp: qd)
  show ?case
    unfolding step using t' d(3) keys grp by (intro exI [of _ t']) auto
qed simp

section \<open>Setting up\<close>

lemma groups_numbers: "groups n t = ([s_ngid t..<s_ngid t + n], t\<lparr>s_ngid := s_ngid t + n\<rparr>)"
  by (induction n arbitrary: t) (auto simp: newGid_def upt_conv_Cons simp del: upt_Suc)

lemma setupKVService_ok:
  assumes "visits visit" "fresh_for NSRV fr (t_net (s_cfg t))"
  shows "\<exists>t' c. setupKVService visit initConfig a fr t = Some (Returns (t', Gid1)) \<and> s_sck t' = initConfig c \<and>
    config_ok c \<and> Num c = 1 \<and> map fst (Groups c) = [int Gid1] \<and> set (Shards c) = {int Gid1}"
proof -
  have "draws_ok NSRV (\<lambda>_. fr) [Gid1] (add_clients [a] (s_cfg t))" using assms(2) by (simp add: draws_ok_def add_clients_def)
  then obtain c where c: "start_group Gid1 fr (add_clients [a] (s_cfg t)) = Some (c, map (ServerName Gid1) [0..<NSRV])"
    using start_group_ok by blast
  have "config_ok MakeShardConfig"
    by (simp add: config_ok_def wf_config_def named_def balanced_def MakeShardConfig_def)
  then obtain d where d: "JoinBalance visit [(int Gid1, map (ServerName Gid1) [0..<NSRV])] MakeShardConfig = Some (Returns (d, True))"
    "config_ok d" "Num d = 1" "Groups d = [(int Gid1, map (ServerName Gid1) [0..<NSRV])]"
    using join_one [OF assms(1) _ _ refl, of MakeShardConfig Gid1 NSRV] by (auto simp: MakeShardConfig_def)
  have "set (Shards d) \<subseteq> {int Gid1}" "Shards d \<noteq> []"
    using d(2,4) by (auto simp: config_ok_def all_assigned_def wf_config_def NShards_def)
  then have "set (Shards d) = {int Gid1}" by (metis set_empty subset_singletonD)
  then show ?thesis using c d by (auto simp: setupKVService_def)
qed

section \<open>Concrete runs\<close>

text \<open>A controller that just keeps the configuration, and one group for each of the first shards.\<close>

definition grouped :: "nat \<Rightarrow> ShardConfig" where
  "grouped m = \<lparr>Num = int m, Shards = map (\<lambda>s. int (s mod m + 1)) [0..<NShards],
     Groups = map (\<lambda>g. (int g, map (ServerName g) [0..<NSRV])) [1..<Suc m]\<rparr>"

definition driver_at :: "nat \<Rightarrow> ShardConfig shard_test" where
  "driver_at m = \<lparr>s_cfg = empty_config, s_sck = grouped m, s_ngid = Suc m\<rparr>"

definition names_for :: "nat \<Rightarrow> fresh_grp" where
  "names_for g = \<lparr>f_make = map (\<lambda>i. net_names 3 (itoa g @ ''m'' @ itoa i)) [0..<3],
     f_start = map (\<lambda>i. (net_names 3 (itoa g @ ''s'' @ itoa i), 100 * g + i)) [0..<3]\<rparr>"

lemma obeys_id: "obeys (\<lambda>c. c) (\<lambda>c _. c)"
  by (simp add: obeys_def)

lemma names_for_ok: "draws_ok NSRV names_for [13, 14] (s_cfg (driver_at m))"
proof -
  have "fresh_for NSRV (names_for g) (t_net (s_cfg (driver_at m)))" if "g = 13 \<or> g = 14" for g
  proof -
    have "square NSRV (f_make (names_for g))" "square NSRV (map fst (f_start (names_for g)))"
      by (simp_all add: square_def names_for_def net_names_def NSRV_def)
    moreover have "distinct (concat (f_make (names_for 13) @ map fst (f_start (names_for 13))))"
      "distinct (concat (f_make (names_for 14) @ map fst (f_start (names_for 14))))" by code_simp+
    ultimately show ?thesis using that by (auto simp: fresh_for_def driver_at_def empty_config_def MakeNetwork_def)
  qed
  moreover have "drawn (names_for 13) \<inter> drawn (names_for 14) = {}" by code_simp
  ultimately show ?thesis by (auto simp: draws_ok_def)
qed

lemma grouped_ok: "config_ok (grouped 12)" "config_ok (grouped 1)"
proof -
  have ok: "config_ok (grouped m)"
    if "list_all (\<lambda>x. list_all (\<lambda>y. load (grouped m) (fst x) \<le> load (grouped m) (fst y) + 1) (Groups (grouped m))) (Groups (grouped m))"
      "list_all (\<lambda>g. g \<in> fst ` set (Groups (grouped m))) (Shards (grouped m))" for m
  proof -
    have "wf_config (grouped m)" by (simp add: wf_config_def grouped_def comp_def distinct_map inj_on_def)
    moreover have "named (grouped m)" by (auto simp: named_def grouped_def)
    moreover have "all_assigned (grouped m)" using that(2) by (simp add: all_assigned_def list_all_iff)
    moreover have "balanced (grouped m)" using that(1) unfolding balanced_def list_all_iff by blast
    ultimately show ?thesis by (simp add: config_ok_def)
  qed
  show "config_ok (grouped 12)" by (rule ok; code_simp)
  show "config_ok (grouped 1)" by (rule ok; code_simp)
qed

section \<open>Claims about the driver\<close>

lemma same_keys_length:
  assumes "wf_config c" "wf_config d" "\<forall>k. has_group c k \<longleftrightarrow> has_group d k"
  shows "length (Groups c) = length (Groups d)"
proof -
  have "set (map fst (Groups c)) = set (map fst (Groups d))" using assms(3) by auto
  then show ?thesis using assms(1,2) distinct_card unfolding wf_config_def by (metis length_map)
qed

lemma config_ok_passes:
  assumes "visits visit" "config_ok c" "length ks = length (Groups c)" "\<forall>k \<in> set ks. has_group c k"
  shows "CheckConfig visit c ks = None"
proof -
  have "Groups c \<noteq> []" if "ks \<noteq> []" using that assms(3) by auto
  then show ?thesis using assms by (auto simp: config_ok_def CheckConfig_None)
qed

text \<open>C19. With a controller that reports the configuration it was last given and is not superseded by another, joining groups that are not yet in a
  balanced configuration always returns; it returns true exactly when there is none to join or all groups together are no more
  than the shards, and then the configuration passes the check of the tests and has advanced by one per
  group.  Otherwise it stops at a group that is in the configuration, and for which \<open>checkMember\<close> says
  that it is not a member because it was given no shard.\<close>

theorem joinGroups_verdict:
  assumes "visits order" "visits visit" "obeys query change" "config_ok (query (s_sck t))"
    and "\<forall>g \<in> set gs. \<not> has_group (query (s_sck t)) (int g)" "draws_ok NSRV fr gs (s_cfg t)"
  shows "\<exists>t' b. joinGroups query change order visit fr gs t = Some (Returns (t', b)) \<and>
    (b \<longleftrightarrow> gs = [] \<or> length (Groups (query (s_sck t))) + length gs \<le> NShards) \<and>
    (b \<longrightarrow> CheckConfig visit (query (s_sck t')) (map fst (Groups (query (s_sck t))) @ map int gs) = None \<and>
       Num (query (s_sck t')) = Num (query (s_sck t)) + int (length gs)) \<and>
    (\<not> b \<longrightarrow> (\<exists>g \<in> set gs. has_group (query (s_sck t')) (int g) \<and> \<not> checkMember query (s_sck t') g))"
proof -
  obtain t' b where t': "joinGroups query change order visit fr gs t = Some (Returns (t', b))" "config_ok (query (s_sck t'))"
    "b \<longleftrightarrow> gs = [] \<or> length (Groups (query (s_sck t))) + length gs \<le> NShards" "b \<longrightarrow> joined query NSRV gs t t'"
    "\<not> b \<longrightarrow> (\<exists>g \<in> set gs. has_group (query (s_sck t')) (int g) \<and> \<not> checkMember query (s_sck t') g)"
    using joinGroups_loop [OF assms] by blast
  have "CheckConfig visit (query (s_sck t')) (map fst (Groups (query (s_sck t))) @ map int gs) = None"
    if "joined query NSRV gs t t'"
    by (rule config_ok_passes [OF assms(2) t'(2)]) (use that in \<open>auto simp: joined_def\<close>)
  moreover have "Num (query (s_sck t')) = Num (query (s_sck t)) + int (length gs)" if "joined query NSRV gs t t'"
    using that by (simp add: joined_def)
  ultimately show ?thesis using t'(1,3-5) by (intro exI [of _ t'] exI [of _ b]) blast
qed

theorem joinGroups_verdict_witness:
  "\<exists>t'. joinGroups (\<lambda>c. c) (\<lambda>c _. c) rev rev names_for [13, 14] (driver_at 12) = Some (Returns (t', False))"
proof -
  have q: "s_sck (driver_at 12) = grouped 12" "length (Groups (grouped 12)) = 12"
    by (simp_all add: driver_at_def grouped_def)
  have "\<forall>g \<in> set [13, 14]. \<not> has_group (s_sck (driver_at 12)) (int g)"
    by (auto simp: driver_at_def grouped_def)
  from joinGroups_verdict [OF visits_rev visits_rev obeys_id _ this names_for_ok] grouped_ok(1)
  obtain t' b where "joinGroups (\<lambda>c. c) (\<lambda>c _. c) rev rev names_for [13, 14] (driver_at 12) = Some (Returns (t', b))"
    "b \<longleftrightarrow> [13, 14 :: nat] = [] \<or> 12 + length [13, 14 :: nat] \<le> NShards"
    unfolding q by blast
  moreover have "\<not> 12 + length [13, 14 :: nat] \<le> NShards" by (simp add: NShards_def)
  ultimately have "joinGroups (\<lambda>c. c) (\<lambda>c _. c) rev rev names_for [13, 14] (driver_at 12) = Some (Returns (t', False))"
    by (metis list.distinct(1))
  then show ?thesis ..
qed

text \<open>C20. Joining groups and letting them leave again, with a controller that is not superseded and from
  a balanced configuration: with enough shards both return true, the
  configuration passes the check of the tests with the groups of the beginning, two
  configurations per group later, and the groups that left are no longer registered, while the others
  are untouched.\<close>

theorem join_leave_roundtrip:
  assumes "visits order" "visits visit" "obeys query change" "config_ok (query (s_sck t))"
    and "\<forall>g \<in> set gs. g \<noteq> 0 \<and> \<not> has_group (query (s_sck t)) (int g)" "draws_ok NSRV fr gs (s_cfg t)"
    and "length (Groups (query (s_sck t))) + length gs \<le> NShards"
  shows "\<exists>t1 t2. joinGroups query change order visit fr gs t = Some (Returns (t1, True)) \<and>
    leaveGroups query change order visit gs t1 = Some (Returns (t2, True)) \<and>
    CheckConfig visit (query (s_sck t2)) (map fst (Groups (query (s_sck t)))) = None \<and>
    Num (query (s_sck t2)) = Num (query (s_sck t)) + 2 * int (length gs) \<and>
    (\<forall>h. Group h (s_cfg t2) = (if h \<in> set gs then None else Group h (s_cfg t)))"
proof -
  have new: "\<forall>g \<in> set gs. \<not> has_group (query (s_sck t)) (int g)" using assms(5) by blast
  obtain t1 where t1: "joinGroups query change order visit fr gs t = Some (Returns (t1, True))" "config_ok (query (s_sck t1))"
    "joined query NSRV gs t t1"
    using joinGroups_loop [OF assms(1-4) new assms(6)] assms(7) by auto
  have d: "distinct gs" using assms(6) by (simp add: draws_ok_def)
  have "\<forall>g \<in> set gs. g \<noteq> 0 \<and> has_group (query (s_sck t1)) (int g) \<and> (\<exists>sg. Group g (s_cfg t1) = Some sg \<and> group_ok NSRV sg)"
    using t1(3) assms(5) unfolding joined_def by blast
  then obtain t2 where t2: "leaveGroups query change order visit gs t1 = Some (Returns (t2, True))" "config_ok (query (s_sck t2))"
    "Num (query (s_sck t2)) = Num (query (s_sck t1)) + int (length gs)"
    "\<forall>k. has_group (query (s_sck t2)) k \<longleftrightarrow> has_group (query (s_sck t1)) k \<and> k \<notin> int ` set gs"
    "\<forall>h. Group h (s_cfg t2) = (if h \<in> set gs then None else Group h (s_cfg t1))"
    using leaveGroups_loop [OF assms(1-3) t1(2) d] by blast
  have keys: "\<forall>k. has_group (query (s_sck t2)) k \<longleftrightarrow> has_group (query (s_sck t)) k"
  proof
    fix k
    have "has_group (query (s_sck t1)) k \<longleftrightarrow> k \<in> int ` set gs \<or> has_group (query (s_sck t)) k"
      using t1(3) unfolding joined_def by (elim conjE) (rule spec)
    moreover have "\<not> has_group (query (s_sck t)) k" if "k \<in> int ` set gs" using that new by (elim imageE) simp
    ultimately show "has_group (query (s_sck t2)) k \<longleftrightarrow> has_group (query (s_sck t)) k" using t2(4) [rule_format, of k] by argo
  qed
  have "length (map fst (Groups (query (s_sck t)))) = length (Groups (query (s_sck t2)))"
    using same_keys_length [OF _ _ keys] assms(4) t2(2) by (simp add: config_ok_def)
  then have "CheckConfig visit (query (s_sck t2)) (map fst (Groups (query (s_sck t)))) = None"
    using config_ok_passes [OF assms(2) t2(2)] keys by simp
  then show ?thesis using t1(1,3) t2(1,3,5) by (intro exI [of _ t1] exI [of _ t2]) (auto simp: joined_def)
qed

theorem join_leave_roundtrip_witness:
  "\<exists>t1 t2. joinGroups (\<lambda>c. c) (\<lambda>c _. c) rev rev names_for [13, 14] (driver_at 1) = Some (Returns (t1, True)) \<and>
     leaveGroups (\<lambda>c. c) (\<lambda>c _. c) rev rev [13, 14] t1 = Some (Returns (t2, True)) \<and>
     CheckConfig rev (s_sck t2) [1] = None \<and> Num (s_sck t2) = 5"
proof -
  have q: "s_sck (driver_at 1) = grouped 1" "map fst (Groups (grouped 1)) = [1]" "Num (grouped 1) = 1"
    "length (Groups (grouped 1)) = 1" by (simp_all add: driver_at_def grouped_def)
  have "\<forall>g \<in> set [13, 14]. g \<noteq> 0 \<and> \<not> has_group (s_sck (driver_at 1)) (int g)"
    by (simp add: driver_at_def grouped_def)
  note r = join_leave_roundtrip [OF visits_rev visits_rev obeys_id _ this names_for_ok, unfolded q]
  have "1 + 2 * int (length [13, 14 :: nat]) = 5" "1 + length [13, 14 :: nat] \<le> NShards" by (simp_all add: NShards_def)
  with r grouped_ok(2) show ?thesis by metis
qed

section \<open>The check with a group shut down\<close>

lemma completions_loop_Inr:
  "completions_loop ka va m gets = Inr d \<longleftrightarrow> d = m + length gets \<and> (\<forall>(i, v) \<in> set gets. v = va ! i)"
  by (induction ka va m gets rule: completions_loop.induct) auto

text \<open>The check passes only if every get that came back was right and at least one was blocked.\<close>

lemma checkShutdownSharding_fine:
  "checkShutdownSharding down ka va as names gets c = (Fine, c') \<Longrightarrow>
   length gets < length ka \<and> (\<forall>(i, v) \<in> set gets. v = va ! i)"
proof -
  have "completions_loop ka va m gets \<noteq> Inl Fine" for m
    by (induction ka va m gets rule: completions_loop.induct) auto
  then show "checkShutdownSharding down ka va as names gets c = (Fine, c') \<Longrightarrow> ?thesis"
    by (auto simp: checkShutdownSharding_def completions_loop_Inr split: option.splits sum.splits if_splits)
qed

end
