(* ===== verification/Shard_Clerk.thy ===== *)
theory Shard_Clerk
  imports Prelude
begin

text \<open>
  The clerks of the sharded key/value service of the 2024 edition: the clerk of the shard controller
  (\<open>shardctrler/client.go\<close>, \<open>common.go\<close>), which asks the controller's servers in turn until one answers,
  and the clerk of the service (\<open>shardkv/client.go\<close>), which asks the servers of the group that its
  configuration makes responsible for a key and fetches a new configuration when none accepts.

  The servers are left to the student, so the calls are arguments: they take the state of the world and
  return a reply, or none when the call fails, and the new state, in which also everything else has
  happened that happens meanwhile, the clerk's sleep included.  Both loops may run forever, which is
  \<open>None\<close>.  An array of shards is a list of fixed length.
\<close>

section \<open>Configurations\<close>

definition NShards24 :: nat where
  "NShards24 = 10"

record Config24 =
  cfg_Num :: int
  cfg_Shards :: "int list"
  cfg_Groups :: "int \<rightharpoonup> string list"

definition zero_Config24 :: Config24 where
  "zero_Config24 = \<lparr>cfg_Num = 0, cfg_Shards = replicate NShards24 0, cfg_Groups = Map.empty\<rparr>"

section \<open>The clerk of the controller\<close>

text \<open>A reply with its flag \<open>WrongLeader\<close>.\<close>

type_synonym ('srv, 'r, 'w) ctrl_call = "'srv \<Rightarrow> 'w \<Rightarrow> (bool \<times> 'r) option \<times> 'w"

fun ctrl_round :: "('srv, 'r, 'w) ctrl_call \<Rightarrow> 'srv list \<Rightarrow> 'w \<Rightarrow> 'r option \<times> 'w" where
  "ctrl_round call [] w = (None, w)"
| "ctrl_round call (srv # srvs) w =
     (case call srv w of
        (Some (wrongLeader, r), w) \<Rightarrow> if \<not> wrongLeader then (Some r, w) else ctrl_round call srvs w
      | (None, w) \<Rightarrow> ctrl_round call srvs w)"

partial_function (option) ctrl_loop :: "('srv, 'r, 'w) ctrl_call \<Rightarrow> 'srv list \<Rightarrow> 'w \<Rightarrow> ('r \<times> 'w) option" where
  "ctrl_loop call servers w =
     (case ctrl_round call servers w of
        (Some r, w) \<Rightarrow> Some (r, w)
      | (None, w) \<Rightarrow> ctrl_loop call servers w)"

declare ctrl_loop.simps [code]

definition ctrl_Query :: "(int \<Rightarrow> ('srv, Config24, 'w) ctrl_call) \<Rightarrow> 'srv list \<Rightarrow> int \<Rightarrow> 'w \<Rightarrow> (Config24 \<times> 'w) option" where
  "ctrl_Query call servers num w = ctrl_loop (call num) servers w"

definition ctrl_Join ::
  "((int \<rightharpoonup> string list) \<Rightarrow> ('srv, unit, 'w) ctrl_call) \<Rightarrow> 'srv list \<Rightarrow> (int \<rightharpoonup> string list) \<Rightarrow> 'w \<Rightarrow> (unit \<times> 'w) option" where
  "ctrl_Join call servers groups w = ctrl_loop (call groups) servers w"

definition ctrl_Leave :: "(int list \<Rightarrow> ('srv, unit, 'w) ctrl_call) \<Rightarrow> 'srv list \<Rightarrow> int list \<Rightarrow> 'w \<Rightarrow> (unit \<times> 'w) option" where
  "ctrl_Leave call servers gids w = ctrl_loop (call gids) servers w"

definition ctrl_Move ::
  "(int \<Rightarrow> int \<Rightarrow> ('srv, unit, 'w) ctrl_call) \<Rightarrow> 'srv list \<Rightarrow> int \<Rightarrow> int \<Rightarrow> 'w \<Rightarrow> (unit \<times> 'w) option" where
  "ctrl_Move call servers shard gid w = ctrl_loop (call shard gid) servers w"

section \<open>The clerk of the service\<close>

definition key2shard :: "string \<Rightarrow> nat" where
  "key2shard key = (if length key > 0 then of_char (hd key) else 0) mod NShards24"

record 'srv ShardClerk =
  sm :: "'srv list"
  sck_config :: Config24

definition MakeShardClerk :: "'srv list \<Rightarrow> 'srv ShardClerk" where
  "MakeShardClerk ctrlers = \<lparr>sm = ctrlers, sck_config = zero_Config24\<rparr>"

text \<open>A reply: its error, and the value that a get returns.\<close>

type_synonym 'w shard_call = "string \<Rightarrow> 'w \<Rightarrow> (string \<times> string) option \<times> 'w"

fun group_round :: "'w shard_call \<Rightarrow> (string \<Rightarrow> bool) \<Rightarrow> string list \<Rightarrow> 'w \<Rightarrow> string option \<times> 'w" where
  "group_round call accepted [] w = (None, w)"
| "group_round call accepted (srv # srvs) w =
     (case call srv w of
        (Some (err, value), w) \<Rightarrow>
          if accepted err then (Some value, w)
          else if err = ''ErrWrongGroup'' then (None, w)
          else group_round call accepted srvs w
      | (None, w) \<Rightarrow> group_round call accepted srvs w)"

definition responsible :: "Config24 \<Rightarrow> string \<Rightarrow> string list option" where
  "responsible cfg key = cfg_Groups cfg (cfg_Shards cfg ! key2shard key)"

partial_function (option) shard_loop ::
  "'w shard_call \<Rightarrow> (string \<Rightarrow> bool) \<Rightarrow> (int \<Rightarrow> ('srv, Config24, 'w) ctrl_call) \<Rightarrow> string \<Rightarrow> 'srv ShardClerk \<Rightarrow> 'w \<Rightarrow>
   (string \<times> 'srv ShardClerk \<times> 'w) option" where
  "shard_loop call accepted query key ck w =
     (case (case responsible (sck_config ck) key of
              Some servers \<Rightarrow> group_round call accepted servers w
            | None \<Rightarrow> (None, w)) of
        (Some value, w) \<Rightarrow> Some (value, ck, w)
      | (None, w) \<Rightarrow> do {
          (cfg, w) \<leftarrow> ctrl_Query query (sm ck) (-1) w;
          shard_loop call accepted query key (ck\<lparr>sck_config := cfg\<rparr>) w })"

declare shard_loop.simps [code]

definition get_accepted :: "string \<Rightarrow> bool" where
  "get_accepted err \<longleftrightarrow> err = ''OK'' \<or> err = ''ErrNoKey''"

definition put_accepted :: "string \<Rightarrow> bool" where
  "put_accepted err \<longleftrightarrow> err = ''OK''"

definition ShardClerk_Get ::
  "(string \<Rightarrow> 'w shard_call) \<Rightarrow> (int \<Rightarrow> ('srv, Config24, 'w) ctrl_call) \<Rightarrow> string \<Rightarrow> 'srv ShardClerk \<Rightarrow> 'w \<Rightarrow>
   (string \<times> 'srv ShardClerk \<times> 'w) option" where
  "ShardClerk_Get call query key ck w = shard_loop (call key) get_accepted query key ck w"

definition ShardClerk_PutAppend ::
  "(string \<Rightarrow> string \<Rightarrow> string \<Rightarrow> 'w shard_call) \<Rightarrow> (int \<Rightarrow> ('srv, Config24, 'w) ctrl_call) \<Rightarrow> string \<Rightarrow> string \<Rightarrow> string \<Rightarrow>
   'srv ShardClerk \<Rightarrow> 'w \<Rightarrow> ('srv ShardClerk \<times> 'w) option" where
  "ShardClerk_PutAppend call query key value op ck w = do {
     (_, ck, w) \<leftarrow> shard_loop (call key value op) put_accepted query key ck w;
     Some (ck, w) }"

definition ShardClerk_Put ::
  "(string \<Rightarrow> string \<Rightarrow> string \<Rightarrow> 'w shard_call) \<Rightarrow> (int \<Rightarrow> ('srv, Config24, 'w) ctrl_call) \<Rightarrow> string \<Rightarrow> string \<Rightarrow>
   'srv ShardClerk \<Rightarrow> 'w \<Rightarrow> ('srv ShardClerk \<times> 'w) option" where
  "ShardClerk_Put call query key value ck w = ShardClerk_PutAppend call query key value ''Put'' ck w"

definition ShardClerk_Append ::
  "(string \<Rightarrow> string \<Rightarrow> string \<Rightarrow> 'w shard_call) \<Rightarrow> (int \<Rightarrow> ('srv, Config24, 'w) ctrl_call) \<Rightarrow> string \<Rightarrow> string \<Rightarrow>
   'srv ShardClerk \<Rightarrow> 'w \<Rightarrow> ('srv ShardClerk \<times> 'w) option" where
  "ShardClerk_Append call query key value ck w = ShardClerk_PutAppend call query key value ''Append'' ck w"

end
