(* ===== verification/Shard_Clerk_Properties.thy ===== *)
theory Shard_Clerk_Properties
  imports Shard_Clerk
begin

text \<open>
  The clerk of the sharded service sends an operation only to the group that its configuration names,
  and comes back once the controller knows a group that serves the key.
\<close>

section \<open>Asking the controller\<close>

lemma ctrl_round_Some:
  "ctrl_round call srvs w = (Some r, w') \<Longrightarrow> \<exists>srv \<in> set srvs. \<exists>v. call srv v = (Some (False, r), w')"
  by (induction call srvs w rule: ctrl_round.induct) (auto split: prod.splits option.splits if_splits)

text \<open>When some server answers as the leader in every good state, one round suffices.\<close>

lemma ctrl_round_answers:
  assumes "srv \<in> set srvs" and "\<And>w. good w \<Longrightarrow> \<exists>r. fst (call srv w) = Some (False, r)"
    and "\<And>s w. good w \<Longrightarrow> good (snd (call s w))"
  shows "good w \<Longrightarrow> \<exists>r w'. ctrl_round call srvs w = (Some r, w') \<and> good w'"
  using assms(1)
proof (induction srvs arbitrary: w)
  case (Cons s srvs)
  obtain a w1 where a: "call s w = (a, w1)" by fastforce
  have g: "good w1" using assms(3) [OF Cons.prems(1), of s] a by simp
  show ?case
  proof (cases "\<exists>r. a = Some (False, r)")
    case True
    then show ?thesis using a g by auto
  next
    case False
    then have "s \<noteq> srv" using assms(2) [OF Cons.prems(1)] a by auto
    then have "\<exists>r w'. ctrl_round call srvs w1 = (Some r, w') \<and> good w'" using Cons g by auto
    then show ?thesis using False a by (auto split: option.splits)
  qed
qed simp

lemma ctrl_loop_answers:
  assumes "srv \<in> set srvs" and "\<And>w. good w \<Longrightarrow> \<exists>r. fst (call srv w) = Some (False, r)"
    and "\<And>s w. good w \<Longrightarrow> good (snd (call s w))" and "good w"
  shows "\<exists>r w'. ctrl_loop call srvs w = Some (r, w') \<and> good w' \<and> (\<exists>s \<in> set srvs. \<exists>v. fst (call s v) = Some (False, r))"
proof -
  obtain r w' where r: "ctrl_round call srvs w = (Some r, w')" "good w'"
    using ctrl_round_answers [of srv srvs good call w] assms by blast
  then show ?thesis using ctrl_round_Some [OF r(1)] by (auto simp: ctrl_loop.simps [of call srvs w]) (metis fst_conv)
qed

section \<open>Asking a group\<close>

lemma key2shard_less: "key2shard key < NShards24"
  by (simp add: key2shard_def NShards24_def)

lemma group_round_Some:
  "group_round call accepted srvs w = (Some val, w') \<Longrightarrow>
   \<exists>srv \<in> set srvs. \<exists>v err. call srv v = (Some (err, val), w') \<and> accepted err"
  by (induction call accepted srvs w rule: group_round.induct) (auto split: prod.splits option.splits if_splits)

lemma group_round_good:
  assumes "\<And>s w. good w \<Longrightarrow> good (snd (call s w))"
  shows "good w \<Longrightarrow> good (snd (group_round call accepted srvs w))"
proof (induction srvs arbitrary: w)
  case (Cons s srvs)
  obtain a w1 where a: "call s w = (a, w1)" by fastforce
  then have "good w1" using assms [OF Cons.prems, of s] by simp
  then show ?case using a Cons.IH by (simp split: option.splits prod.splits)
qed simp

lemma group_round_accepts:
  assumes "srv \<in> set srvs" and "\<And>w. good w \<Longrightarrow> \<exists>err val. fst (call srv w) = Some (err, val) \<and> accepted err"
    and "\<And>s w. good w \<Longrightarrow> good (snd (call s w))"
    and "\<And>s w val. good w \<Longrightarrow> s \<in> set srvs \<Longrightarrow> fst (call s w) \<noteq> Some (''ErrWrongGroup'', val)"
  shows "good w \<Longrightarrow> \<exists>val w'. group_round call accepted srvs w = (Some val, w') \<and> good w'"
  using assms(1,4)
proof (induction srvs arbitrary: w)
  case (Cons s srvs)
  obtain a w1 where a: "call s w = (a, w1)" by fastforce
  have g: "good w1" using assms(3) [OF Cons.prems(1), of s] a by simp
  show ?case
  proof (cases "\<exists>err val. a = Some (err, val) \<and> accepted err")
    case True
    then show ?thesis using a g by auto
  next
    case False
    then have "s \<noteq> srv" using assms(2) [OF Cons.prems(1)] a by auto
    then have "\<exists>val w'. group_round call accepted srvs w1 = (Some val, w') \<and> good w'" using Cons g by auto
    moreover have "a \<noteq> Some (''ErrWrongGroup'', val)" for val using Cons.prems(3) [OF Cons.prems(1), of s val] a by simp
    ultimately show ?thesis using False a by (auto split: option.splits prod.splits)
  qed
qed simp

section \<open>The clerk of the service\<close>

text \<open>Whenever the loop returns, the value comes from a server of the group that is responsible for the
  key in the configuration that the clerk then has.\<close>

definition routed :: "'w shard_call \<Rightarrow> (string \<Rightarrow> bool) \<Rightarrow> string \<Rightarrow> string \<times> 'srv ShardClerk \<times> 'w \<Rightarrow> bool" where
  "routed call accepted key = (\<lambda>(val, ck, w).
     \<exists>servers srv v err. responsible (sck_config ck) key = Some servers \<and> srv \<in> set servers \<and>
       call srv v = (Some (err, val), w) \<and> accepted err)"

lemma shard_loop_routed:
  "shard_loop call accepted query key ck w = Some res \<Longrightarrow> routed call accepted key res"
proof (induction call accepted query key ck w res rule: shard_loop.raw_induct [rotated, consumes 1, case_names step])
  case (step f call accepted query key ck w res)
  show ?case
  proof (cases "case responsible (sck_config ck) key of
      Some servers \<Rightarrow> group_round call accepted servers w | None \<Rightarrow> (None, w)")
    case (Pair a w1)
    show ?thesis
    proof (cases a)
      case None
      then obtain cfg w2 where "f call accepted query key (ck\<lparr>sck_config := cfg\<rparr>) w2 = Some res"
        using step(2) Pair by (auto split: bind_splits)
      then show ?thesis by (rule step(1))
    next
      case (Some val)
      then have "res = (val, ck, w1)" using step(2) Pair by simp
      moreover obtain servers where "responsible (sck_config ck) key = Some servers"
        "group_round call accepted servers w = (Some val, w1)"
        using Pair Some by (auto split: option.splits)
      ultimately show ?thesis using group_round_Some by (fastforce simp: routed_def)
    qed
  qed
qed

text \<open>
  A world in which the service is available: some server of the controller answers as the leader, all
  such answers are the configuration \<open>cfg\<close>, and in the group that \<open>cfg\<close> makes responsible for the key
  some server accepts the operation and none disowns the shard.
\<close>

definition available ::
  "('w \<Rightarrow> bool) \<Rightarrow> 'w shard_call \<Rightarrow> (string \<Rightarrow> bool) \<Rightarrow> ('srv, Config24, 'w) ctrl_call \<Rightarrow> 'srv list \<Rightarrow> Config24 \<Rightarrow>
   string \<Rightarrow> bool" where
  "available good call accepted query ctrlers cfg key \<longleftrightarrow>
     (\<forall>s w. good w \<longrightarrow> good (snd (call s w))) \<and> (\<forall>s w. good w \<longrightarrow> good (snd (query s w))) \<and>
     (\<exists>s \<in> set ctrlers. \<forall>w. good w \<longrightarrow> fst (query s w) = Some (False, cfg)) \<and>
     (\<forall>s w cfg'. fst (query s w) = Some (False, cfg') \<longrightarrow> cfg' = cfg) \<and>
     (\<exists>servers. responsible cfg key = Some servers \<and>
        (\<exists>s \<in> set servers. \<forall>w. good w \<longrightarrow> (\<exists>err val. fst (call s w) = Some (err, val) \<and> accepted err)) \<and>
        (\<forall>s \<in> set servers. \<forall>w. good w \<longrightarrow> (\<forall>val. fst (call s w) \<noteq> Some (''ErrWrongGroup'', val))))"

lemma shard_loop_step:
  assumes "(case responsible (sck_config ck) key of
      Some servers \<Rightarrow> group_round call accepted servers w | None \<Rightarrow> (None, w)) = (a, w1)"
  shows "shard_loop call accepted query key ck w =
    (case a of
       Some val \<Rightarrow> Some (val, ck, w1)
     | None \<Rightarrow> ctrl_Query query (sm ck) (-1) w1 \<bind> (\<lambda>(cfg, w). shard_loop call accepted query key (ck\<lparr>sck_config := cfg\<rparr>) w))"
  by (subst shard_loop.simps) (simp add: assms)

lemma shard_loop_returns:
  assumes "available good call accepted (query (-1)) (sm ck) cfg key" "good w"
  shows "\<exists>val ck' w'. shard_loop call accepted query key ck w = Some (val, ck', w') \<and> good w' \<and>
    (ck' = ck \<or> ck' = ck\<lparr>sck_config := cfg\<rparr>)"
proof -
  from assms(1) obtain servers sc sv where
    keep: "\<And>s w. good w \<Longrightarrow> good (snd (call s w))" "\<And>s w. good w \<Longrightarrow> good (snd (query (-1) s w))"
    and ctrl: "sc \<in> set (sm ck)" "\<And>w. good w \<Longrightarrow> fst (query (-1) sc w) = Some (False, cfg)"
    "\<And>s w cfg'. fst (query (-1) s w) = Some (False, cfg') \<Longrightarrow> cfg' = cfg"
    and group: "responsible cfg key = Some servers" "sv \<in> set servers"
    "\<And>w. good w \<Longrightarrow> \<exists>err val. fst (call sv w) = Some (err, val) \<and> accepted err"
    "\<And>s w val. good w \<Longrightarrow> s \<in> set servers \<Longrightarrow> fst (call s w) \<noteq> Some (''ErrWrongGroup'', val)"
    unfolding available_def by (elim conjE bexE exE) (rule that; blast)
  obtain a w1 where r: "(case responsible (sck_config ck) key of
      Some servers \<Rightarrow> group_round call accepted servers w | None \<Rightarrow> (None, w)) = (a, w1)" by fastforce
  have g: "good w1"
  proof (cases "responsible (sck_config ck) key")
    case (Some srvs)
    then show ?thesis using group_round_good [of good call, OF keep(1) assms(2), of accepted srvs] r by simp
  qed (use r assms(2) in simp)
  show ?thesis
  proof (cases a)
    case None
    have "\<exists>r. fst (query (-1) sc w) = Some (False, r)" if "good w" for w using ctrl(2) [OF that] by blast
    from ctrl_loop_answers [where call = "query (-1)" and good = good, OF ctrl(1) this keep(2) g]
    obtain w2 where q: "ctrl_Query query (sm ck) (-1) w1 = Some (cfg, w2)" "good w2"
      unfolding ctrl_Query_def by (auto dest: ctrl(3))
    obtain val w3 where v: "group_round call accepted servers w2 = (Some val, w3)" "good w3"
      using group_round_accepts [where call = call and good = good, OF group(2,3) keep(1) group(4) q(2)] by blast
    have "shard_loop call accepted query key (ck\<lparr>sck_config := cfg\<rparr>) w2 = Some (val, ck\<lparr>sck_config := cfg\<rparr>, w3)"
      by (subst shard_loop_step [of _ _ _ _ _ "Some val" w3]) (simp_all add: group(1) v)
    then show ?thesis using shard_loop_step [OF r, of query] None q v by auto
  qed (use shard_loop_step [OF r, of query] g in auto)
qed

text \<open>C13. While the service is available a get returns, after at most one new configuration, and
  whatever configuration it started from: its value is what a server answered with \<open>OK\<close> or \<open>ErrNoKey\<close>
  that belongs to the group responsible for the key in the configuration the clerk ends up with.\<close>

theorem ShardClerk_Get_correct:
  assumes "available good (call key) get_accepted (query (-1)) (sm ck) cfg key" "good w"
  shows "\<exists>val ck' w'. ShardClerk_Get call query key ck w = Some (val, ck', w') \<and>
    (ck' = ck \<or> ck' = ck\<lparr>sck_config := cfg\<rparr>) \<and>
    (\<exists>servers srv v err. responsible (sck_config ck') key = Some servers \<and> srv \<in> set servers \<and>
       call key srv v = (Some (err, val), w') \<and> (err = ''OK'' \<or> err = ''ErrNoKey''))"
proof -
  obtain val ck' w' where r: "shard_loop (call key) get_accepted query key ck w = Some (val, ck', w')"
    "ck' = ck \<or> ck' = ck\<lparr>sck_config := cfg\<rparr>"
    using shard_loop_returns [where query = query, OF assms] by blast
  then show ?thesis using shard_loop_routed [OF r(1)]
    by (auto simp: ShardClerk_Get_def routed_def get_accepted_def)
qed

text \<open>The same for a put or an append, which only \<open>OK\<close> ends.\<close>

lemma ShardClerk_PutAppend_correct:
  assumes "available good (call key val op) put_accepted (query (-1)) (sm ck) cfg key" "good w"
  shows "\<exists>ck' w'. ShardClerk_PutAppend call query key val op ck w = Some (ck', w') \<and>
    (\<exists>servers srv v r. responsible (sck_config ck') key = Some servers \<and> srv \<in> set servers \<and>
       call key val op srv v = (Some (''OK'', r), w'))"
proof -
  obtain r ck' w' where r: "shard_loop (call key val op) put_accepted query key ck w = Some (r, ck', w')"
    using shard_loop_returns [where query = query, OF assms] by blast
  then show ?thesis using shard_loop_routed [OF r(1)]
    by (auto simp: ShardClerk_PutAppend_def routed_def put_accepted_def)
qed

text \<open>A service with one controller, whose second server is the leader, and two groups; the clerk knows an
  old configuration, in which the first group still had every shard.\<close>

definition demo_config :: "int \<Rightarrow> Config24" where
  "demo_config g = \<lparr>cfg_Num = g, cfg_Shards = replicate NShards24 g,
     cfg_Groups = (\<lambda>h. if h = 1 then Some [''a0''] else if h = 2 then Some [''b0'', ''b1''] else None)\<rparr>"

definition demo_query :: "int \<Rightarrow> (nat, Config24, nat) ctrl_call" where
  "demo_query num s w = (if s = 1 then Some (False, demo_config 2) else None, w + 1)"

definition demo_get :: "string \<Rightarrow> nat shard_call" where
  "demo_get key srv w =
     ((if srv = ''a0'' then Some (''ErrWrongGroup'', '''') else if srv = ''b0'' then Some (''ErrWrongLeader'', '''')
       else Some (''OK'', ''v'' @ key)), w + 1)"

theorem ShardClerk_Get_correct_witness:
  "\<exists>ck' w'. ShardClerk_Get demo_get demo_query ''k'' \<lparr>sm = [0, 1], sck_config = demo_config 1\<rparr> 0 = Some (''vk'', ck', w') \<and>
     sck_config ck' \<in> {demo_config 1, demo_config 2}"
proof -
  have a: "available (\<lambda>_. True) (demo_get ''k'') get_accepted (demo_query (-1))
      (sm \<lparr>sm = [0, 1], sck_config = demo_config 1\<rparr>) (demo_config 2) ''k''"
    by (simp add: available_def demo_query_def demo_get_def responsible_def demo_config_def get_accepted_def
        key2shard_less split: if_splits)
  have "map_option fst (ShardClerk_Get demo_get demo_query ''k'' \<lparr>sm = [0, 1], sck_config = demo_config 1\<rparr> 0) = Some ''vk''"
    by code_simp
  with ShardClerk_Get_correct [where query = demo_query and call = demo_get, OF a, of 0] show ?thesis by force
qed

end
