(* ===== verification/Crawler.thy ===== *)
theory Crawler
  imports Prelude
begin

text \<open>
  The three web crawlers of the lecture on threads (\<open>notes/crawler.go\<close>): a serial one, one with a
  goroutine per link, a shared set under a mutex and a wait group per page, and one with a coordinator
  that counts the workers it waits for.

  \<open>Fetch\<close> is an argument, \<open>None\<close> being an error; the calls of \<open>Fetch\<close> are recorded in order.  A
  goroutine is an entry of a list and is never removed; the scheduler picks which one takes the next
  step.  A channel is unbuffered: a sender is blocked until the coordinator receives from it.
\<close>

section \<open>Fetchers\<close>

type_synonym Fetcher = "string \<Rightarrow> string list option"

record fakeResult =
  body :: string
  urls :: "string list"

definition fake_Fetch :: "(string \<rightharpoonup> fakeResult) \<Rightarrow> Fetcher" where
  "fake_Fetch f url = (case f url of Some res \<Rightarrow> Some (urls res) | None \<Rightarrow> None)"

definition fetcher :: "string \<rightharpoonup> fakeResult" where
  "fetcher = map_of
     [(''http://golang.org/'', \<lparr>body = ''The Go Programming Language'',
         urls = [''http://golang.org/pkg/'', ''http://golang.org/cmd/'']\<rparr>),
      (''http://golang.org/pkg/'', \<lparr>body = ''Packages'',
         urls = [''http://golang.org/'', ''http://golang.org/cmd/'', ''http://golang.org/pkg/fmt/'',
                 ''http://golang.org/pkg/os/'']\<rparr>),
      (''http://golang.org/pkg/fmt/'', \<lparr>body = ''Package fmt'',
         urls = [''http://golang.org/'', ''http://golang.org/pkg/'']\<rparr>),
      (''http://golang.org/pkg/os/'', \<lparr>body = ''Package os'',
         urls = [''http://golang.org/'', ''http://golang.org/pkg/'']\<rparr>)]"

section \<open>The serial crawler\<close>

record crawl =
  fetched :: "string set"
  calls :: "string list"

definition no_crawl :: crawl where
  "no_crawl = \<lparr>fetched = {}, calls = []\<rparr>"

text \<open>The loop over the links of a page, with the body of \<open>Serial\<close> for each.\<close>

partial_function (option) Serial_each :: "Fetcher \<Rightarrow> string list \<Rightarrow> crawl \<Rightarrow> crawl option" where
  "Serial_each Fetch us st =
     (case us of
        [] \<Rightarrow> Some st
      | u # us \<Rightarrow>
          if u \<in> fetched st then Serial_each Fetch us st
          else
            let st = st\<lparr>fetched := insert u (fetched st), calls := calls st @ [u]\<rparr>
            in (case Fetch u of
                  None \<Rightarrow> Serial_each Fetch us st
                | Some vs \<Rightarrow> do { st \<leftarrow> Serial_each Fetch vs st; Serial_each Fetch us st }))"

declare Serial_each.simps [code]

definition Serial :: "string \<Rightarrow> Fetcher \<Rightarrow> crawl \<Rightarrow> crawl option" where
  "Serial url Fetch st = Serial_each Fetch [url] st"

section \<open>A goroutine per link\<close>

definition testAndSet :: "string \<Rightarrow> string set \<Rightarrow> bool \<times> string set" where
  "testAndSet url fs = (let r = url \<in> fs in (r, insert url fs))"

text \<open>Where a call of \<open>ConcurrentMutex\<close> stands: at its start, before \<open>Fetch\<close>, in the loop with these links
  to go, at \<open>done.Wait\<close>, or returned, after which its goroutine has called \<open>done.Done\<close> on the wait
  group of the call that started it.\<close>

datatype gphase = GStart | GFetch | GLoop "string list" | GWait | GEnd

record goroutine =
  g_url :: string
  g_phase :: gphase
  g_parent :: "nat option"
  g_done :: nat

record mutex_system =
  m_fetched :: "string set"
  m_calls :: "string list"
  m_threads :: "goroutine list"

definition new_goroutine :: "string \<Rightarrow> nat option \<Rightarrow> goroutine" where
  "new_goroutine url p = \<lparr>g_url = url, g_phase = GStart, g_parent = p, g_done = 0\<rparr>"

definition set_phase :: "nat \<Rightarrow> gphase \<Rightarrow> goroutine list \<Rightarrow> goroutine list" where
  "set_phase i ph ts = ts[i := (ts ! i)\<lparr>g_phase := ph\<rparr>]"

definition add_done :: "nat \<Rightarrow> int \<Rightarrow> goroutine list \<Rightarrow> goroutine list" where
  "add_done p d ts = ts[p := (ts ! p)\<lparr>g_done := nat (int (g_done (ts ! p)) + d)\<rparr>]"

definition goroutine_return :: "nat \<Rightarrow> goroutine list \<Rightarrow> goroutine list" where
  "goroutine_return i ts =
     (case g_parent (ts ! i) of
        None \<Rightarrow> set_phase i GEnd ts
      | Some p \<Rightarrow> add_done p (-1) (set_phase i GEnd ts))"

text \<open>The next step of goroutine \<open>i\<close>; \<open>None\<close> when it has none.\<close>

definition mutex_step :: "Fetcher \<Rightarrow> nat \<Rightarrow> mutex_system \<Rightarrow> mutex_system option" where
  "mutex_step Fetch i s =
     (let ts = m_threads s; t = ts ! i; url = g_url t
      in if \<not> i < length ts then None
         else case g_phase t of
           GStart \<Rightarrow>
             (case testAndSet url (m_fetched s) of (r, fs) \<Rightarrow>
                if r then Some (s\<lparr>m_fetched := fs, m_threads := goroutine_return i ts\<rparr>)
                else Some (s\<lparr>m_fetched := fs, m_threads := set_phase i GFetch ts\<rparr>))
         | GFetch \<Rightarrow>
             (let s = s\<lparr>m_calls := m_calls s @ [url]\<rparr>
              in case Fetch url of
                   None \<Rightarrow> Some (s\<lparr>m_threads := goroutine_return i ts\<rparr>)
                 | Some us \<Rightarrow> Some (s\<lparr>m_threads := set_phase i (GLoop us) ts\<rparr>))
         | GLoop [] \<Rightarrow> Some (s\<lparr>m_threads := set_phase i GWait ts\<rparr>)
         | GLoop (u # us) \<Rightarrow>
             Some (s\<lparr>m_threads := add_done i 1 (set_phase i (GLoop us) ts) @ [new_goroutine u (Some i)]\<rparr>)
         | GWait \<Rightarrow> if g_done t = 0 then Some (s\<lparr>m_threads := goroutine_return i ts\<rparr>) else None
         | GEnd \<Rightarrow> None)"

fun mutex_run :: "Fetcher \<Rightarrow> nat list \<Rightarrow> mutex_system \<Rightarrow> mutex_system option" where
  "mutex_run Fetch [] s = Some s"
| "mutex_run Fetch (i # is) s = do { s' \<leftarrow> mutex_step Fetch i s; mutex_run Fetch is s' }"

definition ConcurrentMutex_start :: "string \<Rightarrow> mutex_system" where
  "ConcurrentMutex_start url = \<lparr>m_fetched = {}, m_calls = [], m_threads = [new_goroutine url None]\<rparr>"

definition mutex_returned :: "mutex_system \<Rightarrow> bool" where
  "mutex_returned s \<longleftrightarrow> g_phase (m_threads s ! 0) = GEnd"

section \<open>A coordinator and workers\<close>

text \<open>A worker before its \<open>Fetch\<close>, blocked at its send, or gone; the goroutine that sends the first url is
  one that has only the send to do.\<close>

datatype wphase = WFetch string | WSend "string list" | WGone

record chan_system =
  c_n :: int
  c_fetched :: "string set"
  c_calls :: "string list"
  c_workers :: "wphase list"
  c_break :: bool

fun coordinator_loop :: "string list \<Rightarrow> chan_system \<Rightarrow> chan_system" where
  "coordinator_loop [] s = s"
| "coordinator_loop (u # us) s =
     (if u \<notin> c_fetched s
      then coordinator_loop us (s\<lparr>c_fetched := insert u (c_fetched s), c_n := c_n s + 1,
             c_workers := c_workers s @ [WFetch u]\<rparr>)
      else coordinator_loop us s)"

text \<open>Goroutine \<open>j\<close> fetches its page, or the coordinator receives from it.\<close>

definition chan_step :: "Fetcher \<Rightarrow> nat \<Rightarrow> chan_system \<Rightarrow> chan_system option" where
  "chan_step Fetch j s =
     (if \<not> j < length (c_workers s) then None
      else case c_workers s ! j of
        WFetch u \<Rightarrow>
          Some (s\<lparr>c_calls := c_calls s @ [u],
                  c_workers := (c_workers s)[j := WSend (case Fetch u of None \<Rightarrow> [] | Some us \<Rightarrow> us)]\<rparr>)
      | WSend us \<Rightarrow>
          if c_break s then None
          else
            let s = coordinator_loop us (s\<lparr>c_workers := (c_workers s)[j := WGone]\<rparr>);
                s = s\<lparr>c_n := c_n s - 1\<rparr>
            in Some (if c_n s = 0 then s\<lparr>c_break := True\<rparr> else s)
      | WGone \<Rightarrow> None)"

fun chan_run :: "Fetcher \<Rightarrow> nat list \<Rightarrow> chan_system \<Rightarrow> chan_system option" where
  "chan_run Fetch [] s = Some s"
| "chan_run Fetch (j # js) s = do { s' \<leftarrow> chan_step Fetch j s; chan_run Fetch js s' }"

definition ConcurrentChannel :: "string \<Rightarrow> chan_system" where
  "ConcurrentChannel url =
     \<lparr>c_n = 1, c_fetched = {}, c_calls = [], c_workers = [WSend [url]], c_break = False\<rparr>"

section \<open>The pages of a site\<close>

inductive reach :: "Fetcher \<Rightarrow> string \<Rightarrow> string \<Rightarrow> bool" for Fetch root where
  reach_root: "reach Fetch root root"
| reach_link: "reach Fetch root u \<Longrightarrow> Fetch u = Some us \<Longrightarrow> v \<in> set us \<Longrightarrow> reach Fetch root v"

definition pages :: "Fetcher \<Rightarrow> string \<Rightarrow> string set" where
  "pages Fetch root = {u. reach Fetch root u}"

end
