(* ===== verification/Crawler_Properties.thy ===== *)
theory Crawler_Properties
  imports Crawler
begin

text \<open>
  The three crawlers fetch exactly the pages that can be reached, each once, and they come to an end
  whatever the scheduler does, as long as the site is finite.
\<close>

section \<open>The pages of a site\<close>

definition closed_in :: "Fetcher \<Rightarrow> string set \<Rightarrow> string set \<Rightarrow> bool" where
  "closed_in Fetch A B \<longleftrightarrow> (\<forall>u \<in> A. \<forall>us. Fetch u = Some us \<longrightarrow> set us \<subseteq> B)"

lemma closed_inD: "closed_in Fetch A B \<Longrightarrow> u \<in> A \<Longrightarrow> Fetch u = Some us \<Longrightarrow> v \<in> set us \<Longrightarrow> v \<in> B"
  by (auto simp: closed_in_def)

lemma pages_closed: "closed_in Fetch (pages Fetch root) (pages Fetch root)" and root_page: "root \<in> pages Fetch root"
  by (auto simp: closed_in_def pages_def intro: reach.intros)

lemma pages_least:
  assumes "root \<in> A" "closed_in Fetch A A"
  shows "pages Fetch root \<subseteq> A"
proof -
  have "u \<in> A" if "reach Fetch root u" for u
    using that assms by induction (auto dest: closed_inD)
  then show ?thesis by (auto simp: pages_def)
qed

section \<open>The serial crawler\<close>

lemma Serial_each_simps:
  "Serial_each Fetch [] st = Some st"
  "u \<in> fetched st \<Longrightarrow> Serial_each Fetch (u # us) st = Serial_each Fetch us st"
  "u \<notin> fetched st \<Longrightarrow> Fetch u = None \<Longrightarrow> Serial_each Fetch (u # us) st =
     Serial_each Fetch us (st\<lparr>fetched := insert u (fetched st), calls := calls st @ [u]\<rparr>)"
  "u \<notin> fetched st \<Longrightarrow> Fetch u = Some vs \<Longrightarrow> Serial_each Fetch (u # us) st =
     Serial_each Fetch vs (st\<lparr>fetched := insert u (fetched st), calls := calls st @ [u]\<rparr>) \<bind> Serial_each Fetch us"
  by (simp_all add: Serial_each.simps [of _ "u # us"] Serial_each.simps [of _ "[]"] Let_def)

text \<open>What a call has added: the pages, with their calls, and the pages that these link to.\<close>

definition crawled :: "Fetcher \<Rightarrow> string set \<Rightarrow> crawl \<Rightarrow> crawl \<Rightarrow> bool" where
  "crawled Fetch R st st' \<longleftrightarrow>
     fetched st \<subseteq> fetched st' \<and> fetched st' \<subseteq> R \<and>
     (\<exists>new. calls st' = calls st @ new \<and> distinct new \<and> set new = fetched st' - fetched st) \<and>
     closed_in Fetch (fetched st' - fetched st) (fetched st')"

lemma crawled_refl: "fetched st \<subseteq> R \<Longrightarrow> crawled Fetch R st st"
  by (auto simp: crawled_def closed_in_def)

lemma crawled_trans:
  assumes "crawled Fetch R st st1" "crawled Fetch R st1 st2"
  shows "crawled Fetch R st st2"
proof -
  obtain n1 n2 where "calls st1 = calls st @ n1" "distinct n1" "set n1 = fetched st1 - fetched st"
    "calls st2 = calls st1 @ n2" "distinct n2" "set n2 = fetched st2 - fetched st1"
    using assms by (auto simp: crawled_def)
  then have "\<exists>new. calls st2 = calls st @ new \<and> distinct new \<and> set new = fetched st2 - fetched st"
    using assms by (intro exI [of _ "n1 @ n2"]) (auto simp: crawled_def)
  moreover have "closed_in Fetch (fetched st2 - fetched st) (fetched st2)"
    using assms unfolding crawled_def closed_in_def by blast
  ultimately show ?thesis using assms by (auto simp: crawled_def)
qed

text \<open>The page \<open>u\<close> itself, once its links have been crawled.\<close>

lemma crawled_page:
  assumes "u \<in> R" "u \<notin> fetched st" "fetched st \<subseteq> R"
    and "crawled Fetch R (st\<lparr>fetched := insert u (fetched st), calls := calls st @ [u]\<rparr>) st'"
    and "\<And>us. Fetch u = Some us \<Longrightarrow> set us \<subseteq> fetched st'"
  shows "crawled Fetch R st st'"
proof -
  obtain new where "calls st' = calls st @ [u] @ new" "distinct new" "set new = fetched st' - insert u (fetched st)"
    using assms(4) by (auto simp: crawled_def)
  then have "\<exists>new. calls st' = calls st @ new \<and> distinct new \<and> set new = fetched st' - fetched st"
    using assms(2,4) by (intro exI [of _ "u # new"]) (auto simp: crawled_def)
  moreover have "closed_in Fetch (fetched st' - fetched st) (fetched st')"
    unfolding closed_in_def
  proof (intro ballI allI impI)
    fix v vs assume v: "v \<in> fetched st' - fetched st" "Fetch v = Some vs"
    have "closed_in Fetch (fetched st' - insert u (fetched st)) (fetched st')"
      using assms(4) by (simp add: crawled_def)
    then show "set vs \<subseteq> fetched st'" using v assms(5) by (cases "v = u") (auto dest: closed_inD)
  qed
  ultimately show ?thesis using assms(1,3,4) by (auto simp: crawled_def)
qed

lemma Serial_each_returns:
  assumes "finite R" "closed_in Fetch R R" "set us \<subseteq> R" "fetched st \<subseteq> R"
  shows "\<exists>st'. Serial_each Fetch us st = Some st' \<and> crawled Fetch R st st' \<and> set us \<subseteq> fetched st'"
  using assms(3,4)
proof (induction "(card (R - fetched st), us)" arbitrary: us st rule: wf_induct_rule
    [OF wf_lex_prod [OF wf_less wf_measure [of length]]])
  case (1 us st)
  show ?case
  proof (cases us)
    case Nil
    then show ?thesis using "1.prems" by (simp add: Serial_each_simps crawled_refl)
  next
    case (Cons u us')
    let ?st = "st\<lparr>fetched := insert u (fetched st), calls := calls st @ [u]\<rparr>"
    have u: "u \<in> R" "set us' \<subseteq> R" using "1.prems" Cons by auto
    show ?thesis
    proof (cases "u \<in> fetched st")
      case True
      then show ?thesis using "1.hyps" [of st us'] "1.prems" Cons u
        by (auto simp: Serial_each_simps crawled_def)
    next
      case False
      have less: "card (R - fetched st') < card (R - fetched st)" if "insert u (fetched st) \<subseteq> fetched st'" for st'
        using that u(1) False assms(1) by (intro psubset_card_mono) auto
      show ?thesis
      proof (cases "Fetch u")
        case None
        then obtain st' where "Serial_each Fetch us' ?st = Some st'" "crawled Fetch R ?st st'" "set us' \<subseteq> fetched st'"
          using "1.hyps" [of ?st us'] less [of ?st] u "1.prems" by auto
        then show ?thesis using None False Cons crawled_page [of u R st Fetch st'] u(1) "1.prems"
          by (auto simp: Serial_each_simps crawled_def [of Fetch R ?st])
      next
        case (Some vs)
        have "set vs \<subseteq> R" using assms(2) u(1) Some by (auto simp: closed_in_def)
        then obtain st1 where st1: "Serial_each Fetch vs ?st = Some st1" "crawled Fetch R ?st st1" "set vs \<subseteq> fetched st1"
          using "1.hyps" [of ?st vs] less [of ?st] u "1.prems" by auto
        then have "insert u (fetched st) \<subseteq> fetched st1" "fetched st1 \<subseteq> R" by (auto simp: crawled_def)
        with "1.hyps" [of st1 us'] less u(2) obtain st2 where
          st2: "Serial_each Fetch us' st1 = Some st2" "crawled Fetch R st1 st2" "set us' \<subseteq> fetched st2" by auto
        have c: "crawled Fetch R ?st st2" by (rule crawled_trans [OF st1(2) st2(2)])
        have "set vs \<subseteq> fetched st2" using st1(3) st2(2) by (auto simp: crawled_def)
        then have "crawled Fetch R st st2"
          using crawled_page [OF u(1) False "1.prems"(2) c] Some by auto
        then show ?thesis using st1 st2 c Some False Cons
          by (auto simp: Serial_each_simps crawled_def [of Fetch R ?st])
      qed
    qed
  qed
qed

lemma Serial_crawls:
  assumes "finite (pages Fetch root)"
  shows "\<exists>st. Serial root Fetch no_crawl = Some st \<and> fetched st = pages Fetch root \<and>
    distinct (calls st) \<and> set (calls st) = pages Fetch root"
proof -
  obtain st where st: "Serial root Fetch no_crawl = Some st" "crawled Fetch (pages Fetch root) no_crawl st" "root \<in> fetched st"
    using Serial_each_returns [OF assms pages_closed, of "[root]" no_crawl] root_page
    by (auto simp: Serial_def no_crawl_def)
  then have "fetched st = pages Fetch root"
    using pages_least [of root "fetched st" Fetch] by (auto simp: crawled_def no_crawl_def)
  with st show ?thesis by (auto simp: crawled_def no_crawl_def)
qed

section \<open>Counting goroutines\<close>

lemma split_at:
  assumes "i < length xs"
  obtains as bs where "xs = as @ xs ! i # bs" "\<And>y. xs[i := y] = as @ y # bs"
  using id_take_nth_drop [OF assms] upd_conv_take_nth_drop [OF assms] by blast

lemma filter_update:
  assumes "i < length xs"
  shows "mset (map f (filter P (xs[i := y]))) + (if P (xs ! i) then {#f (xs ! i)#} else {#}) =
     mset (map f (filter P xs)) + (if P y then {#f y#} else {#})"
proof -
  obtain as bs where "xs = as @ xs ! i # bs" "xs[i := y] = as @ y # bs" using split_at [OF assms] by metis
  note e = this [THEN arg_cong [where f = "filter P"]]
  have "filter P (as @ z # bs) = filter P as @ (if P z then [z] else []) @ filter P bs" for z by simp
  note e' = e(1) [THEN trans, OF this] e(2) [THEN trans, OF this]
  show ?thesis unfolding e' by simp
qed

lemma filter_update_same:
  assumes "i < length xs" "P y \<longleftrightarrow> P (xs ! i)" "f y = f (xs ! i)"
  shows "mset (map f (filter P (xs[i := y]))) = mset (map f (filter P xs))"
  using filter_update [OF assms(1), of f P y] assms(2,3) by (auto split: if_splits)

lemma length_filter_update:
  assumes "i < length xs"
  shows "length (filter P (xs[i := y])) + (if P (xs ! i) then 1 else 0) = length (filter P xs) + (if P y then 1 else 0)"
proof -
  from filter_update [OF assms, of id P y]
  have "size (mset (map id (filter P (xs[i := y]))) + (if P (xs ! i) then {#id (xs ! i)#} else {#})) =
      size (mset (map id (filter P xs)) + (if P y then {#id y#} else {#}))" by (rule arg_cong)
  then show ?thesis by (simp only: size_union size_mset length_map) (auto split: if_splits)
qed

lemma distinct_mset_set: "mset xs = mset_set A \<Longrightarrow> finite A \<Longrightarrow> distinct xs \<and> set xs = A"
  by (metis count_mset count_mset_set' distinct_count_atmost_1 finite_set_mset_mset_set set_mset_mset)

section \<open>The crawler with a mutex\<close>

abbreviation live :: "goroutine \<Rightarrow> bool" where
  "live t \<equiv> g_phase t \<noteq> GEnd"

definition children :: "nat \<Rightarrow> goroutine list \<Rightarrow> nat" where
  "children p ts = length (filter (\<lambda>t. g_parent t = Some p \<and> live t) ts)"

text \<open>The tree of goroutines, with the wait groups counting the children that have not returned.\<close>

definition tree_ok :: "goroutine list \<Rightarrow> bool" where
  "tree_ok ts \<longleftrightarrow> 0 < length ts \<and>
     (\<forall>i < length ts. (case g_parent (ts ! i) of None \<Rightarrow> i = 0 | Some p \<Rightarrow> p < i) \<and>
        g_done (ts ! i) = children i ts \<and>
        (g_phase (ts ! i) \<in> {GStart, GFetch, GEnd} \<longrightarrow> g_done (ts ! i) = 0))"

definition fetching :: "goroutine list \<Rightarrow> string multiset" where
  "fetching ts = mset (map g_url (filter (\<lambda>t. g_phase t = GFetch) ts))"

text \<open>The links still to be looked at.\<close>

definition links :: "goroutine \<Rightarrow> string set" where
  "links t = (case g_phase t of GStart \<Rightarrow> {g_url t} | GLoop us \<Rightarrow> set us | _ \<Rightarrow> {})"

definition to_visit :: "goroutine list \<Rightarrow> string set" where
  "to_visit ts = (\<Union>t \<in> set ts. links t)"

definition mutex_inv :: "Fetcher \<Rightarrow> string \<Rightarrow> mutex_system \<Rightarrow> bool" where
  "mutex_inv Fetch root s \<longleftrightarrow>
     tree_ok (m_threads s) \<and> finite (m_fetched s) \<and>
     mset (m_calls s) + fetching (m_threads s) = mset_set (m_fetched s) \<and>
     m_fetched s \<union> to_visit (m_threads s) \<subseteq> pages Fetch root \<and>
     root \<in> m_fetched s \<union> to_visit (m_threads s) \<and>
     closed_in Fetch (set (m_calls s)) (m_fetched s \<union> to_visit (m_threads s))"

lemma mutex_inv_start: "mutex_inv Fetch root (ConcurrentMutex_start root)"
  by (auto simp del: length_greater_0_conv simp: mutex_inv_def ConcurrentMutex_start_def new_goroutine_def tree_ok_def children_def fetching_def
      to_visit_def links_def closed_in_def root_page)

text \<open>The effect of changing one goroutine.\<close>

lemma children_update:
  assumes "i < length ts" "g_parent t = g_parent (ts ! i)" "live (ts ! i)"
  shows "children p (ts[i := t]) = (if g_parent t = Some p \<and> \<not> live t then children p ts - 1 else children p ts)"
  using length_filter_update [OF assms(1), of "\<lambda>t. g_parent t = Some p \<and> live t" t] assms(2,3)
  by (auto simp: children_def split: if_splits)

lemma children_same:
  assumes "i < length ts" "g_parent t = g_parent (ts ! i)" "live t \<longleftrightarrow> live (ts ! i)"
  shows "children p (ts[i := t]) = children p ts"
  using length_filter_update [OF assms(1), of "\<lambda>t. g_parent t = Some p \<and> live t" t] assms(2,3)
  by (auto simp: children_def split: if_splits)

lemma children_pos:
  "i < length ts \<Longrightarrow> g_parent (ts ! i) = Some p \<Longrightarrow> live (ts ! i) \<Longrightarrow> 0 < children p ts"
  by (auto simp: children_def filter_empty_conv)

lemma tree_set_phase:
  assumes "tree_ok ts" "i < length ts" "live (ts ! i)" "ph \<noteq> GEnd"
    and "ph \<in> {GStart, GFetch} \<longrightarrow> g_done (ts ! i) = 0"
  shows "tree_ok (set_phase i ph ts)"
proof -
  have c: "children p (set_phase i ph ts) = children p ts" for p
    unfolding set_phase_def by (rule children_same) (use assms in simp_all)
  show ?thesis using assms unfolding tree_ok_def c
    by (auto simp: set_phase_def nth_list_update split: option.splits)
qed

lemma nth_add_done:
  "p < length ts \<Longrightarrow> add_done p d ts ! j =
     (if j = p then (ts ! p)\<lparr>g_done := nat (int (g_done (ts ! p)) + d)\<rparr> else ts ! j)"
  by (simp add: add_done_def nth_list_update)

lemma nth_set_phase: "i < length ts \<Longrightarrow> set_phase i ph ts ! j = (if j = i then (ts ! i)\<lparr>g_phase := ph\<rparr> else ts ! j)"
  by (simp add: set_phase_def nth_list_update)

lemma length_threads [simp]:
  "length (set_phase i ph ts) = length ts" "length (add_done p d ts) = length ts"
  "length (goroutine_return i ts) = length ts"
  by (simp_all add: set_phase_def add_done_def goroutine_return_def split: option.splits)

lemma children_add_done [simp]: "p < length ts \<Longrightarrow> children q (add_done p d ts) = children q ts"
  unfolding add_done_def by (rule children_same) simp_all

lemma children_later:
  assumes "tree_ok ts" "length ts \<le> q"
  shows "children q ts = 0"
proof -
  have "g_parent t \<noteq> Some q" if t: "t \<in> set ts" for t
  proof
    assume q: "g_parent t = Some q"
    obtain i where "i < length ts" "t = ts ! i" using t by (auto simp: in_set_conv_nth)
    then show False using assms q by (fastforce simp: tree_ok_def)
  qed
  then show ?thesis by (simp add: children_def filter_empty_conv)
qed

lemma tree_return:
  assumes "tree_ok ts" "i < length ts" "live (ts ! i)" "g_done (ts ! i) = 0"
  shows "tree_ok (goroutine_return i ts)"
proof -
  let ?ts = "set_phase i GEnd ts"
  have c: "children q ?ts = (if g_parent (ts ! i) = Some q then children q ts - 1 else children q ts)" for q
    unfolding set_phase_def using children_update [OF assms(2) _ assms(3), of "(ts ! i)\<lparr>g_phase := GEnd\<rparr>" q] by simp
  show ?thesis
  proof (cases "g_parent (ts ! i)")
    case None
    then show ?thesis using assms(1,2,4) unfolding tree_ok_def goroutine_return_def
      by (auto simp del: length_greater_0_conv simp: c nth_set_phase split: option.splits)
  next
    case (Some p)
    then have p: "p < i" "p < length ts" using assms(1,2) by (auto simp: tree_ok_def split: option.splits)
    have d: "0 < g_done (ts ! p)" using children_pos [OF assms(2) Some assms(3)] assms(1) p by (simp add: tree_ok_def)
    then have "g_phase (ts ! p) \<notin> {GStart, GFetch, GEnd}" using assms(1) p(2) unfolding tree_ok_def by (metis less_irrefl)
    with d show ?thesis using assms(1,2,4) p Some unfolding tree_ok_def goroutine_return_def
      by (auto simp del: length_greater_0_conv simp: c nth_set_phase nth_add_done split: option.splits)
  qed
qed

lemma tree_spawn:
  assumes "tree_ok ts" "i < length ts" "g_phase (ts ! i) = GLoop (u # us)"
  shows "tree_ok (add_done i 1 (set_phase i (GLoop us) ts) @ [new_goroutine u (Some i)])"
proof -
  let ?ts = "set_phase i (GLoop us) ts"
  have t: "tree_ok ?ts" by (rule tree_set_phase) (use assms in auto)
  have c: "children q (add_done i 1 ?ts @ [new_goroutine u (Some i)]) = (if q = i then Suc (children q ?ts) else children q ?ts)" for q
    using assms(2) children_add_done [of i ?ts q 1] by (simp add: children_def new_goroutine_def)
  have "children (length ts) ?ts = 0" using t by (intro children_later) simp_all
  then show ?thesis using t assms(2) unfolding tree_ok_def c
    by (auto simp: nth_append nth_add_done nth_set_phase new_goroutine_def less_Suc_eq split: option.splits if_splits)
qed

lemma visit_update:
  assumes "i < length ts"
  obtains rest where "to_visit ts = links (ts ! i) \<union> rest" "\<And>t. to_visit (ts[i := t]) = links t \<union> rest"
proof -
  obtain as bs where "ts = as @ ts ! i # bs" "\<And>t. ts[i := t] = as @ t # bs" using split_at [OF assms] by metis
  then have "set ts = set as \<union> {ts ! i} \<union> set bs" "\<And>t. set (ts[i := t]) = set as \<union> {t} \<union> set bs"
    by (metis Un_insert_right list.simps(15) set_append sup_bot_right insert_is_Un Un_assoc)+
  then have "to_visit ts = links (ts ! i) \<union> (to_visit as \<union> to_visit bs)"
    "\<And>t. to_visit (ts[i := t]) = links t \<union> (to_visit as \<union> to_visit bs)" by (auto simp: to_visit_def)
  then show ?thesis by (rule that)
qed

lemma links_add_done [simp]: "to_visit (add_done p d ts) = to_visit ts" "fetching (add_done p d ts) = fetching ts"
proof -
  show "to_visit (add_done p d ts) = to_visit ts"
  proof (cases "p < length ts")
    case True
    from visit_update [OF True] obtain rest where r: "to_visit ts = links (ts ! p) \<union> rest"
      "\<And>t. to_visit (ts[p := t]) = links t \<union> rest" by blast
    show ?thesis unfolding add_done_def r by (simp add: links_def split: gphase.splits)
  qed (simp add: add_done_def list_update_beyond)
  show "fetching (add_done p d ts) = fetching ts"
    by (cases "p < length ts") (simp_all add: fetching_def add_done_def filter_update_same list_update_beyond del: mset_map)
qed

lemma links_return [simp]:
  "to_visit (goroutine_return i ts) = to_visit (set_phase i GEnd ts)"
  "fetching (goroutine_return i ts) = fetching (set_phase i GEnd ts)"
  by (simp_all add: goroutine_return_def split: option.splits)

text \<open>What a change of phase does to the links to visit and the pages being fetched.\<close>

lemma phase_effect:
  assumes "i < length ts"
  obtains rest more where "to_visit ts = links (ts ! i) \<union> rest"
    "\<And>ph. to_visit (set_phase i ph ts) = links ((ts ! i)\<lparr>g_phase := ph\<rparr>) \<union> rest"
    "fetching ts = (if g_phase (ts ! i) = GFetch then {#g_url (ts ! i)#} else {#}) + more"
    "\<And>ph. fetching (set_phase i ph ts) = (if ph = GFetch then {#g_url (ts ! i)#} else {#}) + more"
proof -
  obtain rest where r: "to_visit ts = links (ts ! i) \<union> rest" "\<And>t. to_visit (ts[i := t]) = links t \<union> rest"
    using visit_update [OF assms] by blast
  define more where "more = fetching (set_phase i GEnd ts)"
  note f = filter_update [OF assms, of g_url "\<lambda>t. g_phase t = GFetch", folded fetching_def]
  have m: "more + (if g_phase (ts ! i) = GFetch then {#g_url (ts ! i)#} else {#}) = fetching ts"
    using f [of "(ts ! i)\<lparr>g_phase := GEnd\<rparr>"] by (simp add: more_def set_phase_def)
  have "fetching (set_phase i ph ts) = (if ph = GFetch then {#g_url (ts ! i)#} else {#}) + more" for ph
    using f [of "(ts ! i)\<lparr>g_phase := ph\<rparr>"] m [symmetric] by (auto simp: set_phase_def split: if_splits)
  then show ?thesis using that [of rest more] r m by (simp add: set_phase_def union_commute)
qed

text \<open>A step never loses a page that is known; it may add the links of the page just fetched.\<close>

lemma mutex_inv_change:
  assumes "mutex_inv Fetch root s" "tree_ok (m_threads s')" "finite (m_fetched s')"
    and "mset (m_calls s') + fetching (m_threads s') = mset_set (m_fetched s')"
    and "m_fetched s' \<union> to_visit (m_threads s') = m_fetched s \<union> to_visit (m_threads s) \<union> W"
    and "W \<subseteq> pages Fetch root" "set (m_calls s') \<subseteq> set (m_calls s) \<union> A" "closed_in Fetch A W"
  shows "mutex_inv Fetch root s'"
  using assms unfolding mutex_inv_def assms(5) closed_in_def by blast

lemma mutex_step_inv:
  assumes inv: "mutex_inv Fetch root s" and step: "mutex_step Fetch i s = Some s'"
  shows "mutex_inv Fetch root s'"
proof -
  let ?ts = "m_threads s" and ?u = "g_url (m_threads s ! i)"
  have i: "i < length ?ts" using step by (auto simp: mutex_step_def Let_def split: if_splits)
  note tree = inv [unfolded mutex_inv_def, THEN conjunct1]
  have idle: "g_phase (?ts ! i) \<in> {GStart, GFetch} \<Longrightarrow> g_done (?ts ! i) = 0"
    using tree i unfolding tree_ok_def by blast
  obtain rest more where e: "to_visit ?ts = links (?ts ! i) \<union> rest"
    "\<And>ph. to_visit (set_phase i ph ?ts) = links ((?ts ! i)\<lparr>g_phase := ph\<rparr>) \<union> rest"
    "fetching ?ts = (if g_phase (?ts ! i) = GFetch then {#?u#} else {#}) + more"
    "\<And>ph. fetching (set_phase i ph ?ts) = (if ph = GFetch then {#?u#} else {#}) + more"
    using phase_effect [OF i] by blast
  note I = inv [unfolded mutex_inv_def e(1,3)]
  show ?thesis
  proof (cases "g_phase (?ts ! i)")
    case GStart
    show ?thesis
    proof (cases "?u \<in> m_fetched s")
      case True
      then have "s' = s\<lparr>m_threads := goroutine_return i ?ts\<rparr>"
        using step i GStart by (simp add: mutex_step_def testAndSet_def Let_def insert_absorb)
      then show ?thesis using I GStart True tree_return [OF tree i] idle
        by (intro mutex_inv_change [OF inv, of _ "{}" "{}"]) (auto simp: e links_def closed_in_def)
    next
      case False
      then have "s' = s\<lparr>m_fetched := insert ?u (m_fetched s), m_threads := set_phase i GFetch ?ts\<rparr>"
        using step i GStart by (simp add: mutex_step_def testAndSet_def Let_def)
      then show ?thesis using I GStart False tree_set_phase [OF tree i, of GFetch] idle
        by (intro mutex_inv_change [OF inv, of _ "{}" "{}"]) (auto simp: e links_def closed_in_def)
    qed
  next
    case GFetch
    have u: "?u \<in> pages Fetch root"
    proof -
      have "?u \<in># mset_set (m_fetched s)" using I GFetch by (metis add_mset_add_single union_iff multi_member_last union_commute)
      then show ?thesis using I by auto
    qed
    show ?thesis
    proof (cases "Fetch ?u")
      case None
      then have "s' = s\<lparr>m_calls := m_calls s @ [?u], m_threads := goroutine_return i ?ts\<rparr>"
        using step i GFetch by (simp add: mutex_step_def Let_def)
      then show ?thesis using I GFetch None tree_return [OF tree i] idle
        by (intro mutex_inv_change [OF inv, of _ "{}" "{?u}"]) (auto simp: e links_def closed_in_def)
    next
      case (Some us)
      then have "s' = s\<lparr>m_calls := m_calls s @ [?u], m_threads := set_phase i (GLoop us) ?ts\<rparr>"
        using step i GFetch by (simp add: mutex_step_def Let_def)
      moreover have "set us \<subseteq> pages Fetch root" using pages_closed u Some by (auto simp: closed_in_def)
      ultimately show ?thesis using I GFetch Some tree_set_phase [OF tree i, of "GLoop us"]
        by (intro mutex_inv_change [OF inv, of _ "set us" "{?u}"]) (auto simp: e links_def closed_in_def)
    qed
  next
    case (GLoop us)
    show ?thesis
    proof (cases us)
      case Nil
      then have "s' = s\<lparr>m_threads := set_phase i GWait ?ts\<rparr>"
        using step i GLoop by (simp add: mutex_step_def Let_def)
      then show ?thesis using I GLoop Nil tree_set_phase [OF tree i, of GWait]
        by (intro mutex_inv_change [OF inv, of _ "{}" "{}"]) (auto simp: e links_def closed_in_def)
    next
      case (Cons v vs)
      let ?ts' = "add_done i 1 (set_phase i (GLoop vs) ?ts)"
      have s': "s' = s\<lparr>m_threads := ?ts' @ [new_goroutine v (Some i)]\<rparr>"
        using step i GLoop Cons by (simp add: mutex_step_def Let_def)
      have "to_visit (?ts' @ [new_goroutine v (Some i)]) = insert v (to_visit ?ts')"
        "fetching (?ts' @ [new_goroutine v (Some i)]) = fetching ?ts'"
        by (auto simp: to_visit_def fetching_def new_goroutine_def links_def)
      then show ?thesis using I GLoop Cons tree_spawn [OF tree i, of v vs]
        by (intro mutex_inv_change [OF inv, of _ "{}" "{}"]) (auto simp: s' e links_def closed_in_def)
    qed
  next
    case GWait
    then have "s' = s\<lparr>m_threads := goroutine_return i ?ts\<rparr>" "g_done (?ts ! i) = 0"
      using step i by (auto simp: mutex_step_def Let_def split: if_splits)
    then show ?thesis using I GWait tree_return [OF tree i]
      by (intro mutex_inv_change [OF inv, of _ "{}" "{}"]) (auto simp: e links_def closed_in_def)
  qed (use step i in \<open>simp add: mutex_step_def\<close>)
qed

lemma mutex_run_inv: "mutex_inv Fetch root s \<Longrightarrow> mutex_run Fetch is s = Some s' \<Longrightarrow> mutex_inv Fetch root s'"
  by (induction Fetch "is" s rule: mutex_run.induct) (auto split: bind_splits intro: mutex_step_inv)

text \<open>When the first call has returned, so have all goroutines, and the site has been crawled.\<close>

lemma all_returned:
  assumes "tree_ok ts" "\<not> live (ts ! 0)" "i < length ts"
  shows "\<not> live (ts ! i)"
  using assms(3)
proof (induction i rule: less_induct)
  case (less i)
  show ?case
  proof (cases "g_parent (ts ! i)")
    case None
    then have "i = 0" using assms(1) less.prems by (auto simp: tree_ok_def split: option.splits)
    then show ?thesis using assms(2) by simp
  next
    case (Some p)
    then have p: "p < i" using assms(1) less.prems by (auto simp: tree_ok_def split: option.splits)
    then have "\<not> live (ts ! p)" "p < length ts" using less.IH [OF p] less.prems by simp_all
    then have "g_done (ts ! p) = 0" using assms(1) unfolding tree_ok_def by blast
    then have "children p ts = 0" using assms(1) less.prems p by (simp add: tree_ok_def)
    then show ?thesis using children_pos [OF less.prems Some] by auto
  qed
qed

lemma mutex_crawls:
  assumes inv: "mutex_inv Fetch root s" and "mutex_returned s"
  shows "m_fetched s = pages Fetch root \<and> distinct (m_calls s) \<and> set (m_calls s) = pages Fetch root \<and>
    list_all (\<lambda>t. g_phase t = GEnd) (m_threads s)"
proof -
  have tree: "tree_ok (m_threads s)" using inv by (simp add: mutex_inv_def)
  have e: "list_all (\<lambda>t. g_phase t = GEnd) (m_threads s)"
    using all_returned [OF tree] assms(2) by (simp add: mutex_returned_def list_all_length)
  then have z: "to_visit (m_threads s) = {}" "fetching (m_threads s) = {#}"
    by (auto simp: to_visit_def links_def fetching_def list_all_iff)
  have "distinct (m_calls s) \<and> set (m_calls s) = m_fetched s"
    by (rule distinct_mset_set) (use inv z in \<open>simp_all add: mutex_inv_def\<close>)
  then show ?thesis using inv z e pages_least [of root "m_fetched s" Fetch] by (auto simp: mutex_inv_def)
qed

text \<open>As long as it has not returned, some goroutine can take a step.\<close>

lemma mutex_progress:
  assumes inv: "mutex_inv Fetch root s" and "\<not> mutex_returned s"
  shows "\<exists>i s'. mutex_step Fetch i s = Some s'"
proof -
  let ?ts = "m_threads s" and ?L = "{i. i < length (m_threads s) \<and> live (m_threads s ! i)}"
  have tree: "tree_ok ?ts" using inv by (simp add: mutex_inv_def)
  have "0 \<in> ?L" using assms(2) tree by (simp add: mutex_returned_def tree_ok_def)
  then have ne: "?L \<noteq> {}" by blast
  have fin: "finite ?L" by simp
  note i = Max_in [OF fin ne] Max_ge [OF fin]
  define i where "i = Max ?L"
  have "children i ?ts = 0"
  proof (rule ccontr)
    assume "children i ?ts \<noteq> 0"
    then obtain j where j: "j < length ?ts" "g_parent (?ts ! j) = Some i" "live (?ts ! j)"
      by (auto simp: children_def filter_empty_conv in_set_conv_nth)
    then have "i < j" using tree by (fastforce simp: tree_ok_def)
    moreover have "j \<in> ?L" using j by simp
    from i(2) [OF this] have "j \<le> i" by (simp only: i_def)
    ultimately show False by simp
  qed
  then have "g_done (?ts ! i) = 0" "i < length ?ts" "live (?ts ! i)" using tree i(1) by (auto simp: tree_ok_def i_def)
  then have "\<exists>s'. mutex_step Fetch i s = Some s'"
    by (auto simp: mutex_step_def Let_def split: gphase.splits list.splits option.splits prod.splits)
  then show ?thesis by blast
qed

text \<open>The steps that are left: those of the goroutines, and those of the pages not fetched yet.\<close>

definition loop_steps :: "string list \<Rightarrow> nat" where
  "loop_steps us = 2 + 2 * length us"

definition page_steps :: "Fetcher \<Rightarrow> string \<Rightarrow> nat" where
  "page_steps Fetch u = 1 + (case Fetch u of None \<Rightarrow> 0 | Some us \<Rightarrow> loop_steps us)"

definition phase_steps :: "Fetcher \<Rightarrow> goroutine \<Rightarrow> nat" where
  "phase_steps Fetch t =
     (case g_phase t of
        GStart \<Rightarrow> 1
      | GFetch \<Rightarrow> page_steps Fetch (g_url t)
      | GLoop us \<Rightarrow> loop_steps us
      | GWait \<Rightarrow> 1
      | GEnd \<Rightarrow> 0)"

definition mutex_steps_left :: "Fetcher \<Rightarrow> string \<Rightarrow> mutex_system \<Rightarrow> nat" where
  "mutex_steps_left Fetch root s =
     sum (page_steps Fetch) (pages Fetch root - m_fetched s) + sum_list (map (phase_steps Fetch) (m_threads s))"

lemma sum_list_update:
  fixes f :: "'a \<Rightarrow> 'b :: comm_monoid_add"
  assumes "i < length xs"
  shows "sum_list (map f (xs[i := y])) + f (xs ! i) = sum_list (map f xs) + f y"
proof -
  obtain as bs where "xs = as @ xs ! i # bs" "xs[i := y] = as @ y # bs" using split_at [OF assms] by metis
  note e = this [THEN arg_cong [where f = "\<lambda>xs. sum_list (map f xs)"]]
  have "sum_list (map f (as @ z # bs)) = sum_list (map f as) + f z + sum_list (map f bs)" for z
    by (simp add: ac_simps)
  note e' = e(1) [THEN trans, OF this] e(2) [THEN trans, OF this]
  show ?thesis unfolding e' by (simp add: ac_simps)
qed

lemma steps_set_phase:
  assumes "i < length ts"
  shows "sum_list (map (phase_steps Fetch) (set_phase i ph ts)) + phase_steps Fetch (ts ! i) =
    sum_list (map (phase_steps Fetch) ts) + phase_steps Fetch ((ts ! i)\<lparr>g_phase := ph\<rparr>)"
  unfolding set_phase_def by (rule sum_list_update [OF assms])

lemma steps_add_done [simp]:
  "sum_list (map (phase_steps Fetch) (add_done p d ts)) = sum_list (map (phase_steps Fetch) ts)"
proof (cases "p < length ts")
  case True
  let ?t = "(ts ! p)\<lparr>g_done := nat (int (g_done (ts ! p)) + d)\<rparr>"
  have "phase_steps Fetch ?t = phase_steps Fetch (ts ! p)" by (simp add: phase_steps_def split: gphase.splits)
  then show ?thesis using sum_list_update [OF True, of "phase_steps Fetch" ?t] by (simp add: add_done_def)
qed (simp add: add_done_def list_update_beyond)

lemma steps_return [simp]:
  "sum_list (map (phase_steps Fetch) (goroutine_return i ts)) = sum_list (map (phase_steps Fetch) (set_phase i GEnd ts))"
  by (simp add: goroutine_return_def split: option.splits)

lemma mutex_step_decreases:
  assumes inv: "mutex_inv Fetch root s" and fin: "finite (pages Fetch root)" and step: "mutex_step Fetch i s = Some s'"
  shows "mutex_steps_left Fetch root s' < mutex_steps_left Fetch root s"
proof -
  let ?ts = "m_threads s" and ?u = "g_url (m_threads s ! i)"
  have i: "i < length ?ts" using step by (auto simp: mutex_step_def Let_def split: if_splits)
  note st = steps_set_phase [OF i, of Fetch] and defs = mutex_steps_left_def phase_steps_def
  have new: "sum (page_steps Fetch) (pages Fetch root - m_fetched s) =
      page_steps Fetch ?u + sum (page_steps Fetch) (pages Fetch root - insert ?u (m_fetched s))"
    if "g_phase (?ts ! i) = GStart" "?u \<notin> m_fetched s"
  proof -
    have "?u \<in> to_visit ?ts" using that(1) i unfolding to_visit_def
      by (intro UN_I [of "?ts ! i"]) (simp_all add: links_def)
    then have "?u \<in> pages Fetch root - m_fetched s" using inv that(2) by (auto simp: mutex_inv_def)
    then show ?thesis using sum.remove [of "pages Fetch root - m_fetched s" ?u "page_steps Fetch"] fin
      by (simp add: insert_Diff_if Diff_insert [symmetric])
  qed
  show ?thesis
  proof (cases "g_phase (?ts ! i)")
    case GStart
    then show ?thesis using step i st [of GEnd] st [of GFetch] new
      by (cases "?u \<in> m_fetched s") (auto simp: mutex_step_def testAndSet_def Let_def defs insert_absorb)
  next
    case GFetch
    then show ?thesis using step i st [of GEnd] st [of "GLoop (the (Fetch ?u))"]
      by (cases "Fetch ?u") (auto simp: mutex_step_def Let_def defs page_steps_def)
  next
    case (GLoop us)
    then show ?thesis using step i st [of GWait] st [of "GLoop (tl us)"]
      by (cases us) (auto simp: mutex_step_def Let_def defs loop_steps_def new_goroutine_def)
  next
    case GWait
    then show ?thesis using step i st [of GEnd] by (auto simp: mutex_step_def Let_def defs split: if_splits)
  qed (use step i in \<open>simp add: mutex_step_def\<close>)
qed

lemma mutex_run_bounded:
  assumes "finite (pages Fetch root)"
  shows "mutex_inv Fetch root s \<Longrightarrow> mutex_run Fetch is s = Some s' \<Longrightarrow> length is \<le> mutex_steps_left Fetch root s"
proof (induction "is" arbitrary: s)
  case (Cons i "is")
  then obtain s1 where s1: "mutex_step Fetch i s = Some s1" "mutex_run Fetch is s1 = Some s'"
    by (auto split: bind_splits)
  have "length is \<le> mutex_steps_left Fetch root s1"
    by (rule Cons.IH [OF mutex_step_inv [OF Cons.prems(1) s1(1)] s1(2)])
  then show ?case using mutex_step_decreases [OF Cons.prems(1) assms s1(1)] by simp
qed simp

section \<open>The crawler with a coordinator\<close>

definition w_fetching :: "wphase list \<Rightarrow> string multiset" where
  "w_fetching ws = sum_list (map (\<lambda>w. case w of WFetch u \<Rightarrow> {#u#} | _ \<Rightarrow> {#}) ws)"

definition w_links :: "wphase list \<Rightarrow> string set" where
  "w_links ws = (\<Union>w \<in> set ws. case w of WSend us \<Rightarrow> set us | _ \<Rightarrow> {})"

definition w_active :: "wphase list \<Rightarrow> nat" where
  "w_active ws = sum_list (map (\<lambda>w. if w = WGone then 0 else 1) ws)"

definition chan_inv :: "Fetcher \<Rightarrow> string \<Rightarrow> chan_system \<Rightarrow> bool" where
  "chan_inv Fetch root s \<longleftrightarrow>
     c_n s = int (w_active (c_workers s)) \<and> (c_break s \<longleftrightarrow> c_n s = 0) \<and> finite (c_fetched s) \<and>
     mset (c_calls s) + w_fetching (c_workers s) = mset_set (c_fetched s) \<and>
     c_fetched s \<union> w_links (c_workers s) \<subseteq> pages Fetch root \<and>
     root \<in> c_fetched s \<union> w_links (c_workers s) \<and>
     closed_in Fetch (set (c_calls s)) (c_fetched s \<union> w_links (c_workers s))"

lemma chan_inv_start: "chan_inv Fetch root (ConcurrentChannel root)"
  by (auto simp: chan_inv_def ConcurrentChannel_def w_fetching_def w_links_def w_active_def closed_in_def root_page)

lemma coordinator_loop_effect:
  "\<exists>new. distinct new \<and> set new = set us - c_fetched s \<and>
     coordinator_loop us s = s\<lparr>c_fetched := c_fetched s \<union> set us, c_n := c_n s + int (length new),
       c_workers := c_workers s @ map WFetch new\<rparr>"
proof (induction us s rule: coordinator_loop.induct)
  case (2 u us s)
  show ?case
  proof (cases "u \<in> c_fetched s")
    case True
    then obtain new where "distinct new" "set new = set us - c_fetched s" "coordinator_loop us s =
        s\<lparr>c_fetched := c_fetched s \<union> set us, c_n := c_n s + int (length new), c_workers := c_workers s @ map WFetch new\<rparr>"
      using 2 by auto
    then show ?thesis using True by (intro exI [of _ new]) (auto simp: insert_absorb)
  next
    case False
    let ?s = "s\<lparr>c_fetched := insert u (c_fetched s), c_n := c_n s + 1, c_workers := c_workers s @ [WFetch u]\<rparr>"
    obtain new where "distinct new" "set new = set us - insert u (c_fetched s)" "coordinator_loop us ?s =
        ?s\<lparr>c_fetched := c_fetched ?s \<union> set us, c_n := c_n ?s + int (length new), c_workers := c_workers ?s @ map WFetch new\<rparr>"
      using 2(1) False by auto
    then show ?thesis using False by (intro exI [of _ "u # new"]) auto
  qed
qed (auto intro: exI [of _ "[]"])

lemma w_append [simp]:
  "w_fetching (ws @ map WFetch new) = w_fetching ws + mset new"
  "w_links (ws @ map WFetch new) = w_links ws"
  "w_active (ws @ map WFetch new) = w_active ws + length new"
  by (induction new) (auto simp: w_fetching_def w_links_def w_active_def comp_def)

lemma worker_effect:
  assumes "j < length ws"
  obtains rest more k where
    "w_links ws = (case ws ! j of WSend us \<Rightarrow> set us | _ \<Rightarrow> {}) \<union> rest"
    "\<And>w. w_links (ws[j := w]) = (case w of WSend us \<Rightarrow> set us | _ \<Rightarrow> {}) \<union> rest"
    "w_fetching ws = (case ws ! j of WFetch u \<Rightarrow> {#u#} | _ \<Rightarrow> {#}) + more"
    "\<And>w. w_fetching (ws[j := w]) = (case w of WFetch u \<Rightarrow> {#u#} | _ \<Rightarrow> {#}) + more"
    "w_active ws = (if ws ! j = WGone then 0 else 1) + k"
    "\<And>w. w_active (ws[j := w]) = (if w = WGone then 0 else 1) + k"
proof -
  obtain as bs where s: "ws = as @ ws ! j # bs" "\<And>w. ws[j := w] = as @ w # bs" using split_at [OF assms] by metis
  have e: "w_links (as @ w # bs) = (case w of WSend us \<Rightarrow> set us | _ \<Rightarrow> {}) \<union> (w_links as \<union> w_links bs)"
    "w_fetching (as @ w # bs) = (case w of WFetch u \<Rightarrow> {#u#} | _ \<Rightarrow> {#}) + (w_fetching as + w_fetching bs)"
    "w_active (as @ w # bs) = (if w = WGone then 0 else 1) + (w_active as + w_active bs)" for w
    by (auto simp: w_links_def w_fetching_def w_active_def ac_simps)
  show ?thesis
    by (rule that [of "w_links as \<union> w_links bs" "w_fetching as + w_fetching bs" "w_active as + w_active bs"])
       (simp_all only: s(2) e, (subst s(1), rule e)+)
qed

lemma chan_step_cases:
  assumes "chan_step Fetch j s = Some s'"
  obtains (fetch) u where "j < length (c_workers s)" "c_workers s ! j = WFetch u"
      "s' = s\<lparr>c_calls := c_calls s @ [u],
         c_workers := (c_workers s)[j := WSend (case Fetch u of None \<Rightarrow> [] | Some us \<Rightarrow> us)]\<rparr>"
    | (receive) us new where "j < length (c_workers s)" "c_workers s ! j = WSend us" "\<not> c_break s"
      "distinct new" "set new = set us - c_fetched s"
      "s' = s\<lparr>c_fetched := c_fetched s \<union> set us, c_n := c_n s + int (length new) - 1,
         c_workers := (c_workers s)[j := WGone] @ map WFetch new, c_break := (c_n s + int (length new) - 1 = 0)\<rparr>"
proof (cases "c_workers s ! j")
  case (WFetch u)
  then show ?thesis using assms by (intro fetch [of u]) (auto simp: chan_step_def split: if_splits)
next
  case (WSend us)
  obtain new where n: "distinct new" "set new = set us - c_fetched s"
    "coordinator_loop us (s\<lparr>c_workers := (c_workers s)[j := WGone]\<rparr>) =
       s\<lparr>c_fetched := c_fetched s \<union> set us, c_n := c_n s + int (length new),
         c_workers := (c_workers s)[j := WGone] @ map WFetch new\<rparr>"
    using coordinator_loop_effect [of us "s\<lparr>c_workers := (c_workers s)[j := WGone]\<rparr>"] by auto
  show ?thesis
  proof (rule receive [of us new])
    show "\<not> c_break s" "j < length (c_workers s)" using assms WSend by (auto simp: chan_step_def split: if_splits)
    then show "s' = s\<lparr>c_fetched := c_fetched s \<union> set us, c_n := c_n s + int (length new) - 1,
         c_workers := (c_workers s)[j := WGone] @ map WFetch new, c_break := (c_n s + int (length new) - 1 = 0)\<rparr>"
      using assms WSend n(3) by (auto simp: chan_step_def Let_def)
  qed (use n WSend in simp_all)
qed (use assms in \<open>auto simp: chan_step_def split: if_splits\<close>)

lemma chan_step_inv:
  assumes inv: "chan_inv Fetch root s" and step: "chan_step Fetch j s = Some s'"
  shows "chan_inv Fetch root s'"
  using step
proof (cases rule: chan_step_cases)
  case (fetch u)
  obtain rest more k where g:
    "w_links (c_workers s) = (case c_workers s ! j of WSend us \<Rightarrow> set us | _ \<Rightarrow> {}) \<union> rest"
    "\<And>w. w_links ((c_workers s)[j := w]) = (case w of WSend us \<Rightarrow> set us | _ \<Rightarrow> {}) \<union> rest"
    "w_fetching (c_workers s) = (case c_workers s ! j of WFetch u \<Rightarrow> {#u#} | _ \<Rightarrow> {#}) + more"
    "\<And>w. w_fetching ((c_workers s)[j := w]) = (case w of WFetch u \<Rightarrow> {#u#} | _ \<Rightarrow> {#}) + more"
    "w_active (c_workers s) = (if c_workers s ! j = WGone then 0 else 1) + k"
    "\<And>w. w_active ((c_workers s)[j := w]) = (if w = WGone then 0 else 1) + k"
    by (rule worker_effect [OF fetch(1)]) metis
  have e: "w_links (c_workers s) = rest" "w_links ((c_workers s)[j := WSend us]) = set us \<union> rest"
    "w_fetching (c_workers s) = {#u#} + more" "w_fetching ((c_workers s)[j := WSend us]) = more"
    "w_active (c_workers s) = 1 + k" "w_active ((c_workers s)[j := WSend us]) = 1 + k" for us
    by (simp_all add: g fetch(2))
  note I = inv [unfolded chan_inv_def e(1,3,5)]
  have "u \<in># mset_set (c_fetched s)" using I by (metis multi_member_last union_iff union_commute)
  then have u: "u \<in> pages Fetch root" using I by auto
  let ?us = "case Fetch u of None \<Rightarrow> [] | Some us \<Rightarrow> us"
  have us: "set ?us \<subseteq> pages Fetch root" 
    by (cases "Fetch u") (auto dest: closed_inD [OF pages_closed u])
  have "closed_in Fetch (insert u (set (c_calls s))) (c_fetched s \<union> (set ?us \<union> rest))"
    using I unfolding closed_in_def by fastforce
  then show ?thesis using I us unfolding fetch(3) chan_inv_def by (auto simp: e)
next
  case (receive us new)
  obtain rest more k where g:
    "w_links (c_workers s) = (case c_workers s ! j of WSend us \<Rightarrow> set us | _ \<Rightarrow> {}) \<union> rest"
    "\<And>w. w_links ((c_workers s)[j := w]) = (case w of WSend us \<Rightarrow> set us | _ \<Rightarrow> {}) \<union> rest"
    "w_fetching (c_workers s) = (case c_workers s ! j of WFetch u \<Rightarrow> {#u#} | _ \<Rightarrow> {#}) + more"
    "\<And>w. w_fetching ((c_workers s)[j := w]) = (case w of WFetch u \<Rightarrow> {#u#} | _ \<Rightarrow> {#}) + more"
    "w_active (c_workers s) = (if c_workers s ! j = WGone then 0 else 1) + k"
    "\<And>w. w_active ((c_workers s)[j := w]) = (if w = WGone then 0 else 1) + k"
    by (rule worker_effect [OF receive(1)]) metis
  have e: "w_links (c_workers s) = set us \<union> rest" "w_links ((c_workers s)[j := WGone]) = rest"
    "w_fetching (c_workers s) = more" "w_fetching ((c_workers s)[j := WGone]) = more"
    "w_active (c_workers s) = 1 + k" "w_active ((c_workers s)[j := WGone]) = k"
    by (simp_all add: g receive(2))
  note I = inv [unfolded chan_inv_def e(1,3,5)]
  have "mset_set (c_fetched s \<union> set us) = mset_set (c_fetched s) + mset_set (set new)"
    using I receive(5) by (metis Diff_disjoint Un_Diff_cancel finite_set mset_set_Union)
  moreover have "mset_set (set new) = mset new" using receive(4) by (simp add: mset_set_set)
  ultimately have "mset (c_calls s) + (more + mset new) = mset_set (c_fetched s \<union> set us)" using I by (simp add: ac_simps)
  moreover have "c_fetched s \<union> (set us \<union> rest) = c_fetched s \<union> set us \<union> rest" by blast
  ultimately show ?thesis using I unfolding receive(6) chan_inv_def by (simp add: e)
qed

lemma chan_run_inv: "chan_inv Fetch root s \<Longrightarrow> chan_run Fetch js s = Some s' \<Longrightarrow> chan_inv Fetch root s'"
  by (induction Fetch js s rule: chan_run.induct) (auto split: bind_splits intro: chan_step_inv)

lemma w_active_0: "w_active ws = 0 \<longleftrightarrow> (\<forall>w \<in> set ws. w = WGone)"
  by (induction ws) (auto simp: w_active_def)

lemma w_fetching_gone: "\<forall>w \<in> set ws. w = WGone \<Longrightarrow> w_fetching ws = {#}"
  by (induction ws) (auto simp: w_fetching_def)

lemma chan_crawls:
  assumes inv: "chan_inv Fetch root s" and "c_break s"
  shows "c_fetched s = pages Fetch root \<and> distinct (c_calls s) \<and> set (c_calls s) = pages Fetch root \<and>
    list_all (\<lambda>w. w = WGone) (c_workers s)"
proof -
  have g: "\<forall>w \<in> set (c_workers s). w = WGone" using assms by (simp add: chan_inv_def flip: w_active_0)
  then have z: "w_links (c_workers s) = {}" by (force simp: w_links_def)
  have f: "w_fetching (c_workers s) = {#}" by (rule w_fetching_gone [OF g])
  have "distinct (c_calls s) \<and> set (c_calls s) = c_fetched s"
    by (rule distinct_mset_set) (use inv f in \<open>simp_all add: chan_inv_def\<close>)
  then show ?thesis using inv g z pages_least [of root "c_fetched s" Fetch] by (auto simp: chan_inv_def list_all_iff)
qed

lemma chan_progress:
  assumes inv: "chan_inv Fetch root s" and "\<not> c_break s"
  shows "\<exists>j s'. chan_step Fetch j s = Some s'"
proof -
  have "w_active (c_workers s) \<noteq> 0" using assms by (simp add: chan_inv_def)
  then obtain j where "j < length (c_workers s)" "c_workers s ! j \<noteq> WGone"
    by (auto simp: w_active_0 in_set_conv_nth)
  then have "\<exists>s'. chan_step Fetch j s = Some s'" using assms(2) by (auto simp: chan_step_def Let_def split: wphase.splits)
  then show ?thesis by blast
qed

definition worker_steps :: "wphase \<Rightarrow> nat" where
  "worker_steps w = (case w of WFetch u \<Rightarrow> 2 | WSend us \<Rightarrow> 1 | WGone \<Rightarrow> 0)"

definition chan_steps_left :: "Fetcher \<Rightarrow> string \<Rightarrow> chan_system \<Rightarrow> nat" where
  "chan_steps_left Fetch root s =
     2 * card (pages Fetch root - c_fetched s) + sum_list (map worker_steps (c_workers s))"

lemma chan_step_decreases:
  assumes inv: "chan_inv Fetch root s" and fin: "finite (pages Fetch root)" and step: "chan_step Fetch j s = Some s'"
  shows "chan_steps_left Fetch root s' < chan_steps_left Fetch root s"
  using step
proof (cases rule: chan_step_cases)
  case (fetch u)
  then show ?thesis
    using sum_list_update [OF fetch(1), of worker_steps "WSend (case Fetch u of None \<Rightarrow> [] | Some us \<Rightarrow> us)"]
    by (simp add: chan_steps_left_def worker_steps_def)
next
  case (receive us new)
  let ?P = "pages Fetch root"
  have "set us \<subseteq> ?P"
  proof -
    have "WSend us \<in> set (c_workers s)" using receive(1,2) by (metis nth_mem)
    then show ?thesis using inv by (force simp: chan_inv_def w_links_def)
  qed
  then have new: "set new \<subseteq> ?P - c_fetched s" "?P - (c_fetched s \<union> set us) = ?P - c_fetched s - set new"
    using receive(5) by auto
  have "card (set new) \<le> card (?P - c_fetched s)" using fin new(1) by (intro card_mono) simp_all
  then have "card (?P - (c_fetched s \<union> set us)) + length new = card (?P - c_fetched s)"
    unfolding new(2) using card_Diff_subset [OF _ new(1)] distinct_card [OF receive(4)] by simp
  moreover have "sum_list (map worker_steps (map WFetch new)) = 2 * length new"
    by (induction new) (simp_all add: worker_steps_def)
  ultimately show ?thesis using sum_list_update [OF receive(1), of worker_steps WGone] receive(2)
    by (simp add: receive(6) chan_steps_left_def) (simp add: worker_steps_def)
qed

lemma chan_run_bounded:
  assumes "finite (pages Fetch root)"
  shows "chan_inv Fetch root s \<Longrightarrow> chan_run Fetch js s = Some s' \<Longrightarrow> length js \<le> chan_steps_left Fetch root s"
proof (induction js arbitrary: s)
  case (Cons j js)
  then obtain s1 where s1: "chan_step Fetch j s = Some s1" "chan_run Fetch js s1 = Some s'"
    by (auto split: bind_splits)
  have "length js \<le> chan_steps_left Fetch root s1"
    by (rule Cons.IH [OF chan_step_inv [OF Cons.prems(1) s1(1)] s1(2)])
  then show ?case using chan_step_decreases [OF Cons.prems(1) assms s1(1)] by simp
qed simp

section \<open>All three crawlers\<close>

text \<open>Neither concurrent crawler can run forever or get stuck: a run has at most as many steps as the
  pages and links of the site allow, and as long as it has not returned some goroutine can go on.\<close>

lemma crawlers_finish:
  assumes "finite (pages Fetch root)"
  shows "(\<forall>is s. mutex_run Fetch is (ConcurrentMutex_start root) = Some s \<longrightarrow>
      length is \<le> 1 + (\<Sum>u \<in> pages Fetch root. page_steps Fetch u) \<and>
      (mutex_returned s \<or> (\<exists>i s'. mutex_step Fetch i s = Some s'))) \<and>
    (\<forall>js s. chan_run Fetch js (ConcurrentChannel root) = Some s \<longrightarrow>
      length js \<le> 1 + 2 * card (pages Fetch root) \<and> (c_break s \<or> (\<exists>j s'. chan_step Fetch j s = Some s')))"
proof -
  have "mutex_steps_left Fetch root (ConcurrentMutex_start root) = 1 + (\<Sum>u \<in> pages Fetch root. page_steps Fetch u)"
    "chan_steps_left Fetch root (ConcurrentChannel root) = 1 + 2 * card (pages Fetch root)"
    by (simp_all add: mutex_steps_left_def ConcurrentMutex_start_def new_goroutine_def phase_steps_def
        chan_steps_left_def ConcurrentChannel_def worker_steps_def)
  then show ?thesis
    using mutex_run_bounded [OF assms mutex_inv_start] mutex_progress [OF mutex_run_inv [OF mutex_inv_start]]
      chan_run_bounded [OF assms chan_inv_start] chan_progress [OF chan_run_inv [OF chan_inv_start]]
    by (metis (no_types, lifting))
qed

text \<open>C40. The three crawlers do the same work.  On a finite site the serial crawler returns, having called
  \<open>Fetch\<close> exactly once for every page that can be reached.  Each run of a concurrent crawler, in any
  interleaving, has at most as many steps as the pages and links of the site allow; when the crawler
  has returned, its calls of \<open>Fetch\<close> are those of the serial one up to their order and no goroutine is left
  behind, and as long as it has not, some goroutine can go on.\<close>

theorem crawlers_agree:
  assumes "finite (pages Fetch root)"
  shows "\<exists>st. Serial root Fetch no_crawl = Some st \<and> set (calls st) = pages Fetch root \<and> distinct (calls st) \<and>
    (\<forall>is s. mutex_run Fetch is (ConcurrentMutex_start root) = Some s \<longrightarrow>
       length is \<le> 1 + (\<Sum>u \<in> pages Fetch root. page_steps Fetch u) \<and>
       (if mutex_returned s then mset (m_calls s) = mset (calls st) \<and> list_all (\<lambda>t. g_phase t = GEnd) (m_threads s)
        else \<exists>i s'. mutex_step Fetch i s = Some s')) \<and>
    (\<forall>js s. chan_run Fetch js (ConcurrentChannel root) = Some s \<longrightarrow>
       length js \<le> 1 + 2 * card (pages Fetch root) \<and>
       (if c_break s then mset (c_calls s) = mset (calls st) \<and> list_all (\<lambda>w. w = WGone) (c_workers s)
        else \<exists>j s'. chan_step Fetch j s = Some s'))"
proof -
  obtain st where st: "Serial root Fetch no_crawl = Some st" "distinct (calls st)" "set (calls st) = pages Fetch root"
    using Serial_crawls [OF assms] by blast
  have same: "mset xs = mset (calls st)" if "distinct xs" "set xs = pages Fetch root" for xs
    using that st(2,3) by (metis set_eq_iff_mset_eq_distinct)
  have m: "mset (m_calls s) = mset (calls st) \<and> list_all (\<lambda>t. g_phase t = GEnd) (m_threads s)"
    if "mutex_run Fetch is (ConcurrentMutex_start root) = Some s" "mutex_returned s" for "is" s
    using that same mutex_crawls [OF mutex_run_inv [OF mutex_inv_start]] by blast
  have c: "mset (c_calls s) = mset (calls st) \<and> list_all (\<lambda>w. w = WGone) (c_workers s)"
    if "chan_run Fetch js (ConcurrentChannel root) = Some s" "c_break s" for js s
    using that same chan_crawls [OF chan_run_inv [OF chan_inv_start]] by blast
  show ?thesis
  proof (intro exI [of _ st] conjI allI impI)
    fix "is" s
    assume r: "mutex_run Fetch is (ConcurrentMutex_start root) = Some s"
    show "length is \<le> 1 + (\<Sum>u \<in> pages Fetch root. page_steps Fetch u)"
      "if mutex_returned s then mset (m_calls s) = mset (calls st) \<and> list_all (\<lambda>t. g_phase t = GEnd) (m_threads s)
       else \<exists>i s'. mutex_step Fetch i s = Some s'"
      using r m [OF r] crawlers_finish [OF assms] by (blast, simp) metis
  next
    fix js s
    assume r: "chan_run Fetch js (ConcurrentChannel root) = Some s"
    show "length js \<le> 1 + 2 * card (pages Fetch root)"
      "if c_break s then mset (c_calls s) = mset (calls st) \<and> list_all (\<lambda>w. w = WGone) (c_workers s)
       else \<exists>j s'. chan_step Fetch j s = Some s'"
      using r c [OF r] crawlers_finish [OF assms] by (blast, simp) metis
  qed (use st in auto)
qed

text \<open>The site of the example.\<close>

definition golang :: Fetcher where
  "golang = fake_Fetch fetcher"

definition golang_pages :: "string list" where
  "golang_pages = [''http://golang.org/'', ''http://golang.org/pkg/'', ''http://golang.org/cmd/'',
     ''http://golang.org/pkg/fmt/'', ''http://golang.org/pkg/os/'']"

lemma golang_finite: "finite (pages golang ''http://golang.org/'')"
proof -
  have "pages golang ''http://golang.org/'' \<subseteq> set golang_pages"
    by (rule pages_least)
       (auto simp: golang_pages_def closed_in_def golang_def fake_Fetch_def fetcher_def split: if_splits)
  then show ?thesis by (rule finite_subset) simp
qed

theorem crawlers_agree_witness:
  "(\<exists>st. Serial ''http://golang.org/'' golang no_crawl = Some st \<and> length (calls st) = 5) \<and>
   (\<exists>s j s'. chan_run golang [0, 1, 1] (ConcurrentChannel ''http://golang.org/'') = Some s \<and>
      \<not> c_break s \<and> chan_step golang j s = Some s')"
proof
  have "map_option (\<lambda>st. length (calls st)) (Serial ''http://golang.org/'' golang no_crawl) = Some 5" by code_simp
  then show "\<exists>st. Serial ''http://golang.org/'' golang no_crawl = Some st \<and> length (calls st) = 5"
    using crawlers_agree [OF golang_finite] by force
  have "map_option c_break (chan_run golang [0, 1, 1] (ConcurrentChannel ''http://golang.org/'')) = Some False" by code_simp
  then obtain s where s: "chan_run golang [0, 1, 1] (ConcurrentChannel ''http://golang.org/'') = Some s" "\<not> c_break s"
    by auto
  from crawlers_agree [OF golang_finite] s show "\<exists>s j s'. chan_run golang [0, 1, 1]
      (ConcurrentChannel ''http://golang.org/'') = Some s \<and> \<not> c_break s \<and> chan_step golang j s = Some s'" by metis
qed

end
