(* ===== verification/Raft24.thy ===== *)
theory Raft24
  imports Raft_Harness Labrpc
begin

text \<open>
  The Raft harness of the 2024 edition (\<open>archive/mit24/lab/src/raft/config.go\<close>, \<open>persister.go\<close>): one structure
  holds the network, the end names of every server, its persister and the tester's copy of its log.
  It starts, crashes, connects and disconnects servers, and its appliers check every applied entry,
  ending the process (\<open>log.Fatalf\<close>) at the first error, where the later harness of \<open>Raft_Harness\<close> records it.

  The names of fresh ends and the address of a new server object are arguments; servers are named by
  their number.  Of a Raft instance only its presence is kept, and the snapshots that were handed to it.
  A snapshot is represented by the value it encodes, no bytes by \<open>None\<close>.  \<open>None\<close> as a result is a
  panic or a fatal error.
\<close>

section \<open>Persisters\<close>

record 'c Persister24 =
  raftstate24 :: string
  snapshot24 :: "'c snap option"

definition MakePersister24 :: "'c Persister24" where
  "MakePersister24 = \<lparr>raftstate24 = '''', snapshot24 = None\<rparr>"

definition Copy24 :: "'c Persister24 \<Rightarrow> 'c Persister24" where
  "Copy24 ps = (let np = MakePersister24 in np\<lparr>raftstate24 := raftstate24 ps, snapshot24 := snapshot24 ps\<rparr>)"

definition ReadRaftState24 :: "'c Persister24 \<Rightarrow> string" where
  "ReadRaftState24 ps = raftstate24 ps"

definition RaftStateSize24 :: "'c Persister24 \<Rightarrow> nat" where
  "RaftStateSize24 ps = length (raftstate24 ps)"

definition Save24 :: "string \<Rightarrow> 'c snap option \<Rightarrow> 'c Persister24 \<Rightarrow> 'c Persister24" where
  "Save24 rs sn ps = ps\<lparr>raftstate24 := rs, snapshot24 := sn\<rparr>"

definition ReadSnapshot24 :: "'c Persister24 \<Rightarrow> 'c snap option" where
  "ReadSnapshot24 ps = snapshot24 ps"

section \<open>State\<close>

record 'c config =
  c_finished :: bool
  c_net :: Network
  c_n :: nat
  c_rafts :: "bool list"
  c_applyErr :: "'c err list"
  c_connected :: "bool list"
  c_saved :: "'c Persister24 option list"
  c_endnames :: "string list option list"
  c_logs :: "(int \<rightharpoonup> 'c any) list"
  c_lastApplied :: "int list"
  c_taken :: "(int \<times> 'c snap) list list"
  c_start :: int
  c_t0 :: int
  c_rpcs0 :: int
  c_cmds0 :: int
  c_bytes0 :: int
  c_maxIndex :: int
  c_maxIndex0 :: int

section \<open>Connecting and disconnecting\<close>

fun out_on :: "string list option \<Rightarrow> bool list \<Rightarrow> nat list \<Rightarrow> Network \<Rightarrow> Network option" where
  "out_on names conn [] rn = Some rn"
| "out_on names conn (j # js) rn = do {
     b \<leftarrow> slice_get conn j;
     (if b then do { es \<leftarrow> names; e \<leftarrow> slice_get es j; out_on names conn js (Enable e True rn) }
      else out_on names conn js rn) }"

fun in_on :: "string list option list \<Rightarrow> bool list \<Rightarrow> nat \<Rightarrow> nat list \<Rightarrow> Network \<Rightarrow> Network option" where
  "in_on eps conn i [] rn = Some rn"
| "in_on eps conn i (j # js) rn = do {
     b \<leftarrow> slice_get conn j;
     (if b then do {
        names \<leftarrow> slice_get eps j; es \<leftarrow> names; e \<leftarrow> slice_get es i;
        in_on eps conn i js (Enable e True rn) }
      else in_on eps conn i js rn) }"

definition connect24 :: "nat \<Rightarrow> 'c config \<Rightarrow> 'c config option" where
  "connect24 i c = do {
     conn \<leftarrow> slice_put (c_connected c) i True;
     names \<leftarrow> slice_get (c_endnames c) i;
     rn \<leftarrow> out_on names conn [0..<c_n c] (c_net c);
     rn \<leftarrow> in_on (c_endnames c) conn i [0..<c_n c] rn;
     Some (c\<lparr>c_connected := conn, c_net := rn\<rparr>) }"

fun out_off :: "string list option \<Rightarrow> nat list \<Rightarrow> Network \<Rightarrow> Network option" where
  "out_off names [] rn = Some rn"
| "out_off names (j # js) rn =
     (case names of
        None \<Rightarrow> out_off names js rn
      | Some es \<Rightarrow> do { e \<leftarrow> slice_get es j; out_off names js (Enable e False rn) })"

fun in_off :: "string list option list \<Rightarrow> nat \<Rightarrow> nat list \<Rightarrow> Network \<Rightarrow> Network option" where
  "in_off eps i [] rn = Some rn"
| "in_off eps i (j # js) rn = do {
     names \<leftarrow> slice_get eps j;
     (case names of
        None \<Rightarrow> in_off eps i js rn
      | Some es \<Rightarrow> do { e \<leftarrow> slice_get es i; in_off eps i js (Enable e False rn) }) }"

definition disconnect24 :: "nat \<Rightarrow> 'c config \<Rightarrow> 'c config option" where
  "disconnect24 i c = do {
     conn \<leftarrow> slice_put (c_connected c) i False;
     names \<leftarrow> slice_get (c_endnames c) i;
     rn \<leftarrow> out_off names [0..<c_n c] (c_net c);
     rn \<leftarrow> in_off (c_endnames c) i [0..<c_n c] rn;
     Some (c\<lparr>c_connected := conn, c_net := rn\<rparr>) }"

section \<open>The log check\<close>

fun logs_loop :: "nat \<Rightarrow> int \<Rightarrow> 'c any \<Rightarrow> (nat \<times> (int \<rightharpoonup> 'c any)) list \<Rightarrow> 'c err \<Rightarrow> 'c err" where
  "logs_loop i idx v [] e = e"
| "logs_loop i idx v ((j, l) # rest) e =
     logs_loop i idx v rest
       (case l idx of
          Some old \<Rightarrow> if old \<noteq> v then Mismatch idx i v j old else e
        | None \<Rightarrow> e)"

definition checkLogs24 :: "nat \<Rightarrow> 'c ApplyMsg \<Rightarrow> 'c config \<Rightarrow> ('c config \<times> 'c err \<times> bool) option" where
  "checkLogs24 i m c = do {
     let v = Command m;
     let e = logs_loop i (CommandIndex m) v (enumerate 0 (c_logs c)) NoErr;
     l \<leftarrow> slice_get (c_logs c) i;
     let prevok = (l (CommandIndex m - 1) \<noteq> None);
     let c = c\<lparr>c_logs := (c_logs c)[i := l(CommandIndex m \<mapsto> v)]\<rparr>;
     let c = (if CommandIndex m > c_maxIndex c then c\<lparr>c_maxIndex := CommandIndex m\<rparr> else c);
     Some (c, e, prevok) }"

text \<open>One message of each applier.\<close>

definition applier24 :: "nat \<Rightarrow> 'c ApplyMsg \<Rightarrow> 'c config \<Rightarrow> 'c config option" where
  "applier24 i m c =
     (if \<not> CommandValid m then Some c
      else do {
        (c, e, prevok) \<leftarrow> checkLogs24 i m c;
        let e = (if CommandIndex m > 1 \<and> \<not> prevok then ApplyOutOfOrder i (CommandIndex m) else e);
        (if e \<noteq> NoErr then None else Some c) })"

definition ingestSnap24 :: "nat \<Rightarrow> 'c snap option \<Rightarrow> int \<Rightarrow> 'c config \<Rightarrow> ('c config \<times> 'c err) option" where
  "ingestSnap24 i s index c =
     (case s of
        None \<Rightarrow> None
      | Some Garbage \<Rightarrow> None
      | Some (Snap lastIncludedIndex xlog) \<Rightarrow>
          if index \<noteq> -1 \<and> index \<noteq> lastIncludedIndex then Some (c, WrongSnapshotIndex i)
          else do {
            ls \<leftarrow> slice_put (c_logs c) i (\<lambda>j. if 0 \<le> j \<and> nat j < length xlog then Some (xlog ! nat j) else None);
            la \<leftarrow> slice_put (c_lastApplied c) i lastIncludedIndex;
            Some (c\<lparr>c_logs := ls, c_lastApplied := la\<rparr>, NoErr) })"

definition applierSnap24 :: "nat \<Rightarrow> 'c ApplyMsg \<Rightarrow> 'c config \<Rightarrow> 'c config option" where
  "applierSnap24 i m c = do {
     (c, e) \<leftarrow>
       (if SnapshotValid m then ingestSnap24 i (Snapshot m) (SnapshotIndex m) c
        else if CommandValid m then do {
          la \<leftarrow> slice_get (c_lastApplied c) i;
          (c, e) \<leftarrow>
            (if CommandIndex m \<noteq> la + 1 then Some (c, UnexpectedIndex i (la + 1) (CommandIndex m))
             else do {
               (c, e, prevok) \<leftarrow> checkLogs24 i m c;
               Some (c, if CommandIndex m > 1 \<and> \<not> prevok then ApplyOutOfOrder i (CommandIndex m) else e) });
          let c = c\<lparr>c_lastApplied := (c_lastApplied c)[i := CommandIndex m]\<rparr>;
          let c = (if (CommandIndex m + 1) mod SnapShotInterval = 0
                   then c\<lparr>c_taken := (c_taken c)[i := c_taken c ! i @
                          [(CommandIndex m, make_snap (CommandIndex m) (c_logs c ! i))]]\<rparr>
                   else c);
          Some (c, e) }
        else Some (c, NoErr));
     (if e \<noteq> NoErr then None else Some c) }"

section \<open>Starting and crashing\<close>

definition crash1 :: "nat \<Rightarrow> 'c config \<Rightarrow> 'c config option" where
  "crash1 i c = do {
     c \<leftarrow> disconnect24 i c;
     let c = c\<lparr>c_net := DeleteServer (itoa i) (c_net c)\<rparr>;
     sv \<leftarrow> slice_get (c_saved c) i;
     let sv = map_option Copy24 sv;
     rs \<leftarrow> slice_put (c_rafts c) i False;
     let sv = map_option (\<lambda>p. Save24 (ReadRaftState24 p) (ReadSnapshot24 p) MakePersister24) sv;
     Some (c\<lparr>c_rafts := rs, c_saved := (c_saved c)[i := sv]\<rparr>) }"

fun fresh_ends :: "nat \<Rightarrow> string list \<Rightarrow> Network \<Rightarrow> Network option" where
  "fresh_ends j [] rn = Some rn"
| "fresh_ends j (e # es) rn = do {
     (rn, _) \<leftarrow> MakeEnd e rn;
     fresh_ends (Suc j) es (Connect e (itoa j) rn) }"

definition start1 :: "nat \<Rightarrow> string list \<Rightarrow> nat \<Rightarrow> 'c config \<Rightarrow> 'c config option" where
  "start1 i names a c = do {
     c \<leftarrow> crash1 i c;
     eps \<leftarrow> slice_put (c_endnames c) i (Some names);
     rn \<leftarrow> fresh_ends 0 names (c_net c);
     la \<leftarrow> slice_put (c_lastApplied c) i 0;
     let c = c\<lparr>c_endnames := eps, c_net := rn, c_lastApplied := la\<rparr>;
     sv \<leftarrow> slice_get (c_saved c) i;
     c \<leftarrow>
       (case sv of
          None \<Rightarrow> Some (c\<lparr>c_saved := (c_saved c)[i := Some MakePersister24]\<rparr>)
        | Some p \<Rightarrow>
            let p = Copy24 p; c = c\<lparr>c_saved := (c_saved c)[i := Some p]\<rparr>
            in if ReadSnapshot24 p \<noteq> None
               then do { (c, e) \<leftarrow> ingestSnap24 i (ReadSnapshot24 p) (-1) c; (if e \<noteq> NoErr then None else Some c) }
               else Some c);
     Some (c\<lparr>c_rafts := (c_rafts c)[i := True], c_net := AddServer (itoa i) a (c_net c)\<rparr>) }"

fun start_all :: "(nat \<times> string list \<times> nat) list \<Rightarrow> 'c config \<Rightarrow> 'c config option" where
  "start_all [] c = Some c"
| "start_all ((i, names, a) # xs) c = do {
     ls \<leftarrow> slice_put (c_logs c) i Map.empty;
     c \<leftarrow> start1 i names a (c\<lparr>c_logs := ls\<rparr>);
     start_all xs c }"

fun connect_all :: "nat list \<Rightarrow> 'c config \<Rightarrow> 'c config option" where
  "connect_all [] c = Some c"
| "connect_all (i # is) c = do { c \<leftarrow> connect24 i c; connect_all is c }"

definition new_config :: "nat \<Rightarrow> int \<Rightarrow> 'c config" where
  "new_config n now =
     \<lparr>c_finished = False, c_net = MakeNetwork, c_n = n, c_rafts = replicate n False, c_applyErr = replicate n NoErr,
      c_connected = replicate n False, c_saved = replicate n None, c_endnames = replicate n None,
      c_logs = replicate n Map.empty, c_lastApplied = replicate n 0, c_taken = replicate n [], c_start = now, c_t0 = 0,
      c_rpcs0 = 0, c_cmds0 = 0, c_bytes0 = 0, c_maxIndex = 0, c_maxIndex0 = 0\<rparr>"

definition setunreliable :: "bool \<Rightarrow> 'c config \<Rightarrow> 'c config" where
  "setunreliable unrel c = c\<lparr>c_net := Reliable (\<not> unrel) (c_net c)\<rparr>"

definition make_config :: "(string list \<times> nat) list \<Rightarrow> bool \<Rightarrow> int \<Rightarrow> 'c config option" where
  "make_config fr unreliable now = do {
     let n = length fr;
     let c = setunreliable unreliable (new_config n now);
     let c = c\<lparr>c_net := LongDelays True (c_net c)\<rparr>;
     c \<leftarrow> start_all (enumerate 0 fr) c;
     connect_all [0..<n] c }"

section \<open>Checks\<close>

text \<open>What \<open>GetState\<close> answers at every server, of which the checks read those that are connected.\<close>

definition observe24 :: "'c config \<Rightarrow> (int \<times> bool) list \<Rightarrow> observation" where
  "observe24 c states = map (\<lambda>i. if c_connected c ! i then Some (states ! i) else None) [0..<c_n c]"

definition checkOneLeader24 ::
  "((int \<times> nat list) list \<Rightarrow> (int \<times> nat list) list) \<Rightarrow> ('c config \<times> (int \<times> bool) list) list \<Rightarrow> 'c failure + nat" where
  "checkOneLeader24 visit rounds = checkOneLeader visit (map (\<lambda>(c, states). observe24 c states) (take 10 rounds))"

definition checkTerms24 :: "'c config \<Rightarrow> (int \<times> bool) list \<Rightarrow> 'c failure + int" where
  "checkTerms24 c states = terms_loop (observe24 c states) (-1)"

definition checkNoLeader24 :: "'c config \<Rightarrow> (int \<times> bool) list \<Rightarrow> 'c failure + unit" where
  "checkNoLeader24 c states = noleader_loop (enumerate 0 (observe24 c states))"

fun committed_loop24 :: "int \<Rightarrow> 'c config \<Rightarrow> nat list \<Rightarrow> nat \<Rightarrow> 'c any \<Rightarrow> 'c failure + (nat \<times> 'c any)" where
  "committed_loop24 idx c [] cnt cmd = Inr (cnt, cmd)"
| "committed_loop24 idx c (i # is) cnt cmd =
     (if c_applyErr c ! i \<noteq> NoErr then Inl (ApplyFailed (c_applyErr c ! i))
      else (case (c_logs c ! i) idx of
              Some cmd1 \<Rightarrow>
                if cnt > 0 \<and> cmd \<noteq> cmd1 then Inl (ValuesDiffer idx cmd cmd1)
                else committed_loop24 idx c is (cnt + 1) cmd1
            | None \<Rightarrow> committed_loop24 idx c is cnt cmd))"

definition nCommitted24 :: "int \<Rightarrow> 'c config \<Rightarrow> 'c failure + (nat \<times> 'c any)" where
  "nCommitted24 idx c = committed_loop24 idx c [0..<length (c_rafts c)] 0 None"

text \<open>\<open>wait\<close>: in each round the state of the tester and the terms that the servers report; a server
  without an instance has none, and asking it is a nil dereference.  \<open>Inr None\<close> stands for -1.\<close>

datatype 'c stop = Failed "'c failure" | NilRaft

fun later_loop :: "int \<Rightarrow> int option list \<Rightarrow> bool option" where
  "later_loop startTerm [] = Some False"
| "later_loop startTerm (None # ts) = None"
| "later_loop startTerm (Some x # ts) = (if x > startTerm then Some True else later_loop startTerm ts)"

fun wait_loop24 :: "int \<Rightarrow> nat \<Rightarrow> int \<Rightarrow> ('c config \<times> int option list) list \<Rightarrow> 'c stop + bool" where
  "wait_loop24 idx n startTerm [] = Inr True"
| "wait_loop24 idx n startTerm ((c, terms) # rounds) =
     (case nCommitted24 idx c of
        Inl e \<Rightarrow> Inl (Failed e)
      | Inr (nd, _) \<Rightarrow>
          if nd \<ge> n then Inr True
          else if startTerm > -1 then
            (case later_loop startTerm terms of
               None \<Rightarrow> Inl NilRaft
             | Some True \<Rightarrow> Inr False
             | Some False \<Rightarrow> wait_loop24 idx n startTerm rounds)
          else wait_loop24 idx n startTerm rounds)"

definition wait24 ::
  "int \<Rightarrow> nat \<Rightarrow> int \<Rightarrow> ('c config \<times> int option list) list \<Rightarrow> 'c config \<Rightarrow> 'c stop + 'c any option" where
  "wait24 idx n startTerm rounds final =
     (case wait_loop24 idx n startTerm (take 30 rounds) of
        Inl e \<Rightarrow> Inl e
      | Inr False \<Rightarrow> Inr None
      | Inr True \<Rightarrow>
          (case nCommitted24 idx final of
             Inl e \<Rightarrow> Inl (Failed e)
           | Inr (nd, cmd) \<Rightarrow> if nd < n then Inl (Failed (NotDecided nd idx n)) else Inr (Some cmd)))"

text \<open>\<open>one\<close>: in each round of the outer loop the configuration, what \<open>Start\<close> answers at every server, and the
  configurations at the polls of the inner loop.\<close>

record 'c round24 =
  q_config :: "'c config"
  q_start :: "(int \<times> bool) list"
  q_polls :: "'c config list"

fun start_loop24 :: "nat \<Rightarrow> nat \<Rightarrow> 'c config \<Rightarrow> (int \<times> bool) list \<Rightarrow> int \<times> nat" where
  "start_loop24 0 starts c answers = (-1, starts)"
| "start_loop24 (Suc k) starts c answers =
     (let starts = (starts + 1) mod c_n c
      in if c_connected c ! starts \<and> c_rafts c ! starts then
           (case answers ! starts of
              (index1, True) \<Rightarrow> (index1, starts)
            | _ \<Rightarrow> start_loop24 k starts c answers)
         else start_loop24 k starts c answers)"

fun poll_loop24 :: "'c any \<Rightarrow> nat \<Rightarrow> int \<Rightarrow> 'c config list \<Rightarrow> 'c failure + bool" where
  "poll_loop24 cmd expected idx [] = Inr False"
| "poll_loop24 cmd expected idx (c # cs) =
     (case nCommitted24 idx c of
        Inl e \<Rightarrow> Inl e
      | Inr (nd, cmd1) \<Rightarrow>
          if nd > 0 \<and> nd \<ge> expected \<and> cmd1 = cmd then Inr True else poll_loop24 cmd expected idx cs)"

definition checkFinished :: "'c config \<Rightarrow> bool" where
  "checkFinished c = c_finished c"

fun one24 :: "'c any \<Rightarrow> nat \<Rightarrow> bool \<Rightarrow> 'c config \<Rightarrow> nat \<Rightarrow> 'c round24 list \<Rightarrow> 'c failure + int" where
  "one24 cmd expected retry final starts [] = (if \<not> checkFinished final then Inl NoAgreement else Inr (-1))"
| "one24 cmd expected retry final starts (r # rs) =
     (if checkFinished (q_config r) then one24 cmd expected retry final starts []
      else let (index, starts) = start_loop24 (c_n (q_config r)) starts (q_config r) (q_start r)
           in if index \<noteq> -1 then
                (case poll_loop24 cmd expected index (q_polls r) of
                   Inl e \<Rightarrow> Inl e
                 | Inr True \<Rightarrow> Inr index
                 | Inr False \<Rightarrow> if \<not> retry then Inl NoAgreement else one24 cmd expected retry final starts rs)
              else one24 cmd expected retry final starts rs)"

section \<open>Bookkeeping\<close>

definition checkTimeout24 :: "bool \<Rightarrow> int \<Rightarrow> 'c config \<Rightarrow> bool" where
  "checkTimeout24 fl now c \<longleftrightarrow> \<not> fl \<and> now - c_start c > 120 * 10 ^ 9"

definition cleanup24 :: "'c config \<Rightarrow> 'c config option" where
  "cleanup24 c = do {
     rn \<leftarrow> Cleanup (c_net c);
     Some (c\<lparr>c_finished := True, c_net := rn\<rparr>) }"

definition rpcCount24 :: "nat \<Rightarrow> (nat \<Rightarrow> 's Server) \<Rightarrow> 'c config \<Rightarrow> int option" where
  "rpcCount24 i os c = GetCount (itoa i) os (c_net c)"

definition rpcTotal24 :: "'c config \<Rightarrow> int" where
  "rpcTotal24 c = GetTotalCount (c_net c)"

definition bytesTotal24 :: "'c config \<Rightarrow> int" where
  "bytesTotal24 c = GetTotalBytes (c_net c)"

definition setlongreordering24 :: "bool \<Rightarrow> 'c config \<Rightarrow> 'c config" where
  "setlongreordering24 b c = c\<lparr>c_net := LongReordering b (c_net c)\<rparr>"

definition begin24 :: "int \<Rightarrow> 'c config \<Rightarrow> 'c config" where
  "begin24 now c = c\<lparr>c_t0 := now, c_rpcs0 := rpcTotal24 c, c_bytes0 := bytesTotal24 c, c_cmds0 := 0, c_maxIndex0 := c_maxIndex c\<rparr>"

text \<open>The numbers that \<open>end\<close> prints for a test that has not failed: time, servers, RPCs, bytes, agreements.\<close>

definition end24 :: "bool \<Rightarrow> int \<Rightarrow> 'c config \<Rightarrow> (int \<times> nat \<times> int \<times> int \<times> int) option" where
  "end24 fl now c =
     (if checkTimeout24 fl now c \<or> fl then None
      else Some (now - c_t0 c, c_n c, rpcTotal24 c - c_rpcs0 c, bytesTotal24 c - c_bytes0 c, c_maxIndex c - c_maxIndex0 c))"

fun logsize_loop :: "'c Persister24 option list \<Rightarrow> nat \<Rightarrow> nat option" where
  "logsize_loop [] m = Some m"
| "logsize_loop (sv # svs) m = do {
     p \<leftarrow> sv;
     logsize_loop svs (if RaftStateSize24 p > m then RaftStateSize24 p else m) }"

definition LogSize24 :: "'c config \<Rightarrow> nat option" where
  "LogSize24 c = logsize_loop (take (c_n c) (c_saved c)) 0"

end
