(* ===== verification/Raft24_Properties.thy ===== *)
theory Raft24_Properties
  imports Raft24 Raft_Properties Enabling
begin

text \<open>
  The harness of the 2024 edition against the later one, and its network: the two accept exactly the
  same applied entries, and in every state that a test can reach the ends between two servers are enabled
  exactly when both are connected.
\<close>

section \<open>The tester inside the configuration\<close>

definition sized :: "'c config \<Rightarrow> bool" where
  "sized c \<longleftrightarrow> length (c_rafts c) = c_n c \<and> length (c_applyErr c) = c_n c \<and> length (c_connected c) = c_n c \<and>
     length (c_saved c) = c_n c \<and> length (c_endnames c) = c_n c \<and> length (c_logs c) = c_n c \<and>
     length (c_lastApplied c) = c_n c"

definition as_test :: "'c config \<Rightarrow> 'c Test" where
  "as_test c = \<lparr>srvs = map2 (\<lambda>e l. \<lparr>applyErr = e, logs = l\<rparr>) (c_applyErr c) (c_logs c), maxIndex = c_maxIndex c\<rparr>"

lemma mismatch_map2:
  "length es = length ls \<Longrightarrow>
   mismatch_loop i idx v (enumerate k (map2 (\<lambda>e l. \<lparr>applyErr = e, logs = l\<rparr>) es ls)) e =
   logs_loop i idx v (enumerate k ls) e"
proof (induction es ls arbitrary: k e rule: list_induct2)
  case (Cons x xs y ys)
  then show ?case by (simp add: raftServer_entry_def split: option.splits)
qed simp

lemma as_test_update:
  assumes "sized c" "i < c_n c"
  shows "(srvs (as_test c))[i := \<lparr>applyErr = c_applyErr c ! i, logs = l\<rparr>] = srvs (as_test (c\<lparr>c_logs := (c_logs c)[i := l]\<rparr>))"
  using assms by (auto simp: as_test_def sized_def nth_list_update intro!: nth_equalityI)

lemma checkLogs24_sim:
  assumes "sized c"
  shows "CheckLogs i m (as_test c) = map_option (\<lambda>(c', e, prevok). (as_test c', e, prevok)) (checkLogs24 i m c)"
proof (cases "i < c_n c")
  case True
  let ?l = "c_logs c ! i" and ?c = "c\<lparr>c_logs := (c_logs c)[i := (c_logs c ! i)(CommandIndex m \<mapsto> Command m)]\<rparr>"
  have len: "length (c_applyErr c) = length (c_logs c)" "i < length (c_logs c)" "i < length (c_applyErr c)"
    using assms True by (simp_all add: sized_def)
  have me: "slice_get (srvs (as_test c)) i = Some \<lparr>applyErr = c_applyErr c ! i, logs = ?l\<rparr>"
    "slice_get (c_logs c) i = Some ?l" using len by (simp_all add: as_test_def slice_get_def)
  have e: "mismatch_loop i (CommandIndex m) (Command m) (enumerate 0 (srvs (as_test c))) NoErr =
    logs_loop i (CommandIndex m) (Command m) (enumerate 0 (c_logs c)) NoErr"
    unfolding as_test_def Test.simps by (rule mismatch_map2 [OF len(1)])
  have mx: "maxIndex (as_test d) = c_maxIndex d" "srvs (as_test (d\<lparr>c_maxIndex := x\<rparr>)) = srvs (as_test d)"
    "as_test (d\<lparr>c_maxIndex := x\<rparr>) = (as_test d)\<lparr>maxIndex := x\<rparr>" for d :: "'a config" and x by (simp_all add: as_test_def)
  have up: "(as_test c)\<lparr>srvs := (srvs (as_test c))[i := \<lparr>applyErr = c_applyErr c ! i, logs = ?l(CommandIndex m \<mapsto> Command m)\<rparr>],
      maxIndex := x\<rparr> = (as_test ?c)\<lparr>maxIndex := x\<rparr>" for x
    using as_test_update [OF assms True, of "?l(CommandIndex m \<mapsto> Command m)"] by (simp add: as_test_def)
  show ?thesis
    unfolding CheckLogs_def checkLogs24_def me
    by (simp add: raftServer_entry_def Let_def up mx e)
next
  case False
  then show ?thesis using assms by (simp add: CheckLogs_def checkLogs24_def slice_get_def as_test_def sized_def Let_def)
qed

lemma sized_checkLogs24:
  assumes "sized c" "checkLogs24 i m c = Some (c', e, prevok)"
  shows "sized c' \<and> c_n c' = c_n c \<and> c_applyErr c' = c_applyErr c"
  using assms by (auto simp: checkLogs24_def Let_def bind_eq_Some_conv sized_def split: if_splits)

lemma as_test_errors: "sized c \<Longrightarrow> no_errors (as_test c) \<longleftrightarrow> set (c_applyErr c) \<subseteq> {NoErr}"
proof -
  assume "sized c"
  then have "map applyErr (srvs (as_test c)) = c_applyErr c"
    by (auto simp: as_test_def sized_def intro!: nth_equalityI)
  then have "applyErr ` set (srvs (as_test c)) = set (c_applyErr c)" by (metis list.set_map)
  then show ?thesis unfolding no_errors_def by (simp add: image_subset_iff flip: \<open>applyErr ` set (srvs (as_test c)) = set (c_applyErr c)\<close>)
qed

text \<open>One applied entry: the process survives exactly when the later harness records no error.\<close>

lemma applier24_sim:
  assumes "sized c" "no_errors (as_test c)" "i < c_n c"
  shows "(case applier24 i m c of
      Some c' \<Rightarrow> applier Delivered Delivered i m (as_test c) = Some (as_test c') \<and> sized c' \<and> c_n c' = c_n c \<and> no_errors (as_test c')
    | None \<Rightarrow> \<exists>t'. applier Delivered Delivered i m (as_test c) = Some t' \<and> \<not> no_errors t')"
proof (cases "CommandValid m")
  case True
  have "slice_get (c_logs c) i = Some (c_logs c ! i)" using assms(1,3) by (simp add: sized_def slice_get_def)
  then obtain c' e prevok where c': "checkLogs24 i m c = Some (c', e, prevok)"
    by (auto simp: checkLogs24_def Let_def)
  note s = sized_checkLogs24 [OF assms(1) c']
  have cl: "CheckLogs i m (as_test c) = Some (as_test c', e, prevok)" by (simp add: checkLogs24_sim [OF assms(1)] c')
  define e' where "e' = (if CommandIndex m > 1 \<and> \<not> prevok then ApplyOutOfOrder i (CommandIndex m) else e)"
  have r: "applier24 i m c = (if e' \<noteq> NoErr then None else Some c')"
    "applier Delivered Delivered i m (as_test c) = (if e' \<noteq> NoErr then ApplyErr i e' (as_test c') else Some (as_test c'))"
    using True by (simp_all add: applier24_def applier_def TesterProxy_CheckLogs_def TesterProxy_ApplyErr_def c' cl e'_def)
  have ok: "no_errors (as_test c')" using assms(2) as_test_errors assms(1) s by metis
  have "\<exists>t'. ApplyErr i e' (as_test c') = Some t' \<and> \<not> no_errors t'" if "e' \<noteq> NoErr"
  proof -
    have i: "i < length (srvs (as_test c'))" using s assms(1,3) by (auto simp: as_test_def sized_def)
    then show ?thesis using that
      by (auto simp: ApplyErr_def slice_get_def no_errors_def intro!: bexI [OF _ set_update_memI])
  qed
  then show ?thesis using r s ok by auto
qed (use assms in \<open>simp add: applier24_def applier_def\<close>)

fun applier24_run :: "(nat \<times> 'c ApplyMsg) list \<Rightarrow> 'c config \<Rightarrow> 'c config option" where
  "applier24_run [] c = Some c"
| "applier24_run ((i, m) # ms) c = do { c \<leftarrow> applier24 i m c; applier24_run ms c }"

text \<open>Once an error is recorded it stays.\<close>

lemma applier_run_errors: "applier_run ms t = Some t' \<Longrightarrow> \<not> no_errors t \<Longrightarrow> \<not> no_errors t'"
  using applier_run_agree by blast

lemma applier_run_total:
  "\<forall>im \<in> set ms. fst im < length (srvs t) \<Longrightarrow> \<exists>t'. applier_run ms t = Some t'"
proof (induction ms arbitrary: t)
  case (Cons im ms)
  obtain i m where im: "im = (i, m)" by force
  have i: "i < length (srvs t)" using Cons.prems im by simp
  have "\<exists>t1. applier Delivered Delivered i m t = Some t1 \<and> length (srvs t1) = length (srvs t)"
    using i by (auto simp: applier_def TesterProxy_CheckLogs_def TesterProxy_ApplyErr_def CheckLogs_def ApplyErr_def
        slice_get_def Let_def)
  then obtain t1 where "applier Delivered Delivered i m t = Some t1" "length (srvs t1) = length (srvs t)" by blast
  then show ?case using Cons.IH [of t1] Cons.prems im by simp
qed simp

lemma applier24_run_sim:
  assumes "sized c" "no_errors (as_test c)" "\<forall>im \<in> set ms. fst im < c_n c"
  shows "(case applier24_run ms c of
      Some c' \<Rightarrow> applier_run ms (as_test c) = Some (as_test c') \<and> sized c' \<and> no_errors (as_test c')
    | None \<Rightarrow> \<exists>t'. applier_run ms (as_test c) = Some t' \<and> \<not> no_errors t')"
  using assms
proof (induction ms arbitrary: c)
  case (Cons im ms)
  obtain i m where im: "im = (i, m)" by force
  have i: "i < c_n c" using Cons.prems(3) im by simp
  note sim = applier24_sim [OF Cons.prems(1,2) i, of m]
  show ?case
  proof (cases "applier24 i m c")
    case None
    then obtain t1 where t1: "applier Delivered Delivered i m (as_test c) = Some t1" "\<not> no_errors t1" using sim by auto
    have "length (srvs t1) = length (srvs (as_test c))"
      using t1(1) by (auto simp: applier_def TesterProxy_CheckLogs_def TesterProxy_ApplyErr_def CheckLogs_def ApplyErr_def
          Let_def bind_eq_Some_conv split: if_splits)
    then have "\<forall>im \<in> set ms. fst im < length (srvs t1)"
      using Cons.prems(1,3) by (simp add: as_test_def sized_def)
    then obtain t' where t': "applier_run ms t1 = Some t'" using applier_run_total by blast
    then show ?thesis using None t1 im applier_run_errors [OF t' t1(2)] by simp
  next
    case (Some c1)
    then have c1: "applier Delivered Delivered i m (as_test c) = Some (as_test c1)" "sized c1" "no_errors (as_test c1)" "c_n c1 = c_n c"
      using sim by auto
    then show ?thesis using Cons.IH [of c1] Cons.prems(3) Some im by (auto split: option.splits)
  qed
qed simp

lemma nCommitted24_sim: "sized c \<Longrightarrow> nCommitted24 idx c = nCommitted idx (as_test c)"
proof -
  assume s: "sized c"
  have "committed_loop24 idx c is cnt cmd = committed_loop idx (map (\<lambda>i. srvs (as_test c) ! i) is) cnt cmd"
    if "\<forall>i \<in> set is. i < c_n c" for "is" cnt cmd
    using that
  proof (induction "is" arbitrary: cnt cmd)
    case (Cons i "is")
    have "srvs (as_test c) ! i = \<lparr>applyErr = c_applyErr c ! i, logs = c_logs c ! i\<rparr>"
      using Cons.prems s by (simp add: as_test_def sized_def)
    then show ?case using Cons by (simp add: raftServer_entry_def split: option.splits)
  qed simp
  moreover have "map (\<lambda>i. srvs (as_test c) ! i) [0..<c_n c] = srvs (as_test c)"
    using s by (intro nth_equalityI) (simp_all add: as_test_def sized_def)
  ultimately show ?thesis using s by (simp add: nCommitted24_def nCommitted_def sized_def)
qed

section \<open>The network of the configuration\<close>

definition port :: "'c config \<Rightarrow> nat \<Rightarrow> nat \<Rightarrow> string" where
  "port c i j = the (c_endnames c ! i) ! j"

definition wired :: "'c config \<Rightarrow> bool" where
  "wired c \<longleftrightarrow> sized c \<and>
     (\<forall>i < c_n c. c_connected c ! i \<longrightarrow> c_endnames c ! i \<noteq> None) \<and>
     (\<forall>i < c_n c. \<forall>es. c_endnames c ! i = Some es \<longrightarrow> length es = c_n c) \<and>
     (\<forall>i < c_n c. \<forall>j < c_n c. c_endnames c ! i \<noteq> None \<longrightarrow> ends (c_net c) (port c i j) \<noteq> None) \<and>
     (\<forall>i < c_n c. \<forall>j < c_n c. \<forall>k < c_n c. \<forall>l < c_n c. c_endnames c ! i \<noteq> None \<longrightarrow> c_endnames c ! k \<noteq> None \<longrightarrow>
        port c i j = port c k l \<longrightarrow> i = k \<and> j = l) \<and>
     (\<forall>i < c_n c. \<forall>j < c_n c. c_endnames c ! i \<noteq> None \<longrightarrow>
        is_enabled (c_net c) (port c i j) = (c_connected c ! i \<and> c_connected c ! j)) \<and>
     (\<forall>i < c_n c. servers (c_net c) (itoa i) \<noteq> None \<longleftrightarrow> c_rafts c ! i)"

lemma wiredD:
  assumes "wired c"
  shows "sized c" "k < c_n c \<Longrightarrow> c_connected c ! k \<Longrightarrow> c_endnames c ! k \<noteq> None"
    "k < c_n c \<Longrightarrow> c_endnames c ! k = Some es \<Longrightarrow> length es = c_n c"
    "k < c_n c \<Longrightarrow> j < c_n c \<Longrightarrow> c_endnames c ! k \<noteq> None \<Longrightarrow> ends (c_net c) (port c k j) \<noteq> None"
    "k < c_n c \<Longrightarrow> j < c_n c \<Longrightarrow> k' < c_n c \<Longrightarrow> j' < c_n c \<Longrightarrow> c_endnames c ! k \<noteq> None \<Longrightarrow> c_endnames c ! k' \<noteq> None \<Longrightarrow>
       port c k j = port c k' j' \<Longrightarrow> k = k' \<and> j = j'"
    "k < c_n c \<Longrightarrow> j < c_n c \<Longrightarrow> c_endnames c ! k \<noteq> None \<Longrightarrow>
       is_enabled (c_net c) (port c k j) = (c_connected c ! k \<and> c_connected c ! j)"
    "k < c_n c \<Longrightarrow> servers (c_net c) (itoa k) \<noteq> None \<longleftrightarrow> c_rafts c ! k"
  using assms unfolding wired_def by blast+

lemma port_simps [simp]:
  "port (c\<lparr>c_connected := x\<rparr>) = port c" "port (c\<lparr>c_net := rn\<rparr>) = port c" "port (c\<lparr>c_rafts := y\<rparr>) = port c"
  "port (c\<lparr>c_saved := z\<rparr>) = port c" "port (c\<lparr>c_logs := l\<rparr>) = port c" "port (c\<lparr>c_lastApplied := la\<rparr>) = port c"
  by (simp_all add: port_def fun_eq_iff)

lemma wired_relink:
  assumes "wired c" "length conn = c_n c" "ends rn = ends (c_net c)" "servers rn = servers (c_net c)"
    and "\<forall>i < c_n c. conn ! i \<longrightarrow> c_endnames c ! i \<noteq> None"
    and "\<forall>i < c_n c. \<forall>j < c_n c. c_endnames c ! i \<noteq> None \<longrightarrow> is_enabled rn (port c i j) = (conn ! i \<and> conn ! j)"
  shows "wired (c\<lparr>c_connected := conn, c_net := rn\<rparr>)"
  using assms unfolding wired_def by (elim conjE) (simp add: sized_def)

lemma out_off_eq:
  "\<forall>es. names = Some es \<longrightarrow> (\<forall>j \<in> set js. j < length es) \<Longrightarrow>
   out_off names js rn = Some (enable_names False (if names = None then [] else map ((!) (the names)) js) rn)"
  by (induction names js rn rule: out_off.induct) (auto simp: slice_get_def split: option.splits)

lemma in_off_eq:
  "\<forall>j \<in> set js. j < length eps \<and> (\<forall>es. eps ! j = Some es \<longrightarrow> i < length es) \<Longrightarrow>
   in_off eps i js rn = Some (enable_names False (map (\<lambda>j. the (eps ! j) ! i) (filter (\<lambda>j. eps ! j \<noteq> None) js)) rn)"
  by (induction eps i js rn rule: in_off.induct) (auto simp: slice_get_def split: option.splits)

lemma out_on_eq:
  "\<forall>j \<in> set js. j < length conn \<and> j < length es \<Longrightarrow>
   out_on (Some es) conn js rn = Some (enable_names True (map ((!) es) (filter ((!) conn) js)) rn)"
  by (induction "Some es" conn js rn rule: out_on.induct) (auto simp: slice_get_def)

lemma in_on_eq:
  "\<forall>j \<in> set js. j < length conn \<and> j < length eps \<and> (conn ! j \<longrightarrow> eps ! j \<noteq> None \<and> i < length (the (eps ! j))) \<Longrightarrow>
   in_on eps conn i js rn = Some (enable_names True (map (\<lambda>j. the (eps ! j) ! i) (filter ((!) conn) js)) rn)"
  by (induction eps conn i js rn rule: in_on.induct) (auto simp: slice_get_def)

lemma disconnect24_eq:
  assumes "wired c" "i < c_n c"
  shows "\<exists>c'. disconnect24 i c = Some c' \<and> wired c' \<and> c_connected c' = (c_connected c)[i := False] \<and>
    c' = c\<lparr>c_connected := c_connected c', c_net := c_net c'\<rparr> \<and>
    ends (c_net c') = ends (c_net c) \<and> servers (c_net c') = servers (c_net c)"
proof -
  let ?n = "c_n c" and ?eps = "c_endnames c"
  let ?os = "if ?eps ! i = None then [] else map ((!) (the (?eps ! i))) [0..<?n]"
  let ?is = "map (\<lambda>j. the (?eps ! j) ! i) (filter (\<lambda>j. ?eps ! j \<noteq> None) [0..<?n])"
  let ?c = "c\<lparr>c_connected := (c_connected c)[i := False], c_net := enable_names False (?os @ ?is) (c_net c)\<rparr>"
  note s = wiredD(1) [OF assms(1)] and len = wiredD(3) [OF assms(1)] and inj = wiredD(5) [OF assms(1)]
  have r: "disconnect24 i c = Some ?c"
    using s len assms(2) out_off_eq [of "?eps ! i" "[0..<?n]" "c_net c"]
      in_off_eq [of "[0..<?n]" ?eps i "enable_names False ?os (c_net c)"]
    by (auto simp: disconnect24_def sized_def slice_put_def slice_get_def)
  have os: "port c a b \<in> set (?os @ ?is) \<longleftrightarrow> a = i \<or> b = i" if ab: "a < ?n" "b < ?n" "?eps ! a \<noteq> None" for a b
  proof
    assume "port c a b \<in> set (?os @ ?is)"
    then consider j where "j < ?n" "?eps ! i \<noteq> None" "port c a b = port c i j" | j where "j < ?n" "?eps ! j \<noteq> None" "port c a b = port c j i"
      by (auto simp: port_def split: if_splits)
    then show "a = i \<or> b = i" using inj ab assms(2) by cases blast+
  qed (use ab in \<open>auto simp: port_def image_iff\<close>)
  note on = wiredD(2,6) [OF assms(1)]
  have lc: "length (c_connected c) = ?n" using s by (simp add: sized_def)
  have "wired ?c"
  proof (rule wired_relink [OF assms(1)])
    show "\<forall>a < ?n. \<forall>b < ?n. ?eps ! a \<noteq> None \<longrightarrow> is_enabled (enable_names False (?os @ ?is) (c_net c)) (port c a b) =
        ((c_connected c)[i := False] ! a \<and> (c_connected c)[i := False] ! b)"
    proof (intro allI impI)
      fix a b
      assume ab: "a < ?n" "b < ?n" "?eps ! a \<noteq> None"
      show "is_enabled (enable_names False (?os @ ?is) (c_net c)) (port c a b) =
          ((c_connected c)[i := False] ! a \<and> (c_connected c)[i := False] ! b)"
        unfolding is_enabled_names os [OF ab] using on(2) [OF ab] ab lc by (simp add: nth_list_update)
    qed
    show "\<forall>a < ?n. (c_connected c)[i := False] ! a \<longrightarrow> ?eps ! a \<noteq> None"
      using on(1) lc by (metis nth_list_update_eq nth_list_update_neq)
  qed (simp_all add: lc)
  then show ?thesis using r by (intro exI [of _ ?c]) simp
qed

lemma connect24_eq:
  assumes "wired c" "i < c_n c" "c_endnames c ! i \<noteq> None"
  shows "\<exists>c'. connect24 i c = Some c' \<and> wired c' \<and> c_connected c' = (c_connected c)[i := True] \<and>
    c' = c\<lparr>c_connected := c_connected c', c_net := c_net c'\<rparr> \<and> ends (c_net c') = ends (c_net c)"
proof -
  let ?n = "c_n c" and ?eps = "c_endnames c" and ?conn = "(c_connected c)[i := True]"
  obtain es where es: "?eps ! i = Some es" using assms(3) by blast
  let ?os = "map ((!) es) (filter ((!) ?conn) [0..<?n])"
  let ?is = "map (\<lambda>j. the (?eps ! j) ! i) (filter ((!) ?conn) [0..<?n])"
  let ?rn = "enable_names True (?os @ ?is) (c_net c)"
  note s = wiredD(1) [OF assms(1)] and len = wiredD(3) [OF assms(1)] and inj = wiredD(5) [OF assms(1)]
    and on = wiredD(2,6) [OF assms(1)]
  have lc: "length (c_connected c) = ?n" "length ?eps = ?n" using s by (simp_all add: sized_def)
  have conn: "?eps ! a \<noteq> None" if "a < ?n" "?conn ! a" for a
    using that on(1) [of a] assms(3) by (cases "a = i") simp_all
  have lens: "i < length (the (?eps ! a))" if "a < ?n" "?eps ! a \<noteq> None" for a using that len assms(2) by fastforce
  have r: "connect24 i c = Some (c\<lparr>c_connected := ?conn, c_net := ?rn\<rparr>)"
    using lc assms(2) es len [OF assms(2) es] conn lens out_on_eq [of "[0..<?n]" ?conn es "c_net c"]
      in_on_eq [of "[0..<?n]" ?conn ?eps i "enable_names True ?os (c_net c)"]
    by (simp add: connect24_def slice_put_def slice_get_def)
  have os: "port c a b \<in> set (?os @ ?is) \<longleftrightarrow> a = i \<and> ?conn ! b \<or> b = i \<and> ?conn ! a"
    if ab: "a < ?n" "b < ?n" "?eps ! a \<noteq> None" for a b
  proof
    assume "port c a b \<in> set (?os @ ?is)"
    then consider j where "j < ?n" "?conn ! j" "port c a b = port c i j" | j where "j < ?n" "?conn ! j" "port c a b = port c j i"
      by (auto simp: port_def es)
    then show "a = i \<and> ?conn ! b \<or> b = i \<and> ?conn ! a"
    proof cases
      case 1
      then show ?thesis using inj [OF ab(1,2) assms(2) 1(1) ab(3) assms(3)] by simp
    next
      case 2
      then show ?thesis using inj [OF ab(1,2) 2(1) assms(2) ab(3) conn [OF 2(1,2)]] by simp
    qed
  qed (use ab es in \<open>auto simp: port_def image_iff\<close>)
  have "wired (c\<lparr>c_connected := ?conn, c_net := ?rn\<rparr>)"
  proof (rule wired_relink [OF assms(1)])
    show "\<forall>a < ?n. \<forall>b < ?n. ?eps ! a \<noteq> None \<longrightarrow> is_enabled ?rn (port c a b) = (?conn ! a \<and> ?conn ! b)"
    proof (intro allI impI)
      fix a b
      assume ab: "a < ?n" "b < ?n" "?eps ! a \<noteq> None"
      show "is_enabled ?rn (port c a b) = (?conn ! a \<and> ?conn ! b)"
        unfolding is_enabled_names os [OF ab] using on(2) [OF ab] ab lc by (auto simp: nth_list_update)
    qed
  qed (use conn lc in simp_all)
  then show ?thesis using r by (intro exI [of _ "c\<lparr>c_connected := ?conn, c_net := ?rn\<rparr>"]) simp
qed

lemma crash1_eq:
  assumes "wired c" "i < c_n c"
  shows "\<exists>c'. crash1 i c = Some c' \<and> wired c' \<and> c_connected c' = (c_connected c)[i := False] \<and>
    c_rafts c' = (c_rafts c)[i := False] \<and> c_n c' = c_n c \<and> c_endnames c' = c_endnames c \<and> c_logs c' = c_logs c \<and>
    c_lastApplied c' = c_lastApplied c \<and> c_saved c' = c_saved c \<and> ends (c_net c') = ends (c_net c) \<and>
    servers (c_net c') = (servers (c_net c))(itoa i := None)"
proof -
  obtain d where d: "disconnect24 i c = Some d" "wired d" "c_connected d = (c_connected c)[i := False]"
    "d = c\<lparr>c_connected := c_connected d, c_net := c_net d\<rparr>" "ends (c_net d) = ends (c_net c)" "servers (c_net d) = servers (c_net c)"
    using disconnect24_eq [OF assms] by blast
  let ?c = "d\<lparr>c_net := DeleteServer (itoa i) (c_net d), c_rafts := (c_rafts d)[i := False]\<rparr>"
  have f: "c_n d = c_n c" "c_rafts d = c_rafts c" "c_endnames d = c_endnames c" "c_saved d = c_saved c" "c_logs d = c_logs c"
    "c_lastApplied d = c_lastApplied c" by (subst d(4), simp)+
  have len: "length (c_saved d) = c_n c" "length (c_rafts d) = c_n c" using d(2) f(1) by (simp_all add: wired_def sized_def)
  have id: "map_option ((\<lambda>p. Save24 (ReadRaftState24 p) (ReadSnapshot24 p) MakePersister24) \<circ> Copy24) x = x" for x :: "'a Persister24 option"
    by (cases x) (simp_all add: Save24_def ReadRaftState24_def ReadSnapshot24_def MakePersister24_def Copy24_def)
  have "crash1 i c = Some ?c"
    using d(1) len assms(2) id by (simp add: crash1_def slice_get_def slice_put_def option.map_comp)
  moreover have "wired ?c"
  proof -
    have "wired (d\<lparr>c_net := DeleteServer (itoa i) (c_net d), c_rafts := (c_rafts d)[i := False]\<rparr>)"
      using d(2) len f(1) unfolding wired_def
      by (elim conjE) (simp add: sized_def DeleteServer_def is_enabled_def nth_list_update)
    then show ?thesis .
  qed
  ultimately show ?thesis using f d(3,5,6) by (intro exI [of _ ?c]) (simp add: DeleteServer_def)
qed

lemma fresh_ends_ok:
  "distinct names \<Longrightarrow> \<forall>e \<in> set names. ends rn e = None \<Longrightarrow>
   \<exists>rn'. fresh_ends j names rn = Some rn' \<and> servers rn' = servers rn \<and>
     (\<forall>e. is_enabled rn' e = (e \<notin> set names \<and> is_enabled rn e)) \<and>
     (\<forall>e. ends rn' e \<noteq> None \<longleftrightarrow> e \<in> set names \<or> ends rn e \<noteq> None)"
proof (induction names arbitrary: rn j)
  case (Cons e es)
  have "ends rn e = None" using Cons.prems(2) by simp
  then obtain rn1 ce where q: "MakeEnd e rn = Some (rn1, ce)" "servers (Connect e (itoa j) rn1) = servers rn"
    "\<And>x. is_enabled (Connect e (itoa j) rn1) x = (x \<noteq> e \<and> is_enabled rn x)"
    "\<And>x. ends (Connect e (itoa j) rn1) x \<noteq> None \<longleftrightarrow> x = e \<or> ends rn x \<noteq> None"
    using new_end by metis
  have "\<forall>x \<in> set es. ends (Connect e (itoa j) rn1) x = None"
    using q(4) Cons.prems by (metis distinct.simps(2) list.set_intros(2))
  from Cons.IH [OF _ this, of "Suc j"] Cons.prems(1) obtain rn' where
    "fresh_ends (Suc j) es (Connect e (itoa j) rn1) = Some rn'" "servers rn' = servers (Connect e (itoa j) rn1)"
    "\<forall>x. is_enabled rn' x = (x \<notin> set es \<and> is_enabled (Connect e (itoa j) rn1) x)"
    "\<forall>x. ends rn' x \<noteq> None \<longleftrightarrow> x \<in> set es \<or> ends (Connect e (itoa j) rn1) x \<noteq> None" by auto
  then show ?case using q(1-3) unfolding q(4) by auto
qed simp

lemma wired_restart:
  assumes w: "wired c" and i: "i < c_n c" "\<not> c_connected c ! i"
    and names: "length names = c_n c" "distinct names" "\<forall>e \<in> set names. ends (c_net c) e = None"
    and rn: "servers rn = servers (c_net c)" "\<forall>e. is_enabled rn e = (e \<notin> set names \<and> is_enabled (c_net c) e)"
      "\<forall>e. ends rn e \<noteq> None \<longleftrightarrow> e \<in> set names \<or> ends (c_net c) e \<noteq> None"
  shows "wired (c\<lparr>c_endnames := (c_endnames c)[i := Some names], c_rafts := (c_rafts c)[i := True],
    c_net := AddServer (itoa i) a rn\<rparr>)" (is "wired ?c")
proof -
  let ?n = "c_n c"
  have s: "length (c_endnames c) = ?n" "length (c_rafts c) = ?n" "sized c" using w by (auto simp: wired_def sized_def)
  have eps: "c_endnames ?c ! k = (if k = i then Some names else c_endnames c ! k)" for k using s(1) i(1) by (simp add: nth_list_update)
  have p: "port ?c k j = (if k = i then names ! j else port c k j)" for k j unfolding port_def eps by simp
  have mem: "names ! j \<in> set names" if "j < ?n" for j using that names(1) by simp
  have old: "ends (c_net c) (port c k j) \<noteq> None" "port c k j \<notin> set names"
    if "k < ?n" "j < ?n" "c_endnames c ! k \<noteq> None" for k j
    using wiredD(4) [OF w that] names(3) by auto
  note w' = wiredD(2,3,5-7) [OF w]
  have "port ?c k j = port ?c k' j' \<longrightarrow> k = k' \<and> j = j'"
    if "k < ?n" "j < ?n" "k' < ?n" "j' < ?n" "c_endnames ?c ! k \<noteq> None" "c_endnames ?c ! k' \<noteq> None" for k j k' j'
  proof (cases "k = i \<or> k' = i")
    case True
    then show ?thesis
      using that mem old(2) nth_eq_iff_index_eq [OF names(2)] names(1) unfolding p eps by (metis option.discI)
  next
    case False
    then show ?thesis using that w'(3) [of k j k' j'] unfolding p eps by auto
  qed
  moreover have "is_enabled (c_net ?c) (port ?c k j) = (c_connected ?c ! k \<and> c_connected ?c ! j)"
    if "k < ?n" "j < ?n" "c_endnames ?c ! k \<noteq> None" for k j
    using that mem [of j] old(2) [of k j] w'(4) [of k j] rn(2) i(2) unfolding p eps
    by (auto simp: AddServer_def is_enabled_def split: if_splits)
  moreover have "ends (c_net ?c) (port ?c k j) \<noteq> None" if "k < ?n" "j < ?n" "c_endnames ?c ! k \<noteq> None" for k j
  proof -
    have "port ?c k j \<in> set names \<or> ends (c_net c) (port ?c k j) \<noteq> None"
      using that mem [of j] old(1) [of k j] unfolding p eps by (auto split: if_splits)
    then show ?thesis using rn(3) by (auto simp: AddServer_def)
  qed
  moreover have "servers (c_net ?c) (itoa k) \<noteq> None \<longleftrightarrow> c_rafts ?c ! k" if "k < ?n" for k
    using that w'(5) [of k] rn(1) s(2) by (simp add: AddServer_def nth_list_update)
  moreover have "length es = ?n" if "k < ?n" "c_endnames ?c ! k = Some es" for k es
    using that w'(2) [of k es] names(1) unfolding eps by (auto split: if_splits)
  moreover have "c_endnames ?c ! k \<noteq> None" if "k < ?n" "c_connected ?c ! k" for k
    using that w'(1) [of k] unfolding eps by auto
  moreover have "sized ?c" using s by (simp add: sized_def)
  ultimately show ?thesis unfolding wired_def by simp
qed

lemma wired_cong:
  assumes "wired c" "c_n d = c_n c" "c_rafts d = c_rafts c" "c_connected d = c_connected c" "c_endnames d = c_endnames c"
    "c_net d = c_net c" "c_applyErr d = c_applyErr c"
    "length (c_saved d) = c_n c" "length (c_logs d) = c_n c" "length (c_lastApplied d) = c_n c"
  shows "wired d"
proof -
  have "port d = port c" using assms(5) by (simp add: port_def fun_eq_iff)
  then show ?thesis using assms unfolding wired_def by (simp add: sized_def)
qed

definition readable :: "'c Persister24 option \<Rightarrow> bool" where
  "readable sv \<longleftrightarrow> (\<forall>p. sv = Some p \<longrightarrow> snapshot24 p \<noteq> Some Garbage)"

definition restored :: "'c Persister24 option \<Rightarrow> 'c Persister24" where
  "restored sv = (case sv of None \<Rightarrow> MakePersister24 | Some p \<Rightarrow> p)"

definition resume_index :: "'c Persister24 option \<Rightarrow> int" where
  "resume_index sv = (case snapshot24 (restored sv) of Some (Snap k xs) \<Rightarrow> k | _ \<Rightarrow> 0)"

lemma ingest_start:
  assumes "snapshot24 p = Some (Snap k xs)" "sized c" "i < c_n c"
  shows "\<exists>c'. ingestSnap24 i (snapshot24 p) (-1) c = Some (c', NoErr) \<and> c_lastApplied c' = (c_lastApplied c)[i := k] \<and>
    c_n c' = c_n c \<and> c_rafts c' = c_rafts c \<and> c_connected c' = c_connected c \<and> c_endnames c' = c_endnames c \<and>
    c_net c' = c_net c \<and> c_applyErr c' = c_applyErr c \<and> c_saved c' = c_saved c \<and> length (c_logs c') = length (c_logs c)"
  using assms by (simp add: ingestSnap24_def sized_def slice_put_def)

lemma start1_eq:
  assumes w: "wired c" and i: "i < c_n c" and names: "length names = c_n c" "distinct names"
    "\<forall>e \<in> set names. ends (c_net c) e = None" and sv: "readable (c_saved c ! i)"
  shows "\<exists>c'. start1 i names a c = Some c' \<and> wired c' \<and> c_n c' = c_n c \<and> c_connected c' = (c_connected c)[i := False] \<and>
    c_rafts c' = (c_rafts c)[i := True] \<and> c_saved c' = (c_saved c)[i := Some (restored (c_saved c ! i))] \<and>
    c_lastApplied c' = (c_lastApplied c)[i := resume_index (c_saved c ! i)] \<and>
    c_endnames c' = (c_endnames c)[i := Some names] \<and>
    (\<forall>e. ends (c_net c') e \<noteq> None \<longleftrightarrow> e \<in> set names \<or> ends (c_net c) e \<noteq> None)"
proof -
  obtain d where d: "crash1 i c = Some d" "wired d" "c_connected d = (c_connected c)[i := False]"
    "c_rafts d = (c_rafts c)[i := False]" "c_n d = c_n c" "c_endnames d = c_endnames c"
    "c_lastApplied d = c_lastApplied c" "c_saved d = c_saved c" "ends (c_net d) = ends (c_net c)"
    using crash1_eq [OF w i] by blast
  note sd = wiredD(1) [OF d(2)]
  have len: "length (c_saved c) = c_n c" "length (c_lastApplied c) = c_n c" "length (c_endnames c) = c_n c"
    "length (c_logs d) = c_n c" "length (c_connected c) = c_n c" "length (c_applyErr d) = c_n c" "length (c_rafts c) = c_n c"
    using sd d(3-8) by (simp_all add: sized_def)
  have fr: "\<forall>e \<in> set names. ends (c_net d) e = None" using names(3) d(9) by simp
  obtain rn where rn: "fresh_ends 0 names (c_net d) = Some rn" "servers rn = servers (c_net d)"
    "\<forall>e. is_enabled rn e = (e \<notin> set names \<and> is_enabled (c_net d) e)"
    "\<forall>e. ends rn e \<noteq> None \<longleftrightarrow> e \<in> set names \<or> ends (c_net d) e \<noteq> None"
    using fresh_ends_ok [OF names(2) fr, of 0] by blast
  let ?p = "restored (c_saved c ! i)"
  let ?d = "d\<lparr>c_endnames := (c_endnames d)[i := Some names], c_net := rn, c_lastApplied := (c_lastApplied d)[i := 0],
    c_saved := (c_saved d)[i := Some ?p]\<rparr>"
  have cp: "Copy24 p = p" for p :: "'a Persister24" by (simp add: Copy24_def MakePersister24_def)
  have "\<exists>e'. start1 i names a c = Some (e'\<lparr>c_rafts := (c_rafts e')[i := True], c_net := AddServer (itoa i) a (c_net e')\<rparr>) \<and>
      c_lastApplied e' = (c_lastApplied c)[i := resume_index (c_saved c ! i)] \<and> c_n e' = c_n c \<and> c_rafts e' = c_rafts d \<and>
      c_connected e' = c_connected d \<and> c_endnames e' = c_endnames ?d \<and> c_net e' = rn \<and> c_applyErr e' = c_applyErr d \<and>
      c_saved e' = c_saved ?d \<and> length (c_logs e') = c_n c"
  proof (cases "snapshot24 ?p")
    case None
    then have r: "start1 i names a c = Some (?d\<lparr>c_rafts := (c_rafts ?d)[i := True], c_net := AddServer (itoa i) a (c_net ?d)\<rparr>)"
      using d(1,5-8) rn(1) len i by (cases "c_saved c ! i")
        (simp_all add: start1_def slice_put_def slice_get_def restored_def Let_def ReadSnapshot24_def cp)
    show ?thesis using r None len d(5-8) by (intro exI [of _ ?d]) (simp add: resume_index_def)
  next
    case (Some sn)
    then obtain k xs where sn: "snapshot24 ?p = Some (Snap k xs)"
      using sv by (cases sn; cases "c_saved c ! i") (auto simp: readable_def restored_def MakePersister24_def)
    obtain p where p: "c_saved c ! i = Some p" "restored (c_saved c ! i) = p"
      using Some by (cases "c_saved c ! i") (auto simp: restored_def MakePersister24_def)
    have "sized ?d" using sd d(5-8) len by (simp add: sized_def)
    then obtain e' where e': "ingestSnap24 i (snapshot24 ?p) (-1) ?d = Some (e', NoErr)" "c_lastApplied e' = (c_lastApplied ?d)[i := k]"
      "c_n e' = c_n ?d" "c_rafts e' = c_rafts ?d" "c_connected e' = c_connected ?d" "c_endnames e' = c_endnames ?d"
      "c_net e' = c_net ?d" "c_applyErr e' = c_applyErr ?d" "c_saved e' = c_saved ?d" "length (c_logs e') = length (c_logs ?d)"
      using ingest_start [OF sn, of ?d i] i d(5) by auto
    have r: "start1 i names a c = Some (e'\<lparr>c_rafts := (c_rafts e')[i := True], c_net := AddServer (itoa i) a (c_net e')\<rparr>)"
      using d(1,5-8) rn(1) len i sn e'(1) p by (simp add: start1_def slice_put_def slice_get_def Let_def ReadSnapshot24_def cp)
    show ?thesis using r e'(2-10) len d(5-8) sn by (intro exI [of _ e']) (simp add: resume_index_def)
  qed
  then obtain e' where e': "start1 i names a c = Some (e'\<lparr>c_rafts := (c_rafts e')[i := True], c_net := AddServer (itoa i) a (c_net e')\<rparr>)"
    "c_lastApplied e' = (c_lastApplied c)[i := resume_index (c_saved c ! i)]" "c_n e' = c_n c" "c_rafts e' = c_rafts d"
    "c_connected e' = c_connected d" "c_endnames e' = c_endnames ?d" "c_net e' = rn" "c_applyErr e' = c_applyErr d"
    "c_saved e' = c_saved ?d" "length (c_logs e') = c_n c" by blast
  let ?c = "e'\<lparr>c_rafts := (c_rafts e')[i := True], c_net := AddServer (itoa i) a (c_net e')\<rparr>"
  have off: "\<not> c_connected d ! i" using d(3) i len(5) by simp
  have "wired ?c"
    by (rule wired_cong [OF wired_restart [OF d(2) _ off _ names(2) fr rn(2-4), of a]])
       (use e'(2-10) d(5,7,8) i names(1) len in simp_all)
  then show ?thesis using e' d(3-9) rn(4) i len by (intro exI [of _ ?c]) (simp add: AddServer_def)
qed

section \<open>States that a test reaches\<close>

definition all_named :: "'c config \<Rightarrow> bool" where
  "all_named c \<longleftrightarrow> (\<forall>i < c_n c. c_endnames c ! i \<noteq> None)"

lemma start_all_ok:
  assumes "wired c" "k + length fs = c_n c" "\<forall>f \<in> set fs. length (fst f) = c_n c" "distinct (concat (map fst fs))"
    "\<forall>e \<in> set (concat (map fst fs)). ends (c_net c) e = None" "\<forall>i < c_n c. readable (c_saved c ! i)"
    "\<forall>i < k. c_endnames c ! i \<noteq> None"
  shows "\<exists>c'. start_all (enumerate k fs) c = Some c' \<and> wired c' \<and> c_n c' = c_n c \<and> all_named c' \<and>
    (\<forall>i < c_n c. readable (c_saved c' ! i))"
  using assms
proof (induction fs arbitrary: c k)
  case (Cons f fs)
  obtain names a where f: "f = (names, a)" by force
  let ?b = "c\<lparr>c_logs := (c_logs c)[k := Map.empty]\<rparr>"
  note sz = wiredD(1) [OF Cons.prems(1), unfolded sized_def]
  have k: "k < c_n c" using Cons.prems(2) by simp
  have b: "wired ?b" by (rule wired_cong [OF Cons.prems(1)]) (use sz in simp_all)
  have pre: "length names = c_n ?b" "distinct names" "\<forall>e \<in> set names. ends (c_net ?b) e = None" "readable (c_saved ?b ! k)"
    using Cons.prems(3-6) f k by auto
  obtain d where d: "start1 k names a ?b = Some d" "wired d" "c_n d = c_n c"
    "c_saved d = (c_saved c)[k := Some (restored (c_saved c ! k))]" "c_endnames d = (c_endnames c)[k := Some names]"
    "\<forall>e. ends (c_net d) e \<noteq> None \<longleftrightarrow> e \<in> set names \<or> ends (c_net c) e \<noteq> None"
    using start1_eq [OF b _ pre, of a] k by auto
  have rd: "\<forall>i < c_n d. readable (c_saved d ! i)"
  proof (intro allI impI)
    fix i
    assume "i < c_n d"
    then show "readable (c_saved d ! i)"
      using Cons.prems(6) sz k d(3) unfolding d(4)
      by (cases "i = k") (auto simp: readable_def restored_def MakePersister24_def split: option.splits)
  qed
  have nm: "\<forall>i < Suc k. c_endnames d ! i \<noteq> None"
    using Cons.prems(7) sz k unfolding d(5) by (auto simp: nth_list_update less_Suc_eq)
  have fresh: "\<forall>e \<in> set (concat (map fst fs)). ends (c_net d) e = None"
  proof
    fix e
    assume "e \<in> set (concat (map fst fs))"
    then have "e \<notin> set names" "ends (c_net c) e = None" using Cons.prems(4,5) f by auto
    then show "ends (c_net d) e = None" using d(6) by blast
  qed
  have step: "start_all (enumerate k (f # fs)) c = start_all (enumerate (Suc k) fs) d"
    using d(1) f k sz by (simp add: slice_put_def)
  show ?case unfolding step
    using Cons.IH [of d "Suc k"] d(2,3) Cons.prems(2-4) rd nm fresh by auto
qed (simp add: all_named_def)

lemma connect_all_ok:
  assumes "wired c" "all_named c" "set xs \<subseteq> {..<c_n c}"
  shows "\<exists>c'. connect_all xs c = Some c' \<and> wired c' \<and> all_named c' \<and> c_n c' = c_n c \<and> c_saved c' = c_saved c \<and>
    (\<forall>i < c_n c. c_connected c' ! i \<longleftrightarrow> i \<in> set xs \<or> c_connected c ! i)"
  using assms
proof (induction xs arbitrary: c)
  case (Cons x xs)
  have x: "x < c_n c" "c_endnames c ! x \<noteq> None" using Cons.prems(2,3) by (auto simp: all_named_def)
  obtain d where d: "connect24 x c = Some d" "wired d" "c_connected d = (c_connected c)[x := True]"
    "d = c\<lparr>c_connected := c_connected d, c_net := c_net d\<rparr>"
    using connect24_eq [OF Cons.prems(1) x] by blast
  have f: "c_n d = c_n c" "c_endnames d = c_endnames c" "c_saved d = c_saved c" by (subst d(4), simp)+
  have lc: "length (c_connected c) = c_n c" using wiredD(1) [OF Cons.prems(1)] by (simp add: sized_def)
  have up: "(c_connected c)[x := True] ! i \<longleftrightarrow> i = x \<or> c_connected c ! i" for i
    using x(1) lc by (auto simp: nth_list_update)
  have "all_named d" "set xs \<subseteq> {..<c_n d}" using Cons.prems(2,3) f by (auto simp: all_named_def)
  from Cons.IH [OF d(2) this] obtain c' where "connect_all xs d = Some c'" "wired c'" "all_named c'" "c_n c' = c_n d"
    "c_saved c' = c_saved d" "\<forall>i < c_n d. c_connected c' ! i \<longleftrightarrow> i \<in> set xs \<or> c_connected d ! i" by blast
  then show ?case using d(1,3) f up by (intro exI [of _ c']) auto
qed simp

definition fresh_names :: "(string list \<times> nat) list \<Rightarrow> bool" where
  "fresh_names fr \<longleftrightarrow> (\<forall>f \<in> set fr. length (fst f) = length fr) \<and> distinct (concat (map fst fr))"

lemma new_config_wired: "wired (new_config n now)" "wired (setunreliable u (new_config n now))"
  by (simp_all add: wired_def sized_def new_config_def setunreliable_def MakeNetwork_def Reliable_def)

lemma make_config_ok:
  assumes "fresh_names fr"
  shows "\<exists>c :: 'c config. make_config fr unreliable now = Some c \<and> wired c \<and> all_named c \<and> c_n c = length fr \<and>
    (\<forall>i < c_n c. readable (c_saved c ! i)) \<and> (\<forall>i < c_n c. c_connected c ! i)"
proof -
  let ?n = "length fr" and ?c = "setunreliable unreliable (new_config (length fr) now) :: 'c config"
  let ?b = "?c\<lparr>c_net := LongDelays True (c_net ?c)\<rparr>"
  have b: "wired ?b"
    by (simp add: wired_def sized_def new_config_def setunreliable_def MakeNetwork_def Reliable_def LongDelays_def)
  have n: "c_n ?b = ?n" "\<forall>i < ?n. c_saved ?b ! i = None" "\<forall>e. ends (c_net ?b) e = None"
    by (simp_all add: new_config_def setunreliable_def Reliable_def LongDelays_def MakeNetwork_def)
  obtain d where d: "start_all (enumerate 0 fr) ?b = Some d" "wired d" "c_n d = ?n" "all_named d" "\<forall>i < ?n. readable (c_saved d ! i)"
    using start_all_ok [OF b, of 0 fr] n assms by (auto simp: fresh_names_def readable_def)
  have "set [0..<?n] \<subseteq> {..<c_n d}" using d(3) by auto
  then obtain c where "connect_all [0..<?n] d = Some c" "wired c" "all_named c" "c_n c = c_n d" "c_saved c = c_saved d"
    "\<forall>i < c_n d. c_connected c ! i \<longleftrightarrow> i \<in> set [0..<?n] \<or> c_connected d ! i"
    using connect_all_ok [OF d(2,4)] by blast
  then show ?thesis using d by (intro exI [of _ c]) (simp add: make_config_def Let_def)
qed

text \<open>What a test does to the configuration; \<open>Persist\<close> is a save by the Raft instance of a server.\<close>

datatype 'c harness_op =
  Crash nat | Restart nat "string list" nat | Attach nat | Detach nat | Persist nat "'c Persister24"

fun harness_step :: "'c harness_op \<Rightarrow> 'c config \<Rightarrow> 'c config option" where
  "harness_step (Crash i) c = crash1 i c"
| "harness_step (Restart i names a) c = start1 i names a c"
| "harness_step (Attach i) c = connect24 i c"
| "harness_step (Detach i) c = disconnect24 i c"
| "harness_step (Persist i p) c = Some (c\<lparr>c_saved := (c_saved c)[i := Some p]\<rparr>)"

text \<open>Servers that exist, fresh names for a new start, and snapshots that can be decoded.\<close>

fun op_ok :: "'c harness_op \<Rightarrow> 'c config \<Rightarrow> bool" where
  "op_ok (Restart i names a) c \<longleftrightarrow> i < c_n c \<and> length names = c_n c \<and> distinct names \<and> list_all (\<lambda>e. ends (c_net c) e = None) names"
| "op_ok (Persist i p) c \<longleftrightarrow> i < c_n c \<and> snapshot24 p \<noteq> Some Garbage"
| "op_ok (Crash i) c \<longleftrightarrow> i < c_n c"
| "op_ok (Attach i) c \<longleftrightarrow> i < c_n c"
| "op_ok (Detach i) c \<longleftrightarrow> i < c_n c"

inductive reached :: "nat \<Rightarrow> 'c config \<Rightarrow> bool" for n where
  reached_init: "fresh_names fr \<Longrightarrow> length fr = n \<Longrightarrow> make_config fr unreliable now = Some c \<Longrightarrow> reached n c"
| reached_step: "reached n c \<Longrightarrow> op_ok op c \<Longrightarrow> harness_step op c = Some c' \<Longrightarrow> reached n c'"

definition harness_inv :: "nat \<Rightarrow> 'c config \<Rightarrow> bool" where
  "harness_inv n c \<longleftrightarrow> wired c \<and> all_named c \<and> c_n c = n \<and> (\<forall>i < n. readable (c_saved c ! i))"

lemma readable_update:
  "\<forall>i < n. readable (svs ! i) \<Longrightarrow> readable x \<Longrightarrow> \<forall>i < n. readable (svs[k := x] ! i)"
  by (metis list_update_beyond not_le nth_list_update)

lemma harness_step_inv:
  assumes "harness_inv n c" "op_ok op c"
  shows "\<exists>c'. harness_step op c = Some c' \<and> harness_inv n c'"
proof -
  have c: "wired c" "all_named c" "c_n c = n" "\<forall>i < n. readable (c_saved c ! i)" using assms(1) by (simp_all add: harness_inv_def)
  note sz = wiredD(1) [OF c(1), unfolded sized_def]
  show ?thesis
  proof (cases op)
    case (Crash i)
    then show ?thesis using crash1_eq [OF c(1), of i] assms(2) c by (auto simp: harness_inv_def all_named_def)
  next
    case (Restart i names a)
    then have pre: "i < c_n c" "length names = c_n c" "distinct names" "\<forall>e \<in> set names. ends (c_net c) e = None"
      "readable (c_saved c ! i)" using assms(2) c(3,4) by (auto simp: list_all_iff)
    obtain d where d: "start1 i names a c = Some d" "wired d" "c_n d = n" "c_saved d = (c_saved c)[i := Some (restored (c_saved c ! i))]"
      "c_endnames d = (c_endnames c)[i := Some names]"
      using start1_eq [OF c(1) pre, of a] c(3) by auto
    have "readable (Some (restored (c_saved c ! i)))"
      using pre(5) by (auto simp: readable_def restored_def MakePersister24_def split: option.splits)
    then have "\<forall>k < n. readable (c_saved d ! k)" unfolding d(4) by (rule readable_update [OF c(4)])
    moreover have "all_named d" using c(2,3) pre(1) sz d(3) unfolding all_named_def d(5) by (auto simp: nth_list_update)
    ultimately show ?thesis using d(1-3) Restart by (simp add: harness_inv_def)
  next
    case (Attach i)
    then have i: "i < c_n c" "c_endnames c ! i \<noteq> None" using assms(2) c(2) by (auto simp: all_named_def)
    obtain d where d: "connect24 i c = Some d" "wired d" "d = c\<lparr>c_connected := c_connected d, c_net := c_net d\<rparr>"
      using connect24_eq [OF c(1) i] by blast
    have "c_n d = c_n c" "c_endnames d = c_endnames c" "c_saved d = c_saved c" by (subst d(3), simp)+
    then show ?thesis using d(1,2) Attach c by (simp add: harness_inv_def all_named_def)
  next
    case (Detach i)
    then have i: "i < c_n c" using assms(2) by simp
    obtain d where d: "disconnect24 i c = Some d" "wired d" "d = c\<lparr>c_connected := c_connected d, c_net := c_net d\<rparr>"
      using disconnect24_eq [OF c(1) i] by blast
    have "c_n d = c_n c" "c_endnames d = c_endnames c" "c_saved d = c_saved c" by (subst d(3), simp)+
    then show ?thesis using d(1,2) Detach c by (simp add: harness_inv_def all_named_def)
  next
    case (Persist i p)
    let ?d = "c\<lparr>c_saved := (c_saved c)[i := Some p]\<rparr>"
    have "wired ?d" by (rule wired_cong [OF c(1)]) (use sz in simp_all)
    moreover have "\<forall>k < n. readable (c_saved ?d ! k)"
      using readable_update [OF c(4), of "Some p" i] assms(2) Persist by (simp add: readable_def)
    ultimately show ?thesis using Persist c by (simp add: harness_inv_def all_named_def)
  qed
qed

lemma reached_inv: "reached n c \<Longrightarrow> harness_inv n c"
proof (induction rule: reached.induct)
  case (reached_init fr unreliable now c)
  then show ?case using make_config_ok [where 'c = 'a, of fr unreliable now] by (auto simp: harness_inv_def)
next
  case (reached_step c op c')
  then show ?case using harness_step_inv by fastforce
qed

section \<open>Claims about the harness of 2024\<close>

text \<open>C35. The harness of 2024, which ends the process at the first error, and the later one, which records
  it, accept the same runs: started from the same logs without errors, the appliers of the former survive a
  sequence of applied entries exactly when the latter records no error.  The logs are then the same, they agree if
  they did before, and both editions count the same commitments.\<close>

theorem editions_agree:
  assumes "sized c" "no_errors (as_test c)" "\<forall>im \<in> set ms. fst im < c_n c"
  shows "\<exists>t. applier_run ms (as_test c) = Some t \<and> (applier24_run ms c \<noteq> None \<longleftrightarrow> no_errors t) \<and>
    (\<forall>c'. applier24_run ms c = Some c' \<longrightarrow> as_test c' = t \<and> (logs_agree (as_test c) \<longrightarrow> logs_agree (as_test c')) \<and>
       (\<forall>idx. nCommitted24 idx c' = nCommitted idx t))"
proof (cases "applier24_run ms c")
  case None
  then show ?thesis using applier24_run_sim [OF assms] by auto
next
  case (Some c')
  then have c': "applier_run ms (as_test c) = Some (as_test c')" "sized c'" "no_errors (as_test c')"
    using applier24_run_sim [OF assms] by auto
  then show ?thesis using Some applier_run_agree [OF c'(1)] nCommitted24_sim [OF c'(2)] by auto
qed

definition config2 :: "nat config" where
  "config2 = the (make_config [([''a0'', ''a1''], 10), ([''b0'', ''b1''], 11)] False 0)"

lemma config2_eq: "make_config [([''a0'', ''a1''], 10), ([''b0'', ''b1''], 11)] False 0 = Some config2"
  and config2_reached: "reached 2 config2" and config2_sized: "sized config2" "c_n config2 = 2"
proof -
  have f: "fresh_names [([''a0'', ''a1''], 10 :: nat), ([''b0'', ''b1''], 11)]" by (simp add: fresh_names_def)
  from make_config_ok [where 'c = nat, OF f, of False 0]
  show c: "make_config [([''a0'', ''a1''], 10), ([''b0'', ''b1''], 11)] False 0 = Some config2"
    by (auto simp: config2_def)
  show r: "reached 2 config2" by (rule reached_init [OF f _ c]) simp
  show "sized config2" "c_n config2 = 2" using reached_inv [OF r] wiredD(1) by (auto simp: harness_inv_def)
qed

theorem editions_agree_witness:
  "\<exists>t. applier_run [(0, cmd_msg 1 7), (1, cmd_msg 1 8)] (as_test config2) = Some t \<and>
     (applier24_run [(0, cmd_msg 1 7), (1, cmd_msg 1 8)] config2 \<noteq> None \<longleftrightarrow> no_errors t)"
proof -
  have "no_errors (as_test config2)" unfolding as_test_errors [OF config2_sized(1)] by code_simp
  moreover have "\<forall>im \<in> set [(0, cmd_msg 1 (7 :: nat)), (1, cmd_msg 1 8)]. fst im < c_n config2"
    by (simp add: config2_sized(2))
  ultimately show ?thesis using editions_agree [OF config2_sized(1)] by blast
qed

text \<open>C34. In every state that a test reaches by crashing, restarting, connecting and disconnecting
  servers, the end from one server to another is enabled exactly when both are connected, a server is on the network
  exactly when its instance runs, and every further operation on an existing server succeeds.\<close>

theorem links_follow_connections:
  assumes "reached n c"
  shows "(\<forall>i < n. \<forall>j < n. is_enabled (c_net c) (the (c_endnames c ! i) ! j) \<longleftrightarrow> c_connected c ! i \<and> c_connected c ! j) \<and>
    (\<forall>i < n. servers (c_net c) (itoa i) \<noteq> None \<longleftrightarrow> c_rafts c ! i) \<and>
    (\<forall>op. op_ok op c \<longrightarrow> harness_step op c \<noteq> None)"
proof -
  have c: "harness_inv n c" using reached_inv [OF assms] .
  then have w: "wired c" "all_named c" "c_n c = n" by (simp_all add: harness_inv_def)
  have "is_enabled (c_net c) (port c i j) = (c_connected c ! i \<and> c_connected c ! j)" if "i < n" "j < n" for i j
    using wiredD(6) [OF w(1), of i j] that w(2,3) by (simp add: all_named_def)
  moreover have "harness_step op c \<noteq> None" if "op_ok op c" for op using harness_step_inv [OF c that] by blast
  ultimately show ?thesis using wiredD(7) [OF w(1)] w(3) by (simp add: port_def)
qed

theorem links_follow_connections_witness:
  "\<exists>c. harness_step (Detach 1) config2 = Some c \<and> \<not> is_enabled (c_net c) (the (c_endnames c ! 0) ! 1)"
proof -
  have d: "op_ok (Detach 1) config2" by (simp add: config2_sized(2))
  obtain c where c: "harness_step (Detach 1) config2 = Some c"
    using links_follow_connections [OF config2_reached] d by blast
  have "map_option (\<lambda>c. c_connected c ! 1) (harness_step (Detach 1) config2) = Some False" by code_simp
  then have "\<not> c_connected c ! 1" using c by simp
  moreover have "reached 2 c" by (rule reached_step [OF config2_reached d c])
  ultimately show ?thesis using links_follow_connections [of 2 c] c by auto
qed

end
