(* ===== verification/Spec2Isabelle.thy ===== *)
theory Spec2Isabelle
  imports Checker_Properties Kvsrv_Properties Shardcfg_Properties MapReduce_Properties
    Labrpc_Properties Tester_Properties Annotation_Properties Raft_Properties Labgob_Properties
    Kvtest_Properties Demux_Properties Rsm_Properties Oplog_Properties Test_Config_Properties
    Shard_Driver_Properties Shard_Clerk_Properties Crawler_Properties Raft24_Properties
begin

text \<open>
  A verification library for the distributed-systems labs under \<open>src/\<close>.

  \<^bold>\<open>The program.\<close>  The repository holds several editions of the labs of a course on distributed
  systems, written in Go.  The parts with code of their own are: a linearizability checker and the
  key/value models it is used with; a key/value server with clients that retry; a MapReduce coordinator
  with workers, and the sequential program the tests compare it with; shard configurations; and the
  framework in which all of this is tested, a simulated network, servers and clients that can be
  partitioned, crashed and restarted, annotations of the history, the harness for Raft, the test
  library for key/value services, the checks on encoded values, and the multiplexer that carries calls
  to server processes; the clerks of an earlier sharded service; and the crawlers of a lecture.  They interact in this way: tests start servers (\<open>tester1\<close>) on the network
  (\<open>labrpc\<close>, or \<open>demux\<close> for processes), clients issue operations over it and log them
  (\<open>kvtest1\<close>), and the log is given to the checker (\<open>porcupine\<close>) with a model (\<open>models\<close>,
  \<open>models1\<close>).  Of every part the edition in which it is most developed is modelled; the other editions
  hold copies.

  \<^bold>\<open>Conventions\<close> (\<open>Prelude\<close>).  A slice is a list, a map a partial function or an association list, a
  struct a record, a panic \<open>None\<close> (or \<open>Panics\<close>), \<open>log.Fatalf\<close> and \<open>t.Fatalf\<close> error values.  What
  Go leaves open is an argument: the order in which a map is visited (\<open>visits\<close>), random draws, the
  clock, which goroutine moves next (step relations).  A critical section is one step.  \<open>Effect_Order\<close> holds what two systems of
  retrying clients share: the locale \<open>effect_log\<close>, for systems whose calls each take effect once between
  invocation and return, in which every quiescent log has an order of its operations that explains it; the clerks of
  \<open>Kvsrv\<close> and the logged clients of \<open>Oplog\<close> interpret it.

  \<^bold>\<open>Linearizability checker\<close> (\<open>archive/mit24/lab/src/porcupine\<close>).
  \<^item> \<open>Bitset\<close>: \<open>bitset.go\<close>, 64-bit words; the interface \<open>bounded_set\<close> and its interpretation.
  \<^item> \<open>Histories\<close>, \<open>Event_Histories\<close>: \<open>model.go\<close>, and the conversion of operations and events to entries;
    the operations of an event history are also read off its events directly, which is what the event-based
    entry point is measured against.
  \<^item> \<open>Linearizability\<close>: the specification, an order of the operations that the model accepts and that
    respects real time.  The locale \<open>state_equality\<close> states what a model's equality must satisfy.
  \<^item> \<open>Linked_Entries\<close>: the doubly linked list with \<open>lift\<close> and \<open>unlift\<close>, on a heap of nodes.
  \<^item> \<open>Checker\<close>, \<open>Checker_Correct\<close>: \<open>checkSingle\<close> as a loop over a search state (entry pointer, call
    stack, cache, state, linearized set).  The loop is a partial function; it is proved to return for
    every input, by a measure on the cache and the call stack, so no fuel is needed.
  \<^item> \<open>Porcupine\<close>: \<open>checkParallel\<close> with any delivery order and timeout, and the entry points.
  \<^item> \<open>Kv_Models\<close>, \<open>Locality\<close>: \<open>models/kv.go\<close>, \<open>models1/kv.go\<close>, and why checking key by key is
    enough.  Both models interpret \<open>state_equality\<close>.
  \<^item> \<open>Visualization\<close>: \<open>computeVisualizationData\<close>.
  \<^item> \<open>Checker_Properties\<close>: the search decides linearizability, also when it is killed at any moment;
    the entry points decide it for whole histories of operations and of events, and are never wrong after
    a timeout; partial linearizations; no panic in the
    visualisation; the empty history blocks.

  \<^bold>\<open>Key/value server\<close> (\<open>archive/mit24/lab/src/kvsrv\<close>).  \<open>Kvsrv\<close>: \<open>server.go\<close>, \<open>client.go\<close>, and the
  system of any number of clerks whose requests and replies are lost.  \<open>Kvsrv_Correct\<close>: the contract
  \<open>retry_safe\<close>, met by Append.  \<open>Kvsrv_Properties\<close>: runs of gets and appends are linearizable with
  respect to the model of \<open>Kv_Models\<close>; a retried put is not.

  \<^bold>\<open>Shard configurations\<close> (\<open>mit26/src/shardkv1/shardcfg\<close>).  \<open>Shardcfg\<close>, \<open>Shardcfg_Correct\<close>,
  \<open>Shardcfg_Properties\<close>: rebalancing terminates (the sum of the squares of the loads decreases), is
  balanced and does not depend on the order of maps; joins and leaves.  \<open>Shard_Driver\<close>,
  \<open>Shard_Driver_Properties\<close>: the test driver (\<open>shardkv1/test.go\<close>) on top of it and of \<open>Test_Config\<close>; the controller,
  a skeleton, is a parameter of which only \<open>obeys\<close> is required (it is not superseded by another controller); when \<open>joinGroups\<close> and \<open>leaveGroups\<close> return true.
  \<open>Shard_Clerk\<close>, \<open>Shard_Clerk_Properties\<close>: the clerks of the 2024 edition (\<open>shardctrler/client.go\<close>,
  \<open>shardkv/client.go\<close>), whose retry loops are partial functions that are proved to return while the service is
  available.

  \<^bold>\<open>MapReduce\<close> (\<open>archive/mit24/lab/src/mr\<close>, \<open>main/mrsequential.go\<close>, \<open>mrapps\<close>).  \<open>MapReduce\<close>: the
  coordinator's handlers; \<open>MapReduce_Worker\<close>: workers, applications and the sequential program, with the
  locale \<open>mr_reduce\<close> for reduce functions that do not depend on the order of values, interpreted on the
  applications; \<open>MapReduce_System\<close>: workers and coordinator interleaved, with crashes;
  \<open>MapReduce_Properties\<close>: the output equals that of the sequential program, the phases, the lost tasks.

  \<^bold>\<open>Test framework\<close> (\<open>mit26/src\<close>).
  \<^item> \<open>Labrpc\<close>, \<open>Labrpc_Correct\<close>, \<open>Labrpc_Properties\<close>: \<open>labrpc/labrpc.go\<close>; each request is a little
    machine (sent, delayed, handled, answered); at most one execution per request, silence of deleted
    servers, every request can be answered.
  \<^item> \<open>Tester\<close>, \<open>Tester_Correct\<close>, \<open>Tester_Properties\<close>: \<open>persister.go\<close>, \<open>srv.go\<close>, \<open>group.go\<close>,
    \<open>clnts.go\<close>; partitions, crash and restart, which servers a client reaches.
  \<^item> \<open>Test_Config\<close>, \<open>Test_Config_Properties\<close>: \<open>config.go\<close> and the registry of groups; the life of a group from
    \<open>MakeGroupStart\<close> to \<open>ExitGroup\<close>.
  \<^item> \<open>Annotations\<close>, \<open>Annotation_Properties\<close>: \<open>annotation.go\<close>.
  \<^item> \<open>Raft_Harness\<close>, \<open>Raft_Properties\<close>: \<open>raft1/test.go\<close>, \<open>server.go\<close>, \<open>proxy.go\<close>; a test without an
    error has seen agreeing logs.
  \<^item> \<open>Raft24\<close>, \<open>Raft24_Properties\<close>: the earlier harness (\<open>archive/mit24/lab/src/raft/config.go\<close>), which also holds the network;
    its links follow its connections in every reachable state, and it accepts the same runs as the later one.
    \<open>Enabling\<close> holds what its loops over ends share with those of \<open>Tester\<close>.
  \<^item> \<open>Labgob\<close>, \<open>Labgob_Properties\<close>: \<open>labgob/labgob.go\<close>; the recursion over recursive types terminates
    because it marks a type before it descends; what is counted; when decoding panics.
  \<^item> \<open>Kvtest\<close>, \<open>Kvtest_Properties\<close>: \<open>kvtest1/kvtest.go\<close>; clients that put and append concurrently pass
    the checks at the end of a test.
  \<^item> \<open>Oplog\<close>, \<open>Oplog_Properties\<close>: \<open>kvtest1/porcupine.go\<close>; the logged clients and the check of their log.  The
    checker is a third-party package: the locale \<open>linearizability_checker\<close> states its contract, and the checker of
    \<open>Porcupine\<close> with the model of \<open>models1/kv.go\<close> interprets it.
  \<^item> \<open>Demux\<close>, \<open>Demux_Properties\<close>: \<open>tester1/demux\<close>, \<open>tester1/sockrpc\<close>; frames and the matching of
    replies with calls; tags are 32-bit words, and the claim is for fewer than 2^32 - 1 calls.
  \<^item> \<open>Rsm\<close>, \<open>Rsm_Properties\<close>: \<open>kvraft1/rsm/server.go\<close>, \<open>test.go\<close>; the locale \<open>state_machine\<close> is
    the interface of that name in \<open>rsm.go\<close>, interpreted on the replicated counter (an unbounded integer);
    the search for a server that accepts a request, which runs beside other goroutines that may change the
    connections, the servers and the recorded leader between any two of its accesses.

  \<^bold>\<open>Crawlers\<close> (\<open>archive/mit24/course/notes/crawler.go\<close>).  \<open>Crawler\<close>, \<open>Crawler_Properties\<close>: the serial crawler and
  both concurrent ones as step systems; on a finite site all return and fetch the same pages once.

  \<^bold>\<open>Not modelled.\<close>  The implementations that the labs leave to the student (\<open>raft1/raft.go\<close>,
  \<open>kvraft1\<close>, \<open>shardkv1\<close>, \<open>kvsrv1\<close> and \<open>mr\<close> of \<open>mit26\<close>, and their counterparts under
  \<open>archive\<close>) have empty bodies.  The copies of the modelled parts in the other editions are not
  modelled again.  Command-line programs, process and socket handling, file output, the HTML page of
  the visualisation and the test cases themselves are input/output or drivers.  Where these parts use
  a skeleton (the clerk under \<open>kvtest1\<close>), the model uses the behaviour its comments document.  MapReduce keys
  and values that are not valid UTF-8, which the JSON encoder alters, are outside the model.  The goroutines of \<open>shardkv1/test.go\<close> that race two controllers
  (\<open>partitionCtrler\<close>, \<open>concurCtrler\<close>) drive student code; of them only the check after recovery is modelled.
\<close>

end
